(* ===== verification/Prelude.thy ===== *)
theory Prelude imports Main "HOL-Library.Word" "HOL-Library.Monad_Syntax" "HOL-Library.Multiset" begin

text \<open>
  Shared vocabulary of the development: the machine integer types of the Rust sources, the
  error values of \<^verbatim>\<open>std::io\<close>, byte slices with Rust's bounds checks, the fixed byte orders
  (\<^verbatim>\<open>to_le_bytes\<close>, \<^verbatim>\<open>from_be_bytes\<close>, ...) and the generic lemmas about them.

  Conventions used by every theory.
  \<^item> \<open>usize\<close> and \<open>u64\<close> quantities that only measure sizes inside one page or one buffer are
    \<open>nat\<close>; an integer whose width matters is a word.
  \<^item> A panic is \<open>None\<close>: a function of the model has an \<open>option\<close> result where the Rust
    function can panic (slice out of range, checked subtraction, \<open>unwrap\<close>). Arithmetic overflow
    in the modelled functions is the panic of a build with overflow checks.
  \<^item> An \<open>io::Result\<close> is a sum, \<open>Inl\<close> for the error.
\<close>

type_synonym u8 = "8 word"
type_synonym u16 = "16 word"
type_synonym u32 = "32 word"
type_synonym u64 = "64 word"
type_synonym u128 = "128 word"
type_synonym bytes = "u8 list"

datatype io_error =
    InvalidData string
  | InvalidInput string
  | UnexpectedEof
  | OtherError string

named_theorems slice_simps \<open>reading a slice after a slice was written\<close>

section \<open>Slices\<close>

text \<open>\<open>bslice i n xs\<close> is \<^verbatim>\<open>xs[i..i+n]\<close>; \<open>overwrite i src xs\<close> is
  \<^verbatim>\<open>xs[i..i+src.len()].copy_from_slice(src)\<close>, both where the range is known to be inside. The
  \<open>_opt\<close> forms check the range and panic.\<close>

definition bslice :: "nat \<Rightarrow> nat \<Rightarrow> 'a list \<Rightarrow> 'a list" where
  "bslice i n xs = take n (drop i xs)"

definition overwrite :: "nat \<Rightarrow> 'a list \<Rightarrow> 'a list \<Rightarrow> 'a list" where
  "overwrite i src xs = take i xs @ src @ drop (i + length src) xs"

definition slice_opt :: "nat \<Rightarrow> nat \<Rightarrow> 'a list \<Rightarrow> 'a list option" where
  "slice_opt i j xs = (if i \<le> j \<and> j \<le> length xs then Some (bslice i (j - i) xs) else None)"

definition overwrite_opt :: "nat \<Rightarrow> 'a list \<Rightarrow> 'a list \<Rightarrow> 'a list option" where
  "overwrite_opt i src xs =
     (if i + length src \<le> length xs then Some (overwrite i src xs) else None)"

section \<open>Checked arithmetic\<close>

definition u16_sub :: "u16 \<Rightarrow> u16 \<Rightarrow> u16 option" where
  "u16_sub a b = (if b \<le> a then Some (a - b) else None)"

definition u16_add :: "u16 \<Rightarrow> u16 \<Rightarrow> u16 option" where
  "u16_add a b = (if unat a + unat b < 2 ^ 16 then Some (a + b) else None)"

definition usize_sub :: "nat \<Rightarrow> nat \<Rightarrow> nat option" where
  "usize_sub a b = (if b \<le> a then Some (a - b) else None)"

section \<open>Byte orders\<close>

fun le_bytes :: "nat \<Rightarrow> nat \<Rightarrow> bytes" where
  "le_bytes 0 v = []"
| "le_bytes (Suc n) v = of_nat v # le_bytes n (v div 256)"

fun le_nat :: "bytes \<Rightarrow> nat" where
  "le_nat [] = 0"
| "le_nat (b # bs) = unat b + 256 * le_nat bs"

definition be_bytes :: "nat \<Rightarrow> nat \<Rightarrow> bytes" where
  "be_bytes n v = rev (le_bytes n v)"

definition be_nat :: "bytes \<Rightarrow> nat" where
  "be_nat bs = le_nat (rev bs)"

definition u16_to_le :: "u16 \<Rightarrow> bytes" where "u16_to_le w = le_bytes 2 (unat w)"
definition u32_to_le :: "u32 \<Rightarrow> bytes" where "u32_to_le w = le_bytes 4 (unat w)"
definition u64_to_le :: "u64 \<Rightarrow> bytes" where "u64_to_le w = le_bytes 8 (unat w)"
definition u16_from_le :: "bytes \<Rightarrow> u16" where "u16_from_le bs = of_nat (le_nat bs)"
definition u32_from_le :: "bytes \<Rightarrow> u32" where "u32_from_le bs = of_nat (le_nat bs)"
definition u64_from_le :: "bytes \<Rightarrow> u64" where "u64_from_le bs = of_nat (le_nat bs)"
definition u16_to_be :: "u16 \<Rightarrow> bytes" where "u16_to_be w = be_bytes 2 (unat w)"
definition u32_to_be :: "u32 \<Rightarrow> bytes" where "u32_to_be w = be_bytes 4 (unat w)"
definition u64_to_be :: "u64 \<Rightarrow> bytes" where "u64_to_be w = be_bytes 8 (unat w)"
definition u16_from_be :: "bytes \<Rightarrow> u16" where "u16_from_be bs = of_nat (be_nat bs)"
definition u32_from_be :: "bytes \<Rightarrow> u32" where "u32_from_be bs = of_nat (be_nat bs)"
definition u64_from_be :: "bytes \<Rightarrow> u64" where "u64_from_be bs = of_nat (be_nat bs)"

section \<open>Lemmas on slices\<close>

lemma length_slice [simp]: "length (bslice i n xs) = min n (length xs - i)"
  by (simp add: bslice_def)

lemma length_overwrite [simp]:
  "i + length src \<le> length xs \<Longrightarrow> length (overwrite i src xs) = length xs"
  by (simp add: overwrite_def)

lemma slice_overwrite_same [slice_simps]:
  "i + n \<le> length xs \<Longrightarrow> length src = n \<Longrightarrow> bslice i n (overwrite i src xs) = src"
  by (simp add: bslice_def overwrite_def)

lemma slice_overwrite_below [slice_simps]:
  "j + n \<le> i \<Longrightarrow> i \<le> length xs \<Longrightarrow> bslice j n (overwrite i src xs) = bslice j n xs"
  by (simp add: bslice_def overwrite_def take_drop min_def)

lemma slice_overwrite_above [slice_simps]:
  assumes "i + length src \<le> j" "i + length src \<le> length xs"
  shows "bslice j n (overwrite i src xs) = bslice j n xs"
proof -
  from assms have "drop j (overwrite i src xs) = drop j xs"
    by (simp add: overwrite_def)
  then show ?thesis by (simp add: bslice_def)
qed

lemma slice_overwrite_disjoint:
  "j + n \<le> i \<or> i + length src \<le> j \<Longrightarrow> i + length src \<le> length xs \<Longrightarrow>
   bslice j n (overwrite i src xs) = bslice j n xs"
  by (auto simp: slice_overwrite_below slice_overwrite_above)

lemma nth_overwrite:
  "i + length src \<le> length xs \<Longrightarrow> k < length xs \<Longrightarrow>
   overwrite i src xs ! k = (if i \<le> k \<and> k < i + length src then src ! (k - i) else xs ! k)"
  by (auto simp: overwrite_def nth_append min_def)

lemma overwrite_Nil [simp]: "overwrite i [] xs = xs"
  by (simp add: overwrite_def)

lemma slice_all: "length xs = n \<Longrightarrow> bslice 0 n xs = xs"
  by (simp add: bslice_def)

lemma slice_append_left: "i + n \<le> length xs \<Longrightarrow> bslice i n (xs @ ys) = bslice i n xs"
  by (simp add: bslice_def)

lemma slice_append_right: "length xs \<le> i \<Longrightarrow> bslice i n (xs @ ys) = bslice (i - length xs) n ys"
  by (simp add: bslice_def)

lemma slice_slice: "j + m \<le> n \<Longrightarrow> bslice j m (bslice i n xs) = bslice (i + j) m xs"
  by (simp add: bslice_def take_drop min_def add.commute)

lemma bslice_add: "bslice i (m + n) xs = bslice i m xs @ bslice (i + m) n xs"
  by (simp add: bslice_def take_add add.commute)

lemma bslice_split: "m \<le> n \<Longrightarrow> bslice i n xs = bslice i m xs @ bslice (i + m) (n - m) xs"
  using bslice_add [of i m "n - m" xs] by simp

lemma nth_bslice: "k < length xs \<Longrightarrow> bslice k 1 xs = [xs ! k]"
  by (simp add: bslice_def take_Suc hd_drop_conv_nth)

lemma slice_opt_Some:
  "slice_opt i j xs = Some ys \<longleftrightarrow> i \<le> j \<and> j \<le> length xs \<and> ys = bslice i (j - i) xs"
  by (auto simp: slice_opt_def)

lemma overwrite_opt_Some:
  "overwrite_opt i src xs = Some ys \<longleftrightarrow> i + length src \<le> length xs \<and> ys = overwrite i src xs"
  by (auto simp: overwrite_opt_def)

lemma overwrite_slice_id: "i + n \<le> length xs \<Longrightarrow> overwrite i (bslice i n xs) xs = xs"
  by (simp add: overwrite_def bslice_def min_def)
     (metis add.commute append_take_drop_id drop_drop)

lemma overwrite_overwrite_same:
  "length a = length b \<Longrightarrow> i + length a \<le> length xs \<Longrightarrow>
   overwrite i a (overwrite i b xs) = overwrite i a xs"
  by (simp add: overwrite_def)

section \<open>Lemmas on byte orders\<close>

lemma unat_inj_iff: "unat a = unat b \<longleftrightarrow> a = b"
  by (simp add: word_unat_eq_iff)

lemma unat_u8_less [simp]: "unat (b :: u8) < 256"
  using unsigned_less [of b] by simp

lemma unat_u16_less [simp]: "unat (b :: u16) < 65536"
  using unsigned_less [of b] by simp

lemma unat_u32_less [simp]: "unat (b :: u32) < 4294967296"
  using unsigned_less [of b] by simp

lemma unat_u64_less [simp]: "unat (b :: u64) < 18446744073709551616"
  using unsigned_less [of b] by simp

lemma length_le_bytes [simp]: "length (le_bytes n v) = n"
  by (induction n arbitrary: v) auto

lemma le_bytes_numeral:
  "le_bytes (numeral k) v = of_nat v # le_bytes (pred_numeral k) (v div 256)"
  by (subst numeral_eq_Suc) (rule le_bytes.simps(2))

lemma length_be_bytes [simp]: "length (be_bytes n v) = n"
  by (simp add: be_bytes_def)

lemma le_nat_less: "le_nat bs < 256 ^ length bs"
proof (induction bs)
  case Nil
  then show ?case by simp
next
  case (Cons b bs)
  have "unat b + 256 * le_nat bs < 256 * Suc (le_nat bs)" by simp
  also have "\<dots> \<le> 256 * 256 ^ length bs" using Cons.IH by (intro mult_le_mono2) simp
  finally show ?case by simp
qed

lemma unat_of_nat_u8: "unat (of_nat v :: u8) = v mod 256"
  by (simp add: unat_of_nat)

lemma le_nat_le_bytes: "le_nat (le_bytes n v) = v mod 256 ^ n"
  by (induction n arbitrary: v) (simp_all add: unat_of_nat_u8 mod_mult2_eq)

lemma of_nat_u8_unat: "of_nat (unat b + 256 * k) = (b :: u8)"
  by (rule word_unat_eq_iff [THEN iffD2]) (simp add: unat_of_nat_u8 del: of_nat_add of_nat_mult)

lemma le_bytes_le_nat: "length bs = n \<Longrightarrow> le_bytes n (le_nat bs) = bs"
proof (induction bs arbitrary: n)
  case Nil
  then show ?case by simp
next
  case (Cons b bs)
  have "unat b < 256" by simp
  then have "(unat b + 256 * le_nat bs) div 256 = le_nat bs" by simp
  moreover have "word_of_nat (unat b + 256 * le_nat bs) = b" by (rule of_nat_u8_unat)
  ultimately show ?case using Cons by (auto simp del: of_nat_add of_nat_mult)
qed

lemma be_nat_be_bytes: "be_nat (be_bytes n v) = v mod 256 ^ n"
  by (simp add: be_nat_def be_bytes_def le_nat_le_bytes)

lemma be_bytes_be_nat: "length bs = n \<Longrightarrow> be_bytes n (be_nat bs) = bs"
  by (simp add: be_nat_def be_bytes_def le_bytes_le_nat)

lemma be_nat_less: "be_nat bs < 256 ^ length bs"
  using le_nat_less [of "rev bs"] by (simp add: be_nat_def)

lemmas to_bytes_defs =
  u16_to_le_def u32_to_le_def u64_to_le_def u16_to_be_def u32_to_be_def u64_to_be_def

lemmas from_bytes_defs =
  u16_from_le_def u32_from_le_def u64_from_le_def u16_from_be_def u32_from_be_def u64_from_be_def

lemma length_to_bytes [simp]:
  "length (u16_to_le a) = 2" "length (u32_to_le b) = 4" "length (u64_to_le c) = 8"
  "length (u16_to_be a) = 2" "length (u32_to_be b) = 4" "length (u64_to_be c) = 8"
  by (simp_all add: to_bytes_defs)

lemma from_to_bytes [simp]:
  "u16_from_le (u16_to_le a) = a" "u32_from_le (u32_to_le b) = b" "u64_from_le (u64_to_le c) = c"
  "u16_from_be (u16_to_be a) = a" "u32_from_be (u32_to_be b) = b" "u64_from_be (u64_to_be c) = c"
  by (simp_all add: to_bytes_defs from_bytes_defs le_nat_le_bytes be_nat_be_bytes)

lemma to_from_bytes:
  "length bs = 2 \<Longrightarrow> u16_to_le (u16_from_le bs) = bs"
  "length bs = 4 \<Longrightarrow> u32_to_le (u32_from_le bs) = bs"
  "length bs = 8 \<Longrightarrow> u64_to_le (u64_from_le bs) = bs"
  using le_nat_less [of bs]
  by (simp_all add: to_bytes_defs from_bytes_defs unat_of_nat le_bytes_le_nat)

end
