(* ===== verification/Os.thy ===== *)
theory Os imports Prelude begin

text \<open>
  The part of the operating system the storage code sees through \<^verbatim>\<open>std::fs::File\<close>: named files of
  bytes, positioned reads and writes, file lengths. Every call may fail: the state carries the list
  of the faults to come, one entry per call, \<open>None\<close> for a call that works and \<open>Some k\<close> for one that
  returns an error after it moved \<open>k\<close> bytes. A theorem about an arbitrary state therefore covers torn
  writes and failures at every call. An empty list means that no further call fails.
\<close>

record os =
  os_files :: "string \<Rightarrow> bytes option"
  os_faults :: "nat option list"

definition io_fault :: io_error where "io_fault = OtherError ''input/output error''"

fun take_fault :: "os \<Rightarrow> nat option \<times> os" where
  "take_fault s = (case os_faults s of [] \<Rightarrow> (None, s) | f # fs \<Rightarrow> (f, s\<lparr>os_faults := fs\<rparr>))"

declare take_fault.simps [simp del]

definition file_bytes :: "os \<Rightarrow> string \<Rightarrow> bytes" where
  "file_bytes s path = (case os_files s path of None \<Rightarrow> [] | Some f \<Rightarrow> f)"

text \<open>A write past the end fills the gap with zeros; writing no byte leaves the file alone.\<close>

definition patch :: "nat \<Rightarrow> bytes \<Rightarrow> bytes \<Rightarrow> bytes" where
  "patch off src f =
     (if src = [] then f else overwrite off src (f @ replicate (off + length src - length f) 0))"

text \<open>\<^verbatim>\<open>File::options().read(true).write(true).truncate(false).create(true).open(path)\<close>\<close>

definition os_open :: "string \<Rightarrow> os \<Rightarrow> (io_error + unit) \<times> os" where
  "os_open path s = (case take_fault s of
      (Some k, s) \<Rightarrow> (Inl io_fault, s)
    | (None, s) \<Rightarrow> (Inr (), s\<lparr>os_files := (os_files s)(path \<mapsto> file_bytes s path)\<rparr>))"

text \<open>\<^verbatim>\<open>file.metadata()?.len()\<close>\<close>

definition os_len :: "string \<Rightarrow> os \<Rightarrow> (io_error + nat) \<times> os" where
  "os_len path s = (case take_fault s of
      (Some k, s) \<Rightarrow> (Inl io_fault, s)
    | (None, s) \<Rightarrow> (Inr (length (file_bytes s path)), s))"

text \<open>\<^verbatim>\<open>read_exact_at\<close> fills the whole buffer or fails; on a failure a part of the buffer may have been
  overwritten, at the end of the file with the bytes that are there.\<close>

definition os_read_exact_at :: "string \<Rightarrow> nat \<Rightarrow> bytes \<Rightarrow> os \<Rightarrow> (io_error + unit) \<times> bytes \<times> os" where
  "os_read_exact_at path off buf s =
     (let got = bslice off (length buf) (file_bytes s path)
      in case take_fault s of
          (Some k, s) \<Rightarrow> (Inl io_fault, overwrite 0 (take k got) buf, s)
        | (None, s) \<Rightarrow>
            (if length got < length buf then Inl UnexpectedEof else Inr (), overwrite 0 got buf, s))"

text \<open>\<^verbatim>\<open>write_all_at\<close> writes every byte or fails after a prefix.\<close>

definition os_write_all_at :: "string \<Rightarrow> nat \<Rightarrow> bytes \<Rightarrow> os \<Rightarrow> (io_error + unit) \<times> os" where
  "os_write_all_at path off src s = (case take_fault s of
      (Some k, s) \<Rightarrow>
        (Inl io_fault, s\<lparr>os_files := (os_files s)(path \<mapsto> patch off (take k src) (file_bytes s path))\<rparr>)
    | (None, s) \<Rightarrow> (Inr (), s\<lparr>os_files := (os_files s)(path \<mapsto> patch off src (file_bytes s path))\<rparr>))"

section \<open>Lemmas\<close>

lemma take_fault_files [simp]: "take_fault s = (r, t) \<Longrightarrow> os_files t = os_files s"
  by (auto simp: take_fault.simps split: list.splits)

lemma take_fault_bytes [simp]: "take_fault s = (r, t) \<Longrightarrow> file_bytes t = file_bytes s"
  by (simp add: file_bytes_def fun_eq_iff)

lemma length_patch: "src \<noteq> [] \<Longrightarrow> length (patch off src f) = max (length f) (off + length src)"
  by (simp add: patch_def max_def)

lemma length_patch_le: "length f \<le> length (patch off src f)"
  by (simp add: patch_def)

lemma patch_same: "length src = n \<Longrightarrow> bslice off n (patch off src f) = src"
  by (cases "src = []") (auto simp: patch_def slice_overwrite_same, simp add: bslice_def)

lemma patch_other:
  assumes "j + n \<le> length f" "j + n \<le> off \<or> off + length src \<le> j"
  shows "bslice j n (patch off src f) = bslice j n f"
proof (cases "src = []")
  case False
  let ?g = "f @ replicate (off + length src - length f) 0"
  have "bslice j n (overwrite off src ?g) = bslice j n ?g"
    using assms by (intro slice_overwrite_disjoint) auto
  then show ?thesis using False assms by (simp add: patch_def slice_append_left)
qed (simp add: patch_def)

lemma os_open_files:
  "os_open path s = (r, t) \<Longrightarrow> file_bytes t = file_bytes s \<and> (\<forall>q. q \<noteq> path \<longrightarrow> os_files t q = os_files s q) \<and>
   (\<forall>q. os_files s q \<noteq> None \<longrightarrow> os_files t q \<noteq> None)"
  by (auto simp: os_open_def file_bytes_def fun_eq_iff split: prod.splits option.splits if_splits)

lemma os_len_files: "os_len path s = (r, t) \<Longrightarrow> os_files t = os_files s"
  by (auto simp: os_len_def split: prod.splits option.splits)

lemma os_read_files:
  assumes "os_read_exact_at path off buf s = (r, buf', t)"
  shows "os_files t = os_files s" "length buf' = length buf"
    and "r = Inr () \<Longrightarrow> off + length buf \<le> length (file_bytes s path) \<or> buf = []"
    and "r = Inr () \<Longrightarrow> buf' = bslice off (length buf) (file_bytes s path)"
proof -
  let ?got = "bslice off (length buf) (file_bytes s path)"
  obtain g u where t: "take_fault s = (g, u)" by fastforce
  have all: "overwrite 0 ?got buf = ?got" if "length ?got \<ge> length buf"
    using that by (simp add: overwrite_def)
  show "os_files t = os_files s" "length buf' = length buf"
    using assms t by (auto simp: os_read_exact_at_def Let_def split: option.splits)
  assume "r = Inr ()"
  then have *: "length buf \<le> length ?got" "buf' = overwrite 0 ?got buf"
    using assms t by (auto simp: os_read_exact_at_def Let_def split: option.splits if_splits)
  show "buf' = ?got" using * all by simp
  show "off + length buf \<le> length (file_bytes s path) \<or> buf = []" using *(1) by (cases buf) auto
qed

lemma os_write_files:
  assumes "os_write_all_at path off src s = (r, t)"
  obtains k where "file_bytes t path = patch off (take k src) (file_bytes s path)"
    and "\<forall>q. q \<noteq> path \<longrightarrow> os_files t q = os_files s q"
    and "r = Inr () \<longrightarrow> length src \<le> k"
    and "os_files t path \<noteq> None"
proof (cases "fst (take_fault s)")
  case None
  then show thesis using assms that [of "length src"]
    by (auto simp: os_write_all_at_def file_bytes_def split: prod.splits option.splits)
next
  case (Some k)
  then show thesis using assms that [of k]
    by (auto simp: os_write_all_at_def file_bytes_def split: prod.splits option.splits)
qed

end
