(* ===== verification/Config.thy ===== *)
theory Config imports Prelude begin

text \<open>
  The constants of \<^verbatim>\<open>crates/database-track/src/module1/config.rs\<close>: page geometry, the
  relation segment size, the magic bytes, the slot layout and the CLOCK bound.
\<close>

definition PAGE_SIZE :: nat where "PAGE_SIZE = 4096"
definition PAGE_HEADER_SIZE :: nat where "PAGE_HEADER_SIZE = 17"
definition SEGMENT_SIZE :: nat where "SEGMENT_SIZE = 1024 * 1024 * 1024"
definition PAGES_PER_FILE :: u32 where "PAGES_PER_FILE = of_nat (SEGMENT_SIZE div PAGE_SIZE)"
definition MAGIC :: bytes where "MAGIC = [0x4F, 0x4F, 0x52, 0x31]"
definition SLOT_SIZE :: nat where "SLOT_SIZE = 4"
definition TOMBSTONE :: u16 where "TOMBSTONE = 0xFFFF"
definition MAX_USAGE_COUNT :: u8 where "MAX_USAGE_COUNT = 5"

text \<open>Bytes 13 to 16 of a page hold its checksum. \<open>masked\<close> forgets them: it is the part of a page that
  its owner controls.\<close>

definition sealed :: "u32 \<Rightarrow> bytes \<Rightarrow> bytes" where
  "sealed ck d = overwrite 13 (u32_to_le ck) d"

definition masked :: "bytes \<Rightarrow> bytes" where
  "masked d = sealed 0 d"

lemmas page_consts = PAGE_SIZE_def PAGE_HEADER_SIZE_def SLOT_SIZE_def

lemma length_MAGIC [simp]: "length MAGIC = 4"
  by (simp add: MAGIC_def)

lemma unat_TOMBSTONE [simp]: "unat TOMBSTONE = 65535"
  by (simp add: TOMBSTONE_def)

lemma PAGES_PER_FILE_eq: "PAGES_PER_FILE = 262144"
  by (simp add: PAGES_PER_FILE_def SEGMENT_SIZE_def PAGE_SIZE_def)

lemma length_sealed [simp]: "17 \<le> length d \<Longrightarrow> length (sealed ck d) = length d"
  by (simp add: sealed_def)

lemma sealed_sealed [simp]: "17 \<le> length d \<Longrightarrow> sealed a (sealed b d) = sealed a d"
  by (simp add: sealed_def overwrite_overwrite_same)

lemma masked_sealed [simp]: "17 \<le> length d \<Longrightarrow> masked (sealed ck d) = masked d"
  by (simp add: masked_def)

lemma length_masked [simp]: "17 \<le> length d \<Longrightarrow> length (masked d) = length d"
  by (simp add: masked_def)

lemma sealed_checksum: "17 \<le> length d \<Longrightarrow> bslice 13 4 (sealed ck d) = u32_to_le ck"
  by (simp add: sealed_def slice_overwrite_same)

lemma sealed_body: "17 \<le> length d \<Longrightarrow> drop 17 (sealed ck d) = drop 17 d"
  by (simp add: sealed_def overwrite_def)

end
