(* ===== verification/Disk.thy ===== *)
theory Disk imports Os Config begin

text \<open>
  \<^verbatim>\<open>project1/relation_file.rs\<close> and \<^verbatim>\<open>project1/disk_manager.rs\<close>: fixed-size pages in segment files, each
  page written with a checksum over its body. \<^verbatim>\<open>crc32fast::hash\<close> is the parameter \<open>crc\<close>. An open
  \<^verbatim>\<open>File\<close> is its path: the sources never delete or rename a file. \<^verbatim>\<open>alloc_lock\<close> and the lock of
  the table of open files only order threads, and each operation below runs under them as one step;
  the second lookup of \<^verbatim>\<open>get_relation\<close>, under the write lock, then repeats the first.
\<close>

record page_id =
  relation_id :: u32
  page_no :: u32

section \<open>RelationFile\<close>

record relation_file =
  rf_relation_id :: u32
  rf_path :: string
  rf_page_size :: nat

definition compute_checksum :: "(bytes \<Rightarrow> u32) \<Rightarrow> bytes \<Rightarrow> u32 option" where
  "compute_checksum crc buf = map_option crc (slice_opt PAGE_HEADER_SIZE (length buf) buf)"

definition rf_open :: "u32 \<Rightarrow> string \<Rightarrow> nat \<Rightarrow> os \<Rightarrow> (io_error + relation_file) \<times> os" where
  "rf_open rel path page_size s = (case os_open path s of
      (Inl e, s) \<Rightarrow> (Inl e, s)
    | (Inr _, s) \<Rightarrow> (Inr \<lparr>rf_relation_id = rel, rf_path = path, rf_page_size = page_size\<rparr>, s))"

text \<open>The division by the page size panics when it is zero.\<close>

definition rf_page_count :: "relation_file \<Rightarrow> os \<Rightarrow> ((io_error + u32) \<times> os) option" where
  "rf_page_count rf s = (case os_len (rf_path rf) s of
      (Inl e, s) \<Rightarrow> Some (Inl e, s)
    | (Inr file_len, s) \<Rightarrow>
        if rf_page_size rf = 0 then None
        else if file_len mod rf_page_size rf \<noteq> 0 then
          Some (Inl (InvalidData ''database file length is not aligned to the configured page size''), s)
        else if file_len div rf_page_size rf < 2 ^ 32
          then Some (Inr (of_nat (file_len div rf_page_size rf)), s)
        else Some (Inl (OtherError ''database file contains too many pages''), s))"

definition rf_read_page ::
    "relation_file \<Rightarrow> u32 \<Rightarrow> bytes \<Rightarrow> os \<Rightarrow> ((io_error + unit) \<times> bytes \<times> os) option" where
  "rf_read_page rf n buf s =
     (if length buf \<noteq> rf_page_size rf then None
      else if unat n * rf_page_size rf < 2 ^ 64
        then Some (os_read_exact_at (rf_path rf) (unat n * rf_page_size rf) buf s)
      else Some (Inl (InvalidInput ''page offset overflow''), buf, s))"

definition rf_read_and_verify_page ::
    "(bytes \<Rightarrow> u32) \<Rightarrow> relation_file \<Rightarrow> u32 \<Rightarrow> bytes \<Rightarrow> os \<Rightarrow> ((io_error + unit) \<times> bytes \<times> os) option" where
  "rf_read_and_verify_page crc rf n buf s = do {
     (r, buf, s) \<leftarrow> rf_read_page rf n buf s;
     (case r of
        Inl e \<Rightarrow> Some (Inl e, buf, s)
      | Inr _ \<Rightarrow> do {
          stored \<leftarrow> map_option u32_from_le (slice_opt 13 17 buf);
          computed \<leftarrow> compute_checksum crc buf;
          if stored \<noteq> computed then Some (Inl (InvalidData ''checksum mismatch''), buf, s)
          else Some (Inr (), buf, s)
        })
   }"

definition rf_write_page ::
    "relation_file \<Rightarrow> u32 \<Rightarrow> bytes \<Rightarrow> os \<Rightarrow> ((io_error + unit) \<times> os) option" where
  "rf_write_page rf n buf s =
     (if length buf \<noteq> rf_page_size rf then None
      else if unat n * rf_page_size rf < 2 ^ 64
        then Some (os_write_all_at (rf_path rf) (unat n * rf_page_size rf) buf s)
      else Some (Inl (InvalidInput ''page offset overflow''), s))"

text \<open>The checksum is stored in the caller's buffer, which is returned with the result.\<close>

definition rf_write_page_with_checksum ::
    "(bytes \<Rightarrow> u32) \<Rightarrow> relation_file \<Rightarrow> u32 \<Rightarrow> bytes \<Rightarrow> os \<Rightarrow> ((io_error + unit) \<times> bytes \<times> os) option" where
  "rf_write_page_with_checksum crc rf n buf s = do {
     computed \<leftarrow> compute_checksum crc buf;
     buf \<leftarrow> overwrite_opt 13 (u32_to_le computed) buf;
     (r, s) \<leftarrow> rf_write_page rf n buf s;
     Some (r, buf, s)
   }"

definition rf_allocate_page :: "relation_file \<Rightarrow> os \<Rightarrow> ((io_error + page_id) \<times> os) option" where
  "rf_allocate_page rf s = (case os_len (rf_path rf) s of
      (Inl e, s) \<Rightarrow> Some (Inl e, s)
    | (Inr file_len, s) \<Rightarrow> do {
        (n, s) \<leftarrow> rf_page_count rf s;
        (case n of
           Inl e \<Rightarrow> Some (Inl e, s)
         | Inr new_page_no \<Rightarrow> (case os_write_all_at (rf_path rf) file_len (replicate (rf_page_size rf) 0) s of
             (Inl e, s) \<Rightarrow> Some (Inl e, s)
           | (Inr _, s) \<Rightarrow> Some (Inr \<lparr>relation_id = rf_relation_id rf, page_no = new_page_no\<rparr>, s)))
      })"

section \<open>DiskManager\<close>

record disk =
  relations_dir :: string
  open_relations :: "u32 \<times> u32 \<Rightarrow> relation_file option"
  disk_os :: os

text \<open>Decimal text of a number, most significant digit first.\<close>

fun decimal :: "nat \<Rightarrow> string" where
  "decimal n = (if n < 10 then [char_of (48 + n)] else decimal (n div 10) @ [char_of (48 + n mod 10)])"

declare decimal.simps [simp del]

definition relation_path :: "string \<Rightarrow> u32 \<Rightarrow> u32 \<Rightarrow> string" where
  "relation_path dir rel seg = dir @ ''/'' @ decimal (unat rel) @ ''.'' @ decimal (unat seg) @ ''.rel''"

definition get_segment_idx :: "u32 \<Rightarrow> u32" where
  "get_segment_idx n = n div PAGES_PER_FILE"

text \<open>\<^verbatim>\<open>DiskManager::new\<close> joins \<^verbatim>\<open>relations\<close> to the directory; creating it is one more call that may
  fail.\<close>

definition disk_new :: "string \<Rightarrow> os \<Rightarrow> (io_error + disk) \<times> os" where
  "disk_new db_dir s = (case take_fault s of
      (Some k, s) \<Rightarrow> (Inl io_fault, s)
    | (None, s) \<Rightarrow> (Inr \<lparr>relations_dir = db_dir @ ''/relations'', open_relations = (\<lambda>_. None), disk_os = s\<rparr>, s))"

definition disk_create_relation :: "page_id \<Rightarrow> disk \<Rightarrow> (io_error + relation_file) \<times> disk" where
  "disk_create_relation pid d =
     (let seg = get_segment_idx (page_no pid); path = relation_path (relations_dir d) (relation_id pid) seg
      in case rf_open (relation_id pid) path PAGE_SIZE (disk_os d) of
          (Inl e, s) \<Rightarrow> (Inl e, d\<lparr>disk_os := s\<rparr>)
        | (Inr rf, s) \<Rightarrow>
            (Inr rf, d\<lparr>open_relations := (open_relations d)((relation_id pid, seg) \<mapsto> rf), disk_os := s\<rparr>))"

definition disk_get_relation :: "page_id \<Rightarrow> disk \<Rightarrow> (io_error + relation_file) \<times> disk" where
  "disk_get_relation pid d =
     (let seg = get_segment_idx (page_no pid)
      in case open_relations d (relation_id pid, seg) of
          Some rf \<Rightarrow> (Inr rf, d)
        | None \<Rightarrow>
            (let path = relation_path (relations_dir d) (relation_id pid) seg
             in case rf_open (relation_id pid) path PAGE_SIZE (disk_os d) of
                 (Inl e, s) \<Rightarrow> (Inl e, d\<lparr>disk_os := s\<rparr>)
               | (Inr rf, s) \<Rightarrow>
                   (Inr rf, d\<lparr>open_relations := (open_relations d)((relation_id pid, seg) \<mapsto> rf), disk_os := s\<rparr>)))"

definition disk_read_page ::
    "(bytes \<Rightarrow> u32) \<Rightarrow> page_id \<Rightarrow> bytes \<Rightarrow> disk \<Rightarrow> ((io_error + unit) \<times> bytes \<times> disk) option" where
  "disk_read_page crc pid dest d = (case disk_get_relation pid d of
      (Inl e, d) \<Rightarrow> Some (Inl e, dest, d)
    | (Inr rf, d) \<Rightarrow> do {
        (r, dest, s) \<leftarrow> rf_read_and_verify_page crc rf (page_no pid) dest (disk_os d);
        Some (r, dest, d\<lparr>disk_os := s\<rparr>)
      })"

definition disk_write_page ::
    "(bytes \<Rightarrow> u32) \<Rightarrow> page_id \<Rightarrow> bytes \<Rightarrow> disk \<Rightarrow> ((io_error + unit) \<times> bytes \<times> disk) option" where
  "disk_write_page crc pid src d = (case disk_get_relation pid d of
      (Inl e, d) \<Rightarrow> Some (Inl e, src, d)
    | (Inr rf, d) \<Rightarrow> do {
        (r, src, s) \<leftarrow> rf_write_page_with_checksum crc rf (page_no pid) src (disk_os d);
        Some (r, src, d\<lparr>disk_os := s\<rparr>)
      })"

end
