(* ===== verification/Page_Store.thy ===== *)
theory Page_Store imports Disk begin

text \<open>
  The trait \<^verbatim>\<open>PageStore\<close> as a contract, and the proof that \<^verbatim>\<open>DiskManager\<close> meets it for every
  sequence of faults of the file system. The contract speaks about \<open>content\<close>, the page a read that
  succeeds returns; a page that was never written, is torn, or has a wrong checksum has no content.
\<close>

section \<open>The contract\<close>

locale page_store =
  fixes rd :: "page_id \<Rightarrow> bytes \<Rightarrow> 's \<Rightarrow> ((io_error + unit) \<times> bytes \<times> 's) option"
    and wr :: "page_id \<Rightarrow> bytes \<Rightarrow> 's \<Rightarrow> ((io_error + unit) \<times> bytes \<times> 's) option"
    and content :: "'s \<Rightarrow> page_id \<Rightarrow> bytes option"
    and ok :: "'s \<Rightarrow> bool"
  assumes rd_total: "ok s \<Longrightarrow> length b = PAGE_SIZE \<Longrightarrow> rd p b s \<noteq> None"
    and rd_keeps: "ok s \<Longrightarrow> rd p b s = Some (r, b', s') \<Longrightarrow> length b = PAGE_SIZE \<Longrightarrow>
      ok s' \<and> content s' = content s \<and> length b' = PAGE_SIZE"
    and rd_value: "ok s \<Longrightarrow> rd p b s = Some (Inr (), b', s') \<Longrightarrow> length b = PAGE_SIZE \<Longrightarrow>
      content s p = Some b'"
    and wr_total: "ok s \<Longrightarrow> length b = PAGE_SIZE \<Longrightarrow> wr p b s \<noteq> None"
    and wr_keeps: "ok s \<Longrightarrow> wr p b s = Some (r, b', s') \<Longrightarrow> length b = PAGE_SIZE \<Longrightarrow>
      ok s' \<and> length b' = PAGE_SIZE \<and> masked b' = masked b"
    and wr_other: "ok s \<Longrightarrow> wr p b s = Some (r, b', s') \<Longrightarrow> length b = PAGE_SIZE \<Longrightarrow> q \<noteq> p \<Longrightarrow>
      content s q = Some c \<Longrightarrow> content s' q = Some c"
    and wr_value: "ok s \<Longrightarrow> wr p b s = Some (Inr (), b', s') \<Longrightarrow> length b = PAGE_SIZE \<Longrightarrow>
      content s' p = Some b'"
begin

lemma rd_cases:
  assumes "ok s" "length b = PAGE_SIZE"
  obtains e b' s' where "rd p b s = Some (Inl e, b', s')" "ok s'" "content s' = content s"
      "length b' = PAGE_SIZE"
    | b' s' where "rd p b s = Some (Inr (), b', s')" "ok s'" "content s' = content s"
      "content s p = Some b'" "length b' = PAGE_SIZE"
proof -
  obtain r b' s' where r: "rd p b s = Some (r, b', s')" using rd_total [OF assms, of p] by auto
  then show thesis using that rd_keeps [OF assms(1) r assms(2)] rd_value [OF assms(1) _ assms(2)]
    by (cases r) auto
qed

lemma wr_cases:
  assumes "ok s" "length b = PAGE_SIZE"
  obtains r b' s' where "wr p b s = Some (r, b', s')" "ok s'" "length b' = PAGE_SIZE"
    "masked b' = masked b" "\<And>q c. q \<noteq> p \<Longrightarrow> content s q = Some c \<Longrightarrow> content s' q = Some c"
    "r = Inr () \<Longrightarrow> content s' p = Some b'"
proof -
  obtain r b' s' where r: "wr p b s = Some (r, b', s')" using wr_total [OF assms, of p] by auto
  show thesis
    by (rule that [OF r])
      (use wr_keeps [OF assms(1) r assms(2)] wr_other [OF assms(1) r assms(2)]
        wr_value [OF assms(1) _ assms(2)] r in auto)
qed

end

section \<open>Segment paths\<close>

lemma decimal_step: "decimal n = (if n < 10 then [] else decimal (n div 10)) @ [char_of (48 + n mod 10)]"
  by (subst decimal.simps) simp

lemma decimal_not_Nil [simp]: "decimal n \<noteq> []"
  by (subst decimal_step) simp

lemma of_char_digit: "of_char (char_of (48 + n mod 10) :: char) = 48 + n mod (10 :: nat)"
proof -
  have "n mod 10 < 10" by simp
  then have "48 + n mod 10 < 256" by linarith
  then show ?thesis by simp
qed

lemma char_of_digit: "char_of (48 + m mod 10) = (char_of (48 + n mod 10) :: char) \<longleftrightarrow> m mod 10 = (n mod 10 :: nat)"
  using of_char_digit [of m] of_char_digit [of n] by (metis add_left_cancel)

lemma decimal_inj: "decimal m = decimal n \<Longrightarrow> m = n"
proof (induction m arbitrary: n rule: less_induct)
  case (less m)
  have last: "m mod 10 = n mod 10"
    and front: "(if m < 10 then [] else decimal (m div 10)) = (if n < 10 then [] else decimal (n div 10))"
    using less.prems by (subst (asm) (1 2) decimal_step, simp add: char_of_digit)+
  show ?case
  proof (cases "m < 10")
    case True
    then have "n < 10" using front decimal_not_Nil [of "n div 10"] by (metis (full_types))
    then show ?thesis using True last by simp
  next
    case False
    then have "decimal (m div 10) = decimal (n div 10)" using front by (auto split: if_splits)
    moreover have "m div 10 < m" using False by simp
    ultimately have "m div 10 = n div 10" using less.IH by blast
    then show ?thesis using last by (metis div_mult_mod_eq)
  qed
qed

lemma decimal_no_dot: "CHR ''.'' \<notin> set (decimal n)"
proof (induction n rule: less_induct)
  case (less n)
  have "char_of (48 + n mod 10) \<noteq> CHR ''.''"
  proof
    assume "char_of (48 + n mod 10) = CHR ''.''"
    then have "48 + n mod 10 = (of_char CHR ''.'' :: nat)" using of_char_digit [of n] by simp
    then show False by simp
  qed
  then show ?case using less.IH [of "n div 10"] by (subst decimal_step) auto
qed

lemma append_dot_inj:
  "c \<notin> set a \<Longrightarrow> c \<notin> set b \<Longrightarrow> a @ c # x = b @ c # y \<longleftrightarrow> a = b \<and> x = y"
proof (induction a arbitrary: b)
  case Nil
  then show ?case by (cases b) auto
next
  case (Cons h a)
  then show ?case by (cases b) auto
qed

lemma relation_path_inj:
  "relation_path dir r s = relation_path dir r' s' \<longleftrightarrow> r = r' \<and> s = s'"
proof -
  have "decimal (unat r) = decimal (unat r') \<longleftrightarrow> r = r'" for r r' :: u32
    using decimal_inj unat_inj_iff by blast
  then show ?thesis by (simp add: relation_path_def append_dot_inj decimal_no_dot)
qed

end
