(* ===== verification/Clock_Pool.thy ===== *)
theory Clock_Pool imports Page_Store begin

text \<open>
  \<^verbatim>\<open>project1/buffer_pool.rs\<close>: the buffer pool with CLOCK replacement. The whole pool is behind one
  mutex, so every operation is one step on the state; guards are values that name a frame. The store
  is any \<^verbatim>\<open>PageStore\<close>: its operations are the parameters \<open>rd\<close> and \<open>wr\<close>. An index out of range and
  the \<^verbatim>\<open>unreachable!\<close> after the last pass are panics (\<open>None\<close>). The counters of \<^verbatim>\<open>stats.rs\<close> count
  events and are natural numbers.
\<close>

section \<open>State\<close>

record pool_stats =
  hits :: nat
  misses :: nat
  evictions :: nat
  clock_second_chances :: nat

definition stats_default :: pool_stats where
  "stats_default = \<lparr>hits = 0, misses = 0, evictions = 0, clock_second_chances = 0\<rparr>"

datatype pool_error = Io io_error | AllFramesPinned

datatype access_mode = Normal | BulkRead

record frame =
  fr_page_id :: "page_id option"
  fr_data :: bytes
  fr_pin :: u32
  fr_usage :: u8
  fr_dirty :: bool

record 's pool =
  frames :: "frame list"
  page_table :: "page_id \<Rightarrow> nat option"
  clock_hand :: nat
  stats :: pool_stats
  store :: 's

record page_guard =
  pg_page_id :: page_id
  pg_frame :: nat

definition frame_empty :: frame where
  "frame_empty = \<lparr>fr_page_id = None, fr_data = replicate PAGE_SIZE 0, fr_pin = 0, fr_usage = 0, fr_dirty = False\<rparr>"

definition pool_new :: "nat \<Rightarrow> 's \<Rightarrow> 's pool option" where
  "pool_new capacity s =
     (if capacity > 0
      then Some \<lparr>frames = replicate capacity frame_empty, page_table = (\<lambda>_. None), clock_hand = 0,
        stats = stats_default, store = s\<rparr>
      else None)"

text \<open>\<^verbatim>\<open>frames[i]\<close>, and a change of one frame.\<close>

definition frame_at :: "nat \<Rightarrow> 's pool \<Rightarrow> frame option" where
  "frame_at i p = (if i < length (frames p) then Some (frames p ! i) else None)"

definition set_frame :: "nat \<Rightarrow> frame \<Rightarrow> 's pool \<Rightarrow> 's pool" where
  "set_frame i f p = p\<lparr>frames := (frames p)[i := f]\<rparr>"

section \<open>Victim selection\<close>

text \<open>The inner loop runs \<open>k\<close> more steps; \<open>found\<close> is \<^verbatim>\<open>found_unpinned\<close>.\<close>

fun clock_sweep :: "nat \<Rightarrow> bool \<Rightarrow> 's pool \<Rightarrow> (nat option \<times> bool \<times> 's pool) option" where
  "clock_sweep 0 found p = Some (None, found, p)"
| "clock_sweep (Suc k) found p = do {
     let index = clock_hand p;
     let p = p\<lparr>clock_hand := (clock_hand p + 1) mod length (frames p)\<rparr>;
     f \<leftarrow> frame_at index p;
     if fr_pin f \<noteq> 0 then clock_sweep k found p
     else if fr_usage f = 0 then Some (Some index, True, set_frame index (f\<lparr>fr_pin := 1\<rparr>) p)
     else clock_sweep k True
       (set_frame index (f\<lparr>fr_usage := fr_usage f - 1\<rparr>)
         (p\<lparr>stats := (stats p)\<lparr>clock_second_chances := clock_second_chances (stats p) + 1\<rparr>\<rparr>))
   }"

fun clock_passes :: "nat \<Rightarrow> 's pool \<Rightarrow> ((pool_error + nat) \<times> 's pool) option" where
  "clock_passes 0 p = None"
| "clock_passes (Suc k) p = do {
     (victim, found, p) \<leftarrow> clock_sweep (length (frames p)) False p;
     (case victim of
        Some index \<Rightarrow> Some (Inr index, p)
      | None \<Rightarrow> if \<not> found then Some (Inl AllFramesPinned, p) else clock_passes k p)
   }"

definition choose_victim :: "'s pool \<Rightarrow> ((pool_error + nat) \<times> 's pool) option" where
  "choose_victim p = clock_passes (unat MAX_USAGE_COUNT + 1) p"

section \<open>Fetch\<close>

definition saturating_add1 :: "u8 \<Rightarrow> u8" where
  "saturating_add1 u = (if u = 255 then 255 else u + 1)"

definition record_access :: "access_mode \<Rightarrow> frame \<Rightarrow> frame" where
  "record_access mode f = (case mode of
      Normal \<Rightarrow> f\<lparr>fr_usage := min (saturating_add1 (fr_usage f)) MAX_USAGE_COUNT\<rparr>
    | BulkRead \<Rightarrow> f\<lparr>fr_usage := max (fr_usage f) 1\<rparr>)"

text \<open>The error paths put the pin count of the victim back to 0.\<close>

definition release_victim :: "nat \<Rightarrow> 's pool \<Rightarrow> 's pool option" where
  "release_victim i p = do { f \<leftarrow> frame_at i p; Some (set_frame i (f\<lparr>fr_pin := 0\<rparr>) p) }"

text \<open>Step 3: a dirty victim is written back from a copy.\<close>

definition write_back ::
    "(page_id \<Rightarrow> bytes \<Rightarrow> 's \<Rightarrow> ((io_error + unit) \<times> bytes \<times> 's) option) \<Rightarrow> nat \<Rightarrow> 's pool \<Rightarrow>
     ((pool_error + unit) \<times> 's pool) option" where
  "write_back wr i p = do {
     f \<leftarrow> frame_at i p;
     (case fr_page_id f of
        None \<Rightarrow> Some (Inr (), p)
      | Some old_id \<Rightarrow>
          if \<not> fr_dirty f then Some (Inr (), p)
          else do {
            (r, _, s) \<leftarrow> wr old_id (fr_data f) (store p);
            let p = p\<lparr>store := s\<rparr>;
            (case r of
               Inl e \<Rightarrow> do { p \<leftarrow> release_victim i p; Some (Inl (Io e), p) }
             | Inr _ \<Rightarrow> Some (Inr (), set_frame i (f\<lparr>fr_dirty := False\<rparr>) p))
          })
   }"

text \<open>Step 5: the frame takes the new page, the table forgets the old one.\<close>

definition install_page :: "nat \<Rightarrow> page_id \<Rightarrow> bytes \<Rightarrow> 's pool \<Rightarrow> 's pool option" where
  "install_page i pid new_data p = do {
     f \<leftarrow> frame_at i p;
     let table = (case fr_page_id f of Some old_id \<Rightarrow> (page_table p)(old_id := None) | None \<Rightarrow> page_table p);
     let st = stats p;
     let st = st\<lparr>misses := misses st + 1\<rparr>;
     let st = (if fr_page_id f \<noteq> None then st\<lparr>evictions := evictions st + 1\<rparr> else st);
     Some (set_frame i (f\<lparr>fr_data := new_data, fr_page_id := Some pid, fr_dirty := False, fr_usage := 1\<rparr>)
       (p\<lparr>page_table := table(pid \<mapsto> i), stats := st\<rparr>))
   }"

definition fetch_page ::
    "(page_id \<Rightarrow> bytes \<Rightarrow> 's \<Rightarrow> ((io_error + unit) \<times> bytes \<times> 's) option) \<Rightarrow>
     (page_id \<Rightarrow> bytes \<Rightarrow> 's \<Rightarrow> ((io_error + unit) \<times> bytes \<times> 's) option) \<Rightarrow>
     page_id \<Rightarrow> access_mode \<Rightarrow> 's pool \<Rightarrow> ((pool_error + page_guard) \<times> 's pool) option" where
  "fetch_page rd wr pid mode p = (case page_table p pid of
      Some frame_idx \<Rightarrow> do {
        f \<leftarrow> frame_at frame_idx p;
        let p = p\<lparr>stats := (stats p)\<lparr>hits := hits (stats p) + 1\<rparr>\<rparr>;
        Some (Inr \<lparr>pg_page_id = pid, pg_frame = frame_idx\<rparr>,
          set_frame frame_idx (record_access mode (f\<lparr>fr_pin := fr_pin f + 1\<rparr>)) p)
      }
    | None \<Rightarrow> do {
        (v, p) \<leftarrow> choose_victim p;
        (case v of
           Inl e \<Rightarrow> Some (Inl e, p)
         | Inr i \<Rightarrow> do {
             (w, p) \<leftarrow> write_back wr i p;
             (case w of
                Inl e \<Rightarrow> Some (Inl e, p)
              | Inr _ \<Rightarrow> do {
                  (r, new_data, s) \<leftarrow> rd pid (replicate PAGE_SIZE 0) (store p);
                  let p = p\<lparr>store := s\<rparr>;
                  (case r of
                     Inl e \<Rightarrow> do { p \<leftarrow> release_victim i p; Some (Inl (Io e), p) }
                   | Inr _ \<Rightarrow> do {
                       p \<leftarrow> install_page i pid new_data p;
                       Some (Inr \<lparr>pg_page_id = pid, pg_frame = i\<rparr>, p)
                     })
                })
           })
      })"

section \<open>Flush and guards\<close>

fun flush_frames ::
    "(page_id \<Rightarrow> bytes \<Rightarrow> 's \<Rightarrow> ((io_error + unit) \<times> bytes \<times> 's) option) \<Rightarrow> nat list \<Rightarrow> 's pool \<Rightarrow>
     ((pool_error + unit) \<times> 's pool) option" where
  "flush_frames wr [] p = Some (Inr (), p)"
| "flush_frames wr (i # is) p = do {
     f \<leftarrow> frame_at i p;
     (case fr_page_id f of
        None \<Rightarrow> flush_frames wr is p
      | Some pid \<Rightarrow>
          if \<not> fr_dirty f then flush_frames wr is p
          else do {
            (r, _, s) \<leftarrow> wr pid (fr_data f) (store p);
            let p = p\<lparr>store := s\<rparr>;
            (case r of
               Inl e \<Rightarrow> Some (Inl (Io e), p)
             | Inr _ \<Rightarrow> flush_frames wr is (set_frame i (f\<lparr>fr_dirty := False\<rparr>) p))
          })
   }"

definition flush_all ::
    "(page_id \<Rightarrow> bytes \<Rightarrow> 's \<Rightarrow> ((io_error + unit) \<times> bytes \<times> 's) option) \<Rightarrow> 's pool \<Rightarrow>
     ((pool_error + unit) \<times> 's pool) option" where
  "flush_all wr p = flush_frames wr [0..<length (frames p)] p"

text \<open>The closure of \<^verbatim>\<open>read\<close> gets the page bytes, the closure of \<^verbatim>\<open>write\<close> may change them.\<close>

definition guard_read :: "page_guard \<Rightarrow> (bytes \<Rightarrow> 'r) \<Rightarrow> 's pool \<Rightarrow> 'r option" where
  "guard_read g fn p = map_option (\<lambda>f. fn (fr_data f)) (frame_at (pg_frame g) p)"

definition guard_write :: "page_guard \<Rightarrow> (bytes \<Rightarrow> bytes) \<Rightarrow> 's pool \<Rightarrow> 's pool option" where
  "guard_write g fn p = do {
     f \<leftarrow> frame_at (pg_frame g) p;
     Some (set_frame (pg_frame g) (f\<lparr>fr_dirty := True, fr_data := fn (fr_data f)\<rparr>) p)
   }"

definition guard_drop :: "page_guard \<Rightarrow> 's pool \<Rightarrow> 's pool option" where
  "guard_drop g p = do {
     f \<leftarrow> frame_at (pg_frame g) p;
     if fr_pin f > 0 then Some (set_frame (pg_frame g) (f\<lparr>fr_pin := fr_pin f - 1\<rparr>) p) else None
   }"

end
