(* ===== verification/Clock_Victim.thy ===== *)
theory Clock_Victim imports Clock_Pool begin

text \<open>
  The CLOCK scan of \<^verbatim>\<open>BufferPool::choose_victim\<close> against a declarative specification: the victim is
  the unpinned frame with the smallest usage count, the first such frame from the hand on. It follows
  that the scan is fair, that six passes are enough, and that the \<^verbatim>\<open>unreachable!\<close> is unreachable.
\<close>

section \<open>Distance from the hand\<close>

definition dist :: "nat \<Rightarrow> nat \<Rightarrow> nat \<Rightarrow> nat" where
  "dist n h i = (if h \<le> i then i - h else i + n - h)"

lemma dist_self [simp]: "dist n h h = 0"
  by (simp add: dist_def)

lemma dist_less: "h < n \<Longrightarrow> i < n \<Longrightarrow> dist n h i < n"
  by (auto simp: dist_def)

lemma dist_zero: "h < n \<Longrightarrow> i < n \<Longrightarrow> dist n h i = 0 \<longleftrightarrow> i = h"
  by (auto simp: dist_def)

lemma dist_inj: "h < n \<Longrightarrow> i < n \<Longrightarrow> j < n \<Longrightarrow> dist n h i = dist n h j \<longleftrightarrow> i = j"
  by (auto simp: dist_def)

lemma dist_Suc:
  assumes "h < n" "i < n" "i \<noteq> h"
  shows "dist n h i = Suc (dist n ((h + 1) mod n) i)"
proof (cases "h + 1 = n")
  case True
  then show ?thesis using assms by (simp add: dist_def)
next
  case False
  then show ?thesis using assms by (auto simp: dist_def)
qed

section \<open>One sweep\<close>

definition unpinned :: "frame \<Rightarrow> bool" where
  "unpinned f \<longleftrightarrow> fr_pin f = 0"

definition age :: "nat \<Rightarrow> frame \<Rightarrow> frame" where
  "age m f = (if unpinned f then f\<lparr>fr_usage := of_nat (unat (fr_usage f) - m)\<rparr> else f)"

text \<open>The scan changes usage counts, the hand, a pin and the count of second chances only.\<close>

definition scanned :: "'s pool \<Rightarrow> 's pool \<Rightarrow> bool" where
  "scanned p q \<longleftrightarrow> length (frames q) = length (frames p) \<and> page_table q = page_table p \<and>
     store q = store p \<and> hits (stats q) = hits (stats p) \<and> misses (stats q) = misses (stats p) \<and>
     evictions (stats q) = evictions (stats p)"

lemma scanned_refl: "scanned p p"
  by (simp add: scanned_def)

lemma scanned_trans: "scanned p q \<Longrightarrow> scanned q r \<Longrightarrow> scanned p r"
  by (simp add: scanned_def)

lemma age_0 [simp]: "age 0 f = f"
  by (simp add: age_def)

lemma age_unpinned [simp]: "unpinned (age m f) = unpinned f"
  by (simp add: age_def unpinned_def)

lemma age_age: "age m (age k f) = age (k + m) f"
proof -
  have "unat (fr_usage f) - k < 256" using unat_u8_less [of "fr_usage f"] by linarith
  then show ?thesis by (simp add: age_def unpinned_def unat_of_nat)
qed

lemma age_usage: "unpinned f \<Longrightarrow> unat (fr_usage (age m f)) = unat (fr_usage f) - m"
proof -
  assume "unpinned f"
  moreover have "unat (fr_usage f) - m < 256" using unat_u8_less [of "fr_usage f"] by linarith
  ultimately show ?thesis by (simp add: age_def unat_of_nat)
qed

lemma age_1: "unpinned f \<Longrightarrow> fr_usage f \<noteq> 0 \<Longrightarrow> age 1 f = f\<lparr>fr_usage := fr_usage f - 1\<rparr>"
proof -
  assume "unpinned f" "fr_usage f \<noteq> 0"
  then have "unat (fr_usage f) - 1 = unat (fr_usage f - 1)" by (simp add: unat_minus_one)
  then have "of_nat (unat (fr_usage f) - 1) = fr_usage f - 1" by (simp only:) simp
  then show ?thesis using \<open>unpinned f\<close> by (simp add: age_def)
qed

definition candidate :: "frame \<Rightarrow> bool" where
  "candidate f \<longleftrightarrow> unpinned f \<and> fr_usage f = 0"

text \<open>One step of the scan, in the two cases where it goes on.\<close>

lemma sweep_step:
  assumes "clock_hand p < length (frames p)" "\<not> candidate (frames p ! clock_hand p)"
  obtains q where "clock_sweep (Suc k) found p =
      clock_sweep k (found \<or> unpinned (frames p ! clock_hand p)) q"
    and "scanned p q" "clock_hand q = (clock_hand p + 1) mod length (frames p)"
    and "frames q = (frames p)[clock_hand p := age 1 (frames p ! clock_hand p)]"
proof -
  let ?h = "clock_hand p" let ?f = "frames p ! ?h"
  let ?p = "p\<lparr>clock_hand := (?h + 1) mod length (frames p)\<rparr>"
  show thesis
  proof (cases "unpinned ?f")
    case True
    then have u: "fr_usage ?f \<noteq> 0" using assms(2) by (simp add: candidate_def)
    show thesis
      by (rule that [of "set_frame ?h (?f\<lparr>fr_usage := fr_usage ?f - 1\<rparr>)
            (?p\<lparr>stats := (stats p)\<lparr>clock_second_chances := clock_second_chances (stats p) + 1\<rparr>\<rparr>)"])
        (use True u assms age_1 [OF True u] in
          \<open>simp_all add: frame_at_def scanned_def set_frame_def unpinned_def Let_def\<close>)
  next
    case False
    show thesis
      by (rule that [of ?p])
        (use False assms in \<open>simp_all add: frame_at_def scanned_def age_def unpinned_def Let_def\<close>)
  qed
qed

lemma sweep_none:
  assumes "clock_hand p < length (frames p)" "k \<le> length (frames p)"
    and "\<forall>i < length (frames p). dist (length (frames p)) (clock_hand p) i < k \<longrightarrow> \<not> candidate (frames p ! i)"
  shows "\<exists>q. clock_sweep k found p = Some (None, found \<or>
        (\<exists>i < length (frames p). dist (length (frames p)) (clock_hand p) i < k \<and> unpinned (frames p ! i)), q) \<and>
     scanned p q \<and> clock_hand q = (clock_hand p + k) mod length (frames p) \<and>
     (\<forall>i < length (frames p). frames q ! i =
        (if dist (length (frames p)) (clock_hand p) i < k then age 1 (frames p ! i) else frames p ! i))"
  using assms
proof (induction k arbitrary: p found)
  case 0
  then show ?case by (simp add: scanned_refl)
next
  case (Suc k)
  let ?n = "length (frames p)" and ?h = "clock_hand p"
  have "\<not> candidate (frames p ! ?h)" using Suc.prems by simp
  from sweep_step [OF Suc.prems(1) this, of k found] obtain q where
    q: "clock_sweep (Suc k) found p = clock_sweep k (found \<or> unpinned (frames p ! ?h)) q"
    "scanned p q" "clock_hand q = (?h + 1) mod ?n" "frames q = (frames p)[?h := age 1 (frames p ! ?h)]"
    by blast
  have n: "length (frames q) = ?n" using q(4) by simp
  have hq: "clock_hand q < ?n" using q(3) Suc.prems(1) by (metis mod_less_divisor gr_implies_not0 neq0_conv)
  have dist: "dist ?n ?h i < Suc k \<longleftrightarrow> i = ?h \<or> dist ?n (clock_hand q) i < k" if "i < ?n" for i
    using dist_Suc [OF Suc.prems(1) that] q(3) by (cases "i = ?h") auto
  have far: "\<not> dist ?n (clock_hand q) ?h < k"
  proof (cases "?h + 1 = ?n")
    case True then show ?thesis using q(3) Suc.prems(2) by (simp add: dist_def)
  next
    case False then show ?thesis using q(3) Suc.prems by (simp add: dist_def)
  qed
  have at: "frames q ! i = (if i = ?h then age 1 (frames p ! ?h) else frames p ! i)" if "i < ?n" for i
    using that q(4) by (simp add: nth_list_update)
  have "\<forall>i < length (frames q). dist (length (frames q)) (clock_hand q) i < k \<longrightarrow> \<not> candidate (frames q ! i)"
  proof (intro allI impI)
    fix i assume i: "i < length (frames q)" "dist (length (frames q)) (clock_hand q) i < k"
    then have "i \<noteq> ?h" using far n by auto
    moreover have "\<not> candidate (frames p ! i)" using Suc.prems(3) dist i n by auto
    ultimately show "\<not> candidate (frames q ! i)" using at i n by simp
  qed
  from Suc.IH [OF _ _ this, of "found \<or> unpinned (frames p ! ?h)"] hq n Suc.prems(2)
  obtain r where r: "clock_sweep k (found \<or> unpinned (frames p ! ?h)) q = Some (None,
        (found \<or> unpinned (frames p ! ?h)) \<or>
        (\<exists>i < ?n. dist ?n (clock_hand q) i < k \<and> unpinned (frames q ! i)), r)"
    "scanned q r" "clock_hand r = (clock_hand q + k) mod ?n"
    "\<forall>i < ?n. frames r ! i = (if dist ?n (clock_hand q) i < k then age 1 (frames q ! i) else frames q ! i)"
    by auto
  have "(\<exists>i < ?n. dist ?n ?h i < Suc k \<and> unpinned (frames p ! i)) \<longleftrightarrow>
      unpinned (frames p ! ?h) \<or> (\<exists>i < ?n. dist ?n (clock_hand q) i < k \<and> unpinned (frames q ! i))"
    using dist at Suc.prems(1) far by (metis age_unpinned)
  moreover have "\<forall>i < ?n. frames r ! i = (if dist ?n ?h i < Suc k then age 1 (frames p ! i) else frames p ! i)"
    using r(4) at dist far by auto
  moreover have "clock_hand r = (?h + Suc k) mod ?n" using r(3) q(3) by (simp add: mod_add_left_eq)
  ultimately show ?case using q(1,2) r(1,2) scanned_trans by (intro exI [of _ r]) auto
qed

lemma sweep_some:
  assumes "clock_hand p < length (frames p)" "v < length (frames p)"
    and "dist (length (frames p)) (clock_hand p) v < k" "candidate (frames p ! v)"
    and "\<forall>i < length (frames p). dist (length (frames p)) (clock_hand p) i <
        dist (length (frames p)) (clock_hand p) v \<longrightarrow> \<not> candidate (frames p ! i)"
  shows "\<exists>q. clock_sweep k found p = Some (Some v, True, q) \<and> scanned p q \<and>
     clock_hand q = (v + 1) mod length (frames p) \<and>
     (\<forall>i < length (frames p). frames q ! i =
        (if i = v then (frames p ! v)\<lparr>fr_pin := 1\<rparr>
         else if dist (length (frames p)) (clock_hand p) i < dist (length (frames p)) (clock_hand p) v
           then age 1 (frames p ! i) else frames p ! i))"
  using assms
proof (induction k arbitrary: p found)
  case 0
  then show ?case by simp
next
  case (Suc k)
  let ?n = "length (frames p)" and ?h = "clock_hand p"
  show ?case
  proof (cases "v = ?h")
    case True
    let ?f = "frames p ! ?h"
    have "unpinned ?f" "fr_usage ?f = 0" using Suc.prems(4) True by (auto simp: candidate_def)
    then show ?thesis using True Suc.prems(1)
      by (simp add: frame_at_def unpinned_def Let_def set_frame_def scanned_def nth_list_update)
  next
    case False
    have pos: "0 < dist ?n ?h v" using dist_zero [of ?h ?n v] Suc.prems(1,2) False by simp
    then have "\<not> candidate (frames p ! ?h)" using Suc.prems(1,5) by simp
    from sweep_step [OF Suc.prems(1) this, of k found] obtain q where
      q: "clock_sweep (Suc k) found p = clock_sweep k (found \<or> unpinned (frames p ! ?h)) q"
      "scanned p q" "clock_hand q = (?h + 1) mod ?n" "frames q = (frames p)[?h := age 1 (frames p ! ?h)]"
      by blast
    have n: "length (frames q) = ?n" using q(4) by simp
    have hq: "clock_hand q < ?n" using q(3) Suc.prems(1) by (metis mod_less_divisor gr_implies_not0 neq0_conv)
    have at: "frames q ! i = (if i = ?h then age 1 (frames p ! ?h) else frames p ! i)" if "i < ?n" for i
      using that q(4) by (simp add: nth_list_update)
    have dist: "dist ?n ?h i = Suc (dist ?n (clock_hand q) i)" if "i < ?n" "i \<noteq> ?h" for i
      using dist_Suc [OF Suc.prems(1) that] q(3) by simp
    have far: "dist ?n (clock_hand q) ?h = ?n - 1"
      by (cases "?h + 1 = ?n") (use q(3) Suc.prems(1) in \<open>simp_all add: dist_def\<close>)
    have v: "dist ?n (clock_hand q) v < ?n - 1"
      using dist [OF Suc.prems(2) False] dist_less [OF Suc.prems(1,2)] by simp
    have "\<not> candidate (frames q ! i)"
      if "i < ?n" "dist ?n (clock_hand q) i < dist ?n (clock_hand q) v" for i
    proof -
      have "i \<noteq> ?h" using that(2) far v by auto
      then show ?thesis using that dist [of i] dist [OF Suc.prems(2) False] at Suc.prems(5) by auto
    qed
    moreover have "dist ?n (clock_hand q) v < k" using dist [OF Suc.prems(2) False] Suc.prems(3) by simp
    ultimately obtain r where r:
      "clock_sweep k (found \<or> unpinned (frames p ! ?h)) q = Some (Some v, True, r)" "scanned q r"
      "clock_hand r = (v + 1) mod ?n"
      "\<forall>i < ?n. frames r ! i = (if i = v then (frames q ! v)\<lparr>fr_pin := 1\<rparr>
         else if dist ?n (clock_hand q) i < dist ?n (clock_hand q) v then age 1 (frames q ! i) else frames q ! i)"
      using Suc.IH [of q "found \<or> unpinned (frames p ! ?h)"] hq n Suc.prems(2,4) at False by auto
    have "frames r ! i = (if i = v then (frames p ! v)\<lparr>fr_pin := 1\<rparr>
         else if dist ?n ?h i < dist ?n ?h v then age 1 (frames p ! i) else frames p ! i)" if "i < ?n" for i
      using r(4) that at [of i] at [OF Suc.prems(2)] dist [OF that] dist [OF Suc.prems(2) False] False pos far v
      by (cases "i = ?h") auto
    then show ?thesis using q r scanned_trans by (intro exI [of _ r]) auto
  qed
qed

section \<open>All passes\<close>

text \<open>The rank of an unpinned frame: fewer uses first, then the distance from the hand.\<close>

definition best_victim :: "'s pool \<Rightarrow> nat \<Rightarrow> bool" where
  "best_victim p v \<longleftrightarrow> v < length (frames p) \<and> unpinned (frames p ! v) \<and>
     (\<forall>i < length (frames p). unpinned (frames p ! i) \<longrightarrow>
        fr_usage (frames p ! v) < fr_usage (frames p ! i) \<or>
        fr_usage (frames p ! v) = fr_usage (frames p ! i) \<and>
        dist (length (frames p)) (clock_hand p) v \<le> dist (length (frames p)) (clock_hand p) i)"

text \<open>A frame after the scan: one use less per full pass, one more if the last pass reached it.\<close>

definition scanned_frame :: "'s pool \<Rightarrow> nat \<Rightarrow> nat \<Rightarrow> frame" where
  "scanned_frame p v i =
     (let f = frames p ! i; m = unat (fr_usage (frames p ! v)); n = length (frames p); h = clock_hand p
      in if i = v then f\<lparr>fr_usage := 0, fr_pin := 1\<rparr>
         else if dist n h i < dist n h v then age (m + 1) f else age m f)"

lemma passes_victim:
  assumes "clock_hand p < length (frames p)" "best_victim p v"
    and "unat (fr_usage (frames p ! v)) = m" "m < k"
  shows "\<exists>q. clock_passes k p = Some (Inr v, q) \<and> scanned p q \<and>
     clock_hand q = (v + 1) mod length (frames p) \<and>
     (\<forall>i < length (frames p). frames q ! i = scanned_frame p v i)"
  using assms
proof (induction m arbitrary: k p)
  case 0
  let ?n = "length (frames p)" and ?h = "clock_hand p"
  obtain k' where k: "k = Suc k'" using 0(4) by (cases k) auto
  have v: "v < ?n" "candidate (frames p ! v)" "fr_usage (frames p ! v) = 0"
    using 0 by (auto simp: best_victim_def candidate_def unat_eq_0)
  have "\<forall>i < ?n. dist ?n ?h i < dist ?n ?h v \<longrightarrow> \<not> candidate (frames p ! i)"
    using 0(2) v(3) by (auto simp: best_victim_def candidate_def)
  from sweep_some [OF 0(1) v(1) dist_less [OF 0(1) v(1)] v(2) this, of False] obtain q where
    q: "clock_sweep ?n False p = Some (Some v, True, q)" "scanned p q" "clock_hand q = (v + 1) mod ?n"
    "\<forall>i < ?n. frames q ! i = (if i = v then (frames p ! v)\<lparr>fr_pin := 1\<rparr>
         else if dist ?n ?h i < dist ?n ?h v then age 1 (frames p ! i) else frames p ! i)"
    by blast
  have "frames q ! i = scanned_frame p v i" if "i < ?n" for i
    using q(4) that v(3) by (simp add: scanned_frame_def Let_def)
  then show ?case using q k by simp
next
  case (Suc m)
  let ?n = "length (frames p)" and ?h = "clock_hand p"
  obtain k' where k: "k = Suc k'" "m < k'" using Suc.prems(4) by (cases k) auto
  have v: "v < ?n" "unpinned (frames p ! v)" using Suc.prems(2) by (auto simp: best_victim_def)
  have pos: "fr_usage (frames p ! i) \<noteq> 0" if "i < ?n" "unpinned (frames p ! i)" for i
    using Suc.prems(2,3) that by (fastforce simp: best_victim_def)
  then have "\<forall>i < ?n. dist ?n ?h i < ?n \<longrightarrow> \<not> candidate (frames p ! i)" by (auto simp: candidate_def)
  from sweep_none [OF Suc.prems(1) order_refl this, of False] obtain q where
    q: "clock_sweep ?n False p = Some (None, (\<exists>i < ?n. dist ?n ?h i < ?n \<and> unpinned (frames p ! i)), q)"
    "scanned p q" "clock_hand q = (?h + ?n) mod ?n"
    "\<forall>i < ?n. frames q ! i = (if dist ?n ?h i < ?n then age 1 (frames p ! i) else frames p ! i)"
    by auto
  have n: "length (frames q) = ?n" using q(2) by (simp add: scanned_def)
  have h: "clock_hand q = ?h" using q(3) Suc.prems(1) by simp
  have at: "frames q ! i = age 1 (frames p ! i)" if "i < ?n" for i
    using q(4) that dist_less [OF Suc.prems(1) that] by simp
  have usage: "unat (fr_usage (frames q ! i)) = unat (fr_usage (frames p ! i)) - 1"
    if "i < ?n" "unpinned (frames p ! i)" for i
    using at [OF that(1)] age_usage [OF that(2)] by simp
  have "best_victim q v"
    unfolding best_victim_def n h
  proof (intro conjI allI impI)
    show "v < ?n" "unpinned (frames q ! v)" using v at by simp_all
    fix i assume i: "i < ?n" "unpinned (frames q ! i)"
    then have ui: "unpinned (frames p ! i)" using at by simp
    have "0 < unat (fr_usage (frames p ! i))" using pos [OF i(1) ui] by (simp add: unat_gt_0)
    moreover have "0 < unat (fr_usage (frames p ! v))" using pos [OF v] by (simp add: unat_gt_0)
    moreover have "unat (fr_usage (frames p ! v)) < unat (fr_usage (frames p ! i)) \<or>
        unat (fr_usage (frames p ! v)) = unat (fr_usage (frames p ! i)) \<and> dist ?n ?h v \<le> dist ?n ?h i"
      using Suc.prems(2) i(1) ui by (auto simp: best_victim_def word_less_nat_alt)
    ultimately have "unat (fr_usage (frames q ! v)) < unat (fr_usage (frames q ! i)) \<or>
        unat (fr_usage (frames q ! v)) = unat (fr_usage (frames q ! i)) \<and> dist ?n ?h v \<le> dist ?n ?h i"
      using usage [OF v] usage [OF i(1) ui] by auto
    then show "fr_usage (frames q ! v) < fr_usage (frames q ! i) \<or>
        fr_usage (frames q ! v) = fr_usage (frames q ! i) \<and> dist ?n ?h v \<le> dist ?n ?h i"
      by (simp add: word_less_nat_alt unat_inj_iff)
  qed
  moreover have um: "unat (fr_usage (frames q ! v)) = m" using usage [OF v] Suc.prems(3) by simp
  ultimately obtain r where r: "clock_passes k' q = Some (Inr v, r)" "scanned q r"
    "clock_hand r = (v + 1) mod ?n" "\<forall>i < ?n. frames r ! i = scanned_frame q v i"
    using Suc.IH [of q k'] h n k(2) Suc.prems(1) by auto
  have "scanned_frame q v i = scanned_frame p v i" if "i < ?n" for i
    using um Suc.prems(3) at [OF that] at [OF v(1)] v(2) n h
    by (simp add: scanned_frame_def Let_def age_age) (simp add: age_def)
  moreover have "\<exists>i < ?n. dist ?n ?h i < ?n \<and> unpinned (frames p ! i)"
    using v dist_less [OF Suc.prems(1) v(1)] by blast
  ultimately show ?case using q(1,2) r k(1) scanned_trans by (intro exI [of _ r]) auto
qed

lemma best_victim_exists:
  assumes "clock_hand p < length (frames p)" "i < length (frames p)" "unpinned (frames p ! i)"
  shows "\<exists>v. best_victim p v"
proof -
  let ?n = "length (frames p)" and ?d = "dist (length (frames p)) (clock_hand p)"
  define rank where "rank j = unat (fr_usage (frames p ! j)) * ?n + ?d j" for j
  obtain v where v: "v < ?n" "unpinned (frames p ! v)"
    and least: "\<And>j. j < ?n \<Longrightarrow> unpinned (frames p ! j) \<Longrightarrow> rank v \<le> rank j"
    using ex_has_least_nat [of "\<lambda>j. j < ?n \<and> unpinned (frames p ! j)" i rank] assms(2,3) by blast
  have "fr_usage (frames p ! v) < fr_usage (frames p ! j) \<or>
      fr_usage (frames p ! v) = fr_usage (frames p ! j) \<and> ?d v \<le> ?d j"
    if "j < ?n" "unpinned (frames p ! j)" for j
  proof -
    let ?u = "unat (fr_usage (frames p ! v))" and ?w = "unat (fr_usage (frames p ! j))"
    have le: "?u * ?n + ?d v \<le> ?w * ?n + ?d j" using least [OF that] by (simp add: rank_def)
    have "\<not> ?w < ?u"
    proof
      assume "?w < ?u"
      then have "?w * ?n + ?n \<le> ?u * ?n" by (metis Suc_leI add.commute mult_Suc mult_le_mono1)
      then show False using le dist_less [OF assms(1) that(1)] by linarith
    qed
    then have "?u < ?w \<or> ?u = ?w \<and> ?d v \<le> ?d j" using le by auto
    then show ?thesis by (simp add: word_less_nat_alt unat_inj_iff)
  qed
  then have "best_victim p v" using v by (simp add: best_victim_def)
  then show ?thesis ..
qed

lemma passes_pinned:
  assumes "clock_hand p < length (frames p)" "\<forall>i < length (frames p). \<not> unpinned (frames p ! i)"
  shows "\<exists>q. clock_passes (Suc k) p = Some (Inl AllFramesPinned, q) \<and> scanned p q \<and>
    frames q = frames p \<and> clock_hand q = clock_hand p"
proof -
  let ?n = "length (frames p)"
  have "\<forall>i < ?n. dist ?n (clock_hand p) i < ?n \<longrightarrow> \<not> candidate (frames p ! i)"
    using assms(2) by (simp add: candidate_def)
  from sweep_none [OF assms(1) order_refl this, of False] assms(2) obtain q where
    q: "clock_sweep ?n False p = Some (None, False, q)" "scanned p q" "clock_hand q = clock_hand p"
    "\<forall>i < ?n. frames q ! i = age 1 (frames p ! i) \<or> frames q ! i = frames p ! i"
    using assms(1) by (auto split: if_splits)
  have "frames q = frames p"
    using q(2,4) assms(2) by (auto intro!: nth_equalityI simp: scanned_def age_def)
  then show ?thesis using q by simp
qed

definition usage_bounded :: "'s pool \<Rightarrow> bool" where
  "usage_bounded p \<longleftrightarrow> (\<forall>f \<in> set (frames p). fr_usage f \<le> MAX_USAGE_COUNT)"

lemma choose_victim_cases:
  assumes "clock_hand p < length (frames p)" "usage_bounded p"
  obtains v q where "choose_victim p = Some (Inr v, q)" "best_victim p v" "scanned p q"
      "clock_hand q = (v + 1) mod length (frames p)"
      "\<And>i. i < length (frames p) \<Longrightarrow> frames q ! i = scanned_frame p v i"
    | q where "choose_victim p = Some (Inl AllFramesPinned, q)" "scanned p q"
      "\<And>i. i < length (frames p) \<Longrightarrow> \<not> unpinned (frames p ! i)"
      "frames q = frames p" "clock_hand q = clock_hand p"
proof (cases "\<exists>i < length (frames p). unpinned (frames p ! i)")
  case True
  then obtain v where v: "best_victim p v" using best_victim_exists [OF assms(1)] by blast
  then have "fr_usage (frames p ! v) \<le> MAX_USAGE_COUNT"
    using assms(2) by (auto simp: usage_bounded_def best_victim_def)
  then have "unat (fr_usage (frames p ! v)) < unat MAX_USAGE_COUNT + 1"
    by (simp add: word_le_nat_alt)
  from passes_victim [OF assms(1) v refl this] show thesis
    using that(1) v by (auto simp: choose_victim_def)
next
  case False
  then show thesis using passes_pinned [OF assms(1), of "unat MAX_USAGE_COUNT"] that(2)
    by (auto simp: choose_victim_def)
qed

text \<open>C11: \<^verbatim>\<open>choose_victim\<close> never reaches its \<^verbatim>\<open>unreachable!\<close>. If a frame is unpinned it reserves, with pin
  count 1, the unpinned frame of smallest usage count, the nearest to the hand among those, and leaves
  the hand just after it; pinned frames do not change, every other unpinned frame loses one use per time
  the hand passed it. It reports \<^verbatim>\<open>AllFramesPinned\<close> exactly when every frame is pinned, and then changes
  no frame.\<close>
theorem choose_victim_spec:
  assumes "clock_hand p < length (frames p)" "usage_bounded p"
  shows "if \<exists>f \<in> set (frames p). unpinned f
    then \<exists>v q. choose_victim p = Some (Inr v, q) \<and> best_victim p v \<and> scanned p q \<and>
      clock_hand q = (v + 1) mod length (frames p) \<and>
      (\<forall>i < length (frames p). frames q ! i = scanned_frame p v i)
    else \<exists>q. choose_victim p = Some (Inl AllFramesPinned, q) \<and> scanned p q \<and> frames q = frames p"
  using assms
proof (cases rule: choose_victim_cases)
  case (1 v q)
  then have "\<exists>f \<in> set (frames p). unpinned f" by (auto simp: best_victim_def)
  then show ?thesis using 1 by auto
next
  case (2 q)
  then have "\<not> (\<exists>f \<in> set (frames p). unpinned f)" by (auto simp: in_set_conv_nth)
  then show ?thesis using 2 by auto
qed

definition sample_pool :: "unit pool" where
  "sample_pool = \<lparr>frames = [frame_empty\<lparr>fr_pin := 1\<rparr>, frame_empty\<lparr>fr_usage := 3\<rparr>, frame_empty\<lparr>fr_usage := 2\<rparr>],
     page_table = (\<lambda>_. None), clock_hand = 0, stats = stats_default, store = ()\<rparr>"

theorem choose_victim_spec_witness:
  "\<exists>q. choose_victim sample_pool = Some (Inr 2, q) \<and> clock_hand q = 0"
proof -
  have *: "clock_hand sample_pool < length (frames sample_pool)" "usage_bounded sample_pool"
    by (simp_all add: sample_pool_def usage_bounded_def frame_empty_def MAX_USAGE_COUNT_def)
  have "\<exists>f \<in> set (frames sample_pool). unpinned f"
    by (simp add: sample_pool_def unpinned_def frame_empty_def)
  with choose_victim_spec [OF *] obtain v q where vq: "choose_victim sample_pool = Some (Inr v, q)"
    "best_victim sample_pool v" "clock_hand q = (v + 1) mod length (frames sample_pool)"
    by auto
  have "v < 3" "unpinned (frames sample_pool ! v)"
    "fr_usage (frames sample_pool ! v) < 2 \<or> fr_usage (frames sample_pool ! v) = 2"
    using vq(2) by (auto simp: best_victim_def sample_pool_def unpinned_def frame_empty_def
        dest!: spec [of _ "2 :: nat"])
  then have "v = 2"
    by (cases "v = 0"; cases "v = 1") (auto simp: sample_pool_def unpinned_def frame_empty_def)
  then show ?thesis using vq by (simp add: sample_pool_def)
qed

end
