(* ===== verification/Clock_Correct.thy ===== *)
theory Clock_Correct imports Clock_Victim begin

text \<open>
  Correctness of the CLOCK pool over any store that meets the \<^verbatim>\<open>PageStore\<close> contract. The abstract
  state is the view: for every page, the bytes a client would see, from the frame that caches it or
  else from the store. Fetching, evicting, flushing and every error path keep the view; only a write
  through a guard changes it, and only at the guard's page.
\<close>

section \<open>Invariant\<close>

text \<open>\<open>page_table\<close> and the page ids of the frames are inverse to each other.\<close>

definition table_ok :: "'s pool \<Rightarrow> bool" where
  "table_ok p \<longleftrightarrow> (\<forall>pid i. page_table p pid = Some i \<longleftrightarrow>
     i < length (frames p) \<and> fr_page_id (frames p ! i) = Some pid)"

definition pool_wf :: "'s pool \<Rightarrow> bool" where
  "pool_wf p \<longleftrightarrow> clock_hand p < length (frames p) \<and> usage_bounded p \<and> table_ok p \<and>
     (\<forall>f \<in> set (frames p). length (fr_data f) = PAGE_SIZE)"

definition clean_frame :: "('s \<Rightarrow> page_id \<Rightarrow> bytes option) \<Rightarrow> 's \<Rightarrow> frame \<Rightarrow> bool" where
  "clean_frame content s f \<longleftrightarrow> (\<forall>pid. fr_page_id f = Some pid \<longrightarrow>
     map_option masked (content s pid) = Some (masked (fr_data f)))"

definition coherent :: "('s \<Rightarrow> page_id \<Rightarrow> bytes option) \<Rightarrow> 's pool \<Rightarrow> bool" where
  "coherent content p \<longleftrightarrow> (\<forall>f \<in> set (frames p). \<not> fr_dirty f \<longrightarrow> clean_frame content (store p) f)"

definition pool_view :: "('s \<Rightarrow> page_id \<Rightarrow> bytes option) \<Rightarrow> 's pool \<Rightarrow> page_id \<Rightarrow> bytes option" where
  "pool_view content p pid = (case page_table p pid of
      Some i \<Rightarrow> Some (masked (fr_data (frames p ! i)))
    | None \<Rightarrow> map_option masked (content (store p) pid))"

text \<open>What every step short of a guard write keeps.\<close>

definition same_page :: "frame \<Rightarrow> frame \<Rightarrow> bool" where
  "same_page f g \<longleftrightarrow> fr_page_id g = fr_page_id f \<and> fr_data g = fr_data f"

definition same_pages :: "'s pool \<Rightarrow> 's pool \<Rightarrow> bool" where
  "same_pages p q \<longleftrightarrow> list_all2 same_page (frames p) (frames q) \<and> page_table q = page_table p"

lemma same_pages_at:
  assumes "same_pages p q"
  shows "length (frames q) = length (frames p)" "page_table q = page_table p"
    and "i < length (frames p) \<Longrightarrow> fr_page_id (frames q ! i) = fr_page_id (frames p ! i)"
    and "i < length (frames p) \<Longrightarrow> fr_data (frames q ! i) = fr_data (frames p ! i)"
  using assms by (auto simp: same_pages_def same_page_def list_all2_conv_all_nth)

lemma same_pages_refl: "same_pages p p"
  by (simp add: same_pages_def same_page_def list_all2_refl)

lemma same_pages_trans: "same_pages p q \<Longrightarrow> same_pages q r \<Longrightarrow> same_pages p r"
  by (auto simp: same_pages_def same_page_def list_all2_conv_all_nth)

lemma same_pages_set_frame:
  assumes "i < length (frames p)" "same_page (frames p ! i) f"
  shows "same_pages p (set_frame i f p)"
  using assms by (auto simp: same_pages_def set_frame_def list_all2_conv_all_nth nth_list_update same_page_def)

lemma same_pages_table: "same_pages p q \<Longrightarrow> table_ok p \<Longrightarrow> table_ok q"
  by (auto simp: table_ok_def same_pages_at)

lemma same_pages_data:
  "same_pages p q \<Longrightarrow> \<forall>f \<in> set (frames p). length (fr_data f) = n \<Longrightarrow>
   \<forall>f \<in> set (frames q). length (fr_data f) = n"
  by (auto simp: same_pages_def same_page_def list_all2_conv_all_nth all_set_conv_all_nth)

lemma same_pages_view:
  assumes "same_pages p q" "table_ok p" "store q = store p"
  shows "pool_view content q = pool_view content p"
proof
  fix pid
  show "pool_view content q pid = pool_view content p pid"
  proof (cases "page_table p pid")
    case None
    then show ?thesis using assms by (simp add: pool_view_def same_pages_at)
  next
    case (Some i)
    then have "i < length (frames p)" using assms(2) by (simp add: table_ok_def)
    then show ?thesis using Some assms by (simp add: pool_view_def same_pages_at)
  qed
qed

lemma table_inj:
  assumes "table_ok p" "i < length (frames p)" "j < length (frames p)"
    and "fr_page_id (frames p ! i) = Some pid" "fr_page_id (frames p ! j) = Some pid"
  shows "i = j"
proof -
  have "page_table p pid = Some i" "page_table p pid = Some j"
    using assms by (auto simp: table_ok_def)
  then show ?thesis by simp
qed

lemma coherent_at:
  "coherent content p \<Longrightarrow> i < length (frames p) \<Longrightarrow> \<not> fr_dirty (frames p ! i) \<Longrightarrow>
   fr_page_id (frames p ! i) = Some pid \<Longrightarrow>
   map_option masked (content (store p) pid) = Some (masked (fr_data (frames p ! i)))"
  by (auto simp: coherent_def clean_frame_def)

section \<open>Stages of a miss\<close>

text \<open>The scan.\<close>

lemma scanned_frame_sel:
  "fr_page_id (scanned_frame p v i) = fr_page_id (frames p ! i)"
  "fr_data (scanned_frame p v i) = fr_data (frames p ! i)"
  "fr_dirty (scanned_frame p v i) = fr_dirty (frames p ! i)"
  "fr_pin (scanned_frame p v i) = (if i = v then 1 else fr_pin (frames p ! i))"
  by (simp_all add: scanned_frame_def age_def Let_def)

lemma scanned_frame_usage:
  "fr_usage (frames p ! i) \<le> MAX_USAGE_COUNT \<Longrightarrow> fr_usage (scanned_frame p v i) \<le> MAX_USAGE_COUNT"
proof -
  assume le: "fr_usage (frames p ! i) \<le> MAX_USAGE_COUNT"
  have "fr_usage (age m (frames p ! i)) \<le> fr_usage (frames p ! i)" for m
    using age_usage [of "frames p ! i" m]
    by (cases "unpinned (frames p ! i)") (simp_all add: word_le_nat_alt age_def)
  then show ?thesis using le order_trans by (auto simp: scanned_frame_def Let_def)
qed

lemma choose_victim_keeps:
  assumes wf: "pool_wf p" and coh: "coherent content p"
  obtains v q where "choose_victim p = Some (Inr v, q)" "v < length (frames p)" "unpinned (frames p ! v)"
      "pool_wf q" "coherent content q" "same_pages p q" "store q = store p"
      "\<And>i. i < length (frames p) \<Longrightarrow> fr_pin (frames q ! i) = (if i = v then 1 else fr_pin (frames p ! i))"
    | q where "choose_victim p = Some (Inl AllFramesPinned, q)"
      "\<And>i. i < length (frames p) \<Longrightarrow> \<not> unpinned (frames p ! i)"
      "pool_wf q" "coherent content q" "same_pages p q" "store q = store p" "frames q = frames p"
proof -
  have p: "clock_hand p < length (frames p)" "usage_bounded p" "table_ok p"
    "\<forall>f \<in> set (frames p). length (fr_data f) = PAGE_SIZE" using wf by (auto simp: pool_wf_def)
  from p(1,2) show thesis
  proof (cases rule: choose_victim_cases)
    case (1 v q)
    have sp: "same_pages p q"
      using 1(3,5) by (auto simp: same_pages_def same_page_def scanned_def list_all2_conv_all_nth scanned_frame_sel)
    have n: "length (frames q) = length (frames p)" and s: "store q = store p"
      using 1(3) by (simp_all add: scanned_def)
    have "usage_bounded q"
      using p(2) 1(5) n by (auto simp: usage_bounded_def all_set_conv_all_nth intro: scanned_frame_usage)
    moreover have "clock_hand q < length (frames q)" using 1(4) n p(1) by (cases "frames p = []") auto
    ultimately have "pool_wf q"
      using sp p same_pages_table [OF sp p(3)] same_pages_data [OF sp p(4)] by (simp add: pool_wf_def)
    moreover have "coherent content q"
      using coh 1(5) n s by (auto simp: coherent_def clean_frame_def all_set_conv_all_nth scanned_frame_sel)
    moreover have "v < length (frames p)" "unpinned (frames p ! v)" using 1(2) by (auto simp: best_victim_def)
    ultimately show thesis using that(1) 1 sp s by (auto simp: scanned_frame_sel)
  next
    case (2 q)
    have sp: "same_pages p q" using 2(2,4) by (simp add: same_pages_def scanned_def list_all2_refl same_page_def)
    have "store q = store p" using 2(2) by (simp add: scanned_def)
    moreover have "pool_wf q"
      using 2(4,5) p same_pages_table [OF sp p(3)] by (simp add: pool_wf_def usage_bounded_def)
    moreover have "coherent content q" using coh 2(4) \<open>store q = store p\<close> by (simp add: coherent_def)
    ultimately show thesis using that(2) 2 sp by auto
  qed
qed

text \<open>Changing only the pin of a frame.\<close>

lemma set_pin_keeps:
  fixes c :: u32
  assumes "i < length (frames p)" "pool_wf p" "coherent content p"
  defines "q \<equiv> set_frame i ((frames p ! i)\<lparr>fr_pin := c\<rparr>) p"
  shows "pool_wf q" "coherent content q" "same_pages p q" "store q = store p"
    and "j < length (frames p) \<Longrightarrow> fr_pin (frames q ! j) = (if j = i then c else fr_pin (frames p ! j))"
proof -
  show sp: "same_pages p q" unfolding q_def using assms(1) by (intro same_pages_set_frame) (simp_all add: same_page_def)
  show "store q = store p" by (simp add: q_def set_frame_def)
  show "j < length (frames p) \<Longrightarrow> fr_pin (frames q ! j) = (if j = i then c else fr_pin (frames p ! j))"
    by (simp add: q_def set_frame_def nth_list_update)
  have at: "frames q ! j = (if j = i then (frames p ! i)\<lparr>fr_pin := c\<rparr> else frames p ! j)"
    if "j < length (frames p)" for j using that by (simp add: q_def set_frame_def nth_list_update)
  have n: "length (frames q) = length (frames p)" by (simp add: q_def set_frame_def)
  have "usage_bounded q"
    using assms(2) at n by (auto simp: pool_wf_def usage_bounded_def all_set_conv_all_nth)
  then show "pool_wf q"
    using assms(2) same_pages_table [OF sp] same_pages_data [OF sp]
    by (auto simp: pool_wf_def) (simp_all add: q_def set_frame_def)
  show "coherent content q"
    using assms(1,3) at n \<open>store q = store p\<close> by (auto simp: coherent_def clean_frame_def all_set_conv_all_nth)
qed


lemma set_store_keeps:
  assumes "pool_wf p" "coherent content p" "content s = content (store p)"
  shows "pool_wf (p\<lparr>store := s\<rparr>)" "coherent content (p\<lparr>store := s\<rparr>)"
    and "pool_view content (p\<lparr>store := s\<rparr>) = pool_view content p" "same_pages p (p\<lparr>store := s\<rparr>)"
  using assms
proof -
  show "pool_view content (p\<lparr>store := s\<rparr>) = pool_view content p"
    using assms(3) by (intro ext) (simp add: pool_view_def cong: option.case_cong)
qed (use assms in \<open>simp_all add: pool_wf_def usage_bounded_def table_ok_def coherent_def clean_frame_def
      same_pages_def same_page_def list_all2_refl\<close>)

section \<open>The contract of a fetch\<close>

text \<open>What a fetch may do to the pool: the view grows, frames other than \<open>i\<close> keep page, bytes and pin.\<close>

definition keeps_frame :: "frame \<Rightarrow> frame \<Rightarrow> bool" where
  "keeps_frame f g \<longleftrightarrow> same_page f g \<and> fr_pin g = fr_pin f"

definition view_le :: "(page_id \<Rightarrow> bytes option) \<Rightarrow> (page_id \<Rightarrow> bytes option) \<Rightarrow> bool" where
  "view_le v w \<longleftrightarrow> (\<forall>pid c. v pid = Some c \<longrightarrow> w pid = Some c)"

lemma view_le_refl: "view_le v v"
  by (simp add: view_le_def)

lemma view_le_trans: "view_le u v \<Longrightarrow> view_le v w \<Longrightarrow> view_le u w"
  by (simp add: view_le_def)

lemma record_access_sel [simp]:
  "fr_page_id (record_access m f) = fr_page_id f" "fr_data (record_access m f) = fr_data f"
  "fr_dirty (record_access m f) = fr_dirty f" "fr_pin (record_access m f) = fr_pin f"
  by (cases m; simp add: record_access_def)+

lemma record_access_usage:
  "fr_usage f \<le> MAX_USAGE_COUNT \<Longrightarrow> fr_usage (record_access m f) \<le> MAX_USAGE_COUNT"
  by (cases m) (auto simp: record_access_def MAX_USAGE_COUNT_def)

context page_store begin

lemma write_back_cases:
  assumes wf: "pool_wf p" and coh: "coherent content p" and st: "ok (store p)" and i: "i < length (frames p)"
  obtains e q where "write_back wr i p = Some (Inl (Io e), q)" "pool_wf q" "coherent content q" "ok (store q)"
      "same_pages p q" "view_le (pool_view content p) (pool_view content q)"
      "\<And>j. j < length (frames p) \<Longrightarrow> fr_pin (frames q ! j) = (if j = i then 0 else fr_pin (frames p ! j))"
    | q where "write_back wr i p = Some (Inr (), q)" "pool_wf q" "coherent content q" "ok (store q)"
      "same_pages p q" "view_le (pool_view content p) (pool_view content q)"
      "\<And>j. j < length (frames p) \<Longrightarrow> fr_pin (frames q ! j) = fr_pin (frames p ! j)"
      "clean_frame content (store q) (frames q ! i)"
proof -
  let ?f = "frames p ! i"
  have tab: "table_ok p" and len: "length (fr_data ?f) = PAGE_SIZE" using wf i by (auto simp: pool_wf_def)
  have at: "frame_at i p = Some ?f" using i by (simp add: frame_at_def)
  show thesis
  proof (cases "fr_page_id ?f")
    case None
    then show thesis using that(2) [of p] at assms
      by (simp add: write_back_def same_pages_refl view_le_refl clean_frame_def)
  next
    case (Some old)
    show thesis
    proof (cases "fr_dirty ?f")
      case False
      then show thesis using that(2) [of p] at assms Some coherent_at [OF coh i]
        by (simp add: write_back_def same_pages_refl view_le_refl clean_frame_def)
    next
      case dirty: True
      obtain r b' s' where w: "wr old (fr_data ?f) (store p) = Some (r, b', s')" "ok s'"
        "masked b' = masked (fr_data ?f)" "\<And>q c. q \<noteq> old \<Longrightarrow> content (store p) q = Some c \<Longrightarrow> content s' q = Some c"
        "r = Inr () \<Longrightarrow> content s' old = Some b'"
        using wr_cases [OF st len, of old] by metis
      define p1 where "p1 = p\<lparr>store := s'\<rparr>"
      have wf1: "pool_wf p1" using wf by (simp add: p1_def pool_wf_def usage_bounded_def table_ok_def)
      have sp1: "same_pages p p1" by (simp add: p1_def same_pages_def same_page_def list_all2_refl)
      have clean: "clean_frame content s' f" if "f \<in> set (frames p)" "f \<noteq> ?f" "\<not> fr_dirty f" for f
      proof -
        note f = that
        obtain j where j: "j < length (frames p)" "f = frames p ! j" using f(1) by (auto simp: in_set_conv_nth)
        then have old: "fr_page_id f \<noteq> Some old" using table_inj [OF tab i j(1) Some] f(2) by auto
        show ?thesis
          unfolding clean_frame_def
        proof (intro allI impI)
          fix pid assume pid: "fr_page_id f = Some pid"
          then obtain d where d: "content (store p) pid = Some d" "masked d = masked (fr_data f)"
            using coherent_at [OF coh j(1), of pid] f(3) j(2) by auto
          have "pid \<noteq> old" using pid old by auto
          then show "map_option masked (content s' pid) = Some (masked (fr_data f))"
            using w(4) [OF _ d(1)] d(2) by simp
        qed
      qed
      have coh1: "coherent content p1"
        unfolding coherent_def p1_def using clean dirty by auto
      have view1: "view_le (pool_view content p) (pool_view content p1)"
        unfolding view_le_def
      proof (intro allI impI)
        fix pid c assume c: "pool_view content p pid = Some c"
        have "page_table p old = Some i" using tab i Some by (simp add: table_ok_def)
        show "pool_view content p1 pid = Some c"
        proof (cases "page_table p pid")
          case None
          then obtain d where d: "content (store p) pid = Some d" "c = masked d"
            using c by (auto simp: pool_view_def)
          moreover have "pid \<noteq> old" using None \<open>page_table p old = Some i\<close> by auto
          ultimately show ?thesis using None w(4) [of pid d] by (simp add: pool_view_def p1_def)
        next
          case (Some j)
          then show ?thesis using c by (simp add: pool_view_def p1_def)
        qed
      qed
      have at1: "frames p1 = frames p" "store p1 = s'" by (simp_all add: p1_def)
      show thesis
      proof (cases r)
        case (Inl e)
        define q where "q = set_frame i ((frames p1 ! i)\<lparr>fr_pin := 0\<rparr>) p1"
        note k = set_pin_keeps [OF _ wf1 coh1, where i = i and c = 0, folded q_def]
        have iq: "i < length (frames p1)" using i at1 by simp
        have "write_back wr i p = Some (Inl (Io e), q)"
          using at Some dirty w(1) Inl i
          by (simp add: write_back_def release_victim_def frame_at_def q_def p1_def Let_def)
        moreover have "view_le (pool_view content p) (pool_view content q)"
          using view1 same_pages_view [OF k(3) _ k(4)] iq wf1 by (simp add: pool_wf_def)
        ultimately show thesis
          using that(1) [of e q] k iq at1 same_pages_trans [OF sp1] w(2) by simp
      next
        case (Inr u)
        define q where "q = set_frame i (?f\<lparr>fr_dirty := False\<rparr>) p1"
        have sq: "same_pages p1 q" unfolding q_def using i at1
          by (intro same_pages_set_frame) (simp_all add: same_page_def)
        have qat: "frames q ! j = (if j = i then ?f\<lparr>fr_dirty := False\<rparr> else frames p ! j)"
          if "j < length (frames p)" for j using that at1 by (simp add: q_def set_frame_def nth_list_update)
        have n: "length (frames q) = length (frames p)" using at1 by (simp add: q_def set_frame_def)
        have stq: "store q = s'" using at1 by (simp add: q_def set_frame_def)
        have cl: "clean_frame content s' (?f\<lparr>fr_dirty := False\<rparr>)"
          using Some w(3,5) Inr by (simp add: clean_frame_def)
        have "coherent content q"
          using coh1 at1 cl qat n stq i by (auto simp: coherent_def all_set_conv_all_nth)
        moreover have "usage_bounded q"
          using wf1 qat n at1 i by (auto simp: pool_wf_def usage_bounded_def all_set_conv_all_nth)
        then have "pool_wf q"
          using wf1 same_pages_table [OF sq] same_pages_data [OF sq]
          by (auto simp: pool_wf_def) (simp_all add: q_def set_frame_def)
        moreover have "view_le (pool_view content p) (pool_view content q)"
          using view1 same_pages_view [OF sq] wf1 stq at1 by (simp add: pool_wf_def)
        moreover have "write_back wr i p = Some (Inr (), q)"
          using at Some dirty w(1) Inr by (simp add: write_back_def q_def p1_def Let_def)
        ultimately show thesis
          using that(2) [of q] same_pages_trans [OF sp1 sq] qat w(2) stq cl i by simp
      qed
    qed
  qed
qed

lemma install_page_keeps:
  assumes wf: "pool_wf p" and coh: "coherent content p" and i: "i < length (frames p)"
    and clean: "clean_frame content (store p) (frames p ! i)"
    and new: "page_table p pid = None" "content (store p) pid = Some d" "length d = PAGE_SIZE"
  obtains q where "install_page i pid d p = Some q" "pool_wf q" "coherent content q" "store q = store p"
    "view_le (pool_view content p) (pool_view content q)" "length (frames q) = length (frames p)"
    "fr_page_id (frames q ! i) = Some pid" "fr_pin (frames q ! i) = fr_pin (frames p ! i)"
    "\<And>j. j < length (frames p) \<Longrightarrow> j \<noteq> i \<Longrightarrow> frames q ! j = frames p ! j"
proof -
  let ?f = "frames p ! i"
  define g where "g = ?f\<lparr>fr_data := d, fr_page_id := Some pid, fr_dirty := False, fr_usage := 1\<rparr>"
  define tab where "tab = (case fr_page_id ?f of Some old \<Rightarrow> (page_table p)(old := None) | None \<Rightarrow> page_table p)(pid \<mapsto> i)"
  obtain q where q: "install_page i pid d p = Some q" "frames q = (frames p)[i := g]" "page_table q = tab"
    "clock_hand q = clock_hand p" "store q = store p"
    using i by (simp add: install_page_def frame_at_def Let_def set_frame_def g_def tab_def)
  have t: "table_ok p" "clock_hand p < length (frames p)" "usage_bounded p"
    "\<forall>f \<in> set (frames p). length (fr_data f) = PAGE_SIZE" using wf by (auto simp: pool_wf_def)
  have old: "page_table p x = Some i \<longleftrightarrow> fr_page_id ?f = Some x" for x using t(1) i by (simp add: table_ok_def)
  have tabx: "tab x = (if x = pid then Some i else if fr_page_id ?f = Some x then None else page_table p x)" for x
    using new(1) by (auto simp: tab_def split: option.splits)
  have at: "frames q ! j = (if j = i then g else frames p ! j)" if "j < length (frames p)" for j
    using that q(2) by (simp add: nth_list_update)
  have n: "length (frames q) = length (frames p)" using q(2) by simp
  have "table_ok q"
    unfolding table_ok_def
  proof (intro allI)
    fix x j
    show "page_table q x = Some j \<longleftrightarrow> j < length (frames q) \<and> fr_page_id (frames q ! j) = Some x"
    proof (cases "j < length (frames p)")
      case True
      have pj: "page_table p x = Some j \<longleftrightarrow> fr_page_id (frames p ! j) = Some x"
        using t(1) True by (simp add: table_ok_def)
      show ?thesis
        by (cases "x = pid"; cases "j = i")
          (use True old [of x] pj new(1) at [OF True] n q(3) tabx [of x] in \<open>auto simp: g_def\<close>)
    next
      case False
      then have "page_table p x \<noteq> Some j" using t(1) by (simp add: table_ok_def)
      then show ?thesis using False n q(3) tabx [of x] i by auto
    qed
  qed
  moreover have "usage_bounded q"
    using t(3) at n i by (auto simp: usage_bounded_def all_set_conv_all_nth g_def MAX_USAGE_COUNT_def)
  moreover have "\<forall>f \<in> set (frames q). length (fr_data f) = PAGE_SIZE"
    using t(4) at n new(3) by (auto simp: all_set_conv_all_nth g_def)
  ultimately have "pool_wf q" using t(2) n q(4) by (simp add: pool_wf_def)
  moreover have "coherent content q"
    using coh at n q(5) new(2) by (auto simp: coherent_def all_set_conv_all_nth clean_frame_def g_def)
  moreover have "view_le (pool_view content p) (pool_view content q)"
    unfolding view_le_def
  proof (intro allI impI)
    fix x c assume c: "pool_view content p x = Some c"
    have at_i: "frames q ! i = g" using at i by simp
    consider "x = pid" | "x \<noteq> pid" "fr_page_id ?f = Some x" | "x \<noteq> pid" "fr_page_id ?f \<noteq> Some x" by blast
    then show "pool_view content q x = Some c"
    proof cases
      case 1
      then show ?thesis using c new at_i q(3) tabx [of pid] by (simp add: pool_view_def g_def)
    next
      case 2
      then have "page_table p x = Some i" using old by blast
      then show ?thesis using 2 c clean q(3,5) tabx [of x] by (simp add: pool_view_def clean_frame_def)
    next
      case 3
      then have tab': "page_table q x = page_table p x" using q(3) tabx [of x] by simp
      show ?thesis
      proof (cases "page_table p x")
        case None
        then show ?thesis using c tab' q(5) by (simp add: pool_view_def)
      next
        case (Some j)
        then have "j < length (frames p)" using t(1) by (simp add: table_ok_def)
        moreover have "j \<noteq> i" using 3 Some old by auto
        ultimately show ?thesis using c Some tab' at by (simp add: pool_view_def)
      qed
    qed
  qed
  moreover have "fr_page_id (frames q ! i) = Some pid" "fr_pin (frames q ! i) = fr_pin ?f"
    using at i by (simp_all add: g_def)
  ultimately show thesis using that [of q] q(1,5) n at by simp
qed

lemma fetch_hit_keeps:
  assumes wf: "pool_wf p" and coh: "coherent content p" and hit: "page_table p pid = Some i"
  obtains q where "fetch_page rd wr pid mode p = Some (Inr \<lparr>pg_page_id = pid, pg_frame = i\<rparr>, q)"
    "pool_wf q" "coherent content q" "store q = store p" "same_pages p q"
    "pool_view content q = pool_view content p" "i < length (frames p)" "fr_page_id (frames p ! i) = Some pid"
    "fr_pin (frames q ! i) = fr_pin (frames p ! i) + 1"
    "\<And>j. j < length (frames p) \<Longrightarrow> j \<noteq> i \<Longrightarrow> frames q ! j = frames p ! j"
proof -
  let ?f = "frames p ! i"
  define g where "g = record_access mode (?f\<lparr>fr_pin := fr_pin ?f + 1\<rparr>)"
  have i: "i < length (frames p)" "fr_page_id ?f = Some pid" using wf hit by (auto simp: pool_wf_def table_ok_def)
  obtain q where q: "fetch_page rd wr pid mode p = Some (Inr \<lparr>pg_page_id = pid, pg_frame = i\<rparr>, q)"
    "frames q = (frames p)[i := g]" "page_table q = page_table p" "clock_hand q = clock_hand p" "store q = store p"
    using i hit by (simp add: fetch_page_def frame_at_def Let_def set_frame_def g_def)
  have at: "frames q ! j = (if j = i then g else frames p ! j)" if "j < length (frames p)" for j
    using that q(2) by (simp add: nth_list_update)
  have n: "length (frames q) = length (frames p)" using q(2) by simp
  have sp: "same_pages p q"
    using at n q(3) by (auto simp: same_pages_def same_page_def list_all2_conv_all_nth g_def)
  have "fr_usage g \<le> MAX_USAGE_COUNT"
    using wf i(1) by (auto simp: g_def pool_wf_def usage_bounded_def intro!: record_access_usage)
  then have "usage_bounded q"
    using wf at n by (auto simp: pool_wf_def usage_bounded_def all_set_conv_all_nth)
  then have "pool_wf q"
    using wf n q(4) same_pages_table [OF sp] same_pages_data [OF sp] by (auto simp: pool_wf_def)
  moreover have "coherent content q"
    using coh at n q(5) i by (auto simp: coherent_def all_set_conv_all_nth clean_frame_def g_def)
  moreover have "pool_view content q = pool_view content p"
    using same_pages_view [OF sp _ q(5)] wf by (simp add: pool_wf_def)
  ultimately show thesis using that [of q] q i sp at by (simp add: g_def)
qed

text \<open>A miss, all stages together.\<close>

lemma fetch_miss_keeps:
  assumes wf: "pool_wf p" and coh: "coherent content p" and st: "ok (store p)"
    and miss: "page_table p pid = None"
  obtains e q where "fetch_page rd wr pid mode p = Some (Inl e, q)" "pool_wf q" "coherent content q"
      "ok (store q)" "view_le (pool_view content p) (pool_view content q)"
      "length (frames q) = length (frames p)"
      "\<And>j. j < length (frames p) \<Longrightarrow> keeps_frame (frames p ! j) (frames q ! j)"
      "e = AllFramesPinned \<longleftrightarrow> (\<forall>j < length (frames p). \<not> unpinned (frames p ! j))"
    | i q where "fetch_page rd wr pid mode p = Some (Inr \<lparr>pg_page_id = pid, pg_frame = i\<rparr>, q)"
      "pool_wf q" "coherent content q" "ok (store q)" "view_le (pool_view content p) (pool_view content q)"
      "length (frames q) = length (frames p)" "i < length (frames p)" "unpinned (frames p ! i)"
      "fr_page_id (frames q ! i) = Some pid" "fr_pin (frames q ! i) = 1"
      "\<And>j. j < length (frames p) \<Longrightarrow> j \<noteq> i \<Longrightarrow> keeps_frame (frames p ! j) (frames q ! j)"
proof (rule choose_victim_keeps [OF wf coh])
  note fail = that(1) and got = that(2)
  fix q assume q: "choose_victim p = Some (Inl AllFramesPinned, q)"
    "\<And>i. i < length (frames p) \<Longrightarrow> \<not> unpinned (frames p ! i)"
    "pool_wf q" "coherent content q" "same_pages p q" "store q = store p" "frames q = frames p"
  have "fetch_page rd wr pid mode p = Some (Inl AllFramesPinned, q)" using miss q(1) by (simp add: fetch_page_def)
  moreover have "pool_view content q = pool_view content p"
    using same_pages_view [OF q(5) _ q(6)] wf by (simp add: pool_wf_def)
  ultimately show thesis
    using fail [of AllFramesPinned q] q st by (simp add: view_le_refl keeps_frame_def same_page_def)
next
  note fail = that(1) and got = that(2)
  fix v q assume q: "choose_victim p = Some (Inr v, q)" "v < length (frames p)" "unpinned (frames p ! v)"
      "pool_wf q" "coherent content q" "same_pages p q" "store q = store p"
      "\<And>i. i < length (frames p) \<Longrightarrow> fr_pin (frames q ! i) = (if i = v then 1 else fr_pin (frames p ! i))"
  have n: "length (frames q) = length (frames p)" using same_pages_at(1) [OF q(6)] .
  have view: "pool_view content q = pool_view content p"
    using same_pages_view [OF q(6) _ q(7)] wf by (simp add: pool_wf_def)
  have okq: "ok (store q)" "v < length (frames q)" using st q(2,7) n by simp_all
  have pv: "fr_pin (frames p ! v) = 0" using q(3) by (simp add: unpinned_def)
  have failed: thesis
    if "fetch_page rd wr pid mode p = Some (Inl (Io e), r)" "pool_wf r" "coherent content r" "ok (store r)"
      "view_le (pool_view content q) (pool_view content r)" "same_pages q r"
      "\<And>j. j < length (frames p) \<Longrightarrow> fr_pin (frames r ! j) = (if j = v then 0 else fr_pin (frames q ! j))" for e r
  proof -
    note r = that
    have sp: "same_pages p r" using same_pages_trans [OF q(6) r(6)] .
    have "keeps_frame (frames p ! j) (frames r ! j)" if "j < length (frames p)" for j
      using same_pages_at(3,4) [OF sp that] r(7) [OF that] q(8) [OF that] pv
      by (auto simp: keeps_frame_def same_page_def)
    then show thesis using fail [of "Io e" r]
      using r(1-5) same_pages_at(1) [OF sp] view q(2,3) by auto
  qed
  show thesis
  proof (rule write_back_cases [OF q(4,5) okq])
    fix e r assume r: "write_back wr v q = Some (Inl (Io e), r)" "pool_wf r" "coherent content r" "ok (store r)"
      "same_pages q r" "view_le (pool_view content q) (pool_view content r)"
      "\<And>j. j < length (frames q) \<Longrightarrow> fr_pin (frames r ! j) = (if j = v then 0 else fr_pin (frames q ! j))"
    have "fetch_page rd wr pid mode p = Some (Inl (Io e), r)" using miss q(1) r(1) by (simp add: fetch_page_def)
    then show thesis using r n by (intro failed) auto
  next
    fix r assume r: "write_back wr v q = Some (Inr (), r)" "pool_wf r" "coherent content r" "ok (store r)"
      "same_pages q r" "view_le (pool_view content q) (pool_view content r)"
      "\<And>j. j < length (frames q) \<Longrightarrow> fr_pin (frames r ! j) = fr_pin (frames q ! j)"
      "clean_frame content (store r) (frames r ! v)"
    have nr: "length (frames r) = length (frames p)" using same_pages_at(1) [OF r(5)] n by simp
    have zero: "length (replicate PAGE_SIZE (0 :: u8)) = PAGE_SIZE" by simp
    have miss_r: "page_table r pid = None" using miss same_pages_at(2) [OF q(6)] same_pages_at(2) [OF r(5)] by simp
    show thesis
    proof (rule rd_cases [OF r(4) zero, of pid])
      fix e b' s' assume rd: "rd pid (replicate PAGE_SIZE 0) (store r) = Some (Inl e, b', s')" "ok s'"
        "content s' = content (store r)"
      define r1 where "r1 = r\<lparr>store := s'\<rparr>"
      define t where "t = set_frame v ((frames r1 ! v)\<lparr>fr_pin := 0\<rparr>) r1"
      have r1: "pool_wf r1" "coherent content r1" "pool_view content r1 = pool_view content r" "same_pages r r1"
        unfolding r1_def using set_store_keeps [of r content s', OF r(2,3) rd(3)] by simp_all
      have v1: "v < length (frames r1)" using nr q(2) by (simp add: r1_def)
      note k = set_pin_keeps [OF v1 r1(1,2), where c = 0, folded t_def]
      have "fetch_page rd wr pid mode p = Some (Inl (Io e), t)"
        using miss q(1) r(1) rd(1) nr q(2)
        by (simp add: fetch_page_def release_victim_def frame_at_def t_def r1_def Let_def)
      moreover have "pool_view content t = pool_view content r"
        using same_pages_view [OF k(3) _ k(4)] r1 by (simp add: pool_wf_def)
      moreover have "same_pages q t" using same_pages_trans [OF r(5) same_pages_trans [OF r1(4) k(3)]] .
      ultimately show thesis using k r(6,7) rd(2) n nr by (intro failed [of e t]) (auto simp: r1_def)
    next
      fix b' s' assume rd: "rd pid (replicate PAGE_SIZE 0) (store r) = Some (Inr (), b', s')" "ok s'"
        "content s' = content (store r)" "content (store r) pid = Some b'" "length b' = PAGE_SIZE"
      define r1 where "r1 = r\<lparr>store := s'\<rparr>"
      have r1: "pool_wf r1" "coherent content r1" "pool_view content r1 = pool_view content r"
        unfolding r1_def using set_store_keeps [of r content s', OF r(2,3) rd(3)] by simp_all
      have v1: "v < length (frames r1)" using nr q(2) by (simp add: r1_def)
      have clean1: "clean_frame content (store r1) (frames r1 ! v)"
        using r(8) rd(3) by (simp add: r1_def clean_frame_def)
      have new: "page_table r1 pid = None" "content (store r1) pid = Some b'"
        using miss_r rd(3,4) by (simp_all add: r1_def)
      show thesis
      proof (rule install_page_keeps [OF r1(1,2) v1 clean1 new rd(5)])
        fix t assume t: "install_page v pid b' r1 = Some t" "pool_wf t" "coherent content t" "store t = store r1"
          "view_le (pool_view content r1) (pool_view content t)" "length (frames t) = length (frames r1)"
          "fr_page_id (frames t ! v) = Some pid" "fr_pin (frames t ! v) = fr_pin (frames r1 ! v)"
          "\<And>j. j < length (frames r1) \<Longrightarrow> j \<noteq> v \<Longrightarrow> frames t ! j = frames r1 ! j"
        have "fetch_page rd wr pid mode p = Some (Inr \<lparr>pg_page_id = pid, pg_frame = v\<rparr>, t)"
          using miss q(1) r(1) rd(1) t(1) by (simp add: fetch_page_def r1_def Let_def)
        moreover have "view_le (pool_view content p) (pool_view content t)"
          using view_le_trans r(6) t(5) r1(3) view by metis
        moreover have "keeps_frame (frames p ! j) (frames t ! j)" if "j < length (frames p)" "j \<noteq> v" for j
        proof -
          have "frames t ! j = frames r ! j" using t(9) [of j] that nr by (simp add: r1_def)
          then show ?thesis
            using same_pages_at(3,4) [OF same_pages_trans [OF q(6) r(5)] that(1)] r(7) q(8) that n
            by (auto simp: keeps_frame_def same_page_def)
        qed
        moreover have "fr_pin (frames t ! v) = 1" using t(8) r(7) q(2,8) n by (simp add: r1_def)
        ultimately show thesis
          using got [of v t]
            t(2,3,4,6,7) rd(2) q(2,3) nr by (simp add: r1_def)
      qed
    qed
  qed
qed

end

end
