(* ===== verification/Disk_Correct.thy ===== *)
theory Disk_Correct imports Page_Store begin

text \<open>
  \<^verbatim>\<open>DiskManager\<close> implements the contract of \<^verbatim>\<open>PageStore\<close>, with any checksum function and any faults:
  a successful read returns the page on disk, a successful write stores exactly the sealed buffer, a
  failed write can damage only the page it was writing. Then the segment layout and page allocation.
\<close>

section \<open>The page on disk\<close>

definition page_file_of :: "string \<Rightarrow> page_id \<Rightarrow> relation_file" where
  "page_file_of dir pid = \<lparr>rf_relation_id = relation_id pid,
     rf_path = relation_path dir (relation_id pid) (get_segment_idx (page_no pid)), rf_page_size = PAGE_SIZE\<rparr>"

definition page_offset :: "page_id \<Rightarrow> nat" where
  "page_offset pid = unat (page_no pid) * PAGE_SIZE"

definition page_valid :: "(bytes \<Rightarrow> u32) \<Rightarrow> bytes \<Rightarrow> bool" where
  "page_valid crc b \<longleftrightarrow> length b = PAGE_SIZE \<and> u32_from_le (bslice 13 4 b) = crc (drop PAGE_HEADER_SIZE b)"

definition stored_page :: "(bytes \<Rightarrow> u32) \<Rightarrow> disk \<Rightarrow> page_id \<Rightarrow> bytes option" where
  "stored_page crc d pid =
     (let b = bslice (page_offset pid) PAGE_SIZE
                (file_bytes (disk_os d) (rf_path (page_file_of (relations_dir d) pid)))
      in if page_valid crc b then Some b else None)"

definition seal_page :: "(bytes \<Rightarrow> u32) \<Rightarrow> bytes \<Rightarrow> bytes" where
  "seal_page crc b = sealed (crc (drop PAGE_HEADER_SIZE b)) b"

definition disk_ok :: "disk \<Rightarrow> bool" where
  "disk_ok d \<longleftrightarrow> (\<forall>rel seg rf. open_relations d (rel, seg) = Some rf \<longrightarrow>
     rf = \<lparr>rf_relation_id = rel, rf_path = relation_path (relations_dir d) rel seg, rf_page_size = PAGE_SIZE\<rparr>)"

lemma stored_page_cong:
  "file_bytes (disk_os d') = file_bytes (disk_os d) \<Longrightarrow> relations_dir d' = relations_dir d \<Longrightarrow>
   stored_page crc d' = stored_page crc d"
  by (simp add: stored_page_def fun_eq_iff)

lemma seal_page_simps:
  assumes "length b = PAGE_SIZE"
  shows "length (seal_page crc b) = PAGE_SIZE" "masked (seal_page crc b) = masked b"
    and "page_valid crc (seal_page crc b)"
  using assms by (simp_all add: seal_page_def page_valid_def sealed_checksum sealed_body page_consts)

lemma page_offset_disjoint:
  "page_no p \<noteq> page_no q \<Longrightarrow>
   page_offset q + PAGE_SIZE \<le> page_offset p \<or> page_offset p + PAGE_SIZE \<le> page_offset q"
proof -
  assume "page_no p \<noteq> page_no q"
  then have "unat (page_no p) \<noteq> unat (page_no q)" by (simp add: unat_inj_iff)
  then show ?thesis by (simp add: page_offset_def PAGE_SIZE_def) arith
qed

lemma page_offset_u64: "page_offset pid < 2 ^ 64"
proof -
  have "unat (page_no pid) < 4503599627370496" by (rule less_trans [OF unat_u32_less]) simp
  then show ?thesis by (simp add: page_offset_def PAGE_SIZE_def)
qed

lemma page_file_path_iff:
  "rf_path (page_file_of dir p) = rf_path (page_file_of dir q) \<longleftrightarrow>
   relation_id p = relation_id q \<and> get_segment_idx (page_no p) = get_segment_idx (page_no q)"
  by (simp add: page_file_of_def relation_path_inj)

lemma page_file_of_sel [simp]:
  "rf_relation_id (page_file_of dir p) = relation_id p" "rf_page_size (page_file_of dir p) = PAGE_SIZE"
  by (simp_all add: page_file_of_def)

section \<open>Reads and writes of one file\<close>

lemma compute_checksum_eq: "17 \<le> length b \<Longrightarrow> compute_checksum crc b = Some (crc (drop PAGE_HEADER_SIZE b))"
  by (simp add: compute_checksum_def slice_opt_def bslice_def PAGE_HEADER_SIZE_def)

lemma rf_read_verified:
  assumes "length b = PAGE_SIZE" "rf_page_size rf = PAGE_SIZE" "unat n * PAGE_SIZE < 2 ^ 64"
  shows "\<exists>r b' s'. rf_read_and_verify_page crc rf n b s = Some (r, b', s') \<and>
    os_files s' = os_files s \<and> length b' = PAGE_SIZE \<and>
    (r = Inr () \<longrightarrow> page_valid crc b' \<and>
       b' = bslice (unat n * PAGE_SIZE) PAGE_SIZE (file_bytes s (rf_path rf)))"
proof -
  obtain r b' s' where os: "os_read_exact_at (rf_path rf) (unat n * PAGE_SIZE) b s = (r, b', s')"
    using prod_cases3 by blast
  note f = os_read_files [OF os]
  then have len: "length b' = PAGE_SIZE" using assms by simp
  have read: "rf_read_page rf n b s = Some (r, b', s')"
    using assms os by (simp add: rf_read_page_def)
  show ?thesis
  proof (cases r)
    case (Inl e)
    then show ?thesis using read f len by (simp add: rf_read_and_verify_page_def)
  next
    case (Inr x)
    have "slice_opt 13 17 b' = Some (bslice 13 4 b')" "17 \<le> length b'"
      using len by (simp_all add: slice_opt_def PAGE_SIZE_def)
    then show ?thesis using Inr read f len assms(1)
      by (simp add: rf_read_and_verify_page_def compute_checksum_eq page_valid_def)
  qed
qed

lemma rf_write_checksummed:
  assumes "length b = PAGE_SIZE" "rf_page_size rf = PAGE_SIZE" "unat n * PAGE_SIZE < 2 ^ 64"
  obtains r s' k where "rf_write_page_with_checksum crc rf n b s = Some (r, seal_page crc b, s')"
    and "file_bytes s' (rf_path rf) =
      patch (unat n * PAGE_SIZE) (take k (seal_page crc b)) (file_bytes s (rf_path rf))"
    and "\<forall>q. q \<noteq> rf_path rf \<longrightarrow> os_files s' q = os_files s q"
    and "r = Inr () \<longrightarrow> PAGE_SIZE \<le> k"
proof -
  let ?b = "seal_page crc b"
  have len: "length ?b = PAGE_SIZE" using seal_page_simps(1) [OF assms(1)] .
  obtain r s' where os: "os_write_all_at (rf_path rf) (unat n * PAGE_SIZE) ?b s = (r, s')"
    by fastforce
  obtain k where k: "file_bytes s' (rf_path rf) =
      patch (unat n * PAGE_SIZE) (take k ?b) (file_bytes s (rf_path rf))"
    "\<forall>q. q \<noteq> rf_path rf \<longrightarrow> os_files s' q = os_files s q" "r = Inr () \<longrightarrow> length ?b \<le> k"
    using os_write_files [OF os] by metis
  have "rf_write_page_with_checksum crc rf n b s = Some (r, ?b, s')"
    using assms os len
    by (simp add: rf_write_page_with_checksum_def compute_checksum_eq rf_write_page_def
        overwrite_opt_def seal_page_def sealed_def PAGE_SIZE_def)
  from that [OF this k(1,2)] k(3) len show thesis by simp
qed

section \<open>The manager\<close>

lemma get_relation_ok:
  assumes "disk_ok d" "disk_get_relation pid d = (r, d')"
  shows "disk_ok d'" "file_bytes (disk_os d') = file_bytes (disk_os d)"
    and "relations_dir d' = relations_dir d"
    and "r = Inr rf \<Longrightarrow> rf = page_file_of (relations_dir d) pid"
proof -
  let ?seg = "get_segment_idx (page_no pid)"
  show "disk_ok d'" "file_bytes (disk_os d') = file_bytes (disk_os d)"
    "relations_dir d' = relations_dir d"
    "r = Inr rf \<Longrightarrow> rf = page_file_of (relations_dir d) pid"
    using assms os_open_files [of "relation_path (relations_dir d) (relation_id pid) ?seg" "disk_os d"]
    by (auto simp: disk_get_relation_def Let_def disk_ok_def rf_open_def page_file_of_def
        split: option.splits prod.splits sum.splits if_splits)
qed

lemma disk_read_cases:
  assumes "disk_ok d" "length b = PAGE_SIZE"
  shows "\<exists>r b' d'. disk_read_page crc pid b d = Some (r, b', d') \<and> disk_ok d' \<and>
    stored_page crc d' = stored_page crc d \<and> length b' = PAGE_SIZE \<and>
    (r = Inr () \<longrightarrow> stored_page crc d pid = Some b')"
proof -
  obtain r d1 where get: "disk_get_relation pid d = (r, d1)" by fastforce
  note g = get_relation_ok [OF assms(1) get]
  show ?thesis
  proof (cases r)
    case (Inl e)
    then show ?thesis using get g assms(2) stored_page_cong [OF g(2,3)] by (simp add: disk_read_page_def)
  next
    case (Inr rf)
    then have rf: "rf = page_file_of (relations_dir d) pid" using g(4) by simp
    then have "rf_page_size rf = PAGE_SIZE" by simp
    from rf_read_verified [OF assms(2) this page_offset_u64 [unfolded page_offset_def],
        of crc pid "disk_os d1"]
    obtain v b' s' where v: "rf_read_and_verify_page crc rf (page_no pid) b (disk_os d1) = Some (v, b', s')"
      "os_files s' = os_files (disk_os d1)" "length b' = PAGE_SIZE"
      "v = Inr () \<longrightarrow> page_valid crc b' \<and>
         b' = bslice (page_offset pid) PAGE_SIZE (file_bytes (disk_os d1) (rf_path rf))"
      by (auto simp: page_offset_def)
    have bytes: "file_bytes s' = file_bytes (disk_os d)"
      using v(2) g(2) by (simp add: file_bytes_def fun_eq_iff)
    have "disk_ok (d1\<lparr>disk_os := s'\<rparr>)" using g(1) by (simp add: disk_ok_def)
    moreover have "stored_page crc (d1\<lparr>disk_os := s'\<rparr>) = stored_page crc d"
      using bytes g(3) by (intro stored_page_cong) simp_all
    moreover have "v = Inr () \<longrightarrow> stored_page crc d pid = Some b'"
      using v(4) rf g(2) by (auto simp: stored_page_def Let_def)
    ultimately show ?thesis using get Inr v by (simp add: disk_read_page_def)
  qed
qed

lemma disk_write_cases:
  assumes "disk_ok d" "length b = PAGE_SIZE"
  shows "\<exists>r b' d'. disk_write_page crc pid b d = Some (r, b', d') \<and> disk_ok d' \<and>
    length b' = PAGE_SIZE \<and> masked b' = masked b \<and>
    (\<forall>q c. q \<noteq> pid \<longrightarrow> stored_page crc d q = Some c \<longrightarrow> stored_page crc d' q = Some c) \<and>
    (r = Inr () \<longrightarrow> b' = seal_page crc b \<and> stored_page crc d' pid = Some b')"
proof -
  let ?b = "seal_page crc b"
  note sp = seal_page_simps [OF assms(2), of crc]
  obtain r d1 where get: "disk_get_relation pid d = (r, d1)" by fastforce
  note g = get_relation_ok [OF assms(1) get]
  show ?thesis
  proof (cases r)
    case (Inl e)
    then show ?thesis using get g assms(2) stored_page_cong [OF g(2,3)] by (simp add: disk_write_page_def)
  next
    case (Inr rf)
    then have rf: "rf = page_file_of (relations_dir d) pid" using g(4) by simp
    then have "rf_page_size rf = PAGE_SIZE" by simp
    from rf_write_checksummed [OF assms(2) this page_offset_u64 [unfolded page_offset_def]]
    obtain v s' k where w: "rf_write_page_with_checksum crc rf (page_no pid) b (disk_os d1) = Some (v, ?b, s')"
      "file_bytes s' (rf_path rf) =
        patch (page_offset pid) (take k ?b) (file_bytes (disk_os d1) (rf_path rf))"
      "\<forall>q. q \<noteq> rf_path rf \<longrightarrow> os_files s' q = os_files (disk_os d1) q"
      "v = Inr () \<longrightarrow> PAGE_SIZE \<le> k"
      unfolding page_offset_def by blast
    define d' where "d' = d1\<lparr>disk_os := s'\<rparr>"
    have dir: "relations_dir d' = relations_dir d" using g(3) by (simp add: d'_def)
    have "stored_page crc d' q = Some c" if q: "q \<noteq> pid" "stored_page crc d q = Some c" for q c
    proof -
      let ?f = "file_bytes (disk_os d) (rf_path (page_file_of (relations_dir d) q))"
      have full: "page_offset q + PAGE_SIZE \<le> length ?f"
        using q(2) by (auto simp: stored_page_def Let_def page_valid_def PAGE_SIZE_def split: if_splits)
      have "bslice (page_offset q) PAGE_SIZE
          (file_bytes s' (rf_path (page_file_of (relations_dir d) q))) = bslice (page_offset q) PAGE_SIZE ?f"
      proof (cases "rf_path (page_file_of (relations_dir d) q) = rf_path rf")
        case True
        then have "page_no q \<noteq> page_no pid" using q(1) rf by (auto simp: page_file_path_iff)
        then have "page_offset q + PAGE_SIZE \<le> page_offset pid \<or>
            page_offset pid + length (take k ?b) \<le> page_offset q"
          using page_offset_disjoint [of pid q] sp(1) by auto
        then show ?thesis using full True w(2) g(2) by (simp add: patch_other)
      next
        case False
        then show ?thesis using w(3) g(2) by (simp add: file_bytes_def fun_eq_iff)
      qed
      then show ?thesis using q(2) dir by (simp add: stored_page_def d'_def)
    qed
    moreover have "stored_page crc d' pid = Some ?b" if "v = Inr ()"
    proof -
      have "take k ?b = ?b" using that w(4) sp(1) by simp
      then show ?thesis
        using w(2) rf dir sp by (simp add: stored_page_def d'_def patch_same)
    qed
    moreover have "disk_ok d'" using g(1) by (simp add: disk_ok_def d'_def)
    moreover have "disk_write_page crc pid b d = Some (v, ?b, d')"
      using get Inr w(1) by (simp add: disk_write_page_def d'_def)
    ultimately show ?thesis using sp by auto
  qed
qed

section \<open>The contract holds\<close>

interpretation dm: page_store "disk_read_page crc" "disk_write_page crc" "stored_page crc" disk_ok
  for crc
proof
  fix s :: disk and b :: bytes and p
  assume ok: "disk_ok s" and len: "length b = PAGE_SIZE"
  note r = disk_read_cases [OF ok len, of crc p] and w = disk_write_cases [OF ok len, of crc p]
  show "disk_read_page crc p b s \<noteq> None" using r by auto
  show "disk_write_page crc p b s \<noteq> None" using w by auto
next
  fix s :: disk and b :: bytes and p v b' s'
  assume ok: "disk_ok s" and rd: "disk_read_page crc p b s = Some (v, b', s')"
    and len: "length b = PAGE_SIZE"
  note r = disk_read_cases [OF ok len, of crc p]
  show "disk_ok s' \<and> stored_page crc s' = stored_page crc s \<and> length b' = PAGE_SIZE" using r rd by auto
next
  fix s :: disk and b :: bytes and p b' s'
  assume ok: "disk_ok s" and rd: "disk_read_page crc p b s = Some (Inr (), b', s')"
    and len: "length b = PAGE_SIZE"
  show "stored_page crc s p = Some b'" using disk_read_cases [OF ok len, of crc p] rd by auto
next
  fix s :: disk and b :: bytes and p v b' s'
  assume ok: "disk_ok s" and wr: "disk_write_page crc p b s = Some (v, b', s')"
    and len: "length b = PAGE_SIZE"
  note w = disk_write_cases [OF ok len, of crc p]
  show "disk_ok s' \<and> length b' = PAGE_SIZE \<and> masked b' = masked b" using w wr by auto
  fix q c assume "q \<noteq> p" "stored_page crc s q = Some c"
  then show "stored_page crc s' q = Some c" using w wr by auto
next
  fix s :: disk and b :: bytes and p b' s'
  assume ok: "disk_ok s" and wr: "disk_write_page crc p b s = Some (Inr (), b', s')"
    and len: "length b = PAGE_SIZE"
  show "stored_page crc s' p = Some b'" using disk_write_cases [OF ok len, of crc p] wr by auto
qed

section \<open>Properties of the store\<close>

definition blank_disk :: disk where
  "blank_disk = \<lparr>relations_dir = ''db/relations'', open_relations = (\<lambda>_. None),
     disk_os = \<lparr>os_files = (\<lambda>_. None), os_faults = []\<rparr>\<rparr>"

lemma blank_disk_ok: "disk_ok blank_disk"
  by (simp add: blank_disk_def disk_ok_def)

lemma take_fault_none: "os_faults s = [] \<Longrightarrow> take_fault s = (None, s)"
  by (simp add: take_fault.simps)

lemma get_relation_faultless:
  assumes "os_faults (disk_os d) = []"
  shows "\<exists>rf d'. disk_get_relation pid d = (Inr rf, d') \<and> os_faults (disk_os d') = []"
  using assms
  by (auto simp: disk_get_relation_def Let_def rf_open_def os_open_def take_fault_none split: option.splits)

lemma read_faultless:
  assumes "disk_ok d" "length b = PAGE_SIZE" "os_faults (disk_os d) = []"
    and "stored_page crc d pid = Some c"
  shows "\<exists>d'. disk_read_page crc pid b d = Some (Inr (), c, d')"
proof -
  obtain rf d1 where get: "disk_get_relation pid d = (Inr rf, d1)" "os_faults (disk_os d1) = []"
    using get_relation_faultless [OF assms(3)] by blast
  note g = get_relation_ok [OF assms(1) get(1)]
  have rf: "rf = page_file_of (relations_dir d) pid" using g(4) by simp
  have c: "c = bslice (page_offset pid) PAGE_SIZE (file_bytes (disk_os d1) (rf_path rf))" "page_valid crc c"
    using assms(4) g(2) rf by (auto simp: stored_page_def Let_def split: if_splits)
  then have "length c = 4096" by (simp add: page_valid_def PAGE_SIZE_def)
  then have "os_read_exact_at (rf_path rf) (unat (page_no pid) * PAGE_SIZE) b (disk_os d1) =
      (Inr (), c, disk_os d1)"
    using c(1) get(2) assms(2)
    by (simp add: os_read_exact_at_def take_fault_none page_offset_def PAGE_SIZE_def overwrite_def)
  moreover have "slice_opt 13 17 c = Some (bslice 13 4 c)"
    using \<open>length c = 4096\<close> by (simp add: slice_opt_def)
  ultimately show ?thesis
    using get rf assms(2) page_offset_u64 [of pid] c(2) \<open>length c = 4096\<close>
    by (simp add: disk_read_page_def rf_read_and_verify_page_def rf_read_page_def page_offset_def
        compute_checksum_eq page_valid_def)
qed

text \<open>C8: for every checksum function, a page written through the \<^verbatim>\<open>DiskManager\<close> without an error is
  read back, when the file system does not fail, as the written bytes with the checksum field filled
  in; what was stored for every other page of any relation reads back unchanged.\<close>
theorem disk_write_then_read:
  assumes "disk_ok d" "length b = PAGE_SIZE" "length buf = PAGE_SIZE"
    and "disk_write_page crc pid b d = Some (Inr (), b', d')" "os_faults (disk_os d') = []"
  shows "(\<exists>d''. disk_read_page crc pid buf d' = Some (Inr (), seal_page crc b, d'')) \<and>
    (\<forall>q c. q \<noteq> pid \<longrightarrow> stored_page crc d q = Some c \<longrightarrow>
       (\<exists>d''. disk_read_page crc q buf d' = Some (Inr (), c, d'')))"
proof (intro conjI allI impI)
  have ok: "disk_ok d'" using dm.wr_keeps [OF assms(1,4,2)] by simp
  have "stored_page crc d' pid = Some (seal_page crc b)"
    using disk_write_cases [OF assms(1,2), of crc pid] assms(4) by auto
  from read_faultless [OF ok assms(3,5) this]
  show "\<exists>d''. disk_read_page crc pid buf d' = Some (Inr (), seal_page crc b, d'')" .
  fix q c assume "q \<noteq> pid" "stored_page crc d q = Some c"
  then have "stored_page crc d' q = Some c" using dm.wr_other [OF assms(1,4,2)] by blast
  from read_faultless [OF ok assms(3,5) this]
  show "\<exists>d''. disk_read_page crc q buf d' = Some (Inr (), c, d'')" .
qed

lemma blank_write:
  "\<exists>d'. disk_write_page crc pid (replicate PAGE_SIZE 7) blank_disk =
      Some (Inr (), seal_page crc (replicate PAGE_SIZE 7), d') \<and> os_faults (disk_os d') = []"
proof -
  let ?b = "replicate PAGE_SIZE 7 :: bytes"
  obtain rf d1 where get: "disk_get_relation pid blank_disk = (Inr rf, d1)" "os_faults (disk_os d1) = []"
    using get_relation_faultless [of blank_disk pid] by (auto simp: blank_disk_def)
  have rf: "rf = page_file_of (relations_dir blank_disk) pid"
    using get_relation_ok(4) [OF blank_disk_ok get(1)] by simp
  have len: "length (seal_page crc ?b) = PAGE_SIZE" by (simp add: seal_page_simps)
  have "overwrite_opt 13 (u32_to_le (crc (drop PAGE_HEADER_SIZE ?b))) ?b = Some (seal_page crc ?b)"
    by (simp add: overwrite_opt_def seal_page_def sealed_def PAGE_SIZE_def)
  moreover have "compute_checksum crc ?b = Some (crc (drop PAGE_HEADER_SIZE ?b))"
    by (rule compute_checksum_eq) (simp add: PAGE_SIZE_def)
  moreover have "unat (page_no pid) * PAGE_SIZE < 2 ^ 64"
    using page_offset_u64 [of pid] by (simp add: page_offset_def)
  ultimately show ?thesis using get rf len
    by (simp add: disk_write_page_def rf_write_page_with_checksum_def rf_write_page_def
        os_write_all_at_def take_fault_none)
qed

theorem disk_write_then_read_witness:
  "\<exists>d' d''. disk_write_page (\<lambda>_. 5) \<lparr>relation_id = 3, page_no = 262144\<rparr> (replicate PAGE_SIZE 7) blank_disk =
      Some (Inr (), seal_page (\<lambda>_. 5) (replicate PAGE_SIZE 7), d') \<and>
    disk_read_page (\<lambda>_. 5) \<lparr>relation_id = 3, page_no = 262144\<rparr> (replicate PAGE_SIZE 0) d' =
      Some (Inr (), seal_page (\<lambda>_. 5) (replicate PAGE_SIZE 7), d'')"
proof -
  obtain d' where d': "disk_write_page (\<lambda>_. 5) \<lparr>relation_id = 3, page_no = 262144\<rparr> (replicate PAGE_SIZE 7) blank_disk =
      Some (Inr (), seal_page (\<lambda>_. 5) (replicate PAGE_SIZE 7), d')" "os_faults (disk_os d') = []"
    using blank_write by blast
  from disk_write_then_read [OF blank_disk_ok _ _ d', of "replicate PAGE_SIZE 0"] d'(1)
  show ?thesis by (auto simp: PAGE_SIZE_def)
qed

text \<open>C17: whatever fails in the file system and wherever, a \<^verbatim>\<open>write_page\<close> of a full page returns, keeps
  the manager consistent and damages no other page; the caller's buffer changes in the checksum field
  only. A \<^verbatim>\<open>read_page\<close> changes no page, and when it succeeds returns what is stored.\<close>
theorem disk_faults_contained:
  assumes "disk_ok d" "length b = PAGE_SIZE"
  shows "(\<exists>r b' d'. disk_write_page crc pid b d = Some (r, b', d') \<and> disk_ok d' \<and> masked b' = masked b \<and>
      (\<forall>q c. q \<noteq> pid \<longrightarrow> stored_page crc d q = Some c \<longrightarrow> stored_page crc d' q = Some c)) \<and>
    (\<exists>r b' d'. disk_read_page crc pid b d = Some (r, b', d') \<and> disk_ok d' \<and>
      stored_page crc d' = stored_page crc d \<and> (r = Inr () \<longrightarrow> stored_page crc d pid = Some b'))"
proof
  show "\<exists>r b' d'. disk_write_page crc pid b d = Some (r, b', d') \<and> disk_ok d' \<and> masked b' = masked b \<and>
      (\<forall>q c. q \<noteq> pid \<longrightarrow> stored_page crc d q = Some c \<longrightarrow> stored_page crc d' q = Some c)"
    using assms by (rule dm.wr_cases) blast
  show "\<exists>r b' d'. disk_read_page crc pid b d = Some (r, b', d') \<and> disk_ok d' \<and>
      stored_page crc d' = stored_page crc d \<and> (r = Inr () \<longrightarrow> stored_page crc d pid = Some b')"
    using assms by (rule dm.rd_cases) auto
qed

theorem disk_faults_contained_witness:
  "\<exists>r b' d'. disk_write_page (\<lambda>_. 5) \<lparr>relation_id = 1, page_no = 0\<rparr> (replicate PAGE_SIZE 7)
      (blank_disk\<lparr>disk_os := \<lparr>os_files = (\<lambda>_. None), os_faults = [None, Some 100]\<rparr>\<rparr>) = Some (r, b', d') \<and> disk_ok d'"
proof -
  let ?d = "blank_disk\<lparr>disk_os := \<lparr>os_files = (\<lambda>_. None), os_faults = [None, Some 100]\<rparr>\<rparr>"
  have "disk_ok ?d" by (simp add: disk_ok_def blank_disk_def)
  from disk_faults_contained [OF this, of "replicate PAGE_SIZE 7"] show ?thesis by fastforce
qed

end
