(* ===== verification/Clock_Runs.thy ===== *)
theory Clock_Runs imports Clock_Correct Disk_Correct begin

text \<open>
  Whole executions of the CLOCK pool: clients fetch pages, read and write through their guards, drop
  them and flush, in any order. The theorems hold for every store that meets the contract and are
  stated for \<^verbatim>\<open>DiskManager\<close> under arbitrary faults of the file system.
\<close>

section \<open>Clients\<close>

record 's world =
  w_pool :: "'s pool"
  w_guards :: "page_guard option list"

datatype pool_op =
    OFetch page_id access_mode
  | ORead nat
  | OWrite nat "bytes \<Rightarrow> bytes"
  | ODrop nat
  | OFlush

datatype pool_out =
    Fetched
  | FetchFailed pool_error
  | ReadGot page_id bytes
  | Wrote page_id bytes
  | Dropped
  | FlushDone "pool_error + unit"
  | NoGuard

text \<open>Guards are numbered in the order of the fetches that returned them; a dropped guard is gone.\<close>

definition live_guard :: "nat \<Rightarrow> 's world \<Rightarrow> page_guard option" where
  "live_guard h w = (if h < length (w_guards w) then w_guards w ! h else None)"

fun pool_step ::
    "(page_id \<Rightarrow> bytes \<Rightarrow> 's \<Rightarrow> ((io_error + unit) \<times> bytes \<times> 's) option) \<Rightarrow>
     (page_id \<Rightarrow> bytes \<Rightarrow> 's \<Rightarrow> ((io_error + unit) \<times> bytes \<times> 's) option) \<Rightarrow>
     pool_op \<Rightarrow> 's world \<Rightarrow> (pool_out \<times> 's world) option" where
  "pool_step rd wr (OFetch pid mode) w = do {
     (r, p) \<leftarrow> fetch_page rd wr pid mode (w_pool w);
     (case r of
        Inl e \<Rightarrow> Some (FetchFailed e, w\<lparr>w_pool := p\<rparr>)
      | Inr g \<Rightarrow> Some (Fetched, w\<lparr>w_pool := p, w_guards := w_guards w @ [Some g]\<rparr>))
   }"
| "pool_step rd wr (ORead h) w = (case live_guard h w of
      None \<Rightarrow> Some (NoGuard, w)
    | Some g \<Rightarrow> do { d \<leftarrow> guard_read g (\<lambda>d. d) (w_pool w); Some (ReadGot (pg_page_id g) d, w) })"
| "pool_step rd wr (OWrite h fn) w = (case live_guard h w of
      None \<Rightarrow> Some (NoGuard, w)
    | Some g \<Rightarrow> do {
        d \<leftarrow> guard_read g fn (w_pool w);
        p \<leftarrow> guard_write g fn (w_pool w);
        Some (Wrote (pg_page_id g) d, w\<lparr>w_pool := p\<rparr>)
      })"
| "pool_step rd wr (ODrop h) w = (case live_guard h w of
      None \<Rightarrow> Some (NoGuard, w)
    | Some g \<Rightarrow> do {
        p \<leftarrow> guard_drop g (w_pool w);
        Some (Dropped, w\<lparr>w_pool := p, w_guards := (w_guards w)[h := None]\<rparr>)
      })"
| "pool_step rd wr OFlush w = do {
     (r, p) \<leftarrow> flush_all wr (w_pool w);
     Some (FlushDone r, w\<lparr>w_pool := p\<rparr>)
   }"

fun pool_run ::
    "(page_id \<Rightarrow> bytes \<Rightarrow> 's \<Rightarrow> ((io_error + unit) \<times> bytes \<times> 's) option) \<Rightarrow>
     (page_id \<Rightarrow> bytes \<Rightarrow> 's \<Rightarrow> ((io_error + unit) \<times> bytes \<times> 's) option) \<Rightarrow>
     pool_op list \<Rightarrow> 's world \<Rightarrow> (pool_out list \<times> 's world) option" where
  "pool_run rd wr [] w = Some ([], w)"
| "pool_run rd wr (x # xs) w = do {
     (r, w) \<leftarrow> pool_step rd wr x w;
     (rs, w) \<leftarrow> pool_run rd wr xs w;
     Some (r # rs, w)
   }"

section \<open>The specification: a memory of pages\<close>

text \<open>Only writes change the memory, and a read returns what the memory holds (up to the checksum field,
  which belongs to the disk layer).\<close>

fun effect :: "pool_out \<Rightarrow> (page_id \<Rightarrow> bytes option) \<Rightarrow> page_id \<Rightarrow> bytes option" where
  "effect (Wrote pid d) v = v(pid \<mapsto> masked d)"
| "effect _ v = v"

fun out_ok :: "(page_id \<Rightarrow> bytes option) \<Rightarrow> pool_out \<Rightarrow> bool" where
  "out_ok v (ReadGot pid d) = (case v pid of None \<Rightarrow> True | Some c \<Rightarrow> c = masked d)"
| "out_ok v _ = True"

fun outs_ok :: "(page_id \<Rightarrow> bytes option) \<Rightarrow> pool_out list \<Rightarrow> bool" where
  "outs_ok v [] = True"
| "outs_ok v (x # xs) = (out_ok v x \<and> outs_ok (effect x v) xs)"

definition op_ok :: "pool_op \<Rightarrow> bool" where
  "op_ok x \<longleftrightarrow> (\<forall>h fn d. x = OWrite h fn \<longrightarrow> length d = PAGE_SIZE \<longrightarrow> length (fn d) = PAGE_SIZE)"

text \<open>Pin counts count guards, and every live guard names a frame that holds its page.\<close>

definition guards_on :: "nat \<Rightarrow> page_guard option list \<Rightarrow> nat" where
  "guards_on i gs = length (filter (\<lambda>g. case g of None \<Rightarrow> False | Some g \<Rightarrow> pg_frame g = i) gs)"

definition guards_ok :: "'s world \<Rightarrow> bool" where
  "guards_ok w \<longleftrightarrow>
     (\<forall>i < length (frames (w_pool w)). unat (fr_pin (frames (w_pool w) ! i)) = guards_on i (w_guards w)) \<and>
     (\<forall>g. Some g \<in> set (w_guards w) \<longrightarrow> pg_frame g < length (frames (w_pool w)) \<and>
        fr_page_id (frames (w_pool w) ! pg_frame g) = Some (pg_page_id g))"

definition world_inv :: "('s \<Rightarrow> page_id \<Rightarrow> bytes option) \<Rightarrow> ('s \<Rightarrow> bool) \<Rightarrow> 's world \<Rightarrow> bool" where
  "world_inv content ok w \<longleftrightarrow> pool_wf (w_pool w) \<and> coherent content (w_pool w) \<and> ok (store (w_pool w)) \<and>
     guards_ok w"

lemma guards_on_append: "guards_on i (gs @ [Some g]) = guards_on i gs + (if pg_frame g = i then 1 else 0)"
  by (simp add: guards_on_def)

lemma guards_on_le: "guards_on i gs \<le> length gs"
  by (simp add: guards_on_def)

lemma guards_on_drop:
  "h < length gs \<Longrightarrow> gs ! h = Some g \<Longrightarrow>
   guards_on i gs = guards_on i (gs[h := None]) + (if pg_frame g = i then 1 else 0)"
proof (induction gs arbitrary: h)
  case Nil
  then show ?case by simp
next
  case (Cons x gs)
  then show ?case by (cases h) (auto simp: guards_on_def)
qed

lemma keeps_frame_guards:
  assumes "guards_ok w" "length (frames p) = length (frames (w_pool w))"
    and "\<And>j. j < length (frames p) \<Longrightarrow> keeps_frame (frames (w_pool w) ! j) (frames p ! j)"
  shows "guards_ok (w\<lparr>w_pool := p\<rparr>)"
  using assms by (auto simp: guards_ok_def keeps_frame_def same_page_def)

lemma effect_mono: "view_le u v \<Longrightarrow> view_le (effect x u) (effect x v)"
  by (cases x) (auto simp: view_le_def)

section \<open>Flush\<close>

text \<open>A step of the flush is a write-back that leaves the pin alone.\<close>

lemma write_back_frames:
  assumes "write_back wr i p = Some (r, q)" "i < length (frames p)"
  shows "r = Inr () \<Longrightarrow> flush_frames wr (i # is) p = flush_frames wr is q"
    and "r = Inl e \<Longrightarrow>
      flush_frames wr (i # is) p = Some (Inl e, set_frame i ((frames q ! i)\<lparr>fr_pin := fr_pin (frames p ! i)\<rparr>) q)"
    and "j < length (frames p) \<Longrightarrow> fr_dirty (frames q ! j) \<Longrightarrow> fr_dirty (frames p ! j)"
    and "r = Inr () \<Longrightarrow> fr_page_id (frames q ! i) \<noteq> None \<Longrightarrow> \<not> fr_dirty (frames q ! i)"
  using assms
  by (auto simp: write_back_def release_victim_def frame_at_def Let_def set_frame_def nth_list_update
      split: option.splits if_splits prod.splits sum.splits Option.bind_splits)

context page_store begin

lemma flush_frames_keeps:
  assumes "pool_wf p" "coherent content p" "ok (store p)" "\<forall>i \<in> set is. i < length (frames p)"
  shows "\<exists>r q. flush_frames wr is p = Some (r, q) \<and> pool_wf q \<and> coherent content q \<and> ok (store q) \<and>
    view_le (pool_view content p) (pool_view content q) \<and> same_pages p q \<and>
    (\<forall>j < length (frames p). fr_pin (frames q ! j) = fr_pin (frames p ! j)) \<and>
    (\<forall>j < length (frames p). fr_dirty (frames q ! j) \<longrightarrow> fr_dirty (frames p ! j)) \<and>
    (r = Inr () \<longrightarrow> (\<forall>j \<in> set is. fr_page_id (frames q ! j) \<noteq> None \<longrightarrow> \<not> fr_dirty (frames q ! j)))"
  using assms
proof (induction "is" arbitrary: p)
  case Nil
  then show ?case by (auto simp: view_le_refl same_pages_refl)
next
  case (Cons i "is")
  have i: "i < length (frames p)" using Cons.prems by simp
  from Cons.prems(1-3) i show ?case
  proof (cases rule: write_back_cases)
    case (1 e q)
    define t where "t = set_frame i ((frames q ! i)\<lparr>fr_pin := fr_pin (frames p ! i)\<rparr>) q"
    have iq: "i < length (frames q)" using i same_pages_at(1) [OF 1(5)] by simp
    note k = set_pin_keeps [OF iq 1(2,3), where c = "fr_pin (frames p ! i)", folded t_def]
    have "flush_frames wr (i # is) p = Some (Inl (Io e), t)"
      using write_back_frames(2) [OF 1(1) i] by (simp add: t_def)
    moreover have "fr_dirty (frames p ! j)" if "j < length (frames p)" "fr_dirty (frames t ! j)" for j
      using write_back_frames(3) [OF 1(1) i that(1)] that iq
      by (cases "j = i") (simp_all add: t_def set_frame_def)
    moreover have "view_le (pool_view content p) (pool_view content t)"
      using 1(2,6) same_pages_view [OF k(3) _ k(4)] by (simp add: pool_wf_def)
    ultimately show ?thesis
      using k 1(4,7) same_pages_trans [OF 1(5) k(3)] same_pages_at(1) [OF 1(5)] i by auto
  next
    case (2 q)
    have n: "length (frames q) = length (frames p)" using same_pages_at(1) [OF 2(5)] .
    have step: "flush_frames wr (i # is) p = flush_frames wr is q"
      using write_back_frames(1) [OF 2(1) i] by simp
    have "\<forall>i \<in> set is. i < length (frames q)" using Cons.prems(4) n by simp
    from Cons.IH [OF 2(2,3,4) this] obtain r t where t: "flush_frames wr is q = Some (r, t)"
      "pool_wf t" "coherent content t" "ok (store t)"
      "view_le (pool_view content q) (pool_view content t)" "same_pages q t"
      "\<forall>j < length (frames q). fr_pin (frames t ! j) = fr_pin (frames q ! j)"
      "\<forall>j < length (frames q). fr_dirty (frames t ! j) \<longrightarrow> fr_dirty (frames q ! j)"
      "r = Inr () \<longrightarrow> (\<forall>j \<in> set is. fr_page_id (frames t ! j) \<noteq> None \<longrightarrow> \<not> fr_dirty (frames t ! j))" by blast
    have "\<not> fr_dirty (frames t ! j)"
      if "r = Inr ()" "j \<in> set (i # is)" "fr_page_id (frames t ! j) \<noteq> None" for j
    proof (cases "j \<in> set is")
      case False
      then have "j = i" using that(2) by simp
      then show ?thesis
        using t(8) write_back_frames(4) [OF 2(1) i] same_pages_at(3) [OF t(6), of i] that(3) i n by auto
    qed (use t(9) that in blast)
    moreover have "fr_dirty (frames p ! j)" if "j < length (frames p)" "fr_dirty (frames t ! j)" for j
      using t(8) write_back_frames(3) [OF 2(1) i that(1)] that n by simp
    ultimately show ?thesis
      using step t(1-7) n 2(7) view_le_trans [OF 2(6) t(5)] same_pages_trans [OF 2(5) t(6)]
      by (intro exI [of _ r] exI [of _ t]) auto
  qed
qed

lemma flush_all_keeps:
  assumes "pool_wf p" "coherent content p" "ok (store p)"
  obtains r q where "flush_all wr p = Some (r, q)" "pool_wf q" "coherent content q" "ok (store q)"
    "view_le (pool_view content p) (pool_view content q)" "length (frames q) = length (frames p)"
    "\<And>j. j < length (frames p) \<Longrightarrow> keeps_frame (frames p ! j) (frames q ! j)"
    "r = Inr () \<Longrightarrow> pool_view content q = (\<lambda>pid. map_option masked (content (store q) pid))"
proof -
  have "\<forall>i \<in> set [0..<length (frames p)]. i < length (frames p)" by simp
  from flush_frames_keeps [OF assms this] obtain r q where q: "flush_all wr p = Some (r, q)" "pool_wf q"
    "coherent content q" "ok (store q)" "view_le (pool_view content p) (pool_view content q)" "same_pages p q"
    "\<forall>j < length (frames p). fr_pin (frames q ! j) = fr_pin (frames p ! j)"
    "r = Inr () \<longrightarrow> (\<forall>j \<in> {0..<length (frames p)}. fr_page_id (frames q ! j) \<noteq> None \<longrightarrow> \<not> fr_dirty (frames q ! j))"
    by (auto simp: flush_all_def)
  note sp = same_pages_at [OF q(6)]
  have "pool_view content q pid = map_option masked (content (store q) pid)" if "r = Inr ()" for pid
  proof (cases "page_table q pid")
    case None
    then show ?thesis by (simp add: pool_view_def)
  next
    case (Some j)
    then have j: "j < length (frames q)" "fr_page_id (frames q ! j) = Some pid"
      using q(2) by (auto simp: pool_wf_def table_ok_def)
    then have "\<not> fr_dirty (frames q ! j)" using q(8) that sp(1) by simp
    from coherent_at [OF q(3) j(1) this j(2)] show ?thesis using Some by (auto simp: pool_view_def)
  qed
  then have "r = Inr () \<Longrightarrow> pool_view content q = (\<lambda>pid. map_option masked (content (store q) pid))" by (rule ext)
  with q sp show thesis by (intro that [of r q]) (auto simp: keeps_frame_def same_page_def)
qed

section \<open>Steps\<close>

lemma fetch_step:
  assumes inv: "world_inv content ok w" and room: "length (w_guards w) + 1 < 2 ^ 32"
  shows "\<exists>out w'. pool_step rd wr (OFetch pid mode) w = Some (out, w') \<and> world_inv content ok w' \<and>
    length (w_guards w') \<le> length (w_guards w) + 1 \<and> out_ok v out \<and> effect out v = v \<and>
    view_le (pool_view content (w_pool w)) (pool_view content (w_pool w'))"
proof -
  let ?p = "w_pool w" and ?gs = "w_guards w"
  have i: "pool_wf ?p" "coherent content ?p" "ok (store ?p)" "guards_ok w"
    using inv by (auto simp: world_inv_def)
  have got: ?thesis
    if f: "fetch_page rd wr pid mode ?p = Some (Inr \<lparr>pg_page_id = pid, pg_frame = i\<rparr>, q)"
      and q: "pool_wf q" "coherent content q" "ok (store q)" "view_le (pool_view content ?p) (pool_view content q)"
      "length (frames q) = length (frames ?p)" "i < length (frames ?p)" "fr_page_id (frames q ! i) = Some pid"
      and pin: "unat (fr_pin (frames q ! i)) = guards_on i ?gs + 1"
      and old: "guards_on i ?gs = 0 \<or> fr_page_id (frames ?p ! i) = Some pid"
      and other: "\<And>j. j < length (frames ?p) \<Longrightarrow> j \<noteq> i \<Longrightarrow> keeps_frame (frames ?p ! j) (frames q ! j)"
    for i q
  proof -
    let ?g = "\<lparr>pg_page_id = pid, pg_frame = i\<rparr>"
    define w' where "w' = w\<lparr>w_pool := q, w_guards := ?gs @ [Some ?g]\<rparr>"
    have "guards_ok w'"
      unfolding guards_ok_def
    proof (intro conjI allI impI)
      fix j assume "j < length (frames (w_pool w'))"
      then show "unat (fr_pin (frames (w_pool w') ! j)) = guards_on j (w_guards w')"
        using i(4) pin other [of j] q(5)
        by (cases "j = i") (auto simp: w'_def guards_on_append guards_ok_def keeps_frame_def)
    next
      fix g assume g: "Some g \<in> set (w_guards w')"
      show "pg_frame g < length (frames (w_pool w'))" using g i(4) q(5,6) by (auto simp: w'_def guards_ok_def)
      show "fr_page_id (frames (w_pool w') ! pg_frame g) = Some (pg_page_id g)"
      proof (cases "g = ?g")
        case True then show ?thesis using q(7) by (simp add: w'_def)
      next
        case False
        then have g': "Some g \<in> set ?gs" using g by (auto simp: w'_def)
        then have gf: "pg_frame g < length (frames ?p)" "fr_page_id (frames ?p ! pg_frame g) = Some (pg_page_id g)"
          using i(4) by (auto simp: guards_ok_def)
        show ?thesis
        proof (cases "pg_frame g = i")
          case True
          then have "guards_on i ?gs \<noteq> 0"
            using g' by (auto simp: guards_on_def filter_empty_conv intro!: bexI [of _ "Some g"])
          then show ?thesis using old True gf q(7) by (simp add: w'_def)
        next
          case False
          then show ?thesis using other [OF gf(1) False] gf by (simp add: w'_def keeps_frame_def same_page_def)
        qed
      qed
    qed
    then have "world_inv content ok w'" using q by (simp add: world_inv_def w'_def)
    then show ?thesis using f q(4) by (intro exI [of _ Fetched] exI [of _ w']) (simp add: w'_def)
  qed
  show ?thesis
  proof (cases "page_table ?p pid")
    case None
    from i(1,2,3) None show ?thesis
    proof (cases rule: fetch_miss_keeps [where mode = mode])
      case (1 e q)
      have "guards_ok (w\<lparr>w_pool := q\<rparr>)" using keeps_frame_guards [OF i(4) 1(6)] 1(6,7) by simp
      then show ?thesis using 1 by (simp add: world_inv_def)
    next
      case (2 j q)
      have "unat (fr_pin (frames ?p ! j)) = guards_on j ?gs" using i(4) 2(7) by (simp add: guards_ok_def)
      then have "guards_on j ?gs = 0" using 2(8) by (simp add: unpinned_def)
      then show ?thesis using 2 by (intro got [of j q]) auto
    qed
  next
    case (Some j)
    from i(1,2) Some show ?thesis
    proof (cases rule: fetch_hit_keeps [where mode = mode])
      case (1 q)
      have "unat (fr_pin (frames ?p ! j)) = guards_on j ?gs" using i(4) 1(7) by (simp add: guards_ok_def)
      moreover have "guards_on j ?gs + 1 < 2 ^ 32" using guards_on_le [of j ?gs] room by linarith
      ultimately have "unat (fr_pin (frames q ! j)) = guards_on j ?gs + 1"
        using 1(9) by (simp add: unat_word_ariths)
      then show ?thesis
        using 1 i(3) same_pages_at [OF 1(5)]
        by (intro got [of j q]) (auto simp: view_le_refl keeps_frame_def same_page_def)
    qed
  qed
qed

lemma live_guard_ok:
  assumes "world_inv content ok w" "live_guard h w = Some g"
  shows "pg_frame g < length (frames (w_pool w))" "h < length (w_guards w)" "w_guards w ! h = Some g"
    and "fr_page_id (frames (w_pool w) ! pg_frame g) = Some (pg_page_id g)"
    and "pool_view content (w_pool w) (pg_page_id g) = Some (masked (fr_data (frames (w_pool w) ! pg_frame g)))"
    and "page_table (w_pool w) (pg_page_id g) = Some (pg_frame g)"
proof -
  show h: "h < length (w_guards w)" "w_guards w ! h = Some g"
    using assms(2) by (auto simp: live_guard_def split: if_splits)
  then have "Some g \<in> set (w_guards w)" by (metis nth_mem)
  then show f: "pg_frame g < length (frames (w_pool w))"
    "fr_page_id (frames (w_pool w) ! pg_frame g) = Some (pg_page_id g)"
    using assms(1) by (auto simp: world_inv_def guards_ok_def)
  then show tab: "page_table (w_pool w) (pg_page_id g) = Some (pg_frame g)"
    using assms(1) by (simp add: world_inv_def pool_wf_def table_ok_def)
  then show "pool_view content (w_pool w) (pg_page_id g) = Some (masked (fr_data (frames (w_pool w) ! pg_frame g)))"
    by (simp add: pool_view_def)
qed

lemma write_step:
  assumes inv: "world_inv content ok w" and g: "live_guard h w = Some g"
    and len: "\<And>d. length d = PAGE_SIZE \<Longrightarrow> length (fn d) = PAGE_SIZE"
    and v: "view_le v (pool_view content (w_pool w))"
  shows "\<exists>d w'. pool_step rd wr (OWrite h fn) w = Some (Wrote (pg_page_id g) d, w') \<and> world_inv content ok w' \<and>
    w_guards w' = w_guards w \<and> view_le (v(pg_page_id g \<mapsto> masked d)) (pool_view content (w_pool w'))"
proof -
  let ?p = "w_pool w" and ?i = "pg_frame g"
  let ?f = "frames ?p ! ?i"
  note lg = live_guard_ok [OF inv g]
  define f' where "f' = ?f\<lparr>fr_dirty := True, fr_data := fn (fr_data ?f)\<rparr>"
  define q where "q = set_frame ?i f' ?p"
  define w' where "w' = w\<lparr>w_pool := q\<rparr>"
  have i: "pool_wf ?p" "coherent content ?p" "ok (store ?p)" "guards_ok w" using inv by (auto simp: world_inv_def)
  have step: "pool_step rd wr (OWrite h fn) w = Some (Wrote (pg_page_id g) (fn (fr_data ?f)), w')"
    using g lg(1) by (simp add: guard_read_def guard_write_def frame_at_def w'_def q_def f'_def)
  have at: "frames q ! j = (if j = ?i then f' else frames ?p ! j)" if "j < length (frames ?p)" for j
    using that by (simp add: q_def set_frame_def nth_list_update)
  have same: "length (frames q) = length (frames ?p)" "page_table q = page_table ?p" "store q = store ?p"
    "clock_hand q = clock_hand ?p" by (simp_all add: q_def set_frame_def)
  have ids: "fr_page_id (frames q ! j) = fr_page_id (frames ?p ! j)" "fr_pin (frames q ! j) = fr_pin (frames ?p ! j)"
    "fr_usage (frames q ! j) = fr_usage (frames ?p ! j)" if "j < length (frames ?p)" for j
    using at [OF that] by (simp_all add: f'_def)
  have "table_ok q" using i(1) ids same by (auto simp: pool_wf_def table_ok_def)
  moreover have "length (fr_data ?f) = PAGE_SIZE" using i(1) lg(1) by (simp add: pool_wf_def)
  then have "length (fr_data f') = PAGE_SIZE" using len by (simp add: f'_def)
  ultimately have "pool_wf q"
    using i(1) at ids same by (auto simp: pool_wf_def usage_bounded_def all_set_conv_all_nth)
  moreover have "coherent content q"
    using i(2) at same by (auto simp: coherent_def all_set_conv_all_nth clean_frame_def f'_def)
  moreover have "guards_ok w'" using i(4) ids same by (auto simp: guards_ok_def w'_def)
  ultimately have "world_inv content ok w'" using i(3) same by (simp add: world_inv_def w'_def)
  moreover have "view_le (v(pg_page_id g \<mapsto> masked (fn (fr_data ?f)))) (pool_view content q)"
    unfolding view_le_def
  proof (intro allI impI)
    fix x c assume c: "(v(pg_page_id g \<mapsto> masked (fn (fr_data ?f)))) x = Some c"
    show "pool_view content q x = Some c"
    proof (cases "x = pg_page_id g")
      case True
      then show ?thesis using c lg(1,6) same(2) at [OF lg(1)] by (simp add: pool_view_def f'_def)
    next
      case False
      then have vx: "pool_view content ?p x = Some c" using c v by (simp add: view_le_def)
      show ?thesis
      proof (cases "page_table ?p x")
        case None
        then show ?thesis using vx same by (simp add: pool_view_def)
      next
        case (Some j)
        then have j: "j < length (frames ?p)" "fr_page_id (frames ?p ! j) = Some x"
          using i(1) by (auto simp: pool_wf_def table_ok_def)
        then have "j \<noteq> ?i" using lg(4) False by auto
        then show ?thesis using vx Some same(2) at [OF j(1)] by (simp add: pool_view_def)
      qed
    qed
  qed
  ultimately show ?thesis using step by (auto simp: w'_def)
qed

lemma drop_step:
  assumes inv: "world_inv content ok w" and g: "live_guard h w = Some g"
  shows "\<exists>w'. pool_step rd wr (ODrop h) w = Some (Dropped, w') \<and> world_inv content ok w' \<and>
    length (w_guards w') = length (w_guards w) \<and> pool_view content (w_pool w') = pool_view content (w_pool w)"
proof -
  let ?p = "w_pool w" and ?i = "pg_frame g"
  let ?f = "frames ?p ! ?i" and ?gs = "(w_guards w)[h := None]"
  note lg = live_guard_ok [OF inv g]
  have i: "pool_wf ?p" "coherent content ?p" "ok (store ?p)" "guards_ok w" using inv by (auto simp: world_inv_def)
  note drop = guards_on_drop [OF lg(2,3)]
  have pin: "unat (fr_pin ?f) = guards_on ?i ?gs + 1" using i(4) lg(1) drop [of ?i] by (simp add: guards_ok_def)
  then have pos: "fr_pin ?f \<noteq> 0" by auto
  then have pin': "unat (fr_pin ?f - 1) = guards_on ?i ?gs" using pin by (simp add: unat_minus_one)
  define q where "q = set_frame ?i (?f\<lparr>fr_pin := fr_pin ?f - 1\<rparr>) ?p"
  define w' where "w' = w\<lparr>w_pool := q, w_guards := ?gs\<rparr>"
  note k = set_pin_keeps [OF lg(1) i(1,2), where c = "fr_pin ?f - 1", folded q_def]
  have step: "pool_step rd wr (ODrop h) w = Some (Dropped, w')"
    using g lg(1) pos by (simp add: guard_drop_def frame_at_def w'_def q_def word_gt_0)
  have "guards_ok w'"
    unfolding guards_ok_def
  proof (intro conjI allI impI)
    fix j assume "j < length (frames (w_pool w'))"
    then have j: "j < length (frames ?p)" using same_pages_at(1) [OF k(3)] by (simp add: w'_def)
    show "unat (fr_pin (frames (w_pool w') ! j)) = guards_on j (w_guards w')"
      using k(5) [OF j] pin' drop [of j] i(4) j by (auto simp: w'_def guards_ok_def)
  next
    fix x assume "Some x \<in> set (w_guards w')"
    then have "Some x \<in> set (w_guards w)" using set_update_subset_insert [of "w_guards w" h None] by (auto simp: w'_def)
    then have x: "pg_frame x < length (frames ?p)" "fr_page_id (frames ?p ! pg_frame x) = Some (pg_page_id x)"
      using i(4) by (auto simp: guards_ok_def)
    then show "pg_frame x < length (frames (w_pool w'))"
      "fr_page_id (frames (w_pool w') ! pg_frame x) = Some (pg_page_id x)"
      using same_pages_at(1,3) [OF k(3)] by (simp_all add: w'_def)
  qed
  then have "world_inv content ok w'" using k i(3) by (simp add: world_inv_def w'_def)
  moreover have "pool_view content q = pool_view content ?p"
    using same_pages_view [OF k(3) _ k(4)] i(1) by (simp add: pool_wf_def)
  ultimately show ?thesis using step by (simp add: w'_def)
qed

lemma pool_step_keeps:
  assumes inv: "world_inv content ok w" and op: "op_ok x" and room: "length (w_guards w) + 1 < 2 ^ 32"
    and v: "view_le v (pool_view content (w_pool w))"
  shows "\<exists>out w'. pool_step rd wr x w = Some (out, w') \<and> world_inv content ok w' \<and>
    length (w_guards w') \<le> length (w_guards w) + 1 \<and> out_ok v out \<and>
    view_le (effect out v) (pool_view content (w_pool w'))"
proof (cases x)
  case (OFetch pid mode)
  then show ?thesis using fetch_step [OF inv room, of pid mode v] view_le_trans [OF v] by metis
next
  case (ORead h)
  show ?thesis
  proof (cases "live_guard h w")
    case None
    then show ?thesis using ORead inv v by simp
  next
    case (Some g)
    note lg = live_guard_ok [OF inv Some]
    have "out_ok v (ReadGot (pg_page_id g) (fr_data (frames (w_pool w) ! pg_frame g)))"
      using v lg(5) by (auto simp: view_le_def split: option.splits)
    then show ?thesis using ORead Some inv v lg(1) by (simp add: guard_read_def frame_at_def)
  qed
next
  case (OWrite h fn)
  then have len: "length d = PAGE_SIZE \<Longrightarrow> length (fn d) = PAGE_SIZE" for d
    using op by (simp add: op_ok_def)
  show ?thesis
  proof (cases "live_guard h w")
    case None
    then show ?thesis using OWrite inv v by simp
  next
    case (Some g)
    then show ?thesis using write_step [OF inv Some len v] OWrite by fastforce
  qed
next
  case (ODrop h)
  show ?thesis
  proof (cases "live_guard h w")
    case None
    then show ?thesis using ODrop inv v by simp
  next
    case (Some g)
    then show ?thesis using drop_step [OF inv Some] ODrop v by fastforce
  qed
next
  case OFlush
  have i: "pool_wf (w_pool w)" "coherent content (w_pool w)" "ok (store (w_pool w))" "guards_ok w"
    using inv by (auto simp: world_inv_def)
  from i(1-3) show ?thesis
  proof (cases rule: flush_all_keeps)
    case (1 r q)
    have "guards_ok (w\<lparr>w_pool := q\<rparr>)" using keeps_frame_guards [OF i(4) 1(6)] 1(6,7) by simp
    then show ?thesis using 1 OFlush view_le_trans [OF v 1(5)] by (simp add: world_inv_def)
  qed
qed

lemma pool_run_keeps:
  assumes "world_inv content ok w" "\<forall>x \<in> set xs. op_ok x" "length (w_guards w) + length xs < 2 ^ 32"
    and "view_le v (pool_view content (w_pool w))"
  shows "\<exists>outs w'. pool_run rd wr xs w = Some (outs, w') \<and> world_inv content ok w' \<and> outs_ok v outs \<and>
    view_le (fold effect outs v) (pool_view content (w_pool w'))"
  using assms
proof (induction xs arbitrary: w v)
  case Nil
  then show ?case by simp
next
  case (Cons x xs)
  have "op_ok x" "length (w_guards w) + 1 < 2 ^ 32" using Cons.prems by auto
  from pool_step_keeps [OF Cons.prems(1) this Cons.prems(4)] obtain out w1 where
    s: "pool_step rd wr x w = Some (out, w1)" "world_inv content ok w1"
    "length (w_guards w1) \<le> length (w_guards w) + 1" "out_ok v out"
    "view_le (effect out v) (pool_view content (w_pool w1))" by blast
  have "length (w_guards w1) + length xs < 2 ^ 32" using s(3) Cons.prems(3) by simp
  with Cons.IH [OF s(2) _ _ s(5)] Cons.prems(2) obtain outs w2 where
    "pool_run rd wr xs w1 = Some (outs, w2)" "world_inv content ok w2" "outs_ok (effect out v) outs"
    "view_le (fold effect outs (effect out v)) (pool_view content (w_pool w2))" by auto
  then show ?case using s by auto
qed

lemma pool_new_inv:
  assumes "0 < n" "ok s"
  shows "\<exists>p. pool_new n s = Some p \<and> world_inv content ok \<lparr>w_pool = p, w_guards = []\<rparr> \<and>
    pool_view content p = (\<lambda>pid. map_option masked (content s pid))"
  using assms
  by (auto simp: pool_new_def world_inv_def pool_wf_def usage_bounded_def table_ok_def coherent_def clean_frame_def
      guards_ok_def guards_on_def frame_empty_def pool_view_def fun_eq_iff)

end

end
