(* ===== verification/Clock_Pool_V3.thy ===== *)
theory Clock_Pool_V3 imports Clock_Runs begin

text \<open>
  \<^verbatim>\<open>project1/buffer_pool_v3.rs\<close>: the third CLOCK pool, whose threads run at the same time. The page table is
  cut into shards with a read-write lock each, a frame has a mutex for its state, a read-write lock for its data
  and atomic counters, and a thread that loads a page leaves a \<open>Pending\<close> that others wait on.

  A thread is where it stands in the code (\<open>pc3\<close>); one step is the code between two points where other
  threads can interfere: a block under a lock, one atomic operation, one call of the store. A block that takes
  a shard lock and a state lock is one step, since both are held to its end; what touches only a frame that the
  thread has reserved is one step as well. The data lock matters across steps in \<^verbatim>\<open>flush_all\<close> only, which holds it
  for reading while it writes the page out: \<open>f3_readers\<close> counts these holders. A step of a thread that waits is
  \<open>Blocked\<close>; \<open>Panicked\<close> is a panic. Any interleaving of steps is a run.
\<close>

unbundle bit_operations_syntax

section \<open>State\<close>

datatype frame_state3 = Empty3 | Valid3 page_id | Evicting3 nat

datatype entry3 = Ready3 nat | Loading3 nat | EvictingEntry3 nat

record frame3 =
  f3_state :: frame_state3
  f3_data :: bytes
  f3_readers :: nat
  f3_pin :: u32
  f3_referenced :: bool
  f3_dirty :: bool

text \<open>A \<open>Pending\<close> is its number in the list of the flags \<^verbatim>\<open>done\<close>.\<close>

record 's pool3 =
  frames3 :: "frame3 list"
  shards3 :: "(page_id \<Rightarrow> entry3 option) list"
  clock_hand3 :: u64
  stats3 :: pool_stats
  store3 :: 's
  pendings3 :: "bool list"

definition frame3_empty :: frame3 where
  "frame3_empty = \<lparr>f3_state = Empty3, f3_data = replicate PAGE_SIZE 0, f3_readers = 0, f3_pin = 0,
     f3_referenced = False, f3_dirty = False\<rparr>"

definition next_power_of_two :: "nat \<Rightarrow> nat" where
  "next_power_of_two n = hd (filter (\<lambda>p. n \<le> p) (map (\<lambda>i. 2 ^ i) [0..<64]))"

definition pool3_new :: "nat \<Rightarrow> 's \<Rightarrow> 's pool3 option" where
  "pool3_new capacity s =
     (if capacity > 0
      then Some \<lparr>frames3 = replicate capacity frame3_empty,
        shards3 = replicate (next_power_of_two (min capacity 32)) (\<lambda>_. None), clock_hand3 = 0,
        stats3 = stats_default, store3 = s, pendings3 = []\<rparr>
      else None)"

text \<open>The hash of the standard library is the parameter \<open>hash\<close>.\<close>

definition shard_index :: "(page_id \<Rightarrow> u64) \<Rightarrow> page_id \<Rightarrow> 's pool3 \<Rightarrow> nat" where
  "shard_index hash pid p = unat (hash pid AND (of_nat (length (shards3 p)) - 1))"

definition lookup3 :: "(page_id \<Rightarrow> u64) \<Rightarrow> page_id \<Rightarrow> 's pool3 \<Rightarrow> entry3 option" where
  "lookup3 hash pid p = (shards3 p ! shard_index hash pid p) pid"

definition set_entry3 :: "(page_id \<Rightarrow> u64) \<Rightarrow> page_id \<Rightarrow> entry3 option \<Rightarrow> 's pool3 \<Rightarrow> 's pool3" where
  "set_entry3 hash pid e p =
     (let i = shard_index hash pid p in p\<lparr>shards3 := (shards3 p)[i := (shards3 p ! i)(pid := e)]\<rparr>)"

definition upd_frame3 :: "nat \<Rightarrow> (frame3 \<Rightarrow> frame3) \<Rightarrow> 's pool3 \<Rightarrow> 's pool3" where
  "upd_frame3 i fn p = p\<lparr>frames3 := (frames3 p)[i := fn (frames3 p ! i)]\<rparr>"

definition add_pin3 :: "frame3 \<Rightarrow> frame3" where
  "add_pin3 f = f\<lparr>f3_pin := f3_pin f + 1\<rparr>"

definition sub_pin3 :: "frame3 \<Rightarrow> frame3" where
  "sub_pin3 f = f\<lparr>f3_pin := f3_pin f - 1\<rparr>"

definition pending_finish :: "nat \<Rightarrow> 's pool3 \<Rightarrow> 's pool3" where
  "pending_finish k p = p\<lparr>pendings3 := (pendings3 p)[k := True]\<rparr>"

text \<open>\<^verbatim>\<open>Pending::wait\<close> returns when the flag is set.\<close>

definition pending_done :: "nat \<Rightarrow> 's pool3 \<Rightarrow> bool" where
  "pending_done k p \<longleftrightarrow> k < length (pendings3 p) \<and> pendings3 p ! k"

definition record_access3 :: "access_mode \<Rightarrow> frame3 \<Rightarrow> frame3" where
  "record_access3 mode f = (if mode = Normal then f\<lparr>f3_referenced := True\<rparr> else f)"

definition count_stats3 :: "(pool_stats \<Rightarrow> pool_stats) \<Rightarrow> 's pool3 \<Rightarrow> 's pool3" where
  "count_stats3 fn p = p\<lparr>stats3 := fn (stats3 p)\<rparr>"

section \<open>Where a thread stands\<close>

record claim =
  cl_page :: page_id
  cl_mode :: access_mode
  cl_pending :: nat

record victim =
  vi_index :: nat
  vi_old :: "page_id option"

text \<open>\<open>Choose\<close>, \<open>Probe\<close> and \<open>Reserve\<close> count the probes of the two sweeps of \<open>choose_victim\<close>; \<open>Probe\<close> has taken
  its index from the clock hand and \<open>Reserve\<close> the snapshot of the frame's state.\<close>

datatype pc3 =
    Idle
  | FetchLookup page_id access_mode
  | FetchWait nat page_id access_mode
  | FetchClaim page_id access_mode
  | Choose claim nat
  | Probe claim nat nat
  | Reserve claim nat frame_state3 nat
  | Scan claim nat
  | ScanWait claim nat
  | FailRemove claim
  | FailFinish claim
  | CheckDirty claim victim
  | WriteBack claim victim bytes
  | ClearDirty claim victim
  | ReadNew claim victim
  | Replace claim victim bytes
  | RemoveOld claim victim
  | Publish claim victim
  | FinishLoad claim victim
  | CountMiss claim victim
  | RestoreEntry claim victim io_error
  | RestoreUnpin claim victim io_error
  | RestoreRemove claim io_error
  | RestoreFinish claim io_error
  | FlushFrame nat
  | FlushWait nat nat
  | FlushCheck nat page_id
  | FlushCopy nat page_id
  | FlushWrite nat page_id bytes
  | FlushClear nat page_id
  | FlushRelease nat page_id "io_error option"
  | FlushUnpin nat page_id "io_error option"

datatype out3 =
    Fetched3 page_guard
  | FetchFailed3 pool_error
  | FlushDone3 "pool_error + unit"

datatype 's step3 = Blocked | Panicked | Next pc3 "out3 option" "'s pool3"

section \<open>Fetch\<close>

text \<open>The lookup under the read lock of the shard: a ready frame is pinned before the lock is released.\<close>

definition fetch_lookup ::
    "(page_id \<Rightarrow> u64) \<Rightarrow> page_id \<Rightarrow> access_mode \<Rightarrow> 's pool3 \<Rightarrow> 's step3" where
  "fetch_lookup hash pid mode p = (case lookup3 hash pid p of
      Some (Ready3 i) \<Rightarrow>
        if i < length (frames3 p)
        then Next Idle (Some (Fetched3 \<lparr>pg_page_id = pid, pg_frame = i\<rparr>))
          (count_stats3 (\<lambda>st. st\<lparr>hits := hits st + 1\<rparr>) (upd_frame3 i (\<lambda>f. record_access3 mode (add_pin3 f)) p))
        else Panicked
    | Some (Loading3 k) \<Rightarrow> Next (FetchWait k pid mode) None p
    | Some (EvictingEntry3 k) \<Rightarrow> Next (FetchWait k pid mode) None p
    | None \<Rightarrow> Next (FetchClaim pid mode) None p)"

definition fetch_claim ::
    "(page_id \<Rightarrow> u64) \<Rightarrow> page_id \<Rightarrow> access_mode \<Rightarrow> 's pool3 \<Rightarrow> 's step3" where
  "fetch_claim hash pid mode p =
     (if lookup3 hash pid p \<noteq> None then Next (FetchLookup pid mode) None p
      else
        (let k = length (pendings3 p)
         in Next (Choose \<lparr>cl_page = pid, cl_mode = mode, cl_pending = k\<rparr> 0) None
              (set_entry3 hash pid (Some (Loading3 k)) (p\<lparr>pendings3 := pendings3 p @ [False]\<rparr>))))"

section \<open>Victim selection\<close>

definition choose_probe :: "claim \<Rightarrow> nat \<Rightarrow> 's pool3 \<Rightarrow> 's step3" where
  "choose_probe c n p =
     (if n < 2 * length (frames3 p)
      then Next (Probe c n (unat (clock_hand3 p) mod length (frames3 p))) None (p\<lparr>clock_hand3 := clock_hand3 p + 1\<rparr>)
      else Next (Scan c 0) None p)"

definition take_reservation :: "claim \<Rightarrow> nat \<Rightarrow> bool \<Rightarrow> 's pool3 \<Rightarrow> bool \<times> 's pool3" where
  "take_reservation c i force p =
     (let f = frames3 p ! i
      in if \<not> force \<and> f3_referenced f
         then (False, count_stats3 (\<lambda>st. st\<lparr>clock_second_chances := clock_second_chances st + 1\<rparr>)
           (upd_frame3 i (\<lambda>f. f\<lparr>f3_referenced := False\<rparr>) p))
         else (True, upd_frame3 i
           (\<lambda>f. f\<lparr>f3_pin := 1, f3_referenced := (if force then f3_referenced f else False),
                  f3_state := Evicting3 (cl_pending c)\<rparr>) p))"

text \<open>\<open>try_reserve\<close> after its snapshot: the state, the table entry and the pin count are checked again under
  the locks.\<close>

definition try_reserve ::
    "(page_id \<Rightarrow> u64) \<Rightarrow> claim \<Rightarrow> nat \<Rightarrow> frame_state3 \<Rightarrow> nat \<Rightarrow> 's pool3 \<Rightarrow> 's step3" where
  "try_reserve hash c n snapshot i p =
     (let f = frames3 p ! i; force = (length (frames3 p) \<le> n); next_probe = Choose c (n + 1)
      in case snapshot of
           Empty3 \<Rightarrow>
             if f3_state f \<noteq> Empty3 \<or> f3_pin f \<noteq> 0 then Next next_probe None p
             else
               (let (taken, p) = take_reservation c i force p
                in if taken then Next (CheckDirty c \<lparr>vi_index = i, vi_old = None\<rparr>) None p else Next next_probe None p)
         | Valid3 old \<Rightarrow>
             if f3_state f \<noteq> Valid3 old \<or> lookup3 hash old p \<noteq> Some (Ready3 i) \<or> f3_pin f \<noteq> 0 then Next next_probe None p
             else
               (let (taken, p) = take_reservation c i force p
                in if taken
                   then Next (CheckDirty c \<lparr>vi_index = i, vi_old = Some old\<rparr>) None
                     (set_entry3 hash old (Some (EvictingEntry3 (cl_pending c))) p)
                   else Next next_probe None p)
         | Evicting3 _ \<Rightarrow> Next next_probe None p)"

text \<open>\<open>wait_for_active_load\<close>: the frames are looked at one by one.\<close>

definition scan_frame :: "claim \<Rightarrow> nat \<Rightarrow> 's pool3 \<Rightarrow> 's step3" where
  "scan_frame c i p =
     (if i < length (frames3 p)
      then (case f3_state (frames3 p ! i) of
          Evicting3 k \<Rightarrow> Next (ScanWait c k) None p
        | _ \<Rightarrow> Next (Scan c (i + 1)) None p)
      else Next (FailRemove c) None p)"

section \<open>Loading\<close>

definition load_check_dirty :: "claim \<Rightarrow> victim \<Rightarrow> 's pool3 \<Rightarrow> 's step3" where
  "load_check_dirty c v p =
     (let f = frames3 p ! vi_index v
      in if vi_old v \<noteq> None \<and> f3_dirty f then Next (WriteBack c v (f3_data f)) None p else Next (ReadNew c v) None p)"

definition load_write_back ::
    "(page_id \<Rightarrow> bytes \<Rightarrow> 's \<Rightarrow> ((io_error + unit) \<times> bytes \<times> 's) option) \<Rightarrow>
     claim \<Rightarrow> victim \<Rightarrow> bytes \<Rightarrow> 's pool3 \<Rightarrow> 's step3" where
  "load_write_back wr c v copy p = (case vi_old v of
      None \<Rightarrow> Panicked
    | Some old \<Rightarrow> (case wr old copy (store3 p) of
          None \<Rightarrow> Panicked
        | Some (Inl e, _, s) \<Rightarrow> Next (RestoreEntry c v e) None (p\<lparr>store3 := s\<rparr>)
        | Some (Inr _, _, s) \<Rightarrow> Next (ClearDirty c v) None (p\<lparr>store3 := s\<rparr>)))"

definition load_read_new ::
    "(page_id \<Rightarrow> bytes \<Rightarrow> 's \<Rightarrow> ((io_error + unit) \<times> bytes \<times> 's) option) \<Rightarrow>
     claim \<Rightarrow> victim \<Rightarrow> 's pool3 \<Rightarrow> 's step3" where
  "load_read_new rd c v p = (case rd (cl_page c) (replicate PAGE_SIZE 0) (store3 p) of
      None \<Rightarrow> Panicked
    | Some (Inl e, _, s) \<Rightarrow> Next (RestoreEntry c v e) None (p\<lparr>store3 := s\<rparr>)
    | Some (Inr _, new_data, s) \<Rightarrow> Next (Replace c v new_data) None (p\<lparr>store3 := s\<rparr>))"

definition load_replace :: "claim \<Rightarrow> victim \<Rightarrow> bytes \<Rightarrow> 's pool3 \<Rightarrow> 's step3" where
  "load_replace c v new_data p =
     Next (RemoveOld c v) None
       (upd_frame3 (vi_index v)
         (\<lambda>f. f\<lparr>f3_data := new_data, f3_dirty := False, f3_referenced := (cl_mode c = Normal)\<rparr>) p)"

definition load_remove_old :: "(page_id \<Rightarrow> u64) \<Rightarrow> claim \<Rightarrow> victim \<Rightarrow> 's pool3 \<Rightarrow> 's step3" where
  "load_remove_old hash c v p =
     Next (Publish c v) None (case vi_old v of None \<Rightarrow> p | Some old \<Rightarrow> set_entry3 hash old None p)"

definition load_publish :: "(page_id \<Rightarrow> u64) \<Rightarrow> claim \<Rightarrow> victim \<Rightarrow> 's pool3 \<Rightarrow> 's step3" where
  "load_publish hash c v p =
     Next (FinishLoad c v) None
       (set_entry3 hash (cl_page c) (Some (Ready3 (vi_index v)))
         (upd_frame3 (vi_index v) (\<lambda>f. f\<lparr>f3_state := Valid3 (cl_page c)\<rparr>) p))"

definition load_count_miss :: "claim \<Rightarrow> victim \<Rightarrow> 's pool3 \<Rightarrow> 's step3" where
  "load_count_miss c v p =
     Next Idle (Some (Fetched3 \<lparr>pg_page_id = cl_page c, pg_frame = vi_index v\<rparr>))
       (count_stats3 (\<lambda>st. let st = st\<lparr>misses := misses st + 1\<rparr>
          in if vi_old v \<noteq> None then st\<lparr>evictions := evictions st + 1\<rparr> else st) p)"

text \<open>\<open>restore_failed_load\<close>: the entry and the state of the frame in one step, then the pin, the claim and the
  waiters.\<close>

definition restore_entry :: "(page_id \<Rightarrow> u64) \<Rightarrow> claim \<Rightarrow> victim \<Rightarrow> io_error \<Rightarrow> 's pool3 \<Rightarrow> 's step3" where
  "restore_entry hash c v e p =
     (let i = vi_index v
      in case vi_old v of
           Some old \<Rightarrow>
             if lookup3 hash old p = Some (EvictingEntry3 (cl_pending c))
             then Next (RestoreUnpin c v e) None
               (set_entry3 hash old (Some (Ready3 i)) (upd_frame3 i (\<lambda>f. f\<lparr>f3_state := Valid3 old\<rparr>) p))
             else Panicked
         | None \<Rightarrow> Next (RestoreUnpin c v e) None (upd_frame3 i (\<lambda>f. f\<lparr>f3_state := Empty3\<rparr>) p))"

section \<open>Flush\<close>

definition flush_frame :: "nat \<Rightarrow> 's pool3 \<Rightarrow> 's step3" where
  "flush_frame i p =
     (if i < length (frames3 p)
      then (case f3_state (frames3 p ! i) of
          Empty3 \<Rightarrow> Next (FlushFrame (i + 1)) None p
        | Valid3 pid \<Rightarrow> Next (FlushCheck i pid) None (upd_frame3 i add_pin3 p)
        | Evicting3 k \<Rightarrow> Next (FlushWait i k) None p)
      else Next Idle (Some (FlushDone3 (Inr ()))) p)"

definition flush_write ::
    "(page_id \<Rightarrow> bytes \<Rightarrow> 's \<Rightarrow> ((io_error + unit) \<times> bytes \<times> 's) option) \<Rightarrow>
     nat \<Rightarrow> page_id \<Rightarrow> bytes \<Rightarrow> 's pool3 \<Rightarrow> 's step3" where
  "flush_write wr i pid copy p = (case wr pid copy (store3 p) of
      None \<Rightarrow> Panicked
    | Some (Inl e, _, s) \<Rightarrow> Next (FlushRelease i pid (Some e)) None (p\<lparr>store3 := s\<rparr>)
    | Some (Inr _, _, s) \<Rightarrow> Next (FlushClear i pid) None (p\<lparr>store3 := s\<rparr>))"

definition flush_unpin :: "nat \<Rightarrow> io_error option \<Rightarrow> 's pool3 \<Rightarrow> 's step3" where
  "flush_unpin i r p =
     (let p = upd_frame3 i sub_pin3 p
      in case r of Some e \<Rightarrow> Next Idle (Some (FlushDone3 (Inl (Io e)))) p | None \<Rightarrow> Next (FlushFrame (i + 1)) None p)"

section \<open>Threads\<close>

text \<open>One step of a thread. \<open>restore_failed_load\<close> and the error path of \<open>load_claimed\<close> end with the removal of
  the claim and \<open>finish\<close>.\<close>

fun thread_step3 ::
    "(page_id \<Rightarrow> bytes \<Rightarrow> 's \<Rightarrow> ((io_error + unit) \<times> bytes \<times> 's) option) \<Rightarrow>
     (page_id \<Rightarrow> bytes \<Rightarrow> 's \<Rightarrow> ((io_error + unit) \<times> bytes \<times> 's) option) \<Rightarrow>
     (page_id \<Rightarrow> u64) \<Rightarrow> pc3 \<Rightarrow> 's pool3 \<Rightarrow> 's step3" where
  "thread_step3 rd wr hash Idle p = Blocked"
| "thread_step3 rd wr hash (FetchLookup pid mode) p = fetch_lookup hash pid mode p"
| "thread_step3 rd wr hash (FetchWait k pid mode) p =
     (if pending_done k p then Next (FetchLookup pid mode) None p else Blocked)"
| "thread_step3 rd wr hash (FetchClaim pid mode) p = fetch_claim hash pid mode p"
| "thread_step3 rd wr hash (Choose c n) p = choose_probe c n p"
| "thread_step3 rd wr hash (Probe c n i) p = Next (Reserve c n (f3_state (frames3 p ! i)) i) None p"
| "thread_step3 rd wr hash (Reserve c n snapshot i) p = try_reserve hash c n snapshot i p"
| "thread_step3 rd wr hash (Scan c i) p = scan_frame c i p"
| "thread_step3 rd wr hash (ScanWait c k) p = (if pending_done k p then Next (Choose c 0) None p else Blocked)"
| "thread_step3 rd wr hash (FailRemove c) p = Next (FailFinish c) None (set_entry3 hash (cl_page c) None p)"
| "thread_step3 rd wr hash (FailFinish c) p =
     Next Idle (Some (FetchFailed3 AllFramesPinned)) (pending_finish (cl_pending c) p)"
| "thread_step3 rd wr hash (CheckDirty c v) p = load_check_dirty c v p"
| "thread_step3 rd wr hash (WriteBack c v copy) p = load_write_back wr c v copy p"
| "thread_step3 rd wr hash (ClearDirty c v) p =
     Next (ReadNew c v) None (upd_frame3 (vi_index v) (\<lambda>f. f\<lparr>f3_dirty := False\<rparr>) p)"
| "thread_step3 rd wr hash (ReadNew c v) p = load_read_new rd c v p"
| "thread_step3 rd wr hash (Replace c v new_data) p = load_replace c v new_data p"
| "thread_step3 rd wr hash (RemoveOld c v) p = load_remove_old hash c v p"
| "thread_step3 rd wr hash (Publish c v) p = load_publish hash c v p"
| "thread_step3 rd wr hash (FinishLoad c v) p = Next (CountMiss c v) None (pending_finish (cl_pending c) p)"
| "thread_step3 rd wr hash (CountMiss c v) p = load_count_miss c v p"
| "thread_step3 rd wr hash (RestoreEntry c v e) p = restore_entry hash c v e p"
| "thread_step3 rd wr hash (RestoreUnpin c v e) p = Next (RestoreRemove c e) None (upd_frame3 (vi_index v) sub_pin3 p)"
| "thread_step3 rd wr hash (RestoreRemove c e) p = Next (RestoreFinish c e) None (set_entry3 hash (cl_page c) None p)"
| "thread_step3 rd wr hash (RestoreFinish c e) p =
     Next Idle (Some (FetchFailed3 (Io e))) (pending_finish (cl_pending c) p)"
| "thread_step3 rd wr hash (FlushFrame i) p = flush_frame i p"
| "thread_step3 rd wr hash (FlushWait i k) p = (if pending_done k p then Next (FlushFrame i) None p else Blocked)"
| "thread_step3 rd wr hash (FlushCheck i pid) p =
     Next (if f3_dirty (frames3 p ! i) then FlushCopy i pid else FlushUnpin i pid None) None p"
| "thread_step3 rd wr hash (FlushCopy i pid) p =
     Next (FlushWrite i pid (f3_data (frames3 p ! i))) None
       (upd_frame3 i (\<lambda>f. f\<lparr>f3_readers := f3_readers f + 1\<rparr>) p)"
| "thread_step3 rd wr hash (FlushWrite i pid copy) p = flush_write wr i pid copy p"
| "thread_step3 rd wr hash (FlushClear i pid) p =
     Next (FlushRelease i pid None) None (upd_frame3 i (\<lambda>f. f\<lparr>f3_dirty := False\<rparr>) p)"
| "thread_step3 rd wr hash (FlushRelease i pid r) p =
     Next (FlushUnpin i pid r) None (upd_frame3 i (\<lambda>f. f\<lparr>f3_readers := f3_readers f - 1\<rparr>) p)"
| "thread_step3 rd wr hash (FlushUnpin i pid r) p = flush_unpin i r p"

section \<open>Runs\<close>

text \<open>The guards the threads hold are numbered in the order in which the fetches returned; any thread may use
  and drop them at any time. A write waits for the readers of the data lock.\<close>

record 's sys3 =
  s3_pool :: "'s pool3"
  s3_threads :: "pc3 list"
  s3_guards :: "page_guard option list"

datatype event3 =
    StartFetch nat page_id access_mode
  | StartFlush nat
  | Turn nat
  | GuardRead nat
  | GuardWrite nat "bytes \<Rightarrow> bytes"
  | GuardDrop nat

definition live_guard3 :: "nat \<Rightarrow> 's sys3 \<Rightarrow> page_guard option" where
  "live_guard3 h s = (if h < length (s3_guards s) then s3_guards s ! h else None)"

definition start3 :: "nat \<Rightarrow> pc3 \<Rightarrow> 's sys3 \<Rightarrow> 's sys3" where
  "start3 t pc s =
     (if t < length (s3_threads s) \<and> s3_threads s ! t = Idle then s\<lparr>s3_threads := (s3_threads s)[t := pc]\<rparr> else s)"

definition deliver3 :: "out3 option \<Rightarrow> 's sys3 \<Rightarrow> pool_out list \<times> 's sys3" where
  "deliver3 r s = (case r of
      None \<Rightarrow> ([], s)
    | Some (Fetched3 g) \<Rightarrow> ([Fetched], s\<lparr>s3_guards := s3_guards s @ [Some g]\<rparr>)
    | Some (FetchFailed3 e) \<Rightarrow> ([FetchFailed e], s)
    | Some (FlushDone3 e) \<Rightarrow> ([FlushDone e], s))"

definition turn3 ::
    "(page_id \<Rightarrow> bytes \<Rightarrow> 's \<Rightarrow> ((io_error + unit) \<times> bytes \<times> 's) option) \<Rightarrow>
     (page_id \<Rightarrow> bytes \<Rightarrow> 's \<Rightarrow> ((io_error + unit) \<times> bytes \<times> 's) option) \<Rightarrow>
     (page_id \<Rightarrow> u64) \<Rightarrow> nat \<Rightarrow> 's sys3 \<Rightarrow> (pool_out list \<times> 's sys3) option" where
  "turn3 rd wr hash t s =
     (if t < length (s3_threads s)
      then (case thread_step3 rd wr hash (s3_threads s ! t) (s3_pool s) of
          Blocked \<Rightarrow> Some ([], s)
        | Panicked \<Rightarrow> None
        | Next pc r p \<Rightarrow> Some (deliver3 r (s\<lparr>s3_pool := p, s3_threads := (s3_threads s)[t := pc]\<rparr>)))
      else Some ([], s))"

definition guard_read3 :: "page_guard \<Rightarrow> 's pool3 \<Rightarrow> bytes" where
  "guard_read3 g p = f3_data (frames3 p ! pg_frame g)"

definition guard_write3 :: "page_guard \<Rightarrow> (bytes \<Rightarrow> bytes) \<Rightarrow> 's pool3 \<Rightarrow> 's pool3 option" where
  "guard_write3 g fn p =
     (if f3_readers (frames3 p ! pg_frame g) = 0
      then Some (upd_frame3 (pg_frame g) (\<lambda>f. f\<lparr>f3_dirty := True, f3_data := fn (f3_data f)\<rparr>) p)
      else None)"

definition guard_drop3 :: "page_guard \<Rightarrow> 's pool3 \<Rightarrow> 's pool3 option" where
  "guard_drop3 g p =
     (if 0 < f3_pin (frames3 p ! pg_frame g) then Some (upd_frame3 (pg_frame g) sub_pin3 p) else None)"

fun sys_step3 ::
    "(page_id \<Rightarrow> bytes \<Rightarrow> 's \<Rightarrow> ((io_error + unit) \<times> bytes \<times> 's) option) \<Rightarrow>
     (page_id \<Rightarrow> bytes \<Rightarrow> 's \<Rightarrow> ((io_error + unit) \<times> bytes \<times> 's) option) \<Rightarrow>
     (page_id \<Rightarrow> u64) \<Rightarrow> event3 \<Rightarrow> 's sys3 \<Rightarrow> (pool_out list \<times> 's sys3) option" where
  "sys_step3 rd wr hash (StartFetch t pid mode) s = Some ([], start3 t (FetchLookup pid mode) s)"
| "sys_step3 rd wr hash (StartFlush t) s = Some ([], start3 t (FlushFrame 0) s)"
| "sys_step3 rd wr hash (Turn t) s = turn3 rd wr hash t s"
| "sys_step3 rd wr hash (GuardRead h) s = (case live_guard3 h s of
      None \<Rightarrow> Some ([NoGuard], s)
    | Some g \<Rightarrow> Some ([ReadGot (pg_page_id g) (guard_read3 g (s3_pool s))], s))"
| "sys_step3 rd wr hash (GuardWrite h fn) s = (case live_guard3 h s of
      None \<Rightarrow> Some ([NoGuard], s)
    | Some g \<Rightarrow> (case guard_write3 g fn (s3_pool s) of
          None \<Rightarrow> Some ([], s)
        | Some p \<Rightarrow> Some ([Wrote (pg_page_id g) (fn (guard_read3 g (s3_pool s)))], s\<lparr>s3_pool := p\<rparr>)))"
| "sys_step3 rd wr hash (GuardDrop h) s = (case live_guard3 h s of
      None \<Rightarrow> Some ([NoGuard], s)
    | Some g \<Rightarrow> (case guard_drop3 g (s3_pool s) of
          None \<Rightarrow> None
        | Some p \<Rightarrow> Some ([Dropped], s\<lparr>s3_pool := p, s3_guards := (s3_guards s)[h := None]\<rparr>)))"

fun sys_run3 ::
    "(page_id \<Rightarrow> bytes \<Rightarrow> 's \<Rightarrow> ((io_error + unit) \<times> bytes \<times> 's) option) \<Rightarrow>
     (page_id \<Rightarrow> bytes \<Rightarrow> 's \<Rightarrow> ((io_error + unit) \<times> bytes \<times> 's) option) \<Rightarrow>
     (page_id \<Rightarrow> u64) \<Rightarrow> event3 list \<Rightarrow> 's sys3 \<Rightarrow> (pool_out list \<times> 's sys3) option" where
  "sys_run3 rd wr hash [] s = Some ([], s)"
| "sys_run3 rd wr hash (ev # evs) s = do {
     (outs, s) \<leftarrow> sys_step3 rd wr hash ev s;
     (outs', s) \<leftarrow> sys_run3 rd wr hash evs s;
     Some (outs @ outs', s)
   }"

definition sys3_new :: "nat \<Rightarrow> nat \<Rightarrow> 's \<Rightarrow> 's sys3 option" where
  "sys3_new capacity threads s =
     map_option (\<lambda>p. \<lparr>s3_pool = p, s3_threads = replicate threads Idle, s3_guards = []\<rparr>) (pool3_new capacity s)"

end
