(* ===== verification/Pool_V3_Control.thy ===== *)
theory Pool_V3_Control imports Clock_Pool_V3 begin

text \<open>
  The control state of the third pool: the table, the states, pins and readers of the frames, the pendings
  and the guards, and for every thread its role, which is what the others can notice of it. The invariant
  says which entries, states, pendings and locks there are in terms of who holds them, so that a step is judged by what
  it takes and what it gives up (\<open>ctl_step\<close>). The pages' bytes play no part here.
\<close>

section \<open>Counting threads, and what they hold\<close>

definition cnt :: "('a \<Rightarrow> bool) \<Rightarrow> 'a list \<Rightarrow> nat" where
  "cnt P xs = length (filter P xs)"

lemma cnt_update:
  "t < length xs \<Longrightarrow> cnt P (xs[t := x]) + (if P (xs ! t) then 1 else 0) = cnt P xs + (if P x then 1 else 0)"
proof (induction xs arbitrary: t)
  case (Cons y ys)
  then show ?case by (cases t) (auto simp: cnt_def)
qed simp

lemma cnt_pos: "t < length xs \<Longrightarrow> P (xs ! t) \<Longrightarrow> 0 < cnt P xs"
  unfolding cnt_def using nth_mem [of t xs] by (auto simp: filter_empty_conv)

lemma cnt_le: "cnt P xs \<le> length xs"
  by (simp add: cnt_def)

definition holds :: "('a \<Rightarrow> 'b option) \<Rightarrow> 'a list \<Rightarrow> 'b set" where
  "holds f xs = {a. \<exists>t < length xs. f (xs ! t) = Some a}"

lemma holdsI: "t < length xs \<Longrightarrow> f (xs ! t) = Some a \<Longrightarrow> a \<in> holds f xs"
  by (auto simp: holds_def)

lemma holdsE: "a \<in> holds f xs \<Longrightarrow> (\<And>t. t < length xs \<Longrightarrow> f (xs ! t) = Some a \<Longrightarrow> P) \<Longrightarrow> P"
  by (auto simp: holds_def)

lemma holds_replicate: "f x = None \<Longrightarrow> holds f (replicate n x) = {}"
  by (auto simp: holds_def)

text \<open>What is held by one thread only changes hands by that thread's step.\<close>

definition owned :: "('a \<Rightarrow> 'b option) \<Rightarrow> 'a list \<Rightarrow> bool" where
  "owned f xs \<longleftrightarrow> (\<forall>t < length xs. \<forall>u < length xs. f (xs ! t) \<noteq> None \<longrightarrow> f (xs ! t) = f (xs ! u) \<longrightarrow> t = u)"

lemma holds_update:
  assumes "t < length xs" "owned f xs"
  shows "holds f (xs[t := x]) = (holds f xs - set_option (f (xs ! t))) \<union> set_option (f x)"
proof (intro set_eqI iffI)
  fix a assume "a \<in> holds f (xs[t := x])"
  then obtain u where u: "u < length xs" "f (xs[t := x] ! u) = Some a" by (auto simp: holds_def)
  show "a \<in> (holds f xs - set_option (f (xs ! t))) \<union> set_option (f x)"
  proof (cases "u = t")
    case False
    then have a: "f (xs ! u) = Some a" using u by simp
    moreover have "f (xs ! t) \<noteq> Some a" using assms False a u(1) by (auto simp: owned_def)
    ultimately show ?thesis using u(1) by (auto simp: holds_def)
  qed (use u in simp)
next
  fix a assume "a \<in> (holds f xs - set_option (f (xs ! t))) \<union> set_option (f x)"
  then consider "f x = Some a" | "a \<in> holds f xs" "f (xs ! t) \<noteq> Some a" by auto
  then show "a \<in> holds f (xs[t := x])"
  proof cases
    case 1
    then show ?thesis using assms(1) by (intro holdsI [of t]) simp_all
  next
    case 2
    then obtain u where "u < length xs" "f (xs ! u) = Some a" by (auto elim: holdsE)
    moreover from this have "u \<noteq> t" using 2(2) by auto
    ultimately show ?thesis by (intro holdsI [of u]) simp_all
  qed
qed

lemma owned_update:
  assumes "owned f xs" "\<And>a. f x = Some a \<Longrightarrow> f (xs ! t) = Some a \<or> a \<notin> holds f xs"
  shows "owned f (xs[t := x])"
  unfolding owned_def
proof (intro allI impI)
  fix u v assume u: "u < length (xs[t := x])" "v < length (xs[t := x])" and
    f: "f (xs[t := x] ! u) \<noteq> None" "f (xs[t := x] ! u) = f (xs[t := x] ! v)"
  have new: False if w: "w < length xs" "w \<noteq> t" "f (xs ! w) = f x" "f x = Some a" "t < length xs" for w a
    using assms(2) [OF w(4)] w assms(1) holdsI [of w xs f a] by (auto simp: owned_def)
  show "u = v"
  proof (cases "u = t \<or> v = t")
    case True
    then show ?thesis using new [of u] new [of v] u f by (auto simp: nth_list_update split: if_splits)
  next
    case False
    then show ?thesis using u f assms(1) by (simp add: owned_def)
  qed
qed

section \<open>Roles\<close>

text \<open>The pending of a claim until it is finished; the page whose entry says \<open>Loading3\<close>, the page whose entry says
  \<open>EvictingEntry3\<close> and the frame whose state says \<open>Evicting3\<close>, each with the pending; the pending again once there
  is a victim, after which the thread never waits; the frame it pins; the frame and page it relies on to stay valid; the
  data lock it holds; the pending it waits on, and the one it found in a frame.\<close>

record role =
  ro_pend :: "nat option"
  ro_load :: "(page_id \<times> nat) option"
  ro_evict :: "(page_id \<times> nat) option"
  ro_vict :: "(nat \<times> nat) option"
  ro_past :: "nat option"
  ro_pin :: "nat option"
  ro_valid :: "(nat \<times> page_id) option"
  ro_reads :: "nat option"
  ro_wait :: "nat option"
  ro_scan :: "nat option"

definition role_idle :: role where
  "role_idle = \<lparr>ro_pend = None, ro_load = None, ro_evict = None, ro_vict = None, ro_past = None,
     ro_pin = None, ro_valid = None, ro_reads = None, ro_wait = None, ro_scan = None\<rparr>"

definition role_claim :: "claim \<Rightarrow> role" where
  "role_claim c = role_idle\<lparr>ro_pend := Some (cl_pending c)\<rparr>"

definition role_choosing :: "claim \<Rightarrow> role" where
  "role_choosing c = (role_claim c)\<lparr>ro_load := Some (cl_page c, cl_pending c)\<rparr>"

definition role_past :: "claim \<Rightarrow> role \<Rightarrow> role" where
  "role_past c r = r\<lparr>ro_past := Some (cl_pending c)\<rparr>"

definition role_victim :: "claim \<Rightarrow> victim \<Rightarrow> role" where
  "role_victim c v = (role_past c (role_choosing c))\<lparr>ro_evict := map_option (\<lambda>old. (old, cl_pending c)) (vi_old v),
     ro_vict := Some (vi_index v, cl_pending c), ro_pin := Some (vi_index v)\<rparr>"

definition role_valid :: "nat \<Rightarrow> page_id \<Rightarrow> role \<Rightarrow> role" where
  "role_valid i pid r = r\<lparr>ro_pin := Some i, ro_valid := Some (i, pid)\<rparr>"

fun role_of :: "pc3 \<Rightarrow> role" where
  "role_of Idle = role_idle"
| "role_of (FetchLookup pid mode) = role_idle"
| "role_of (FetchWait k pid mode) = role_idle\<lparr>ro_wait := Some k\<rparr>"
| "role_of (FetchClaim pid mode) = role_idle"
| "role_of (Choose c n) = role_choosing c"
| "role_of (Probe c n i) = role_choosing c"
| "role_of (Reserve c n snapshot i) = role_choosing c"
| "role_of (Scan c i) = role_choosing c"
| "role_of (ScanWait c k) = (role_choosing c)\<lparr>ro_wait := Some k, ro_scan := Some k\<rparr>"
| "role_of (FailRemove c) = role_choosing c"
| "role_of (FailFinish c) = role_claim c"
| "role_of (CheckDirty c v) = role_victim c v"
| "role_of (WriteBack c v copy) = role_victim c v"
| "role_of (ClearDirty c v) = role_victim c v"
| "role_of (ReadNew c v) = role_victim c v"
| "role_of (Replace c v d) = role_victim c v"
| "role_of (RemoveOld c v) = role_victim c v"
| "role_of (Publish c v) = (role_victim c v)\<lparr>ro_evict := None\<rparr>"
| "role_of (FinishLoad c v) = role_valid (vi_index v) (cl_page c) (role_past c (role_claim c))"
| "role_of (CountMiss c v) = role_valid (vi_index v) (cl_page c) role_idle"
| "role_of (RestoreEntry c v e) = role_victim c v"
| "role_of (RestoreUnpin c v e) = (role_victim c v)\<lparr>ro_evict := None, ro_vict := None\<rparr>"
| "role_of (RestoreRemove c e) = role_past c (role_choosing c)"
| "role_of (RestoreFinish c e) = role_past c (role_claim c)"
| "role_of (FlushFrame i) = role_idle"
| "role_of (FlushWait i k) = role_idle\<lparr>ro_wait := Some k\<rparr>"
| "role_of (FlushCheck i pid) = role_valid i pid role_idle"
| "role_of (FlushCopy i pid) = role_valid i pid role_idle"
| "role_of (FlushWrite i pid d) = (role_valid i pid role_idle)\<lparr>ro_reads := Some i\<rparr>"
| "role_of (FlushClear i pid) = (role_valid i pid role_idle)\<lparr>ro_reads := Some i\<rparr>"
| "role_of (FlushRelease i pid r) = (role_valid i pid role_idle)\<lparr>ro_reads := Some i\<rparr>"
| "role_of (FlushUnpin i pid r) = role_valid i pid role_idle"

lemmas role_defs = role_idle_def role_claim_def role_choosing_def role_past_def role_victim_def role_valid_def

text \<open>What holds of the roles themselves.\<close>

definition role_ok :: "role \<Rightarrow> bool" where
  "role_ok r \<longleftrightarrow>
     (\<forall>a. ro_load r = Some a \<longrightarrow> ro_pend r = Some (snd a)) \<and>
     (\<forall>a. ro_evict r = Some a \<longrightarrow> ro_pend r = Some (snd a)) \<and>
     (\<forall>a. ro_vict r = Some a \<longrightarrow> ro_pend r = Some (snd a) \<and> ro_past r = Some (snd a) \<and> ro_pin r = Some (fst a)) \<and>
     (\<forall>k. ro_past r = Some k \<longrightarrow> ro_pend r = Some k \<and> ro_wait r = None) \<and>
     (\<forall>a. ro_valid r = Some a \<longrightarrow> ro_pin r = Some (fst a)) \<and>
     (\<forall>k. ro_scan r = Some k \<longrightarrow> ro_wait r = Some k)"

lemma role_of_ok: "role_ok (role_of pc)"
  by (cases pc) (auto simp: role_ok_def role_defs)

section \<open>The invariant\<close>

record ctl =
  ct_n :: nat
  ct_lookup :: "page_id \<Rightarrow> entry3 option"
  ct_state :: "nat \<Rightarrow> frame_state3"
  ct_pin :: "nat \<Rightarrow> nat"
  ct_readers :: "nat \<Rightarrow> nat"
  ct_pend :: "bool list"
  ct_guards :: "page_guard option list"
  ct_roles :: "role list"

definition open_pends :: "ctl \<Rightarrow> nat set" where
  "open_pends x = {k. k < length (ct_pend x) \<and> \<not> ct_pend x ! k}"

definition loads :: "ctl \<Rightarrow> (page_id \<times> nat) set" where
  "loads x = {(pid, k). ct_lookup x pid = Some (Loading3 k)}"

definition evicts :: "ctl \<Rightarrow> (page_id \<times> nat) set" where
  "evicts x = {(pid, k). ct_lookup x pid = Some (EvictingEntry3 k)}"

definition victims :: "ctl \<Rightarrow> (nat \<times> nat) set" where
  "victims x = {(i, k). i < ct_n x \<and> ct_state x i = Evicting3 k}"

definition ready_inv :: "ctl \<Rightarrow> bool" where
  "ready_inv x \<longleftrightarrow> (\<forall>pid i. ct_lookup x pid = Some (Ready3 i) \<longleftrightarrow> i < ct_n x \<and> ct_state x i = Valid3 pid)"

text \<open>Every unfinished pending, every entry and every state of a load belongs to one thread.\<close>

definition held_inv :: "ctl \<Rightarrow> bool" where
  "held_inv x \<longleftrightarrow> owned ro_pend (ct_roles x) \<and> open_pends x = holds ro_pend (ct_roles x) \<and>
     loads x = holds ro_load (ct_roles x) \<and> evicts x = holds ro_evict (ct_roles x) \<and>
     victims x = holds ro_vict (ct_roles x)"

text \<open>Pin counts and data locks are those of the guards and threads; a page that is relied on stays valid.\<close>

definition pin_inv :: "ctl \<Rightarrow> bool" where
  "pin_inv x \<longleftrightarrow> (\<forall>i < ct_n x. ct_pin x i = guards_on i (ct_guards x) + cnt (\<lambda>r. ro_pin r = Some i) (ct_roles x) \<and>
     ct_readers x i = cnt (\<lambda>r. ro_reads r = Some i) (ct_roles x))"

definition valid_inv :: "ctl \<Rightarrow> bool" where
  "valid_inv x \<longleftrightarrow>
     (\<forall>g. Some g \<in> set (ct_guards x) \<longrightarrow> pg_frame g < ct_n x \<and> ct_state x (pg_frame g) = Valid3 (pg_page_id g)) \<and>
     (\<forall>i pid. (i, pid) \<in> holds ro_valid (ct_roles x) \<longrightarrow> i < ct_n x \<and> ct_state x i = Valid3 pid)"

definition wait_inv :: "ctl \<Rightarrow> bool" where
  "wait_inv x \<longleftrightarrow> (\<forall>k \<in> holds ro_wait (ct_roles x). k < length (ct_pend x)) \<and>
     (\<forall>k \<in> holds ro_scan (ct_roles x). \<not> ct_pend x ! k \<longrightarrow> k \<in> holds ro_past (ct_roles x))"

definition ctl_inv :: "ctl \<Rightarrow> bool" where
  "ctl_inv x \<longleftrightarrow> held_inv x \<and> ready_inv x \<and> pin_inv x \<and> valid_inv x \<and> wait_inv x \<and> (\<forall>r \<in> set (ct_roles x). role_ok r)"

section \<open>A step\<close>

lemma owned_by_pend:
  assumes "owned ro_pend rs" "\<forall>r \<in> set rs. role_ok r"
    and "\<And>r a. role_ok r \<Longrightarrow> f r = Some a \<Longrightarrow> ro_pend r = Some (snd a)"
  shows "owned f rs"
  unfolding owned_def
proof (intro allI impI)
  fix t u assume t: "t < length rs" "u < length rs" "f (rs ! t) \<noteq> None" "f (rs ! t) = f (rs ! u)"
  then obtain a where "f (rs ! t) = Some a" "f (rs ! u) = Some a" by auto
  then have "ro_pend (rs ! t) = Some (snd a)" "ro_pend (rs ! u) = Some (snd a)" using assms(2,3) t(1,2) nth_mem by blast+
  then show "t = u" using assms(1) t(1,2) by (simp add: owned_def)
qed

lemma owned_roles:
  assumes "owned ro_pend rs" "\<forall>r \<in> set rs. role_ok r"
  shows "owned ro_load rs" "owned ro_evict rs" "owned ro_vict rs"
  by (rule owned_by_pend [OF assms], simp add: role_ok_def)+

text \<open>The thread \<open>t\<close> changes its role from \<open>q\<close> to \<open>r\<close> and the shared state by what it gives up and takes.\<close>

lemma ctl_step:
  assumes inv: "ctl_inv x" and t: "t < length (ct_roles x)" and r: "role_ok r"
    and y: "ct_n y = ct_n x" "ct_roles y = (ct_roles x)[t := r]" and q: "q = ct_roles x ! t"
    and pends: "open_pends y = (open_pends x - set_option (ro_pend q)) \<union> set_option (ro_pend r)"
      "ro_pend r = ro_pend q \<or> ro_pend r = None \<or> ro_pend r = Some (length (ct_pend x))"
      "length (ct_pend x) \<le> length (ct_pend y)"
    and loads: "loads y = (loads x - set_option (ro_load q)) \<union> set_option (ro_load r)"
    and evicts: "evicts y = (evicts x - set_option (ro_evict q)) \<union> set_option (ro_evict r)"
    and victims: "victims y = (victims x - set_option (ro_vict q)) \<union> set_option (ro_vict r)"
    and ready: "ready_inv y"
    and pins: "\<And>i. i < ct_n x \<Longrightarrow> ct_pin y i + guards_on i (ct_guards x) + (if ro_pin q = Some i then 1 else 0) =
        ct_pin x i + guards_on i (ct_guards y) + (if ro_pin r = Some i then 1 else 0)"
      "\<And>i. i < ct_n x \<Longrightarrow> ct_readers y i + (if ro_reads q = Some i then 1 else 0) =
        ct_readers x i + (if ro_reads r = Some i then 1 else 0)"
    and guards: "\<And>g. Some g \<in> set (ct_guards y) \<Longrightarrow> Some g \<in> set (ct_guards x) \<or>
        pg_frame g < ct_n x \<and> ct_state y (pg_frame g) = Valid3 (pg_page_id g)"
    and valid: "\<And>i pid. ro_valid r = Some (i, pid) \<Longrightarrow> i < ct_n x \<and> ct_state y i = Valid3 pid"
    and stable: "\<And>i pid. i < ct_n x \<Longrightarrow> ct_state x i = Valid3 pid \<Longrightarrow> 0 < ct_pin x i \<Longrightarrow> ct_state y i = Valid3 pid"
    and wait: "\<And>k. ro_wait r = Some k \<Longrightarrow> k < length (ct_pend x)"
      "\<And>k. ro_scan r = Some k \<Longrightarrow> \<exists>i. (i, k) \<in> victims x"
    and past: "ro_past q = None \<or> ro_past r = ro_past q \<or> ro_pend r = None"
  shows "ctl_inv y"
proof -
  let ?rs = "ct_roles x"
  have H: "owned ro_pend ?rs" "open_pends x = holds ro_pend ?rs" "loads x = holds ro_load ?rs" "evicts x = holds ro_evict ?rs"
    "victims x = holds ro_vict ?rs" "\<forall>r \<in> set ?rs. role_ok r" and P: "pin_inv x" and V: "valid_inv x" and W: "wait_inv x"
    using inv by (auto simp: ctl_inv_def held_inv_def)
  note O = H(1) owned_roles [OF H(1,6)]
  have ok: "\<forall>r \<in> set (ct_roles y). role_ok r" using H(6) r set_update_subset_insert [of ?rs t r] y(2) by auto
  have "owned ro_pend (ct_roles y)"
    unfolding y(2)
  proof (rule owned_update [OF H(1)])
    fix k assume k: "ro_pend r = Some k"
    show "ro_pend (?rs ! t) = Some k \<or> k \<notin> holds ro_pend ?rs"
      using pends(2) k q by (auto simp flip: H(2) simp: open_pends_def)
  qed
  then have held: "held_inv y"
    unfolding held_inv_def
    using pends(1) loads evicts victims holds_update [OF t O(1)] holds_update [OF t O(2)] holds_update [OF t O(3)]
      holds_update [OF t O(4)] by (simp add: y(2) q H(2-5))
  have pin: "pin_inv y"
    unfolding pin_inv_def y
  proof (intro allI impI)
    fix i assume i: "i < ct_n x"
    have "ct_pin x i = guards_on i (ct_guards x) + cnt (\<lambda>r. ro_pin r = Some i) ?rs"
      "ct_readers x i = cnt (\<lambda>r. ro_reads r = Some i) ?rs" using P i by (simp_all add: pin_inv_def)
    then show "ct_pin y i = guards_on i (ct_guards y) + cnt (\<lambda>r. ro_pin r = Some i) (?rs[t := r]) \<and>
        ct_readers y i = cnt (\<lambda>r. ro_reads r = Some i) (?rs[t := r])"
      using pins [OF i] cnt_update [OF t, of "\<lambda>r. ro_pin r = Some i" r] cnt_update [OF t, of "\<lambda>r. ro_reads r = Some i" r]
      unfolding q by linarith
  qed
  have valid': "valid_inv y"
    unfolding valid_inv_def y
  proof (intro conjI allI impI)
    fix g assume g: "Some g \<in> set (ct_guards y)"
    have *: "pg_frame g < ct_n x \<and> ct_state y (pg_frame g) = Valid3 (pg_page_id g)"
      using guards [OF g]
    proof
      assume old: "Some g \<in> set (ct_guards x)"
      then have v: "pg_frame g < ct_n x" "ct_state x (pg_frame g) = Valid3 (pg_page_id g)" using V by (auto simp: valid_inv_def)
      have "guards_on (pg_frame g) (ct_guards x) \<noteq> 0"
        using old by (auto simp: guards_on_def filter_empty_conv intro!: bexI [of _ "Some g"])
      then have "0 < ct_pin x (pg_frame g)" using P v(1) by (simp add: pin_inv_def)
      then show ?thesis using stable [OF v] v(1) by simp
    qed
    then show "pg_frame g < ct_n x" "ct_state y (pg_frame g) = Valid3 (pg_page_id g)" by simp_all
  next
    fix i pid assume "(i, pid) \<in> holds ro_valid (?rs[t := r])"
    then obtain u where u: "u < length ?rs" "ro_valid (?rs[t := r] ! u) = Some (i, pid)" by (auto elim: holdsE)
    have "i < ct_n x \<and> ct_state y i = Valid3 pid"
    proof (cases "u = t")
      case False
      then have a: "ro_valid (?rs ! u) = Some (i, pid)" using u by simp
      then have v: "i < ct_n x" "ct_state x i = Valid3 pid" using V holdsI [OF u(1), of ro_valid] by (auto simp: valid_inv_def)
      have "ro_pin (?rs ! u) = Some i" using H(6) a nth_mem [OF u(1)] by (auto simp: role_ok_def)
      then have "0 < ct_pin x i" using P v(1) cnt_pos [OF u(1), of "\<lambda>r. ro_pin r = Some i"] by (simp add: pin_inv_def)
      then show ?thesis using stable [OF v] v(1) by simp
    qed (use u valid in simp)
    then show "i < ct_n x" "ct_state y i = Valid3 pid" by simp_all
  qed
  have keep: "k \<in> holds ro_past (ct_roles y)" if k: "k \<in> holds ro_past ?rs" "k \<in> open_pends y" for k
  proof -
    obtain u where u: "u < length ?rs" "ro_past (?rs ! u) = Some k" using k(1) by (auto elim: holdsE)
    show ?thesis
    proof (cases "u = t")
      case True
      then have "ro_past q = Some k" "ro_pend q = Some k" using u q H(6) nth_mem [OF t] by (auto simp: role_ok_def)
      moreover from this have "ro_pend r = Some k" using k(2) pends(1) by auto
      ultimately have "ro_past r = Some k" using past by auto
      then show ?thesis using t y(2) by (intro holdsI [of t]) simp_all
    qed (use u y(2) in \<open>auto intro!: holdsI [of u]\<close>)
  qed
  have "wait_inv y"
    unfolding wait_inv_def
  proof (intro conjI ballI impI)
    fix k assume "k \<in> holds ro_wait (ct_roles y)"
    then obtain u where u: "u < length ?rs" "ro_wait (?rs[t := r] ! u) = Some k" using y(2) by (auto elim: holdsE)
    have "k < length (ct_pend x)"
    proof (cases "u = t")
      case False
      then show ?thesis using W u holdsI [OF u(1), of ro_wait k] by (simp add: wait_inv_def)
    qed (use u wait(1) in simp)
    then show "k < length (ct_pend y)" using pends(3) by simp
  next
    fix k assume k: "k \<in> holds ro_scan (ct_roles y)" "\<not> ct_pend y ! k"
    then obtain u where u: "u < length ?rs" "ro_scan (?rs[t := r] ! u) = Some k" using y(2) by (auto elim: holdsE)
    have "k < length (ct_pend x) \<and> (k \<in> open_pends x \<longrightarrow> k \<in> holds ro_past ?rs)"
    proof (cases "u = t")
      case True
      then obtain i where "(i, k) \<in> holds ro_vict ?rs" using u wait(2) H(5) by auto
      then obtain v where v: "v < length ?rs" "ro_vict (?rs ! v) = Some (i, k)" by (auto elim: holdsE)
      then have "ro_past (?rs ! v) = Some k" using H(6) nth_mem [OF v(1)] by (force simp: role_ok_def)
      moreover have "ro_wait r = Some k" using True u r by (simp add: role_ok_def)
      ultimately show ?thesis using v(1) wait(1) holdsI by fast
    next
      case False
      then have s: "ro_scan (?rs ! u) = Some k" using u by simp
      then have "ro_wait (?rs ! u) = Some k" using H(6) nth_mem [OF u(1)] by (auto simp: role_ok_def)
      then show ?thesis
        using W s u(1) holdsI [of u ?rs ro_wait k] holdsI [of u ?rs ro_scan k] by (auto simp: wait_inv_def open_pends_def)
    qed
    moreover have "k \<in> open_pends y" using k(2) calculation pends(3) by (simp add: open_pends_def)
    moreover from this have "k \<in> open_pends x"
      using pends(1,2) calculation H(2) holdsI [OF t, of ro_pend k] q by auto
    ultimately show "k \<in> holds ro_past (ct_roles y)" using keep by simp
  qed
  then show ?thesis using held ready pin valid' ok by (simp add: ctl_inv_def)
qed

end
