(* ===== verification/Pool_V3_Moves.thy ===== *)
theory Pool_V3_Moves imports Pool_V3_Control begin

text \<open>
  The control invariant of the third pool under every kind of step: a lemma for each way in which a thread changes
  what it holds.
\<close>

definition upd_role :: "nat \<Rightarrow> role \<Rightarrow> ctl \<Rightarrow> ctl" where
  "upd_role t r x = x\<lparr>ct_roles := (ct_roles x)[t := r]\<rparr>"

lemma upd_role_sel [simp]:
  "ct_n (upd_role t r x) = ct_n x" "ct_lookup (upd_role t r x) = ct_lookup x" "ct_state (upd_role t r x) = ct_state x"
  "ct_pin (upd_role t r x) = ct_pin x" "ct_readers (upd_role t r x) = ct_readers x" "ct_pend (upd_role t r x) = ct_pend x"
  "ct_guards (upd_role t r x) = ct_guards x" "ct_roles (upd_role t r x) = (ct_roles x)[t := r]"
  by (simp_all add: upd_role_def)

lemmas ctl_sets = open_pends_def loads_def evicts_def victims_def

text \<open>What the role of a thread says of the shared state.\<close>

lemma own_role:
  assumes "ctl_inv x" "t < length (ct_roles x)"
  shows "ro_pend (ct_roles x ! t) = Some k \<Longrightarrow> k < length (ct_pend x) \<and> \<not> ct_pend x ! k"
    and "ro_load (ct_roles x ! t) = Some (pid, k) \<Longrightarrow> ct_lookup x pid = Some (Loading3 k)"
    and "ro_evict (ct_roles x ! t) = Some (pid, k) \<Longrightarrow> ct_lookup x pid = Some (EvictingEntry3 k)"
    and "ro_vict (ct_roles x ! t) = Some (i, k) \<Longrightarrow> i < ct_n x \<and> ct_state x i = Evicting3 k"
    and "ro_valid (ct_roles x ! t) = Some (i, pid) \<Longrightarrow>
      i < ct_n x \<and> ct_state x i = Valid3 pid \<and> ct_lookup x pid = Some (Ready3 i)"
    and "ro_pin (ct_roles x ! t) = Some i \<Longrightarrow> i < ct_n x \<Longrightarrow> 0 < ct_pin x i"
    and "role_ok (ct_roles x ! t)"
proof -
  have H: "open_pends x = holds ro_pend (ct_roles x)" "loads x = holds ro_load (ct_roles x)"
    "evicts x = holds ro_evict (ct_roles x)" "victims x = holds ro_vict (ct_roles x)" "valid_inv x" "pin_inv x" "ready_inv x"
    using assms(1) by (auto simp: ctl_inv_def held_inv_def)
  note h = holdsI [OF assms(2)]
  show "ro_pend (ct_roles x ! t) = Some k \<Longrightarrow> k < length (ct_pend x) \<and> \<not> ct_pend x ! k"
    using H(1) h [of ro_pend k] by (auto simp: open_pends_def)
  show "ro_load (ct_roles x ! t) = Some (pid, k) \<Longrightarrow> ct_lookup x pid = Some (Loading3 k)"
    using H(2) h [of ro_load "(pid, k)"] by (auto simp: loads_def)
  show "ro_evict (ct_roles x ! t) = Some (pid, k) \<Longrightarrow> ct_lookup x pid = Some (EvictingEntry3 k)"
    using H(3) h [of ro_evict "(pid, k)"] by (auto simp: evicts_def)
  show "ro_vict (ct_roles x ! t) = Some (i, k) \<Longrightarrow> i < ct_n x \<and> ct_state x i = Evicting3 k"
    using H(4) h [of ro_vict "(i, k)"] by (auto simp: victims_def)
  show "ro_valid (ct_roles x ! t) = Some (i, pid) \<Longrightarrow>
      i < ct_n x \<and> ct_state x i = Valid3 pid \<and> ct_lookup x pid = Some (Ready3 i)"
    using H(5,7) h [of ro_valid "(i, pid)"] by (auto simp: valid_inv_def ready_inv_def)
  show "ro_pin (ct_roles x ! t) = Some i \<Longrightarrow> i < ct_n x \<Longrightarrow> 0 < ct_pin x i"
    using H(6) cnt_pos [OF assms(2), of "\<lambda>r. ro_pin r = Some i"] by (simp add: pin_inv_def)
  show "role_ok (ct_roles x ! t)" using assms by (auto simp: ctl_inv_def)
qed

text \<open>A step that only moves the thread; it may start or end to wait.\<close>

lemma ctl_move:
  assumes inv: "ctl_inv x" and t: "t < length (ct_roles x)" and r: "role_ok r"
    and same: "ro_pend r = ro_pend (ct_roles x ! t)" "ro_load r = ro_load (ct_roles x ! t)"
      "ro_evict r = ro_evict (ct_roles x ! t)" "ro_vict r = ro_vict (ct_roles x ! t)" "ro_past r = ro_past (ct_roles x ! t)"
      "ro_pin r = ro_pin (ct_roles x ! t)" "ro_reads r = ro_reads (ct_roles x ! t)" "ro_valid r = ro_valid (ct_roles x ! t)"
    and wait: "\<And>k. ro_wait r = Some k \<Longrightarrow> k < length (ct_pend x)"
      "\<And>k. ro_scan r = Some k \<Longrightarrow> \<exists>i. (i, k) \<in> victims x"
  shows "ctl_inv (upd_role t r x)"
proof (rule ctl_step [OF inv t r _ _ refl])
  note own = own_role [OF inv t]
  have sets: "open_pends (upd_role t r x) = open_pends x" "loads (upd_role t r x) = loads x"
    "evicts (upd_role t r x) = evicts x" "victims (upd_role t r x) = victims x" by (simp_all add: ctl_sets)
  show "open_pends (upd_role t r x) = (open_pends x - set_option (ro_pend (ct_roles x ! t))) \<union> set_option (ro_pend r)"
    unfolding sets using own(1) same(1) by (auto simp: open_pends_def)
  show "loads (upd_role t r x) = (loads x - set_option (ro_load (ct_roles x ! t))) \<union> set_option (ro_load r)"
    unfolding sets using own(2) same(2) by (auto simp: loads_def)
  show "evicts (upd_role t r x) = (evicts x - set_option (ro_evict (ct_roles x ! t))) \<union> set_option (ro_evict r)"
    unfolding sets using own(3) same(3) by (auto simp: evicts_def)
  show "victims (upd_role t r x) = (victims x - set_option (ro_vict (ct_roles x ! t))) \<union> set_option (ro_vict r)"
    unfolding sets using own(4) same(4) by (auto simp: victims_def)
  show "ready_inv (upd_role t r x)" using inv by (simp add: ctl_inv_def ready_inv_def)
qed (use own_role(5) [OF inv t] same wait in simp_all)

text \<open>The steps below are read off the sets: what the thread holds is removed, what it takes is added.\<close>

lemma ready_at: "ctl_inv x \<Longrightarrow> \<forall>pid i. ct_lookup x pid = Some (Ready3 i) \<longleftrightarrow> i < ct_n x \<and> ct_state x i = Valid3 pid"
  by (simp add: ctl_inv_def ready_inv_def)

lemma ready_of: "ctl_inv x \<Longrightarrow> i < ct_n x \<Longrightarrow> ct_state x i = Valid3 pid \<Longrightarrow> ct_lookup x pid = Some (Ready3 i)"
  by (simp add: ctl_inv_def ready_inv_def)

lemmas ctl_read = role_ok_def role_defs ctl_sets ready_inv_def guards_on_append

text \<open>A ready frame is pinned for a new guard, and a thread's pin goes to a new guard.\<close>

lemma ctl_hit:
  assumes inv: "ctl_inv x" and t: "t < length (ct_roles x)" "ct_roles x ! t = role_idle" and i: "ct_lookup x pid = Some (Ready3 i)"
  shows "ctl_inv (upd_role t role_idle (x\<lparr>ct_pin := (ct_pin x)(i := ct_pin x i + 1),
    ct_guards := ct_guards x @ [Some \<lparr>pg_page_id = pid, pg_frame = i\<rparr>]\<rparr>))"
  by (rule ctl_step [OF inv t(1) _ _ _ refl])
    (use ready_at [OF inv] i in \<open>simp_all add: t(2) ctl_read, auto\<close>)

lemma ctl_to_guard:
  assumes inv: "ctl_inv x" and t: "t < length (ct_roles x)" "ct_roles x ! t = role_valid i pid role_idle"
  shows "ctl_inv (upd_role t role_idle (x\<lparr>ct_guards := ct_guards x @ [Some \<lparr>pg_page_id = pid, pg_frame = i\<rparr>]\<rparr>))"
  by (rule ctl_step [OF inv t(1) _ _ _ refl])
    (use ready_at [OF inv] own_role(5) [OF inv t(1)] in \<open>simp_all add: t(2) ctl_read, auto\<close>)

text \<open>A page is claimed, a claim is dropped, a pending is finished.\<close>

lemma ctl_claim:
  assumes inv: "ctl_inv x" and t: "t < length (ct_roles x)" "ct_roles x ! t = role_idle" and free: "ct_lookup x (cl_page c) = None"
    and k: "cl_pending c = length (ct_pend x)"
  shows "ctl_inv (upd_role t (role_choosing c) (x\<lparr>ct_pend := ct_pend x @ [False],
    ct_lookup := (ct_lookup x)(cl_page c \<mapsto> Loading3 (length (ct_pend x)))\<rparr>))"
  by (rule ctl_step [OF inv t(1) _ _ _ refl])
    (use ready_at [OF inv] free k in \<open>simp_all add: t(2) ctl_read nth_append, auto split: if_splits dest: ready_of [OF inv]\<close>)

lemma ctl_unclaim:
  assumes inv: "ctl_inv x" and t: "t < length (ct_roles x)" and q: "ro_load (ct_roles x ! t) = Some (pid, k)"
      "ro_vict (ct_roles x ! t) = None" "ro_evict (ct_roles x ! t) = None" "ro_reads (ct_roles x ! t) = None"
      "ro_wait (ct_roles x ! t) = None" "ro_scan (ct_roles x ! t) = None" "ro_valid (ct_roles x ! t) = None"
    and r: "r = (ct_roles x ! t)\<lparr>ro_load := None\<rparr>"
  shows "ctl_inv (upd_role t r (x\<lparr>ct_lookup := (ct_lookup x)(pid := None)\<rparr>))"
  by (rule ctl_step [where r = r, OF inv t _ _ _ refl])
    (use ready_at [OF inv] own_role(1,7) [OF inv t] own_role(2) [OF inv t q(1)] q in
      \<open>simp_all add: r ctl_read, auto split: if_splits dest: ready_of [OF inv]\<close>)

lemma ctl_finish:
  assumes inv: "ctl_inv x" and t: "t < length (ct_roles x)" and q: "ro_pend (ct_roles x ! t) = Some k" "ro_load (ct_roles x ! t) = None"
      "ro_evict (ct_roles x ! t) = None" "ro_vict (ct_roles x ! t) = None" "ro_reads (ct_roles x ! t) = None"
    and r: "r = role_idle\<lparr>ro_pin := ro_pin (ct_roles x ! t), ro_valid := ro_valid (ct_roles x ! t)\<rparr>"
  shows "ctl_inv (upd_role t r (x\<lparr>ct_pend := (ct_pend x)[k := True]\<rparr>))"
  by (rule ctl_step [where r = r, OF inv t _ _ _ refl])
    (use ready_at [OF inv] own_role(1) [OF inv t q(1)] own_role(5,7) [OF inv t] q in
      \<open>simp_all add: r ctl_read nth_list_update, auto split: if_splits dest: ready_of [OF inv]\<close>)

text \<open>A frame is reserved: it was unpinned, and its page, if it holds one, was ready.\<close>

lemma ctl_reserve:
  assumes inv: "ctl_inv x" and t: "t < length (ct_roles x)" "ct_roles x ! t = role_choosing c"
    and i: "i < ct_n x" "ct_pin x i = 0" "vi_index v = i"
    and old: "case vi_old v of None \<Rightarrow> ct_state x i = Empty3 | Some old \<Rightarrow> ct_state x i = Valid3 old"
  shows "ctl_inv (upd_role t (role_victim c v) (x\<lparr>ct_pin := (ct_pin x)(i := 1),
    ct_state := (ct_state x)(i := Evicting3 (cl_pending c)),
    ct_lookup := (case vi_old v of None \<Rightarrow> ct_lookup x
      | Some old \<Rightarrow> (ct_lookup x)(old \<mapsto> EvictingEntry3 (cl_pending c)))\<rparr>))"
proof -
  have k: "ct_lookup x (cl_page c) = Some (Loading3 (cl_pending c))" "cl_pending c < length (ct_pend x)"
    "\<not> ct_pend x ! cl_pending c"
    using own_role(1,2) [OF inv t(1)] t(2) by (auto simp: role_defs)
  show ?thesis
  proof (cases "vi_old v")
    case None
    then show ?thesis
      by (intro ctl_step [OF inv t(1) _ _ _ refl])
        (use ready_at [OF inv] i old k in \<open>simp_all add: t(2) ctl_read, auto split: if_splits\<close>)
  next
    case (Some pid)
    then have r: "ct_lookup x pid = Some (Ready3 i)" using old i(1) ready_of [OF inv] by simp
    moreover from r have "\<forall>j. ct_lookup x pid \<noteq> Some (Loading3 j) \<and> ct_lookup x pid \<noteq> Some (EvictingEntry3 j)" by simp
    moreover have "\<forall>j. j < ct_n x \<longrightarrow> j \<noteq> i \<longrightarrow> ct_state x j \<noteq> Valid3 pid" using r ready_of [OF inv, of _ pid] by force
    moreover have "cl_page c \<noteq> pid" using r k(1) by auto
    ultimately show ?thesis
      by (intro ctl_step [OF inv t(1) _ _ _ refl])
        (use ready_at [OF inv] i old k Some in \<open>simp_all add: t(2) ctl_read, auto split: if_splits\<close>)
  qed
qed

text \<open>The entry of the old page is removed, and the new page is published; or the victim is given back.\<close>

lemma ctl_remove_old:
  assumes inv: "ctl_inv x" and t: "t < length (ct_roles x)" "ct_roles x ! t = role_victim c v"
  shows "ctl_inv (upd_role t ((role_victim c v)\<lparr>ro_evict := None\<rparr>)
    (x\<lparr>ct_lookup := (case vi_old v of None \<Rightarrow> ct_lookup x | Some old \<Rightarrow> (ct_lookup x)(old := None))\<rparr>))"
proof -
  note own = own_role [OF inv t(1), unfolded t(2)]
  have k: "cl_pending c < length (ct_pend x)" "\<not> ct_pend x ! cl_pending c"
    "ct_lookup x (cl_page c) = Some (Loading3 (cl_pending c))"
    "vi_index v < ct_n x" "ct_state x (vi_index v) = Evicting3 (cl_pending c)"
    "\<forall>old. vi_old v = Some old \<longrightarrow> ct_lookup x old = Some (EvictingEntry3 (cl_pending c))"
    using own(1-4) by (auto simp: role_defs)
  show ?thesis
    by (rule ctl_step [OF inv t(1) _ _ _ refl])
      (use ready_at [OF inv] k in \<open>simp_all add: t(2) ctl_read split: option.splits, auto split: if_splits dest: ready_of [OF inv]\<close>)
qed

lemma ctl_publish:
  assumes inv: "ctl_inv x" and t: "t < length (ct_roles x)" "ct_roles x ! t = (role_victim c v)\<lparr>ro_evict := None\<rparr>"
  shows "ctl_inv (upd_role t (role_valid (vi_index v) (cl_page c) (role_past c (role_claim c)))
    (x\<lparr>ct_state := (ct_state x)(vi_index v := Valid3 (cl_page c)),
       ct_lookup := (ct_lookup x)(cl_page c \<mapsto> Ready3 (vi_index v))\<rparr>))"
proof -
  note own = own_role [OF inv t(1), unfolded t(2)]
  have k: "cl_pending c < length (ct_pend x)" "\<not> ct_pend x ! cl_pending c"
    "ct_lookup x (cl_page c) = Some (Loading3 (cl_pending c))"
    "vi_index v < ct_n x" "ct_state x (vi_index v) = Evicting3 (cl_pending c)"
    using own(1,2,4) by (auto simp: role_defs)
  show ?thesis
    by (rule ctl_step [OF inv t(1) _ _ _ refl])
      (use ready_at [OF inv] k in \<open>simp_all add: t(2) ctl_read, auto split: if_splits dest: ready_of [OF inv]\<close>)
qed

lemma ctl_restore:
  assumes inv: "ctl_inv x" and t: "t < length (ct_roles x)" "ct_roles x ! t = role_victim c v"
  shows "ctl_inv (upd_role t ((role_victim c v)\<lparr>ro_evict := None, ro_vict := None\<rparr>)
    (x\<lparr>ct_state := (ct_state x)(vi_index v := (case vi_old v of None \<Rightarrow> Empty3 | Some old \<Rightarrow> Valid3 old)),
       ct_lookup := (case vi_old v of None \<Rightarrow> ct_lookup x | Some old \<Rightarrow> (ct_lookup x)(old \<mapsto> Ready3 (vi_index v)))\<rparr>))"
proof -
  note own = own_role [OF inv t(1), unfolded t(2)]
  have k: "cl_pending c < length (ct_pend x)" "\<not> ct_pend x ! cl_pending c"
    "ct_lookup x (cl_page c) = Some (Loading3 (cl_pending c))"
    "vi_index v < ct_n x" "ct_state x (vi_index v) = Evicting3 (cl_pending c)"
    "\<forall>old. vi_old v = Some old \<longrightarrow> ct_lookup x old = Some (EvictingEntry3 (cl_pending c))"
    using own(1-4) by (auto simp: role_defs)
  show ?thesis
    by (rule ctl_step [OF inv t(1) _ _ _ refl])
      (use ready_at [OF inv] k in \<open>simp_all add: t(2) ctl_read split: option.splits, auto split: if_splits dest: ready_of [OF inv]\<close>)
qed

text \<open>A pin is taken or given up, and the data lock likewise.\<close>

lemma ctl_unpin:
  assumes inv: "ctl_inv x" and t: "t < length (ct_roles x)" and q: "ro_pin (ct_roles x ! t) = Some i" "i < ct_n x"
      "ro_vict (ct_roles x ! t) = None" "ro_evict (ct_roles x ! t) = None" "ro_reads (ct_roles x ! t) = None"
      "ro_wait (ct_roles x ! t) = None" "ro_scan (ct_roles x ! t) = None"
    and r: "r = (ct_roles x ! t)\<lparr>ro_pin := None, ro_valid := None\<rparr>"
  shows "ctl_inv (upd_role t r (x\<lparr>ct_pin := (ct_pin x)(i := ct_pin x i - 1)\<rparr>))"
  by (rule ctl_step [where r = r, OF inv t _ _ _ refl])
    (use ready_at [OF inv] own_role(1,2,6,7) [OF inv t] q in \<open>simp_all add: r ctl_read, auto\<close>)

lemma ctl_pin:
  assumes inv: "ctl_inv x" and t: "t < length (ct_roles x)" "ct_roles x ! t = role_idle" and i: "i < ct_n x" "ct_state x i = Valid3 pid"
  shows "ctl_inv (upd_role t (role_valid i pid role_idle) (x\<lparr>ct_pin := (ct_pin x)(i := ct_pin x i + 1)\<rparr>))"
  by (rule ctl_step [OF inv t(1) _ _ _ refl])
    (use ready_at [OF inv] i in \<open>simp_all add: t(2) ctl_read, auto\<close>)

lemma ctl_lock:
  assumes inv: "ctl_inv x" and t: "t < length (ct_roles x)" "ct_roles x ! t = role_valid i pid role_idle"
  shows "ctl_inv (upd_role t ((role_valid i pid role_idle)\<lparr>ro_reads := Some i\<rparr>)
    (x\<lparr>ct_readers := (ct_readers x)(i := ct_readers x i + 1)\<rparr>))"
  by (rule ctl_step [OF inv t(1) _ _ _ refl])
    (use ready_at [OF inv] own_role(5) [OF inv t(1)] in \<open>simp_all add: t(2) ctl_read, auto\<close>)

lemma ctl_unlock:
  assumes inv: "ctl_inv x" and t: "t < length (ct_roles x)" "ct_roles x ! t = (role_valid i pid role_idle)\<lparr>ro_reads := Some i\<rparr>"
  shows "ctl_inv (upd_role t (role_valid i pid role_idle) (x\<lparr>ct_readers := (ct_readers x)(i := ct_readers x i - 1)\<rparr>))"
proof -
  have v: "i < ct_n x" "ct_state x i = Valid3 pid" using own_role(5) [OF inv t(1)] t(2) by (auto simp: role_defs)
  have "0 < ct_readers x i"
    using inv v(1) cnt_pos [OF t(1), of "\<lambda>r. ro_reads r = Some i"] t(2) by (simp add: ctl_inv_def pin_inv_def)
  then show ?thesis
    by (intro ctl_step [OF inv t(1) _ _ _ refl])
      (use ready_at [OF inv] v in \<open>simp_all add: t(2) ctl_read, auto\<close>)
qed

text \<open>A guard is dropped.\<close>

lemma ctl_drop:
  assumes inv: "ctl_inv x" and h: "h < length (ct_guards x)" "ct_guards x ! h = Some g"
  shows "ctl_inv (x\<lparr>ct_pin := (ct_pin x)(pg_frame g := ct_pin x (pg_frame g) - 1), ct_guards := (ct_guards x)[h := None]\<rparr>)"
proof -
  have "Some g' \<in> set (ct_guards x)" if "Some g' \<in> set ((ct_guards x)[h := None])" for g'
    using that set_update_subset_insert [of "ct_guards x" h None] by auto
  then show ?thesis
    using inv guards_on_drop [OF h]
    by (auto simp: ctl_inv_def held_inv_def ready_inv_def valid_inv_def wait_inv_def pin_inv_def ctl_sets)
qed

end
