(* ===== verification/Pool_V3_Threads.thy ===== *)
theory Pool_V3_Threads imports Pool_V3_Moves begin

text \<open>
  The steps of the threads of the third pool keep the control invariant: each step of the model is one of the moves
  of \<open>Pool_V3_Moves\<close> on the control state \<open>ctl_of\<close>. A consequence is that the pool never deadlocks.
\<close>

section \<open>The control state of a pool\<close>

definition ctl_of :: "(page_id \<Rightarrow> u64) \<Rightarrow> 's pool3 \<Rightarrow> page_guard option list \<Rightarrow> pc3 list \<Rightarrow> ctl" where
  "ctl_of hash p gs ts = \<lparr>ct_n = length (frames3 p), ct_lookup = (\<lambda>pid. lookup3 hash pid p),
     ct_state = (\<lambda>i. f3_state (frames3 p ! i)), ct_pin = (\<lambda>i. unat (f3_pin (frames3 p ! i))),
     ct_readers = (\<lambda>i. f3_readers (frames3 p ! i)), ct_pend = pendings3 p, ct_guards = gs, ct_roles = map role_of ts\<rparr>"

definition shape3 :: "'s pool3 \<Rightarrow> bool" where
  "shape3 p \<longleftrightarrow> 0 < length (frames3 p) \<and> (\<exists>m \<le> 6. length (shards3 p) = 2 ^ m)"

lemma ctl_of_sel [simp]:
  "ct_n (ctl_of hash p gs ts) = length (frames3 p)" "ct_lookup (ctl_of hash p gs ts) pid = lookup3 hash pid p"
  "ct_state (ctl_of hash p gs ts) i = f3_state (frames3 p ! i)" "ct_pin (ctl_of hash p gs ts) i = unat (f3_pin (frames3 p ! i))"
  "ct_readers (ctl_of hash p gs ts) i = f3_readers (frames3 p ! i)" "ct_pend (ctl_of hash p gs ts) = pendings3 p"
  "ct_guards (ctl_of hash p gs ts) = gs" "ct_roles (ctl_of hash p gs ts) = map role_of ts"
  by (simp_all add: ctl_of_def)

lemma shard_index_bound: "shape3 p \<Longrightarrow> shard_index hash pid p < length (shards3 p)"
proof -
  assume "shape3 p"
  then obtain m where m: "m \<le> 6" "length (shards3 p) = 2 ^ m" by (auto simp: shape3_def)
  have "shard_index hash pid p \<le> unat (of_nat (2 ^ m) - 1 :: u64)"
    using word_and_le1 [of "hash pid" "of_nat (2 ^ m) - 1"] by (simp add: shard_index_def m(2) word_le_nat_alt)
  also have "\<dots> = 2 ^ m - 1"
  proof -
    from m(1) have "m = 0 \<or> m = 1 \<or> m = 2 \<or> m = 3 \<or> m = 4 \<or> m = 5 \<or> m = 6" by linarith
    then show ?thesis by (elim disjE) simp_all
  qed
  also have "\<dots> < 2 ^ m" by simp
  finally show ?thesis by (simp add: m(2))
qed

lemma lookup_set_entry:
  "shape3 p \<Longrightarrow> lookup3 hash q (set_entry3 hash pid e p) = (if q = pid then e else lookup3 hash q p)"
  using shard_index_bound [of p hash pid] shard_index_bound [of p hash q]
  by (auto simp: lookup3_def set_entry3_def shard_index_def Let_def nth_list_update)

lemma set_entry_sel [simp]:
  "frames3 (set_entry3 hash pid e p) = frames3 p" "pendings3 (set_entry3 hash pid e p) = pendings3 p"
  "store3 (set_entry3 hash pid e p) = store3 p" "shape3 (set_entry3 hash pid e p) = shape3 p"
  by (simp_all add: set_entry3_def Let_def shape3_def)

lemma upd_frame_sel [simp]:
  "pendings3 (upd_frame3 i fn p) = pendings3 p" "store3 (upd_frame3 i fn p) = store3 p"
  "length (frames3 (upd_frame3 i fn p)) = length (frames3 p)" "shape3 (upd_frame3 i fn p) = shape3 p"
  "lookup3 hash pid (upd_frame3 i fn p) = lookup3 hash pid p"
  "frames3 (upd_frame3 i fn p) = (frames3 p)[i := fn (frames3 p ! i)]"
  by (simp_all add: upd_frame3_def shape3_def lookup3_def shard_index_def)

lemma count_stats_sel [simp]:
  "frames3 (count_stats3 fn p) = frames3 p" "pendings3 (count_stats3 fn p) = pendings3 p"
  "store3 (count_stats3 fn p) = store3 p" "shape3 (count_stats3 fn p) = shape3 p"
  "lookup3 hash pid (count_stats3 fn p) = lookup3 hash pid p"
  by (simp_all add: count_stats3_def shape3_def lookup3_def shard_index_def)

lemma pending_finish_sel [simp]:
  "frames3 (pending_finish k p) = frames3 p" "pendings3 (pending_finish k p) = (pendings3 p)[k := True]"
  "store3 (pending_finish k p) = store3 p" "shape3 (pending_finish k p) = shape3 p"
  "lookup3 hash pid (pending_finish k p) = lookup3 hash pid p"
  by (simp_all add: pending_finish_def shape3_def lookup3_def shard_index_def)

lemma pool3_upd_sel [simp]:
  "lookup3 hash pid (p\<lparr>store3 := s\<rparr>) = lookup3 hash pid p" "shape3 (p\<lparr>store3 := s\<rparr>) = shape3 p"
  "lookup3 hash pid (p\<lparr>clock_hand3 := h\<rparr>) = lookup3 hash pid p" "shape3 (p\<lparr>clock_hand3 := h\<rparr>) = shape3 p"
  "lookup3 hash pid (p\<lparr>pendings3 := k\<rparr>) = lookup3 hash pid p" "shape3 (p\<lparr>pendings3 := k\<rparr>) = shape3 p"
  by (simp_all add: lookup3_def shard_index_def shape3_def)

text \<open>The control state after a step is compared with that of a move field by field.\<close>

lemma ctl_inv_by:
  assumes "ctl_inv y" "ct_n x = ct_n y" "\<And>pid. ct_lookup x pid = ct_lookup y pid" "\<And>i. ct_state x i = ct_state y i"
    "\<And>i. ct_pin x i = ct_pin y i" "\<And>i. ct_readers x i = ct_readers y i" "ct_pend x = ct_pend y" "ct_guards x = ct_guards y"
    "ct_roles x = ct_roles y"
  shows "ctl_inv x"
proof -
  have "x = y" using assms(2-9) by (intro ctl.equality) (auto simp: fun_eq_iff)
  then show ?thesis using assms(1) by simp
qed

lemmas ctl_fields = lookup_set_entry nth_list_update map_update

text \<open>A pin count has room for one more.\<close>

lemma pin_room:
  assumes "ctl_inv (ctl_of hash p gs ts)" "i < length (frames3 p)" "length gs + length ts + 1 < 2 ^ 32"
  shows "unat (f3_pin (frames3 p ! i) + 1) = unat (f3_pin (frames3 p ! i)) + 1"
proof -
  have "unat (f3_pin (frames3 p ! i)) = guards_on i gs + cnt (\<lambda>r. ro_pin r = Some i) (map role_of ts)"
    using assms(1,2) by (auto simp: ctl_inv_def pin_inv_def)
  then have "unat (f3_pin (frames3 p ! i)) + 1 < 2 ^ LENGTH(32)"
    using guards_on_le [of i gs] cnt_le [of "\<lambda>r. ro_pin r = Some i" "map role_of ts"] assms(3) by simp
  then show ?thesis by (simp add: unat_add_lem [THEN iffD1])
qed

lemma unpin_word: "0 < unat (w :: u32) \<Longrightarrow> unat (w - 1) = unat w - 1"
  using unat_minus_one [of w] by (cases "w = 0") simp_all

section \<open>Steps\<close>

definition guards_after :: "out3 option \<Rightarrow> page_guard option list \<Rightarrow> page_guard option list" where
  "guards_after r gs = (case r of Some (Fetched3 g) \<Rightarrow> gs @ [Some g] | _ \<Rightarrow> gs)"

lemma guards_after_simps [simp]:
  "guards_after None gs = gs" "guards_after (Some (Fetched3 g)) gs = gs @ [Some g]"
  "guards_after (Some (FetchFailed3 e)) gs = gs" "guards_after (Some (FlushDone3 u)) gs = gs"
  by (simp_all add: guards_after_def)

text \<open>What a thread remembers of the frames and of its victim.\<close>

fun pc_ok :: "nat \<Rightarrow> pc3 \<Rightarrow> bool" where
  "pc_ok n (Probe c m i) = (i < n)"
| "pc_ok n (Reserve c m snapshot i) = (i < n)"
| "pc_ok n (WriteBack c v copy) = (vi_old v \<noteq> None)"
| "pc_ok n (ClearDirty c v) = (vi_old v \<noteq> None)"
| "pc_ok n (RestoreUnpin c v e) = (vi_index v < n)"
| "pc_ok n _ = True"

definition sys_ok :: "(page_id \<Rightarrow> u64) \<Rightarrow> 's pool3 \<Rightarrow> page_guard option list \<Rightarrow> pc3 list \<Rightarrow> bool" where
  "sys_ok hash p gs ts \<longleftrightarrow> ctl_inv (ctl_of hash p gs ts) \<and> shape3 p \<and> (\<forall>pc \<in> set ts. pc_ok (length (frames3 p)) pc)"

lemma sys_okI:
  assumes "sys_ok hash p gs ts" "ctl_inv (ctl_of hash p' gs' (ts[t := pc]))" "shape3 p'" "pc_ok (length (frames3 p)) pc"
    "length (frames3 p') = length (frames3 p)"
  shows "sys_ok hash p' gs' (ts[t := pc])"
  using assms set_update_subset_insert [of ts t pc] by (auto simp: sys_ok_def)

lemma same_role: "role_of pc = role_of (ts ! t) \<Longrightarrow> ctl_of hash p gs (ts[t := pc]) = ctl_of hash p gs ts"
  by (cases "t < length ts") (simp_all add: ctl_of_def map_update list_update_same_conv list_update_beyond)

text \<open>A step, with its thread's role and what the invariant gives for it.\<close>

lemma sys_ok_at:
  assumes "sys_ok hash p gs ts" "t < length ts"
  shows "ctl_inv (ctl_of hash p gs ts)" "shape3 p" "pc_ok (length (frames3 p)) (ts ! t)"
    "t < length (ct_roles (ctl_of hash p gs ts))" "ct_roles (ctl_of hash p gs ts) ! t = role_of (ts ! t)"
  using assms by (simp_all add: sys_ok_def)

lemma fetch_lookup_ok:
  assumes ok: "sys_ok hash p gs ts" "t < length ts" and pc: "ts ! t = FetchLookup pid mode"
    and room: "length gs + length ts + 1 < 2 ^ 32"
    and st: "fetch_lookup hash pid mode p = Next pc' r p'"
  shows "sys_ok hash p' (guards_after r gs) (ts[t := pc'])"
proof -
  note a = sys_ok_at [OF ok]
  let ?x = "ctl_of hash p gs ts"
  have role: "ct_roles ?x ! t = role_idle" using a(5) pc by simp
  show ?thesis
  proof (cases "lookup3 hash pid p")
    case None
    then show ?thesis
      using st pc a(1,2) same_role [of "FetchClaim pid mode" ts t hash p gs] by (auto simp: fetch_lookup_def intro!: sys_okI [OF ok(1)])
  next
    case (Some e)
    have wait: "sys_ok hash p gs (ts[t := FetchWait k pid mode])" if "e = Loading3 k \<or> e = EvictingEntry3 k" for k
    proof -
      have "(pid, k) \<in> loads ?x \<union> evicts ?x" using Some that by (auto simp: loads_def evicts_def)
      then obtain u where u: "u < length (ct_roles ?x)" "ro_load (ct_roles ?x ! u) = Some (pid, k) \<or> ro_evict (ct_roles ?x ! u) = Some (pid, k)"
        using a(1) by (auto simp: ctl_inv_def held_inv_def elim!: holdsE)
      then have "ro_pend (ct_roles ?x ! u) = Some k" using own_role(7) [OF a(1) u(1)] by (auto simp: role_ok_def)
      then have "k < length (pendings3 p)" using own_role(1) [OF a(1) u(1)] by simp
      then have "ctl_inv (upd_role t (role_idle\<lparr>ro_wait := Some k\<rparr>) ?x)"
        by (intro ctl_move [OF a(1,4)]) (simp_all add: ok(2) pc role_ok_def role_idle_def)
      then have "ctl_inv (ctl_of hash p gs (ts[t := FetchWait k pid mode]))" by (rule ctl_inv_by) (simp_all add: ctl_fields)
      then show ?thesis using a(2) by (intro sys_okI [OF ok(1)]) simp_all
    qed
    show ?thesis
    proof (cases e)
      case (Ready3 i)
      then have i: "i < length (frames3 p)" using ready_at [OF a(1)] Some by simp
      have s: "pc' = Idle" "r = Some (Fetched3 \<lparr>pg_page_id = pid, pg_frame = i\<rparr>)"
        "p' = count_stats3 (\<lambda>st. st\<lparr>hits := hits st + 1\<rparr>) (upd_frame3 i (\<lambda>f. record_access3 mode (add_pin3 f)) p)"
        using st Some Ready3 i by (simp_all add: fetch_lookup_def)
      have "ctl_inv (ctl_of hash p' (guards_after r gs) (ts[t := pc']))"
        by (rule ctl_inv_by [OF ctl_hit [OF a(1,4) role, of pid i]])
          (use Some Ready3 i pin_room [OF a(1) i room] in \<open>simp_all add: s ctl_fields record_access3_def add_pin3_def\<close>)
      then show ?thesis using a(2) by (intro sys_okI [OF ok(1)]) (simp_all add: s)
    qed (use st Some wait in \<open>auto simp: fetch_lookup_def\<close>)
  qed
qed

lemma fetch_claim_ok:
  assumes ok: "sys_ok hash p gs ts" "t < length ts" and pc: "ts ! t = FetchClaim pid mode"
    and st: "fetch_claim hash pid mode p = Next pc' r p'"
  shows "sys_ok hash p' (guards_after r gs) (ts[t := pc'])"
proof -
  note a = sys_ok_at [OF ok]
  let ?x = "ctl_of hash p gs ts"
  have role: "ct_roles ?x ! t = role_idle" using a(5) pc by simp
  show ?thesis
  proof (cases "lookup3 hash pid p")
    case None
    define c where "c = \<lparr>cl_page = pid, cl_mode = mode, cl_pending = length (pendings3 p)\<rparr>"
    have s: "pc' = Choose c 0" "r = None" "p' = set_entry3 hash pid (Some (Loading3 (length (pendings3 p)))) (p\<lparr>pendings3 := pendings3 p @ [False]\<rparr>)"
      using st None by (simp_all add: fetch_claim_def Let_def c_def)
    have "ctl_inv (ctl_of hash p' gs (ts[t := pc']))"
      by (rule ctl_inv_by [OF ctl_claim [OF a(1,4) role, of c]]) (use None a(2) in \<open>simp_all add: c_def s ctl_fields\<close>)
    then show ?thesis using a(2) by (intro sys_okI [OF ok(1)]) (simp_all add: s)
  next
    case (Some e)
    then show ?thesis
      using st pc a(1,2) same_role [of "FetchLookup pid mode" ts t hash p gs] by (auto simp: fetch_claim_def intro!: sys_okI [OF ok(1)])
  qed
qed

text \<open>A step that leaves the control state alone.\<close>

lemma stay_ok:
  assumes "sys_ok hash p gs ts" "role_of pc = role_of (ts ! t)" "pc_ok (length (frames3 p)) pc"
    and "ctl_of hash p' gs ts = ctl_of hash p gs ts" "shape3 p'"
  shows "sys_ok hash p' gs (ts[t := pc])"
proof -
  have "length (frames3 p') = length (frames3 p)" using arg_cong [OF assms(4), of ct_n] by simp
  then show ?thesis
    using assms same_role [OF assms(2), of hash p' gs] by (intro sys_okI [OF assms(1)]) (auto simp: sys_ok_def)
qed

text \<open>A frame whose reference bit is set is left where it is, another one is reserved.\<close>

lemma take_reservation_cases:
  assumes "take_reservation c i force p = (taken, p')" "i < length (frames3 p)"
  obtains f where "\<not> taken" "frames3 p' = (frames3 p)[i := f]" "f3_state f = f3_state (frames3 p ! i)"
      "f3_pin f = f3_pin (frames3 p ! i)" "f3_data f = f3_data (frames3 p ! i)" "f3_dirty f = f3_dirty (frames3 p ! i)"
      "f3_readers f = f3_readers (frames3 p ! i)" "ctl_of hash p' gs ts = ctl_of hash p gs ts" "shape3 p' = shape3 p"
      "store3 p' = store3 p"
    | f where "taken" "p' = upd_frame3 i (\<lambda>_. f) p" "f3_state f = Evicting3 (cl_pending c)" "f3_pin f = 1"
      "f3_data f = f3_data (frames3 p ! i)" "f3_dirty f = f3_dirty (frames3 p ! i)"
      "f3_readers f = f3_readers (frames3 p ! i)"
proof (cases "\<not> force \<and> f3_referenced (frames3 p ! i)")
  case True
  then have p': "\<not> taken" "p' = count_stats3 (\<lambda>st. st\<lparr>clock_second_chances := clock_second_chances st + 1\<rparr>)
      (upd_frame3 i (\<lambda>f. f\<lparr>f3_referenced := False\<rparr>) p)"
    using assms(1) by (simp_all add: take_reservation_def)
  moreover have "ctl_of hash p' gs ts = ctl_of hash p gs ts"
    by (rule ctl.equality) (use assms(2) in \<open>simp_all add: p' ctl_fields fun_eq_iff\<close>)
  ultimately show ?thesis using assms(2) by (intro that(1) [of "(frames3 p ! i)\<lparr>f3_referenced := False\<rparr>"]) simp_all
next
  case False
  then show ?thesis
    using assms(1)
    by (intro that(2) [of "(frames3 p ! i)\<lparr>f3_pin := 1,
          f3_referenced := (if force then f3_referenced (frames3 p ! i) else False), f3_state := Evicting3 (cl_pending c)\<rparr>"])
      (auto simp: take_reservation_def Let_def upd_frame3_def split: if_splits)
qed

lemma try_reserve_ok:
  assumes ok: "sys_ok hash p gs ts" "t < length ts" and pc: "ts ! t = Reserve c n snapshot i"
    and st: "try_reserve hash c n snapshot i p = Next pc' r p'"
  shows "sys_ok hash p' (guards_after r gs) (ts[t := pc'])"
proof -
  note a = sys_ok_at [OF ok]
  let ?x = "ctl_of hash p gs ts" and ?f = "frames3 p ! i"
  have i: "i < length (frames3 p)" using a(3) pc by simp
  have role: "ct_roles ?x ! t = role_choosing c" using a(5) pc by simp
  have skip: ?thesis if "pc' = Choose c (n + 1)" "r = None" "ctl_of hash p' gs ts = ctl_of hash p gs ts" "shape3 p'"
    using that pc by (simp add: stay_ok [OF ok(1)])
  have taken: ?thesis
    if s: "pc' = CheckDirty c v" "r = None" "vi_index v = i" "f3_pin ?f = 0" "f3_pin f = 1" "f3_state f = Evicting3 (cl_pending c)"
        "f3_readers f = f3_readers ?f" "case vi_old v of None \<Rightarrow> f3_state ?f = Empty3 | Some old \<Rightarrow> f3_state ?f = Valid3 old"
        "p' = (case vi_old v of None \<Rightarrow> upd_frame3 i (\<lambda>_. f) p
          | Some old \<Rightarrow> set_entry3 hash old (Some (EvictingEntry3 (cl_pending c))) (upd_frame3 i (\<lambda>_. f) p))" for v f
  proof -
    have "ctl_inv (ctl_of hash p' gs (ts[t := pc']))"
      by (rule ctl_inv_by [OF ctl_reserve [OF a(1,4) role, of i v]])
        (use s i a(2) in \<open>simp_all add: ctl_fields split: option.splits\<close>)
    then show ?thesis using a(2) s by (intro sys_okI [OF ok(1)]) (simp_all split: option.splits)
  qed
  obtain b q where tr: "take_reservation c i (length (frames3 p) \<le> n) p = (b, q)" by (cases "take_reservation c i (length (frames3 p) \<le> n) p")
  show ?thesis
  proof (cases "(snapshot = Empty3 \<and> f3_state ?f = Empty3 \<or>
      (\<exists>old. snapshot = Valid3 old \<and> f3_state ?f = Valid3 old \<and> lookup3 hash old p = Some (Ready3 i))) \<and> f3_pin ?f = 0")
    case False
    then show ?thesis using st a(2) by (intro skip) (auto simp: try_reserve_def Let_def split: frame_state3.splits if_splits)
  next
    case True
    from tr i show ?thesis
    proof (cases rule: take_reservation_cases [of c i _ p b q hash gs ts])
      case (1 f)
      then show ?thesis using st tr a(2) True by (intro skip) (auto simp: try_reserve_def Let_def)
    next
      case (2 f)
      show ?thesis
      proof (cases snapshot)
        case Empty3
        then show ?thesis
          using st tr 2 True by (intro taken [of "\<lparr>vi_index = i, vi_old = None\<rparr>" f]) (auto simp: try_reserve_def Let_def)
      next
        case (Valid3 old)
        then show ?thesis
          using st tr 2 True by (intro taken [of "\<lparr>vi_index = i, vi_old = Some old\<rparr>" f]) (auto simp: try_reserve_def Let_def)
      qed (use True in simp)
    qed
  qed
qed

text \<open>The other steps.\<close>

lemma ctl_of_same [simp]:
  "ctl_of hash (p\<lparr>store3 := s\<rparr>) gs ts = ctl_of hash p gs ts" "ctl_of hash (p\<lparr>clock_hand3 := h\<rparr>) gs ts = ctl_of hash p gs ts"
  by (rule ctl.equality; simp add: fun_eq_iff)+

lemma ctl_of_frame_same:
  assumes "f3_state (fn (frames3 p ! i)) = f3_state (frames3 p ! i)" "f3_pin (fn (frames3 p ! i)) = f3_pin (frames3 p ! i)"
    "f3_readers (fn (frames3 p ! i)) = f3_readers (frames3 p ! i)"
  shows "ctl_of hash (upd_frame3 i fn p) gs ts = ctl_of hash p gs ts"
proof (cases "i < length (frames3 p)")
  case True
  then show ?thesis using assms by (intro ctl.equality) (simp_all add: fun_eq_iff nth_list_update)
next
  case False
  then show ?thesis by (intro ctl.equality) (simp_all add: fun_eq_iff list_update_beyond)
qed

lemma wait_ok:
  assumes ok: "sys_ok hash p gs ts" "t < length ts" and pc: "pc_ok (length (frames3 p)) pc"
    and role: "role_of pc = (role_of (ts ! t))\<lparr>ro_wait := w, ro_scan := s\<rparr>"
    and w: "\<And>k. w = Some k \<Longrightarrow> \<exists>i < length (frames3 p). f3_state (frames3 p ! i) = Evicting3 k" "s = None \<or> s = w"
  shows "sys_ok hash p gs (ts[t := pc])"
proof -
  note a = sys_ok_at [OF ok]
  let ?x = "ctl_of hash p gs ts"
  have k: "k < length (pendings3 p)" if wk: "w = Some k" for k
  proof -
    obtain i where "(i, k) \<in> victims ?x" using w(1) [OF wk] by (auto simp: victims_def)
    then obtain u where u: "u < length (ct_roles ?x)" "ro_vict (ct_roles ?x ! u) = Some (i, k)"
      using a(1) by (auto simp: ctl_inv_def held_inv_def elim!: holdsE)
    then have "ro_pend (ct_roles ?x ! u) = Some k" using own_role(7) [OF a(1) u(1)] by (auto simp: role_ok_def)
    then show ?thesis using own_role(1) [OF a(1) u(1)] by simp
  qed
  have "ctl_inv (upd_role t (role_of pc) ?x)"
    using k w ok(2) by (intro ctl_move [OF a(1,4) role_of_ok]) (auto simp: role victims_def)
  then have "ctl_inv (ctl_of hash p gs (ts[t := pc]))" by (rule ctl_inv_by) (simp_all add: ctl_fields)
  then show ?thesis using a(2) pc by (intro sys_okI [OF ok(1)]) simp_all
qed

lemma finish_ok:
  assumes ok: "sys_ok hash p gs ts" "t < length ts" and pc: "pc_ok (length (frames3 p)) pc"
    and q: "ro_pend (role_of (ts ! t)) = Some k" "ro_load (role_of (ts ! t)) = None" "ro_evict (role_of (ts ! t)) = None"
      "ro_vict (role_of (ts ! t)) = None" "ro_reads (role_of (ts ! t)) = None"
    and r: "role_of pc = role_idle\<lparr>ro_pin := ro_pin (role_of (ts ! t)), ro_valid := ro_valid (role_of (ts ! t))\<rparr>"
  shows "sys_ok hash (pending_finish k p) gs (ts[t := pc])"
proof -
  note a = sys_ok_at [OF ok]
  have "ctl_inv (ctl_of hash (pending_finish k p) gs (ts[t := pc]))"
    by (rule ctl_inv_by [OF ctl_finish [OF a(1,4), of k "role_of pc"]]) (use q r ok(2) in \<open>simp_all add: ctl_fields\<close>)
  then show ?thesis using a(2) pc by (intro sys_okI [OF ok(1)]) simp_all
qed

lemma unclaim_ok:
  assumes ok: "sys_ok hash p gs ts" "t < length ts" and pc: "pc_ok (length (frames3 p)) pc"
    and q: "ro_load (role_of (ts ! t)) = Some (pid, k)"
      "ro_vict (role_of (ts ! t)) = None" "ro_evict (role_of (ts ! t)) = None" "ro_reads (role_of (ts ! t)) = None"
      "ro_wait (role_of (ts ! t)) = None" "ro_scan (role_of (ts ! t)) = None" "ro_valid (role_of (ts ! t)) = None"
    and r: "role_of pc = (role_of (ts ! t))\<lparr>ro_load := None\<rparr>"
  shows "sys_ok hash (set_entry3 hash pid None p) gs (ts[t := pc])"
proof -
  note a = sys_ok_at [OF ok]
  have "ctl_inv (ctl_of hash (set_entry3 hash pid None p) gs (ts[t := pc]))"
    by (rule ctl_inv_by [OF ctl_unclaim [OF a(1,4), of pid k "role_of pc"]]) (use q r ok(2) a(2) in \<open>simp_all add: ctl_fields\<close>)
  then show ?thesis using a(2) pc by (intro sys_okI [OF ok(1)]) simp_all
qed

lemma unpin_ok:
  assumes ok: "sys_ok hash p gs ts" "t < length ts" and pc: "pc_ok (length (frames3 p)) pc"
    and q: "ro_pin (role_of (ts ! t)) = Some i" "i < length (frames3 p)"
      "ro_vict (role_of (ts ! t)) = None" "ro_evict (role_of (ts ! t)) = None" "ro_reads (role_of (ts ! t)) = None"
      "ro_wait (role_of (ts ! t)) = None" "ro_scan (role_of (ts ! t)) = None"
    and r: "role_of pc = (role_of (ts ! t))\<lparr>ro_pin := None, ro_valid := None\<rparr>"
  shows "sys_ok hash (upd_frame3 i sub_pin3 p) gs (ts[t := pc])"
proof -
  note a = sys_ok_at [OF ok]
  have "0 < unat (f3_pin (frames3 p ! i))" using own_role(6) [OF a(1,4), of i] q(1,2) ok(2) by simp
  then have "ctl_inv (ctl_of hash (upd_frame3 i sub_pin3 p) gs (ts[t := pc]))"
    by (intro ctl_inv_by [OF ctl_unpin [OF a(1,4), of i "role_of pc"]])
      (use q r ok(2) in \<open>simp_all add: ctl_fields sub_pin3_def unpin_word\<close>)
  then show ?thesis using a(2) pc by (intro sys_okI [OF ok(1)]) simp_all
qed

lemma load_step_ok:
  assumes ok: "sys_ok hash p gs ts" "t < length ts" and st: "thread_step3 rd wr hash (ts ! t) p = Next pc' r p'"
  shows "ts ! t = RemoveOld c v \<Longrightarrow> sys_ok hash p' (guards_after r gs) (ts[t := pc'])"
    and "ts ! t = Publish c v \<Longrightarrow> sys_ok hash p' (guards_after r gs) (ts[t := pc'])"
    and "ts ! t = RestoreEntry c v e \<Longrightarrow> sys_ok hash p' (guards_after r gs) (ts[t := pc'])"
    and "ts ! t = CountMiss c v \<Longrightarrow> sys_ok hash p' (guards_after r gs) (ts[t := pc'])"
proof -
  note a = sys_ok_at [OF ok]
  let ?x = "ctl_of hash p gs ts"
  have vi: "vi_index v < length (frames3 p)" if "ts ! t = Publish c v \<or> ts ! t = RestoreEntry c v e"
    using own_role(4) [OF a(1,4), of "vi_index v" "cl_pending c"] that a(5) by (auto simp: role_defs)
  show "sys_ok hash p' (guards_after r gs) (ts[t := pc'])" if pc: "ts ! t = RemoveOld c v"
  proof -
    have s: "pc' = Publish c v" "r = None" "p' = (case vi_old v of None \<Rightarrow> p | Some old \<Rightarrow> set_entry3 hash old None p)"
      using st pc by (simp_all add: load_remove_old_def)
    have "ctl_inv (ctl_of hash p' gs (ts[t := pc']))"
      by (rule ctl_inv_by [OF ctl_remove_old [OF a(1,4), of c v]])
        (use a(2,5) pc in \<open>simp_all add: s ctl_fields split: option.splits\<close>)
    then show ?thesis using a(2) by (intro sys_okI [OF ok(1)]) (simp_all add: s split: option.splits)
  qed
  show "sys_ok hash p' (guards_after r gs) (ts[t := pc'])" if pc: "ts ! t = Publish c v"
  proof -
    have s: "pc' = FinishLoad c v" "r = None" "p' = set_entry3 hash (cl_page c) (Some (Ready3 (vi_index v)))
        (upd_frame3 (vi_index v) (\<lambda>f. f\<lparr>f3_state := Valid3 (cl_page c)\<rparr>) p)"
      using st pc by (simp_all add: load_publish_def)
    have "ctl_inv (ctl_of hash p' gs (ts[t := pc']))"
      by (rule ctl_inv_by [OF ctl_publish [OF a(1,4), of c v]]) (use a(2,5) pc vi in \<open>simp_all add: s ctl_fields\<close>)
    then show ?thesis using a(2) by (intro sys_okI [OF ok(1)]) (simp_all add: s)
  qed
  show "sys_ok hash p' (guards_after r gs) (ts[t := pc'])" if pc: "ts ! t = RestoreEntry c v e"
  proof -
    have s: "pc' = RestoreUnpin c v e" "r = None" "p' = (case vi_old v of
          None \<Rightarrow> upd_frame3 (vi_index v) (\<lambda>f. f\<lparr>f3_state := Empty3\<rparr>) p
        | Some old \<Rightarrow> set_entry3 hash old (Some (Ready3 (vi_index v))) (upd_frame3 (vi_index v) (\<lambda>f. f\<lparr>f3_state := Valid3 old\<rparr>) p))"
      using st pc by (simp_all add: restore_entry_def Let_def split: option.splits if_splits)
    have "ctl_inv (ctl_of hash p' gs (ts[t := pc']))"
      by (rule ctl_inv_by [OF ctl_restore [OF a(1,4), of c v]])
        (use a(2,5) pc vi in \<open>simp_all add: s ctl_fields split: option.splits\<close>)
    then show ?thesis using a(2) vi pc by (intro sys_okI [OF ok(1)]) (simp_all add: s split: option.splits)
  qed
  show "sys_ok hash p' (guards_after r gs) (ts[t := pc'])" if pc: "ts ! t = CountMiss c v"
  proof -
    have s: "pc' = Idle" "r = Some (Fetched3 \<lparr>pg_page_id = cl_page c, pg_frame = vi_index v\<rparr>)" "\<exists>fn. p' = count_stats3 fn p"
      using st pc by (auto simp: load_count_miss_def)
    have "ctl_inv (ctl_of hash p' (guards_after r gs) (ts[t := pc']))"
      by (rule ctl_inv_by [OF ctl_to_guard [OF a(1,4), of "vi_index v" "cl_page c"]])
        (use a(5) pc s(3) in \<open>auto simp: s(1,2) ctl_fields\<close>)
    then show ?thesis using a(2) s by (intro sys_okI [OF ok(1)]) auto
  qed
qed

lemma flush_step_ok:
  assumes ok: "sys_ok hash p gs ts" "t < length ts" and st: "thread_step3 rd wr hash (ts ! t) p = Next pc' r p'"
    and room: "length gs + length ts + 1 < 2 ^ 32"
  shows "ts ! t = FlushFrame i \<Longrightarrow> sys_ok hash p' (guards_after r gs) (ts[t := pc'])"
    and "ts ! t = FlushCopy i pid \<Longrightarrow> sys_ok hash p' (guards_after r gs) (ts[t := pc'])"
    and "ts ! t = FlushRelease i pid e \<Longrightarrow> sys_ok hash p' (guards_after r gs) (ts[t := pc'])"
    and "ts ! t = FlushUnpin i pid e \<Longrightarrow> sys_ok hash p' (guards_after r gs) (ts[t := pc'])"
proof -
  note a = sys_ok_at [OF ok]
  let ?x = "ctl_of hash p gs ts"
  have i: "i < length (frames3 p)" if "ro_valid (role_of (ts ! t)) = Some (i, pid)"
    using own_role(5) [OF a(1,4)] a(5) that by auto
  show "sys_ok hash p' (guards_after r gs) (ts[t := pc'])" if pc: "ts ! t = FlushFrame i"
  proof (cases "i < length (frames3 p)")
    case True
    show ?thesis
    proof (cases "f3_state (frames3 p ! i)")
      case Empty3
      then show ?thesis using st pc True a(2) by (auto simp: flush_frame_def intro!: stay_ok [OF ok(1)])
    next
      case (Valid3 pid)
      then have s: "pc' = FlushCheck i pid" "r = None" "p' = upd_frame3 i add_pin3 p"
        using st pc True by (simp_all add: flush_frame_def)
      have "ctl_inv (ctl_of hash p' gs (ts[t := pc']))"
        by (rule ctl_inv_by [OF ctl_pin [OF a(1,4), of i pid]])
          (use a(5) pc True Valid3 pin_room [OF a(1) True room] in \<open>simp_all add: s ctl_fields add_pin3_def\<close>)
      then show ?thesis using a(2) by (intro sys_okI [OF ok(1)]) (simp_all add: s)
    next
      case (Evicting3 k)
      then show ?thesis using st [symmetric] pc True by (auto simp: flush_frame_def role_defs intro!: wait_ok [OF ok, where w = "Some k" and s = None])
    qed
  next
    case False
    then show ?thesis using st pc a(2) by (auto simp: flush_frame_def intro!: stay_ok [OF ok(1)])
  qed
  show "sys_ok hash p' (guards_after r gs) (ts[t := pc'])" if pc: "ts ! t = FlushCopy i pid"
  proof -
    have s: "pc' = FlushWrite i pid (f3_data (frames3 p ! i))" "r = None"
        "p' = upd_frame3 i (\<lambda>f. f\<lparr>f3_readers := f3_readers f + 1\<rparr>) p"
      using st pc by simp_all
    have "ctl_inv (ctl_of hash p' gs (ts[t := pc']))"
      by (rule ctl_inv_by [OF ctl_lock [OF a(1,4), of i pid]]) (use a(5) pc i in \<open>simp_all add: s ctl_fields role_valid_def\<close>)
    then show ?thesis using a(2) by (intro sys_okI [OF ok(1)]) (simp_all add: s)
  qed
  show "sys_ok hash p' (guards_after r gs) (ts[t := pc'])" if pc: "ts ! t = FlushRelease i pid e"
  proof -
    have s: "pc' = FlushUnpin i pid e" "r = None" "p' = upd_frame3 i (\<lambda>f. f\<lparr>f3_readers := f3_readers f - 1\<rparr>) p"
      using st pc by simp_all
    have "ctl_inv (ctl_of hash p' gs (ts[t := pc']))"
      by (rule ctl_inv_by [OF ctl_unlock [OF a(1,4), of i pid]]) (use a(5) pc i in \<open>simp_all add: s ctl_fields role_valid_def\<close>)
    then show ?thesis using a(2) by (intro sys_okI [OF ok(1)]) (simp_all add: s)
  qed
  show "sys_ok hash p' (guards_after r gs) (ts[t := pc'])" if pc: "ts ! t = FlushUnpin i pid e"
  proof -
    have s: "pc' = (if e = None then FlushFrame (i + 1) else Idle)" "p' = upd_frame3 i sub_pin3 p" "guards_after r gs = gs"
      using st pc by (auto simp: flush_unpin_def Let_def split: option.splits)
    show ?thesis
      unfolding s by (rule unpin_ok [OF ok]) (use i pc in \<open>auto simp: role_defs\<close>)
  qed
qed

lemma thread_step_ok:
  assumes ok: "sys_ok hash p gs ts" "t < length ts" and room: "length gs + length ts + 1 < 2 ^ 32"
    and st: "thread_step3 rd wr hash (ts ! t) p = Next pc' r p'"
  shows "sys_ok hash p' (guards_after r gs) (ts[t := pc'])"
proof -
  note a = sys_ok_at [OF ok]
  have vi: "i < length (frames3 p)" if "ro_vict (role_of (ts ! t)) = Some (i, k)" for i k
    using own_role(4) [OF a(1,4)] a(5) that by auto
  show ?thesis
  proof (cases "ts ! t")
    case (FetchLookup pid mode)
    then show ?thesis using fetch_lookup_ok [OF ok _ room] st by simp
  next
    case (FetchWait k pid mode)
    then show ?thesis using st [symmetric]
      by (auto simp: role_defs split: if_splits intro!: wait_ok [OF ok, where w = None and s = None])
  next
    case (FetchClaim pid mode)
    then show ?thesis using fetch_claim_ok [OF ok] st by simp
  next
    case (Choose c n)
    then show ?thesis
      using st [symmetric] a(2) by (auto simp: choose_probe_def shape3_def split: if_splits intro!: stay_ok [OF ok(1)])
  next
    case (Probe c n i)
    then show ?thesis using st [symmetric] a(2,3) by (auto intro!: stay_ok [OF ok(1)])
  next
    case (Reserve c n snapshot i)
    then show ?thesis using try_reserve_ok [OF ok] st by simp
  next
    case (Scan c i)
    show ?thesis
    proof (cases "i < length (frames3 p) \<and> (\<exists>k. f3_state (frames3 p ! i) = Evicting3 k)")
      case True
      then show ?thesis using st [symmetric] Scan by (auto simp: scan_frame_def role_defs intro!: wait_ok [OF ok, where w = "Some k" and s = "Some k" for k])
    next
      case False
      then show ?thesis
        using st [symmetric] Scan a(2) by (auto simp: scan_frame_def split: frame_state3.splits if_splits intro!: stay_ok [OF ok(1)])
    qed
  next
    case (ScanWait c k)
    then show ?thesis using st [symmetric]
      by (auto simp: role_defs split: if_splits intro!: wait_ok [OF ok, where w = None and s = None])
  next
    case (FailRemove c)
    then show ?thesis using st [symmetric] by (auto simp: role_defs intro!: unclaim_ok [OF ok, where k = "cl_pending c"])
  next
    case (FailFinish c)
    then show ?thesis using st [symmetric] by (auto simp: role_defs intro!: finish_ok [OF ok])
  next
    case (CheckDirty c v)
    then show ?thesis using st [symmetric] a(2) by (auto simp: load_check_dirty_def Let_def split: if_splits intro!: stay_ok [OF ok(1)])
  next
    case (WriteBack c v copy)
    then show ?thesis
      using st [symmetric] a(2) by (auto simp: load_write_back_def split: option.splits sum.splits intro!: stay_ok [OF ok(1)])
  next
    case (ClearDirty c v)
    then show ?thesis using st [symmetric] a(2) by (auto simp: ctl_of_frame_same intro!: stay_ok [OF ok(1)])
  next
    case (ReadNew c v)
    then show ?thesis
      using st [symmetric] a(2) by (auto simp: load_read_new_def split: option.splits sum.splits intro!: stay_ok [OF ok(1)])
  next
    case (Replace c v d)
    then show ?thesis using st [symmetric] a(2) by (auto simp: load_replace_def ctl_of_frame_same intro!: stay_ok [OF ok(1)])
  next
    case (FinishLoad c v)
    then show ?thesis using st [symmetric] by (auto simp: role_defs intro!: finish_ok [OF ok])
  next
    case (RestoreUnpin c v e)
    then show ?thesis using st [symmetric] a(3) by (auto simp: role_defs intro!: unpin_ok [OF ok])
  next
    case (RestoreRemove c e)
    then show ?thesis using st [symmetric] by (auto simp: role_defs intro!: unclaim_ok [OF ok, where k = "cl_pending c"])
  next
    case (RestoreFinish c e)
    then show ?thesis using st [symmetric] by (auto simp: role_defs intro!: finish_ok [OF ok])
  next
    case (FlushWait i k)
    then show ?thesis using st [symmetric]
      by (auto simp: role_defs split: if_splits intro!: wait_ok [OF ok, where w = None and s = None])
  next
    case (FlushCheck i pid)
    then show ?thesis using st [symmetric] a(2) by (auto intro!: stay_ok [OF ok(1)])
  next
    case (FlushWrite i pid d)
    then show ?thesis
      using st [symmetric] a(2) by (auto simp: flush_write_def split: option.splits sum.splits intro!: stay_ok [OF ok(1)])
  next
    case (FlushClear i pid)
    then show ?thesis using st [symmetric] a(2) by (auto simp: ctl_of_frame_same intro!: stay_ok [OF ok(1)])
  qed (use st load_step_ok [OF ok st] flush_step_ok [OF ok st room] in auto)
qed

end
