(* ===== verification/Pool_V3_Progress.thy ===== *)
theory Pool_V3_Progress imports Pool_V3_Threads begin

text \<open>
  Runs of the third pool with any number of threads under any scheduler: every guard keeps its frame, a page is loaded by
  one thread at a time, and as long as a thread is inside a call some thread can take a step.
\<close>

section \<open>The invariant along a run\<close>

definition sys3_ok :: "(page_id \<Rightarrow> u64) \<Rightarrow> 's sys3 \<Rightarrow> bool" where
  "sys3_ok hash s \<longleftrightarrow> sys_ok hash (s3_pool s) (s3_guards s) (s3_threads s)"

lemma deliver_sel [simp]:
  "s3_pool (snd (deliver3 r s)) = s3_pool s" "s3_threads (snd (deliver3 r s)) = s3_threads s"
  "s3_guards (snd (deliver3 r s)) = guards_after r (s3_guards s)"
  by (simp_all add: deliver3_def split: option.splits out3.splits)

lemma guards_after_length: "length (guards_after r gs) \<le> length gs + 1"
  by (simp add: guards_after_def split: option.splits out3.splits)

lemma live_guard_at:
  assumes "sys3_ok hash s" "live_guard3 h s = Some g"
  shows "h < length (s3_guards s)" "s3_guards s ! h = Some g" "pg_frame g < length (frames3 (s3_pool s))"
    "f3_state (frames3 (s3_pool s) ! pg_frame g) = Valid3 (pg_page_id g)" "0 < unat (f3_pin (frames3 (s3_pool s) ! pg_frame g))"
    "lookup3 hash (pg_page_id g) (s3_pool s) = Some (Ready3 (pg_frame g))"
proof -
  let ?x = "ctl_of hash (s3_pool s) (s3_guards s) (s3_threads s)"
  have inv: "ctl_inv ?x" using assms(1) by (simp add: sys3_ok_def sys_ok_def)
  show h: "h < length (s3_guards s)" "s3_guards s ! h = Some g"
    using assms(2) by (simp_all add: live_guard3_def split: if_splits)
  then have g: "Some g \<in> set (s3_guards s)" by (metis nth_mem)
  then show f: "pg_frame g < length (frames3 (s3_pool s))" "f3_state (frames3 (s3_pool s) ! pg_frame g) = Valid3 (pg_page_id g)"
    using inv by (auto simp: ctl_inv_def valid_inv_def)
  then show "lookup3 hash (pg_page_id g) (s3_pool s) = Some (Ready3 (pg_frame g))" using ready_at [OF inv] by simp
  have "guards_on (pg_frame g) (s3_guards s) \<noteq> 0"
    using g by (auto simp: guards_on_def filter_empty_conv intro!: bexI [of _ "Some g"])
  then show "0 < unat (f3_pin (frames3 (s3_pool s) ! pg_frame g))" using inv f(1) by (simp add: ctl_inv_def pin_inv_def)
qed

lemma start_ok:
  assumes "sys3_ok hash s" "role_of pc = role_idle" "pc_ok (length (frames3 (s3_pool s))) pc"
  shows "sys3_ok hash (start3 t pc s)"
  using assms by (auto simp: sys3_ok_def start3_def intro!: stay_ok, auto simp: sys_ok_def)

lemma sys_step_ok:
  assumes ok: "sys3_ok hash s" and room: "length (s3_guards s) + length (s3_threads s) + 1 < 2 ^ 32"
    and st: "sys_step3 rd wr hash ev s = Some (outs, s')"
  shows "sys3_ok hash s'" "length (s3_threads s') = length (s3_threads s)" "length (s3_guards s') \<le> length (s3_guards s) + 1"
proof -
  have "sys3_ok hash s' \<and> length (s3_threads s') = length (s3_threads s) \<and> length (s3_guards s') \<le> length (s3_guards s) + 1"
  proof (cases ev)
    case (StartFetch t pid mode)
    then show ?thesis using st start_ok [OF ok, of "FetchLookup pid mode" t] by (auto simp: start3_def)
  next
    case (StartFlush t)
    then show ?thesis using st start_ok [OF ok, of "FlushFrame 0" t] by (auto simp: start3_def)
  next
    case (Turn t)
    show ?thesis
    proof (cases "t < length (s3_threads s)")
      case True
      show ?thesis
      proof (cases "thread_step3 rd wr hash (s3_threads s ! t) (s3_pool s)")
        case (Next pc r p)
        then have s': "s' = snd (deliver3 r (s\<lparr>s3_pool := p, s3_threads := (s3_threads s)[t := pc]\<rparr>))"
          using st Turn True by (auto simp: turn3_def)
        show ?thesis
          using thread_step_ok [OF ok [unfolded sys3_ok_def] True room Next] guards_after_length [of r "s3_guards s"]
          by (simp add: s' sys3_ok_def)
      qed (use st Turn True ok in \<open>auto simp: turn3_def\<close>)
    qed (use st Turn ok in \<open>auto simp: turn3_def\<close>)
  next
    case (GuardRead h)
    then show ?thesis using st ok by (auto split: option.splits)
  next
    case (GuardWrite h fn)
    have "sys3_ok hash (s\<lparr>s3_pool := p\<rparr>)" if "guard_write3 g fn (s3_pool s) = Some p" for g p
      using that ok by (auto simp: guard_write3_def sys3_ok_def sys_ok_def ctl_of_frame_same split: if_splits)
    then show ?thesis using GuardWrite st ok by (auto split: option.splits)
  next
    case (GuardDrop h)
    show ?thesis
    proof (cases "live_guard3 h s")
      case (Some g)
      note g = live_guard_at [OF ok Some]
      let ?p = "upd_frame3 (pg_frame g) sub_pin3 (s3_pool s)"
      have s': "s' = s\<lparr>s3_pool := ?p, s3_guards := (s3_guards s)[h := None]\<rparr>"
        using st GuardDrop Some by (auto simp: guard_drop3_def split: if_splits)
      have inv: "ctl_inv (ctl_of hash (s3_pool s) (s3_guards s) (s3_threads s))" using ok by (simp add: sys3_ok_def sys_ok_def)
      have "ctl_inv (ctl_of hash ?p ((s3_guards s)[h := None]) (s3_threads s))"
        by (rule ctl_inv_by [OF ctl_drop [OF inv, of h g]]) (use g in \<open>simp_all add: ctl_fields sub_pin3_def unpin_word\<close>)
      then show ?thesis using ok by (simp add: s' sys3_ok_def sys_ok_def)
    qed (use st GuardDrop ok in auto)
  qed
  then show "sys3_ok hash s'" "length (s3_threads s') = length (s3_threads s)" "length (s3_guards s') \<le> length (s3_guards s) + 1"
    by simp_all
qed

lemma sys_run_ok:
  assumes "sys3_ok hash s" "length (s3_guards s) + length (s3_threads s) + length evs < 2 ^ 32"
    "sys_run3 rd wr hash evs s = Some (outs, s')"
  shows "sys3_ok hash s'" "length (s3_threads s') = length (s3_threads s)"
proof -
  have "sys3_ok hash s' \<and> length (s3_threads s') = length (s3_threads s)"
    using assms
  proof (induction evs arbitrary: s outs)
    case (Cons ev evs)
    then obtain o1 s1 o2 where s1: "sys_step3 rd wr hash ev s = Some (o1, s1)" "sys_run3 rd wr hash evs s1 = Some (o2, s')"
      by (auto split: Option.bind_splits)
    note k = sys_step_ok [OF Cons.prems(1) _ s1(1)]
    show ?case using Cons.IH [OF k(1) _ s1(2)] k(2,3) Cons.prems(2) by simp
  qed simp
  then show "sys3_ok hash s'" "length (s3_threads s') = length (s3_threads s)" by simp_all
qed

lemma power_of_two_cases: "next_power_of_two (min n 32) \<in> {1, 2, 4, 8, 16, 32}" if "0 < n"
proof -
  have "min n 32 \<in> {1..32}" using that by auto
  then have "\<exists>k \<in> {1, 2, 4, 8, 16, 32}. next_power_of_two (min n 32) = k"
    by (auto simp: next_power_of_two_def upt_rec)
  then show ?thesis by auto
qed

lemma sys3_new_ok:
  assumes "sys3_new capacity n st = Some s"
  shows "sys3_ok hash s" "s3_guards s = []" "s3_threads s = replicate n Idle" "store3 (s3_pool s) = st"
    "lookup3 hash pid (s3_pool s) = None"
proof -
  have c: "0 < capacity" and s: "s3_guards s = []" "s3_threads s = replicate n Idle" "store3 (s3_pool s) = st"
    "frames3 (s3_pool s) = replicate capacity frame3_empty" "pendings3 (s3_pool s) = []"
    "shards3 (s3_pool s) = replicate (next_power_of_two (min capacity 32)) (\<lambda>_. None)"
    using assms by (auto simp: sys3_new_def pool3_new_def split: if_splits)
  then show "s3_guards s = []" "s3_threads s = replicate n Idle" "store3 (s3_pool s) = st" by simp_all
  have sh: "shape3 (s3_pool s)"
  proof -
    have "\<exists>m \<le> 6. next_power_of_two (min capacity 32) = 2 ^ m"
      using power_of_two_cases [OF c] by (auto intro: exI [of _ 0] exI [of _ 1] exI [of _ 2] exI [of _ 3] exI [of _ 4] exI [of _ 5])
    then show ?thesis using c s by (simp add: shape3_def)
  qed
  show l: "lookup3 hash pid (s3_pool s) = None" for pid
    using shard_index_bound [OF sh, of hash pid] by (simp add: lookup3_def s)
  have "victims (ctl_of hash (s3_pool s) [] (replicate n Idle)) = {}" by (auto simp: victims_def s frame3_empty_def)
  then have "ctl_inv (ctl_of hash (s3_pool s) (s3_guards s) (s3_threads s))"
    using l c
    by (auto simp: ctl_inv_def held_inv_def open_pends_def loads_def evicts_def ready_inv_def pin_inv_def valid_inv_def wait_inv_def
        owned_def s frame3_empty_def holds_replicate role_idle_def role_ok_def guards_on_def cnt_def)
  then show "sys3_ok hash s" using sh by (simp add: sys3_ok_def sys_ok_def s)
qed

section \<open>Somebody can always move\<close>

text \<open>A thread that waits waits on an unfinished pending.\<close>

lemma blocked_waits:
  assumes "thread_step3 rd wr hash pc p = Blocked" "pc \<noteq> Idle"
  shows "\<exists>k. ro_wait (role_of pc) = Some k \<and> \<not> pending_done k p"
proof (cases pc)
  case (Reserve c n snapshot i)
  then show ?thesis
    using assms by (auto simp: try_reserve_def Let_def split: frame_state3.splits prod.splits if_splits)
qed (use assms in \<open>auto simp: role_defs fetch_lookup_def fetch_claim_def choose_probe_def scan_frame_def load_check_dirty_def
      load_write_back_def load_read_new_def load_replace_def load_remove_old_def load_publish_def load_count_miss_def
      restore_entry_def flush_frame_def flush_write_def flush_unpin_def Let_def
      split: option.splits entry3.splits frame_state3.splits sum.splits if_splits\<close>)

lemma waits_for:
  assumes ok: "sys_ok hash p gs ts" "t < length ts" and k: "ro_wait (role_of (ts ! t)) = Some k" "\<not> pending_done k p"
  obtains u where "u < length ts" "ro_pend (role_of (ts ! u)) = Some k"
    "ro_scan (role_of (ts ! t)) = Some k \<Longrightarrow> ro_past (role_of (ts ! u)) = Some k"
proof -
  note a = sys_ok_at [OF ok]
  let ?x = "ctl_of hash p gs ts" and ?rs = "map role_of ts"
  have w: "k \<in> holds ro_wait ?rs" using k(1) ok(2) by (intro holdsI [of t]) simp_all
  then have o: "k \<in> holds ro_pend ?rs"
    using a(1) k(2) by (auto simp: ctl_inv_def wait_inv_def held_inv_def open_pends_def pending_done_def)
  show thesis
  proof (cases "ro_scan (role_of (ts ! t)) = Some k")
    case True
    then have "k \<in> holds ro_scan ?rs" using ok(2) by (intro holdsI [of t]) simp_all
    then have "k \<in> holds ro_past ?rs"
      using a(1) k(2) w by (auto simp: ctl_inv_def wait_inv_def pending_done_def)
    then obtain u where u: "u < length ts" "ro_past (role_of (ts ! u)) = Some k" by (auto elim!: holdsE)
    then show thesis using role_of_ok [of "ts ! u"] by (intro that [of u]) (auto simp: role_ok_def)
  next
    case False
    then show thesis using o that by (auto elim!: holdsE)
  qed
qed

text \<open>Who waits and owns a pending scans for a victim, and who has found a victim never waits.\<close>

lemma owner_waits:
  "ro_pend (role_of pc) = Some k \<Longrightarrow> ro_wait (role_of pc) = Some m \<Longrightarrow> ro_scan (role_of pc) = Some m"
  by (cases pc) (auto simp: role_defs)

lemma some_thread_moves:
  assumes ok: "sys_ok hash p gs ts" and t: "t < length ts" "ts ! t \<noteq> Idle"
  shows "\<exists>u < length ts. ts ! u \<noteq> Idle \<and> thread_step3 rd wr hash (ts ! u) p \<noteq> Blocked"
proof (rule ccontr)
  assume "\<not> ?thesis"
  then have stuck: "\<And>u. u < length ts \<Longrightarrow> ts ! u \<noteq> Idle \<Longrightarrow> thread_step3 rd wr hash (ts ! u) p = Blocked" by blast
  have busy: "ts ! u \<noteq> Idle" if "ro_pend (role_of (ts ! u)) = Some k" for u k using that by (auto simp: role_defs)
  obtain k where k: "ro_wait (role_of (ts ! t)) = Some k" "\<not> pending_done k p" using blocked_waits stuck t by blast
  obtain u where u: "u < length ts" "ro_pend (role_of (ts ! u)) = Some k" using waits_for [OF ok t(1) k] by blast
  obtain m where m: "ro_wait (role_of (ts ! u)) = Some m" "\<not> pending_done m p"
    using blocked_waits stuck u(1) busy [OF u(2)] by blast
  obtain v where v: "v < length ts" "ro_pend (role_of (ts ! v)) = Some m" "ro_past (role_of (ts ! v)) = Some m"
    using waits_for [OF ok u(1) m] owner_waits [OF u(2) m(1)] by metis
  have "ro_wait (role_of (ts ! v)) = None" using v(3) role_of_ok [of "ts ! v"] by (simp add: role_ok_def)
  moreover have "\<exists>n. ro_wait (role_of (ts ! v)) = Some n" using blocked_waits stuck v(1) busy [OF v(2)] by blast
  ultimately show False by simp
qed

text \<open>C4: version 3 of the pool never deadlocks: whatever the threads have done so far, in whatever order, if a thread is
  inside \<^verbatim>\<open>fetch_page\<close> or \<^verbatim>\<open>flush_all\<close>, then some thread that is inside a call is not blocked.\<close>

theorem v3_no_deadlock:
  assumes "sys3_new capacity n st = Some s" "sys_run3 rd wr hash evs s = Some (outs, s')" "n + length evs < 2 ^ 32"
    and "t < n" "s3_threads s' ! t \<noteq> Idle"
  shows "\<exists>u < n. s3_threads s' ! u \<noteq> Idle \<and> thread_step3 rd wr hash (s3_threads s' ! u) (s3_pool s') \<noteq> Blocked"
proof -
  note new = sys3_new_ok [OF assms(1)]
  have "sys3_ok hash s'" "length (s3_threads s') = n"
    using sys_run_ok [OF new(1) _ assms(2)] assms(3) by (simp_all add: new(2,3))
  then show ?thesis using some_thread_moves [of hash "s3_pool s'" "s3_guards s'" "s3_threads s'" t rd wr] assms(4,5)
    by (simp add: sys3_ok_def)
qed

text \<open>A run of two threads that fetch the same page from a store of empty pages; the second one waits.\<close>

definition sample_page3 :: page_id where
  "sample_page3 = \<lparr>relation_id = 1, page_no = 0\<rparr>"

definition sample_events3 :: "event3 list" where
  "sample_events3 = [StartFetch 0 sample_page3 Normal, StartFetch 1 sample_page3 BulkRead, Turn 0, Turn 0, Turn 1, Turn 0]"

definition sample_read3 :: "page_id \<Rightarrow> bytes \<Rightarrow> unit \<Rightarrow> ((io_error + unit) \<times> bytes \<times> unit) option" where
  "sample_read3 p b s = Some (Inr (), b, s)"

lemma one_shard: "next_power_of_two (Suc 0) = 1"
  by (simp add: next_power_of_two_def upt_rec)

lemmas sample3_simps = sample_page3_def sample_events3_def sample_read3_def sys3_new_def pool3_new_def one_shard
  start3_def turn3_def fetch_lookup_def fetch_claim_def lookup3_def shard_index_def set_entry3_def deliver3_def choose_probe_def
  try_reserve_def take_reservation_def upd_frame3_def load_check_dirty_def load_read_new_def load_replace_def load_remove_old_def
  load_publish_def load_count_miss_def pending_finish_def pending_done_def count_stats3_def frame3_empty_def record_access3_def
  add_pin3_def stats_default_def numeral_2_eq_2 Let_def

lemma sample_run3:
  "case sys3_new 1 2 () of None \<Rightarrow> False | Some s \<Rightarrow>
     (case sys_run3 sample_read3 sample_read3 (\<lambda>_. 5) sample_events3 s of None \<Rightarrow> False | Some (outs, s') \<Rightarrow>
        s3_threads s' ! 1 = FetchWait 0 sample_page3 BulkRead \<and> \<not> pending_done 0 (s3_pool s'))"
  by (simp add: sample3_simps)

theorem v3_no_deadlock_witness:
  "case sys3_new 1 2 () of None \<Rightarrow> False | Some s \<Rightarrow>
     (case sys_run3 sample_read3 sample_read3 (\<lambda>_. 5) sample_events3 s of None \<Rightarrow> False | Some (outs, s') \<Rightarrow>
        thread_step3 sample_read3 sample_read3 (\<lambda>_. 5) (s3_threads s' ! 1) (s3_pool s') = Blocked \<and>
        (\<exists>u < 2. s3_threads s' ! u \<noteq> Idle \<and>
          thread_step3 sample_read3 sample_read3 (\<lambda>_. 5) (s3_threads s' ! u) (s3_pool s') \<noteq> Blocked))"
proof -
  obtain s outs s' where s: "sys3_new 1 2 () = Some s"
    and r: "sys_run3 sample_read3 sample_read3 (\<lambda>_. 5) sample_events3 s = Some (outs, s')"
    "s3_threads s' ! 1 = FetchWait 0 sample_page3 BulkRead" "\<not> pending_done 0 (s3_pool s')"
    using sample_run3 by (auto split: option.splits prod.splits)
  have "\<exists>u < 2. s3_threads s' ! u \<noteq> Idle \<and>
      thread_step3 sample_read3 sample_read3 (\<lambda>_. 5) (s3_threads s' ! u) (s3_pool s') \<noteq> Blocked"
    by (rule v3_no_deadlock [OF s r(1), of 1]) (use r(2) in \<open>simp_all add: sample_events3_def\<close>)
  then show ?thesis using s r by simp
qed

section \<open>A load that has its victim ends\<close>

text \<open>The turns of its own that a thread past its choice of a victim needs at most to finish its pending.\<close>

fun turns_left :: "pc3 \<Rightarrow> nat" where
  "turns_left (CheckDirty c v) = 8"
| "turns_left (WriteBack c v copy) = 7"
| "turns_left (ClearDirty c v) = 6"
| "turns_left (ReadNew c v) = 5"
| "turns_left (Replace c v d) = 4"
| "turns_left (RemoveOld c v) = 3"
| "turns_left (Publish c v) = 2"
| "turns_left (FinishLoad c v) = 1"
| "turns_left (RestoreEntry c v e) = 4"
| "turns_left (RestoreUnpin c v e) = 3"
| "turns_left (RestoreRemove c e) = 2"
| "turns_left (RestoreFinish c e) = 1"
| "turns_left _ = 0"

lemma past_step:
  assumes "thread_step3 rd wr hash pc p = Next pc' r p'" "ro_past (role_of pc) = Some k" "k < length (pendings3 p)"
  shows "pending_done k p' \<or> ro_past (role_of pc') = Some k \<and> turns_left pc' < turns_left pc"
  using assms
  by (cases pc) (auto simp: role_defs load_check_dirty_def load_write_back_def load_read_new_def load_replace_def
      load_remove_old_def load_publish_def restore_entry_def pending_done_def Let_def split: option.splits sum.splits if_splits)

lemma past_not_blocked: "ro_past (role_of pc) = Some k \<Longrightarrow> thread_step3 rd wr hash pc p \<noteq> Blocked"
  using blocked_waits [of rd wr hash pc p] role_of_ok [of pc] by (cases "pc = Idle") (auto simp: role_ok_def role_defs)

text \<open>Once finished, a pending stays finished.\<close>

lemma nth_set_True [simp]: "k < length xs \<Longrightarrow> xs[j := True] ! k \<longleftrightarrow> k = j \<or> xs ! k"
  by (cases "k = j") simp_all

lemma pending_done_frame [simp]: "pending_done k (upd_frame3 i fn p) = pending_done k p"
  "pending_done k (set_entry3 hash pid e p) = pending_done k p" "pending_done k (count_stats3 gn p) = pending_done k p"
  by (simp_all add: pending_done_def)

lemma pending_stays:
  assumes "thread_step3 rd wr hash pc p = Next pc' r p'" "k < length (pendings3 p)"
  shows "(pending_done k p \<longrightarrow> pending_done k p') \<and> k < length (pendings3 p')"
proof (cases pc)
  case (Reserve c n snapshot i)
  then show ?thesis
    using assms by (auto simp: try_reserve_def take_reservation_def Let_def split: frame_state3.splits if_splits)
qed (use assms in \<open>auto simp: fetch_lookup_def fetch_claim_def choose_probe_def scan_frame_def load_check_dirty_def
      load_write_back_def load_read_new_def load_replace_def load_remove_old_def load_publish_def load_count_miss_def
      restore_entry_def flush_frame_def flush_write_def flush_unpin_def Let_def pending_done_def nth_append nth_list_update
      split: option.splits entry3.splits frame_state3.splits sum.splits if_splits\<close>)

lemma guard_write_sel: "guard_write3 g fn p = Some p' \<Longrightarrow> pendings3 p' = pendings3 p"
  by (auto simp: guard_write3_def split: if_splits)

lemma guard_drop_sel: "guard_drop3 g p = Some p' \<Longrightarrow> pendings3 p' = pendings3 p"
  by (auto simp: guard_drop3_def split: if_splits)

definition turns_of :: "nat \<Rightarrow> event3 list \<Rightarrow> nat" where
  "turns_of t evs = length (filter (\<lambda>ev. case ev of Turn u \<Rightarrow> u = t | _ \<Rightarrow> False) evs)"

definition finishing :: "nat \<Rightarrow> nat \<Rightarrow> nat \<Rightarrow> 's sys3 \<Rightarrow> bool" where
  "finishing t k n s \<longleftrightarrow> t < length (s3_threads s) \<and> k < length (pendings3 (s3_pool s)) \<and>
     (pending_done k (s3_pool s) \<or> ro_past (role_of (s3_threads s ! t)) = Some k \<and> turns_left (s3_threads s ! t) \<le> n)"

lemma finishing_step:
  assumes f: "finishing t k n s" and st: "sys_step3 rd wr hash ev s = Some (outs, s')"
  shows "finishing t k (n - turns_of t [ev]) s'"
proof (cases ev)
  case (Turn u)
  show ?thesis
  proof (cases "u < length (s3_threads s)")
    case True
    show ?thesis
    proof (cases "thread_step3 rd wr hash (s3_threads s ! u) (s3_pool s)")
      case Blocked
      then show ?thesis
        using st Turn True f past_not_blocked [of "s3_threads s ! t" k rd wr hash "s3_pool s"]
        by (auto simp: turn3_def finishing_def turns_of_def)
    next
      case (Next pc r p)
      then have s': "s' = snd (deliver3 r (s\<lparr>s3_pool := p, s3_threads := (s3_threads s)[u := pc]\<rparr>))"
        using st Turn True by (auto simp: turn3_def)
      have k: "k < length (pendings3 (s3_pool s))" using f by (simp add: finishing_def)
      note stays = pending_stays [OF Next k]
      show ?thesis
      proof (cases "u = t")
        case True
        then show ?thesis
          using past_step [OF Next _ k] stays f Turn by (auto simp: s' finishing_def turns_of_def)
      next
        case False
        then show ?thesis using stays f Turn by (auto simp: s' finishing_def turns_of_def)
      qed
    qed (use st Turn True in \<open>auto simp: turn3_def\<close>)
  qed (use st Turn f in \<open>auto simp: turn3_def finishing_def turns_of_def\<close>)
next
  case (StartFetch u pid mode)
  then show ?thesis
    using st f by (cases "u = t") (auto simp: start3_def finishing_def turns_of_def role_defs)
next
  case (StartFlush u)
  then show ?thesis
    using st f by (cases "u = t") (auto simp: start3_def finishing_def turns_of_def role_defs)
qed (use st f in \<open>auto simp: finishing_def turns_of_def pending_done_def guard_write_sel guard_drop_sel split: option.splits\<close>)

lemma finishing_run:
  "finishing t k n s \<Longrightarrow> sys_run3 rd wr hash evs s = Some (outs, s') \<Longrightarrow> finishing t k (n - turns_of t evs) s'"
proof (induction evs arbitrary: n s outs)
  case (Cons ev evs)
  then obtain o1 s1 o2 where s1: "sys_step3 rd wr hash ev s = Some (o1, s1)" "sys_run3 rd wr hash evs s1 = Some (o2, s')"
    by (auto split: Option.bind_splits)
  have "turns_of t (ev # evs) = turns_of t [ev] + turns_of t evs" by (simp add: turns_of_def)
  then show ?case using Cons.IH [OF finishing_step [OF Cons.prems(1) s1(1)] s1(2)] by simp
qed (simp add: turns_of_def)

text \<open>C5: a load of version 3 of the pool that has its victim always ends: whatever the other threads do, after eight turns
  of its own at most the pending of its page is finished, so that the threads waiting for the page go on; a failure of
  the store is no exception.\<close>

theorem v3_load_finishes:
  assumes "sys3_new capacity n st = Some s0" "sys_run3 rd wr hash evs s0 = Some (outs, s)" "n + length evs < 2 ^ 32" "t < n"
    and "s3_threads s ! t = CheckDirty c v" "sys_run3 rd wr hash evs' s = Some (outs', s')" "8 \<le> turns_of t evs'"
  shows "pending_done (cl_pending c) (s3_pool s')"
proof -
  note new = sys3_new_ok [OF assms(1)]
  have ok: "sys3_ok hash s" "length (s3_threads s) = n"
    using sys_run_ok [OF new(1) _ assms(2)] assms(3) by (simp_all add: new(2,3))
  note a = sys_ok_at [OF ok(1) [unfolded sys3_ok_def], of t]
  have "cl_pending c < length (pendings3 (s3_pool s))"
    using own_role(1) [OF a(1,4)] a(5) assms(4,5) ok(2) by (simp add: role_defs)
  then have "finishing t (cl_pending c) 8 s" using assms(4,5) ok(2) by (simp add: finishing_def role_defs)
  from finishing_run [OF this assms(6)] assms(7) have f: "finishing t (cl_pending c) 0 s'" by simp
  have "0 < turns_left pc" if "ro_past (role_of pc) = Some k" for pc k using that by (cases pc) (auto simp: role_defs)
  then show ?thesis using f by (fastforce simp: finishing_def)
qed

text \<open>A load of an empty pool, cut where it has its victim.\<close>

definition sample_load3 :: "event3 list" where
  "sample_load3 = [StartFetch 0 sample_page3 Normal, Turn 0, Turn 0, Turn 0, Turn 0, Turn 0]"

definition sample_rest3 :: "event3 list" where
  "sample_rest3 = [Turn 1, Turn 0, Turn 0, Turn 0, Turn 0, Turn 1, Turn 0, Turn 0, Turn 0, Turn 0]"

lemma sample_load_run3:
  "case sys3_new 1 2 () of None \<Rightarrow> False | Some s0 \<Rightarrow>
     (case sys_run3 sample_read3 sample_read3 (\<lambda>_. 5) sample_load3 s0 of None \<Rightarrow> False | Some (outs, s) \<Rightarrow>
        s3_threads s ! 0 = CheckDirty \<lparr>cl_page = sample_page3, cl_mode = Normal, cl_pending = 0\<rparr> \<lparr>vi_index = 0, vi_old = None\<rparr> \<and>
        frames3 (s3_pool s) \<noteq> [] \<and>
        (case sys_run3 sample_read3 sample_read3 (\<lambda>_. 5) sample_rest3 s of None \<Rightarrow> False | Some (outs', s') \<Rightarrow> True))"
  by (simp add: sample3_simps sample_load3_def sample_rest3_def)

theorem v3_load_finishes_witness:
  "case sys3_new 1 2 () of None \<Rightarrow> False | Some s0 \<Rightarrow>
     (case sys_run3 sample_read3 sample_read3 (\<lambda>_. 5) sample_load3 s0 of None \<Rightarrow> False | Some (outs, s) \<Rightarrow>
        (case sys_run3 sample_read3 sample_read3 (\<lambda>_. 5) sample_rest3 s of None \<Rightarrow> False | Some (outs', s') \<Rightarrow>
           pending_done 0 (s3_pool s')))"
proof -
  obtain s0 outs s outs' s' c where s: "sys3_new 1 2 () = Some s0"
    "sys_run3 sample_read3 sample_read3 (\<lambda>_. 5) sample_load3 s0 = Some (outs, s)"
    "s3_threads s ! 0 = CheckDirty c \<lparr>vi_index = 0, vi_old = None\<rparr>" "cl_pending c = 0"
    "sys_run3 sample_read3 sample_read3 (\<lambda>_. 5) sample_rest3 s = Some (outs', s')"
    using sample_load_run3 by (fastforce split: option.splits prod.splits)
  have "pending_done (cl_pending c) (s3_pool s')"
    by (rule v3_load_finishes [OF s(1,2) _ _ s(3) s(5)]) (simp_all add: sample_load3_def sample_rest3_def turns_of_def)
  then show ?thesis using s by simp
qed

section \<open>Guards\<close>

text \<open>C6: in version 3 of the pool a guard keeps its page in its frame: under any interleaving of any number of threads every
  live guard names a frame that is valid and holds the guard's page, two live guards of one page share one frame and two of different
  pages never do, a frame's pin count is the number of live guards on it plus the threads that pin it, and a page is never
  loaded by two threads at once.\<close>

theorem v3_guards_hold:
  assumes "sys3_new capacity n st = Some s" "sys_run3 rd wr hash evs s = Some (outs, s')" "n + length evs < 2 ^ 32"
  shows "(\<forall>h g. live_guard3 h s' = Some g \<longrightarrow> pg_frame g < length (frames3 (s3_pool s')) \<and>
      f3_state (frames3 (s3_pool s') ! pg_frame g) = Valid3 (pg_page_id g)) \<and>
    (\<forall>h g h' g'. live_guard3 h s' = Some g \<longrightarrow> live_guard3 h' s' = Some g' \<longrightarrow>
      (pg_frame g = pg_frame g' \<longleftrightarrow> pg_page_id g = pg_page_id g')) \<and>
    (\<forall>i < length (frames3 (s3_pool s')). unat (f3_pin (frames3 (s3_pool s') ! i)) =
      guards_on i (s3_guards s') + cnt (\<lambda>pc. ro_pin (role_of pc) = Some i) (s3_threads s')) \<and>
    (\<forall>t < n. \<forall>u < n. \<forall>pid k m. ro_load (role_of (s3_threads s' ! t)) = Some (pid, k) \<longrightarrow>
      ro_load (role_of (s3_threads s' ! u)) = Some (pid, m) \<longrightarrow> t = u)"
proof -
  note new = sys3_new_ok [OF assms(1)]
  have ok: "sys3_ok hash s'" "length (s3_threads s') = n"
    using sys_run_ok [OF new(1) _ assms(2)] assms(3) by (simp_all add: new(2,3))
  let ?x = "ctl_of hash (s3_pool s') (s3_guards s') (s3_threads s')"
  have inv: "ctl_inv ?x" using ok(1) by (simp add: sys3_ok_def sys_ok_def)
  note live = live_guard_at [OF ok(1)]
  have "cnt (\<lambda>r. ro_pin r = Some i) (map role_of ts) = cnt (\<lambda>pc. ro_pin (role_of pc) = Some i) ts" for i ts
    by (simp add: cnt_def filter_map comp_def)
  then have pins: "\<forall>i < length (frames3 (s3_pool s')). unat (f3_pin (frames3 (s3_pool s') ! i)) =
      guards_on i (s3_guards s') + cnt (\<lambda>pc. ro_pin (role_of pc) = Some i) (s3_threads s')"
    using inv by (simp add: ctl_inv_def pin_inv_def)
  have "t = u" if tu: "t < n" "u < n" and l: "ro_load (role_of (s3_threads s' ! t)) = Some (pid, k)"
    "ro_load (role_of (s3_threads s' ! u)) = Some (pid, m)" for t u pid k m
  proof -
    have "k = m" using own_role(2) [OF inv, of t pid k] own_role(2) [OF inv, of u pid m] tu l ok(2) by simp
    moreover have "ro_pend (role_of (s3_threads s' ! t)) = Some k" "ro_pend (role_of (s3_threads s' ! u)) = Some m"
      using l role_of_ok [of "s3_threads s' ! t"] role_of_ok [of "s3_threads s' ! u"] by (auto simp: role_ok_def)
    moreover have "owned ro_pend (map role_of (s3_threads s'))" using inv by (simp add: ctl_inv_def held_inv_def)
    ultimately show "t = u" using tu ok(2) by (simp add: owned_def)
  qed
  moreover have "pg_frame g = pg_frame g' \<longleftrightarrow> pg_page_id g = pg_page_id g'"
    if "live_guard3 h s' = Some g" "live_guard3 h' s' = Some g'" for h g h' g'
    using live(4,6) [OF that(1)] live(4,6) [OF that(2)] by auto
  ultimately show ?thesis using pins live(3,4) by blast
qed

theorem v3_guards_hold_witness:
  "case sys3_new 1 2 () of None \<Rightarrow> False | Some s0 \<Rightarrow>
     (case sys_run3 sample_read3 sample_read3 (\<lambda>_. 5) sample_load3 s0 of None \<Rightarrow> False | Some (outs, s) \<Rightarrow>
        unat (f3_pin (frames3 (s3_pool s) ! 0)) =
          guards_on 0 (s3_guards s) + cnt (\<lambda>pc. ro_pin (role_of pc) = Some 0) (s3_threads s))"
proof -
  obtain s0 outs s where s: "sys3_new 1 2 () = Some s0"
    "sys_run3 sample_read3 sample_read3 (\<lambda>_. 5) sample_load3 s0 = Some (outs, s)"
    "frames3 (s3_pool s) \<noteq> []"
    using sample_load_run3 by (fastforce split: option.splits prod.splits)
  show ?thesis using v3_guards_hold [OF s(1,2)] s by (simp add: sample_load3_def)
qed

end
