(* ===== verification/Disk_Rewrite.thy ===== *)
theory Disk_Rewrite imports Disk_Correct begin

text \<open>
  Writing a page again with the bytes it already has. The contract of \<^verbatim>\<open>PageStore\<close> leaves open what a failed write does
  to its own page; a store in which a repeated write is harmless even when it fails part way extends it. The third pool needs
  that when two threads flush the same frame.
\<close>

section \<open>The contract\<close>

locale rewrite_store = page_store +
  assumes wr_again: "ok s \<Longrightarrow> wr p b s = Some (r, b', s') \<Longrightarrow> length b = PAGE_SIZE \<Longrightarrow> content s p = Some c \<Longrightarrow>
      masked c = masked b \<Longrightarrow> content s' p = Some c"

section \<open>The disk manager\<close>

lemma overwrite_same: "i + length src \<le> length f \<Longrightarrow> bslice i (length src) f = src \<Longrightarrow> overwrite i src f = f"
  using overwrite_slice_id [of i "length src" f] by simp

text \<open>A prefix of what is there changes nothing.\<close>

lemma patch_again:
  assumes "off + length src \<le> length f" "bslice off (length src) f = src"
  shows "patch off (take k src) f = f"
proof (cases "take k src = []")
  case False
  have "bslice off (length (take k src)) f = take k src"
    using assms(2) by (metis bslice_def length_take min.commute take_take)
  moreover have fit: "off + length (take k src) \<le> length f" using assms(1) by simp
  ultimately have "overwrite off (take k src) f = f" by (intro overwrite_same)
  moreover have "replicate (off + length (take k src) - length f) 0 = ([] :: bytes)" using fit by simp
  ultimately show ?thesis using False unfolding patch_def by (metis append_Nil2)
qed (simp add: patch_def)

text \<open>A page that is stored with its checksum is what sealing its bytes gives.\<close>

lemma seal_stored:
  assumes c: "page_valid crc c" and b: "length b = PAGE_SIZE" and same: "masked c = masked b"
  shows "seal_page crc b = c"
proof -
  have len: "17 \<le> length c" "17 \<le> length b" "length c = PAGE_SIZE"
    using c b by (simp_all add: page_valid_def PAGE_SIZE_def)
  have "drop 17 b = drop 17 c"
    using arg_cong [OF same, of "drop 17"] len by (simp add: masked_def sealed_body)
  then have k: "crc (drop PAGE_HEADER_SIZE b) = u32_from_le (bslice 13 4 c)"
    using c by (simp add: page_valid_def page_consts)
  have "sealed (u32_from_le (bslice 13 4 c)) b = sealed (u32_from_le (bslice 13 4 c)) c"
    using arg_cong [OF same, of "sealed (u32_from_le (bslice 13 4 c))"] len by (simp add: masked_def)
  moreover have "u32_to_le (u32_from_le (bslice 13 4 c)) = bslice 13 4 c"
    using len by (intro to_from_bytes) simp
  ultimately have "seal_page crc b = overwrite 13 (bslice 13 4 c) c"
    unfolding seal_page_def k by (metis sealed_def)
  then show ?thesis using len by (simp add: overwrite_slice_id)
qed

lemma stored_page_Some:
  "stored_page crc d pid = Some c \<Longrightarrow> page_valid crc c \<and>
     bslice (page_offset pid) PAGE_SIZE (file_bytes (disk_os d) (rf_path (page_file_of (relations_dir d) pid))) = c"
  by (auto simp: stored_page_def Let_def split: if_splits)

lemma disk_write_again:
  assumes ok: "disk_ok d" and w: "disk_write_page crc pid b d = Some (r, b', d')" and b: "length b = PAGE_SIZE"
    and c: "stored_page crc d pid = Some c" "masked c = masked b"
  shows "file_bytes (disk_os d') = file_bytes (disk_os d)"
proof -
  obtain g d1 where get: "disk_get_relation pid d = (g, d1)" by fastforce
  note g = get_relation_ok [OF ok get]
  show ?thesis
  proof (cases g)
    case (Inl e)
    then show ?thesis using w get g(2) by (simp add: disk_write_page_def)
  next
    case (Inr rf)
    then have rf: "rf = page_file_of (relations_dir d) pid" using g(4) by simp
    then have "rf_page_size rf = PAGE_SIZE" by simp
    from rf_write_checksummed [OF b this page_offset_u64 [unfolded page_offset_def]]
    obtain v s' k where s': "rf_write_page_with_checksum crc rf (page_no pid) b (disk_os d1) = Some (v, seal_page crc b, s')"
      "file_bytes s' (rf_path rf) =
        patch (page_offset pid) (take k (seal_page crc b)) (file_bytes (disk_os d1) (rf_path rf))"
      "\<forall>q. q \<noteq> rf_path rf \<longrightarrow> os_files s' q = os_files (disk_os d1) q"
      "v = Inr () \<longrightarrow> PAGE_SIZE \<le> k"
      unfolding page_offset_def by blast
    have at: "page_valid crc c" "bslice (page_offset pid) PAGE_SIZE (file_bytes (disk_os d) (rf_path rf)) = c"
      using stored_page_Some [OF c(1)] unfolding rf by blast+
    have len: "length c = PAGE_SIZE" using at(1) by (simp add: page_valid_def)
    have "page_offset pid + PAGE_SIZE \<le> length (file_bytes (disk_os d) (rf_path rf))"
      using arg_cong [OF at(2), of length] len by (simp add: PAGE_SIZE_def)
    then have "file_bytes s' (rf_path rf) = file_bytes (disk_os d1) (rf_path rf)"
      unfolding s'(2) seal_stored [OF at(1) b c(2)] g(2) using len at(2) by (intro patch_again) simp_all
    moreover have "file_bytes s' q = file_bytes (disk_os d1) q" if "q \<noteq> rf_path rf" for q
      using s'(3) that by (simp add: file_bytes_def)
    ultimately have "file_bytes s' = file_bytes (disk_os d1)" by (intro ext) metis
    moreover have "d' = d1\<lparr>disk_os := s'\<rparr>" using w get Inr s'(1) by (simp add: disk_write_page_def)
    ultimately show ?thesis using g(2) by simp
  qed
qed

interpretation rwdm: rewrite_store "disk_read_page crc" "disk_write_page crc" "stored_page crc" disk_ok
  for crc
proof
  fix s :: disk and b :: bytes and p v b' s' c
  assume ok: "disk_ok s" and wr: "disk_write_page crc p b s = Some (v, b', s')" and len: "length b = PAGE_SIZE"
    and c: "stored_page crc s p = Some c" "masked c = masked b"
  have "relations_dir s' = relations_dir s"
    using wr get_relation_ok(3) [OF ok] by (auto simp: disk_write_page_def split: prod.splits sum.splits bind_splits)
  then show "stored_page crc s' p = Some c"
    using stored_page_cong [OF disk_write_again [OF ok wr len c]] c(1) by metis
qed

text \<open>C7: writing a page once more with the bytes it already has on disk, its checksum field apart, changes no file, whatever
  fails and wherever the write is torn: every page of every relation is stored as before.\<close>

theorem disk_rewrite_harmless:
  assumes "disk_ok d" "length b = PAGE_SIZE" "stored_page crc d pid = Some c" "masked c = masked b"
  shows "\<exists>r b' d'. disk_write_page crc pid b d = Some (r, b', d') \<and>
    file_bytes (disk_os d') = file_bytes (disk_os d) \<and> stored_page crc d' = stored_page crc d"
proof -
  obtain r b' d' where w: "disk_write_page crc pid b d = Some (r, b', d')" using dm.wr_total [OF assms(1,2)] by fastforce
  have "relations_dir d' = relations_dir d"
    using w get_relation_ok(3) [OF assms(1)] by (auto simp: disk_write_page_def split: prod.splits sum.splits bind_splits)
  then show ?thesis using w stored_page_cong [OF disk_write_again [OF assms(1) w assms(2-4)]] disk_write_again [OF assms(1) w assms(2-4)] by blast
qed

text \<open>The witness writes a page of sevens, tears the second write of the same page after nine bytes, and still has it.\<close>

theorem disk_rewrite_harmless_witness:
  "\<exists>d1 r b' d2. disk_write_page (\<lambda>_. 5) \<lparr>relation_id = 3, page_no = 1\<rparr> (replicate PAGE_SIZE 7) blank_disk =
      Some (Inr (), seal_page (\<lambda>_. 5) (replicate PAGE_SIZE 7), d1) \<and>
    disk_write_page (\<lambda>_. 5) \<lparr>relation_id = 3, page_no = 1\<rparr> (replicate PAGE_SIZE 7)
      (d1\<lparr>disk_os := (disk_os d1)\<lparr>os_faults := [Some 9]\<rparr>\<rparr>) = Some (r, b', d2) \<and>
    stored_page (\<lambda>_. 5) d2 \<lparr>relation_id = 3, page_no = 1\<rparr> = Some (seal_page (\<lambda>_. 5) (replicate PAGE_SIZE 7))"
proof -
  let ?pid = "\<lparr>relation_id = 3, page_no = 1\<rparr>" and ?b = "replicate PAGE_SIZE 7 :: bytes"
  obtain d1 where d1: "disk_write_page (\<lambda>_. 5) ?pid ?b blank_disk = Some (Inr (), seal_page (\<lambda>_. 5) ?b, d1)"
    using blank_write by blast
  let ?d = "d1\<lparr>disk_os := (disk_os d1)\<lparr>os_faults := [Some 9]\<rparr>\<rparr>"
  have len: "length ?b = PAGE_SIZE" by simp
  have "disk_ok d1" using dm.wr_keeps [OF blank_disk_ok d1 len] by simp
  then have ok: "disk_ok ?d" by (simp add: disk_ok_def)
  have "stored_page (\<lambda>_. 5) d1 ?pid = Some (seal_page (\<lambda>_. 5) ?b)" by (rule dm.wr_value [OF blank_disk_ok d1 len])
  moreover have "stored_page (\<lambda>_. 5) ?d = stored_page (\<lambda>_. 5) d1" by (rule stored_page_cong) (simp_all add: file_bytes_def fun_eq_iff)
  ultimately have st: "stored_page (\<lambda>_. 5) ?d ?pid = Some (seal_page (\<lambda>_. 5) ?b)" by simp
  from disk_rewrite_harmless [OF ok len st seal_page_simps(2) [OF len]] d1 st show ?thesis by fastforce
qed

end
