(* ===== verification/Pool_V3_Data.thy ===== *)
theory Pool_V3_Data imports Pool_V3_Progress Disk_Rewrite begin

text \<open>
  What the third pool says about the pages' bytes: with a memory of the pages that only guard writes change, every
  page's latest bytes are in its frame, or in the store, or where the thread that moves them stands. Any number of threads
  may flush a frame at once: they share its bytes, which nobody changes while one of them reads, and writing the same bytes
  again does no harm. The lemmas hold for every store that meets the contract.
\<close>

section \<open>The invariant\<close>

definition good :: "(page_id \<Rightarrow> bytes option) \<Rightarrow> page_id \<Rightarrow> bytes \<Rightarrow> bool" where
  "good M pid d \<longleftrightarrow> (\<forall>c. M pid = Some c \<longrightarrow> masked d = c)"

definition saved :: "(page_id \<Rightarrow> bytes option) \<Rightarrow> (page_id \<Rightarrow> bytes option) \<Rightarrow> page_id \<Rightarrow> bool" where
  "saved M C pid \<longleftrightarrow> (\<forall>c. M pid = Some c \<longrightarrow> map_option masked (C pid) = Some c)"

definition entry_data ::
    "(page_id \<Rightarrow> bytes option) \<Rightarrow> (page_id \<Rightarrow> bytes option) \<Rightarrow> frame3 list \<Rightarrow> page_id \<Rightarrow> entry3 option \<Rightarrow> bool" where
  "entry_data M C fs pid e \<longleftrightarrow> (case e of
      Some (Ready3 i) \<Rightarrow> good M pid (f3_data (fs ! i)) \<and> (\<not> f3_dirty (fs ! i) \<longrightarrow> saved M C pid)
    | Some (EvictingEntry3 k) \<Rightarrow> True
    | _ \<Rightarrow> saved M C pid)"

text \<open>The bytes a thread is responsible for.\<close>

fun thread_data ::
    "(page_id \<Rightarrow> bytes option) \<Rightarrow> (page_id \<Rightarrow> bytes option) \<Rightarrow> frame3 list \<Rightarrow> pc3 \<Rightarrow> bool" where
  "thread_data M C fs (CheckDirty c v) = (\<forall>old. vi_old v = Some old \<longrightarrow>
     good M old (f3_data (fs ! vi_index v)) \<and> (\<not> f3_dirty (fs ! vi_index v) \<longrightarrow> saved M C old))"
| "thread_data M C fs (WriteBack c v copy) = (copy = f3_data (fs ! vi_index v) \<and> f3_dirty (fs ! vi_index v) \<and>
     (\<forall>old. vi_old v = Some old \<longrightarrow> good M old copy))"
| "thread_data M C fs (ClearDirty c v) = (\<forall>old. vi_old v = Some old \<longrightarrow>
     good M old (f3_data (fs ! vi_index v)) \<and> saved M C old)"
| "thread_data M C fs (ReadNew c v) = (\<forall>old. vi_old v = Some old \<longrightarrow>
     good M old (f3_data (fs ! vi_index v)) \<and> saved M C old)"
| "thread_data M C fs (Replace c v d) = (length d = PAGE_SIZE \<and> good M (cl_page c) d \<and>
     (\<forall>old. vi_old v = Some old \<longrightarrow> saved M C old))"
| "thread_data M C fs (RemoveOld c v) = (good M (cl_page c) (f3_data (fs ! vi_index v)) \<and>
     (\<forall>old. vi_old v = Some old \<longrightarrow> saved M C old))"
| "thread_data M C fs (Publish c v) = good M (cl_page c) (f3_data (fs ! vi_index v))"
| "thread_data M C fs (RestoreEntry c v e) = (\<forall>old. vi_old v = Some old \<longrightarrow>
     good M old (f3_data (fs ! vi_index v)) \<and> (\<not> f3_dirty (fs ! vi_index v) \<longrightarrow> saved M C old))"
| "thread_data M C fs (FlushWrite i pid copy) = (copy = f3_data (fs ! i))"
| "thread_data M C fs (FlushClear i pid) = saved M C pid"
| "thread_data M C fs _ = True"

fun flushing :: "pc3 \<Rightarrow> bool" where
  "flushing (FlushFrame i) = True"
| "flushing (FlushWait i k) = True"
| "flushing (FlushCheck i pid) = True"
| "flushing (FlushCopy i pid) = True"
| "flushing (FlushWrite i pid copy) = True"
| "flushing (FlushClear i pid) = True"
| "flushing (FlushRelease i pid r) = True"
| "flushing (FlushUnpin i pid r) = True"
| "flushing _ = False"

definition data_ok ::
    "('s \<Rightarrow> page_id \<Rightarrow> bytes option) \<Rightarrow> ('s \<Rightarrow> bool) \<Rightarrow> (page_id \<Rightarrow> u64) \<Rightarrow>
     (page_id \<Rightarrow> bytes option) \<Rightarrow> 's pool3 \<Rightarrow> pc3 list \<Rightarrow> bool" where
  "data_ok content ok hash M p ts \<longleftrightarrow>
     ok (store3 p) \<and> (\<forall>f \<in> set (frames3 p). length (f3_data f) = PAGE_SIZE) \<and>
     (\<forall>pid. entry_data M (content (store3 p)) (frames3 p) pid (lookup3 hash pid p)) \<and>
     (\<forall>t < length ts. thread_data M (content (store3 p)) (frames3 p) (ts ! t))"

lemma lens_update:
  assumes "data_ok content ok hash M p ts" "length (f3_data f) = PAGE_SIZE"
  shows "\<forall>f \<in> set ((frames3 p)[i := f]). length (f3_data f) = PAGE_SIZE"
  using assms set_update_subset_insert [of "frames3 p" i f] by (auto simp: data_ok_def)

section \<open>What belongs to a thread\<close>

definition own_frames :: "pc3 \<Rightarrow> nat set" where
  "own_frames pc = {i. (\<exists>k. ro_vict (role_of pc) = Some (i, k)) \<or> flushing pc \<and> (\<exists>pid. ro_valid (role_of pc) = Some (i, pid))}"

definition own_pages :: "pc3 \<Rightarrow> page_id set" where
  "own_pages pc = {pid. (\<exists>k. ro_load (role_of pc) = Some (pid, k)) \<or> (\<exists>k. ro_evict (role_of pc) = Some (pid, k)) \<or>
     flushing pc \<and> (\<exists>i. ro_valid (role_of pc) = Some (i, pid))}"

lemma thread_data_frame:
  assumes "thread_data M C fs pc"
    and "\<And>i. i \<in> own_frames pc \<Longrightarrow> f3_data (fs' ! i) = f3_data (fs ! i) \<and> (flushing pc \<or> f3_dirty (fs' ! i) = f3_dirty (fs ! i))"
    and "\<And>pid. pid \<in> own_pages pc \<Longrightarrow> M' pid = M pid \<and> (saved M C pid \<longrightarrow> saved M' C' pid)"
  shows "thread_data M' C' fs' pc"
  using assms by (cases pc) (auto simp: own_frames_def own_pages_def role_defs good_def)

text \<open>Pages and frames of different threads differ, by the entries and states they have in the table.\<close>

lemma own_frame_state:
  assumes ok: "sys_ok hash p gs ts" "t < length ts" and i: "i \<in> own_frames (ts ! t)"
  shows "i < length (frames3 p)"
    "(\<exists>k. f3_state (frames3 p ! i) = Evicting3 k \<and> ro_pend (role_of (ts ! t)) = Some k) \<or>
     flushing (ts ! t) \<and> (\<exists>pid. f3_state (frames3 p ! i) = Valid3 pid)"
proof -
  note own = own_role [OF sys_ok_at(1,4) [OF ok]] and r = role_of_ok [of "ts ! t"]
  consider k where "ro_vict (role_of (ts ! t)) = Some (i, k)" | pid where "flushing (ts ! t)" "ro_valid (role_of (ts ! t)) = Some (i, pid)"
    using i by (auto simp: own_frames_def)
  then have "i < length (frames3 p) \<and> ((\<exists>k. f3_state (frames3 p ! i) = Evicting3 k \<and> ro_pend (role_of (ts ! t)) = Some k) \<or>
     flushing (ts ! t) \<and> (\<exists>pid. f3_state (frames3 p ! i) = Valid3 pid))"
    by cases (use own(4,5) r ok(2) in \<open>auto simp: role_ok_def\<close>)
  then show "i < length (frames3 p)"
    "(\<exists>k. f3_state (frames3 p ! i) = Evicting3 k \<and> ro_pend (role_of (ts ! t)) = Some k) \<or>
     flushing (ts ! t) \<and> (\<exists>pid. f3_state (frames3 p ! i) = Valid3 pid)" by simp_all
qed

lemma own_page_entry:
  assumes ok: "sys_ok hash p gs ts" "t < length ts" and pid: "pid \<in> own_pages (ts ! t)"
  shows "(\<exists>k. (lookup3 hash pid p = Some (Loading3 k) \<or> lookup3 hash pid p = Some (EvictingEntry3 k)) \<and>
       ro_pend (role_of (ts ! t)) = Some k) \<or>
     flushing (ts ! t) \<and> (\<exists>i. lookup3 hash pid p = Some (Ready3 i) \<and> i \<in> own_frames (ts ! t))"
proof -
  note own = own_role [OF sys_ok_at(1,4) [OF ok]] and r = role_of_ok [of "ts ! t"]
  consider k where "ro_load (role_of (ts ! t)) = Some (pid, k)" | k where "ro_evict (role_of (ts ! t)) = Some (pid, k)"
    | i where "flushing (ts ! t)" "ro_valid (role_of (ts ! t)) = Some (i, pid)"
    using pid by (auto simp: own_pages_def)
  then show ?thesis
    by cases (use own(2,3,5) r ok(2) in \<open>auto simp: role_ok_def own_frames_def\<close>)
qed

lemma pend_unique:
  assumes "sys_ok hash p gs ts" "t < length ts" "u < length ts" "ro_pend (role_of (ts ! t)) = Some k" "ro_pend (role_of (ts ! u)) = Some k"
  shows "u = t"
  using assms sys_ok_at(1) [OF assms(1,2)] by (simp add: ctl_inv_def held_inv_def owned_def)

lemma own_apart:
  assumes ok: "sys_ok hash p gs ts" "t < length ts" "u < length ts" "u \<noteq> t" and fl: "\<not> (flushing (ts ! t) \<and> flushing (ts ! u))"
  shows "own_frames (ts ! t) \<inter> own_frames (ts ! u) = {}" "own_pages (ts ! t) \<inter> own_pages (ts ! u) = {}"
proof -
  note pu = pend_unique [OF ok(1-3)]
  show "own_frames (ts ! t) \<inter> own_frames (ts ! u) = {}"
    using own_frame_state(2) [OF ok(1,2)] own_frame_state(2) [OF ok(1,3)] pu ok(4) fl by fastforce
  show "own_pages (ts ! t) \<inter> own_pages (ts ! u) = {}"
    using own_page_entry [OF ok(1,2)] own_page_entry [OF ok(1,3)] pu ok(4) fl by fastforce
qed

section \<open>The frame rule\<close>

lemma own_ready:
  assumes ok: "sys_ok hash p gs ts" "t < length ts" and i: "i \<in> own_frames (ts ! t)" "lookup3 hash pid p = Some (Ready3 i)"
  shows "pid \<in> own_pages (ts ! t)"
proof -
  note a = sys_ok_at [OF ok]
  have v: "f3_state (frames3 p ! i) = Valid3 pid" using ready_at [OF a(1)] i(2) by simp
  then have "ro_vict (role_of (ts ! t)) \<noteq> Some (i, k)" for k using own_role(4) [OF a(1,4), of i k] a(5) by auto
  then obtain q where q: "flushing (ts ! t)" "ro_valid (role_of (ts ! t)) = Some (i, q)" using i(1) by (auto simp: own_frames_def)
  then have "f3_state (frames3 p ! i) = Valid3 q" using own_role(5) [OF a(1,4), of i q] a(5) by simp
  then show ?thesis using q v by (auto simp: own_pages_def)
qed

text \<open>A step changes the bytes of its own frame and the saved content of its own pages only, and a step of a flush changes no
  bytes and unsaves no page, since other threads may flush the same frame; what it must show is what
  it says itself afterwards, and the entries of its own pages and of those whose entry it changes.\<close>

lemma data_step:
  assumes ok: "sys_ok hash p gs ts" "t < length ts" and d: "data_ok content ok hash M p ts"
    and new: "ok (store3 p')" "\<forall>f \<in> set (frames3 p'). length (f3_data f) = PAGE_SIZE"
      "thread_data M (content (store3 p')) (frames3 p') pc"
    and frames: "\<And>i. i \<notin> own_frames (ts ! t) \<Longrightarrow>
        f3_data (frames3 p' ! i) = f3_data (frames3 p ! i) \<and> f3_dirty (frames3 p' ! i) = f3_dirty (frames3 p ! i)"
    and store: "\<And>pid. pid \<notin> own_pages (ts ! t) \<Longrightarrow> saved M (content (store3 p)) pid \<Longrightarrow> saved M (content (store3 p')) pid"
    and flush: "flushing (ts ! t) \<Longrightarrow> (\<forall>i. f3_data (frames3 p' ! i) = f3_data (frames3 p ! i)) \<and>
        (\<forall>pid. saved M (content (store3 p)) pid \<longrightarrow> saved M (content (store3 p')) pid)"
    and entries: "\<And>pid. lookup3 hash pid p' = lookup3 hash pid p \<and> pid \<notin> own_pages (ts ! t) \<or>
        entry_data M (content (store3 p')) (frames3 p') pid (lookup3 hash pid p')"
  shows "data_ok content ok hash M p' (ts[t := pc])"
proof -
  have E: "\<And>pid. entry_data M (content (store3 p)) (frames3 p) pid (lookup3 hash pid p)"
    and T: "\<And>u. u < length ts \<Longrightarrow> thread_data M (content (store3 p)) (frames3 p) (ts ! u)"
    using d by (simp_all add: data_ok_def)
  have "entry_data M (content (store3 p')) (frames3 p') pid (lookup3 hash pid p')" for pid
  proof (cases "entry_data M (content (store3 p')) (frames3 p') pid (lookup3 hash pid p')")
    case False
    then have l: "lookup3 hash pid p' = lookup3 hash pid p" and n: "pid \<notin> own_pages (ts ! t)" using entries [of pid] by auto
    have "i \<notin> own_frames (ts ! t)" if "lookup3 hash pid p = Some (Ready3 i)" for i
      using own_ready [OF ok _ that] n by auto
    then show ?thesis
      using E [of pid] frames store [OF n] unfolding l by (auto simp: entry_data_def split: option.splits entry3.splits)
  qed
  moreover have "thread_data M (content (store3 p')) (frames3 p') (ts[t := pc] ! u)"
    if u: "u < length ts" for u
  proof (cases "u = t")
    case True
    then show ?thesis using new(3) ok(2) by auto
  next
    case False
    have "thread_data M (content (store3 p')) (frames3 p') (ts ! u)"
    proof (cases "flushing (ts ! t) \<and> flushing (ts ! u)")
      case True
      then show ?thesis using flush by (intro thread_data_frame [OF T [OF u]]) auto
    next
      case apart: False
      note apart = own_apart [OF ok u False apart]
      show ?thesis
      proof (rule thread_data_frame [OF T [OF u]])
        fix i assume "i \<in> own_frames (ts ! u)"
        then show "f3_data (frames3 p' ! i) = f3_data (frames3 p ! i) \<and>
            (flushing (ts ! u) \<or> f3_dirty (frames3 p' ! i) = f3_dirty (frames3 p ! i))"
          using apart(1) frames [of i] by auto
      next
        fix pid assume "pid \<in> own_pages (ts ! u)"
        then show "M pid = M pid \<and> (saved M (content (store3 p)) pid \<longrightarrow> saved M (content (store3 p')) pid)"
          using apart(2) store by auto
      qed
    qed
    then show ?thesis using False by simp
  qed
  ultimately show ?thesis using new(1,2) by (simp add: data_ok_def)
qed

text \<open>A step that moves no bytes.\<close>

lemma data_quiet:
  assumes ok: "sys_ok hash p gs ts" "t < length ts" and d: "data_ok content ok hash M p ts"
    and new: "ok (store3 p')" "thread_data M (content (store3 p)) (frames3 p) pc"
    and same: "length (frames3 p') = length (frames3 p)"
      "\<And>i. f3_data (frames3 p' ! i) = f3_data (frames3 p ! i) \<and> f3_dirty (frames3 p' ! i) = f3_dirty (frames3 p ! i)"
      "content (store3 p') = content (store3 p)"
    and entries: "\<And>pid. lookup3 hash pid p' = lookup3 hash pid p \<or>
        entry_data M (content (store3 p)) (frames3 p) pid (lookup3 hash pid p')"
  shows "data_ok content ok hash M p' (ts[t := pc])"
proof -
  have e: "entry_data M C (frames3 p') = entry_data M C (frames3 p)" for C
    by (auto simp: fun_eq_iff entry_data_def same(2) split: option.splits entry3.splits)
  have len: "\<forall>f \<in> set (frames3 p'). length (f3_data f) = PAGE_SIZE"
  proof
    fix f assume "f \<in> set (frames3 p')"
    then obtain i where "i < length (frames3 p')" "f = frames3 p' ! i" by (auto simp: in_set_conv_nth)
    then show "length (f3_data f) = PAGE_SIZE" using d same(1,2) by (simp add: data_ok_def)
  qed
  have td: "thread_data M (content (store3 p')) (frames3 p') pc"
    by (rule thread_data_frame [OF new(2)]) (simp_all add: same(2,3))
  show ?thesis
  proof (rule data_step [OF ok d new(1) len td])
    fix pid
    show "lookup3 hash pid p' = lookup3 hash pid p \<and> pid \<notin> own_pages (ts ! t) \<or>
        entry_data M (content (store3 p')) (frames3 p') pid (lookup3 hash pid p')"
      using entries [of pid] d unfolding e same(3) by (auto simp: data_ok_def)
  qed (use same in auto)
qed

end
