(* ===== verification/Pool_V3_Memory.thy ===== *)
theory Pool_V3_Memory imports Pool_V3_Data begin

text \<open>
  The steps of the third pool keep the invariant on the pages' bytes, for every store that meets the contract of
  \<^verbatim>\<open>PageStore\<close> and can be given the same page again. Whole runs then behave like a memory of pages.
\<close>

definition step_data ::
    "('s \<Rightarrow> page_id \<Rightarrow> bytes option) \<Rightarrow> ('s \<Rightarrow> bool) \<Rightarrow> (page_id \<Rightarrow> u64) \<Rightarrow>
     (page_id \<Rightarrow> bytes option) \<Rightarrow> pc3 list \<Rightarrow> nat \<Rightarrow> 's step3 \<Rightarrow> bool" where
  "step_data content ok hash M ts t st \<longleftrightarrow> (case st of
      Blocked \<Rightarrow> True
    | Panicked \<Rightarrow> False
    | Next pc r p \<Rightarrow> data_ok content ok hash M p (ts[t := pc]))"

lemma step_data_simps [simp]:
  "step_data content ok hash M ts t Blocked" "\<not> step_data content ok hash M ts t Panicked"
  "step_data content ok hash M ts t (Next pc r p) = data_ok content ok hash M p (ts[t := pc])"
  by (simp_all add: step_data_def)

lemma data_ok_at:
  assumes "data_ok content ok hash M p ts" "t < length ts"
  shows "ok (store3 p)" "thread_data M (content (store3 p)) (frames3 p) (ts ! t)"
    "i < length (frames3 p) \<Longrightarrow> length (f3_data (frames3 p ! i)) = PAGE_SIZE"
    "entry_data M (content (store3 p)) (frames3 p) pid (lookup3 hash pid p)"
  using assms by (simp_all add: data_ok_def)

text \<open>Changes of a frame that leave its bytes alone.\<close>

lemma quiet_frame:
  "f3_data f = f3_data (fs ! i) \<Longrightarrow> f3_data (fs[i := f] ! j) = f3_data (fs ! j)"
  "f3_dirty f = f3_dirty (fs ! i) \<Longrightarrow> f3_dirty (fs[i := f] ! j) = f3_dirty (fs ! j)"
  by (cases "i < length fs"; cases "i = j"; simp add: list_update_beyond)+

lemma record_access_data [simp]:
  "f3_data (record_access3 mode f) = f3_data f" "f3_dirty (record_access3 mode f) = f3_dirty f"
  "f3_data (add_pin3 f) = f3_data f" "f3_dirty (add_pin3 f) = f3_dirty f"
  "f3_data (sub_pin3 f) = f3_data f" "f3_dirty (sub_pin3 f) = f3_dirty f"
  by (simp_all add: record_access3_def add_pin3_def sub_pin3_def)

section \<open>Steps that move no bytes\<close>

lemma fetch_data:
  assumes ok: "sys_ok hash p gs ts" "t < length ts" and d: "data_ok content ok hash M p ts"
  shows "ts ! t = FetchLookup pid mode \<Longrightarrow> step_data content ok hash M ts t (thread_step3 rd wr hash (ts ! t) p)"
    and "ts ! t = FetchClaim pid mode \<Longrightarrow> step_data content ok hash M ts t (thread_step3 rd wr hash (ts ! t) p)"
proof -
  note a = sys_ok_at [OF ok] and b = data_ok_at [OF d ok(2)]
  show "step_data content ok hash M ts t (thread_step3 rd wr hash (ts ! t) p)" if pc: "ts ! t = FetchLookup pid mode"
  proof (cases "lookup3 hash pid p")
    case (Some e)
    show ?thesis
    proof (cases e)
      case (Ready3 i)
      then have i: "i < length (frames3 p)" using ready_at [OF a(1)] Some by simp
      show ?thesis
        using pc Some Ready3 i b(1)
        by (auto simp: fetch_lookup_def quiet_frame intro!: data_quiet [OF ok d])
    qed (use pc Some b(1) in \<open>auto simp: fetch_lookup_def intro!: data_quiet [OF ok d]\<close>)
  qed (use pc b(1) in \<open>auto simp: fetch_lookup_def intro!: data_quiet [OF ok d]\<close>)
  show "step_data content ok hash M ts t (thread_step3 rd wr hash (ts ! t) p)" if pc: "ts ! t = FetchClaim pid mode"
  proof (cases "lookup3 hash pid p")
    case None
    then have "saved M (content (store3 p)) pid" using b(4) [of pid] by (simp add: entry_data_def)
    then show ?thesis
      using pc None a(2) b(1)
      by (auto simp: fetch_claim_def Let_def lookup_set_entry entry_data_def intro!: data_quiet [OF ok d])
  qed (use pc b(1) in \<open>auto simp: fetch_claim_def intro!: data_quiet [OF ok d]\<close>)
qed

lemma take_reservation_data:
  assumes "take_reservation c i force p = (b, p')"
  shows "length (frames3 p') = length (frames3 p)" "store3 p' = store3 p" "lookup3 hash pid p' = lookup3 hash pid p"
    "shape3 p' = shape3 p"
    "f3_data (frames3 p' ! j) = f3_data (frames3 p ! j) \<and> f3_dirty (frames3 p' ! j) = f3_dirty (frames3 p ! j)"
  using assms by (auto simp: take_reservation_def Let_def quiet_frame split: if_splits)

lemma reserve_data:
  assumes ok: "sys_ok hash p gs ts" "t < length ts" and d: "data_ok content ok hash M p ts"
    and pc: "ts ! t = Reserve c n snapshot i"
  shows "step_data content ok hash M ts t (thread_step3 rd wr hash (ts ! t) p)"
proof -
  note a = sys_ok_at [OF ok] and b = data_ok_at [OF d ok(2)]
  obtain taken q where tr: "take_reservation c i (length (frames3 p) \<le> n) p = (taken, q)" by fastforce
  note q = take_reservation_data [OF tr]
  have skip: "data_ok content ok hash M p' (ts[t := Choose c (Suc n)])" if "p' = p \<or> p' = q" for p'
    using that q b(1) pc by (intro data_quiet [OF ok d]) auto
  show ?thesis
  proof (cases snapshot)
    case Empty3
    have "data_ok content ok hash M q (ts[t := CheckDirty c \<lparr>vi_index = i, vi_old = None\<rparr>])"
      using q b(1) pc by (intro data_quiet [OF ok d]) auto
    then show ?thesis using Empty3 pc tr skip by (auto simp: try_reserve_def Let_def)
  next
    case (Valid3 old)
    have "data_ok content ok hash M (set_entry3 hash old (Some (EvictingEntry3 (cl_pending c))) q)
        (ts[t := CheckDirty c \<lparr>vi_index = i, vi_old = Some old\<rparr>])" if "lookup3 hash old p = Some (Ready3 i)"
      using q b(1) b(4) [of old] a(2) that by (intro data_quiet [OF ok d]) (auto simp: lookup_set_entry entry_data_def)
    then show ?thesis using Valid3 pc tr skip by (auto simp: try_reserve_def Let_def)
  qed (use pc skip in \<open>simp add: try_reserve_def Let_def\<close>)
qed

section \<open>Steps that move bytes\<close>

text \<open>What the invariants say of a thread that has a victim, and of one that flushes a frame.\<close>

lemma victim_at:
  assumes ok: "sys_ok hash p gs ts" "t < length ts" and d: "data_ok content ok hash M p ts"
    and pc: "role_of (ts ! t) = role_victim c v"
  shows "vi_index v < length (frames3 p)" "length (f3_data (frames3 p ! vi_index v)) = PAGE_SIZE"
    "lookup3 hash (cl_page c) p = Some (Loading3 (cl_pending c))" "saved M (content (store3 p)) (cl_page c)"
    "vi_old v = Some old \<Longrightarrow> lookup3 hash old p = Some (EvictingEntry3 (cl_pending c)) \<and> old \<noteq> cl_page c"
    "own_frames (ts ! t) = {vi_index v}" "own_pages (ts ! t) = insert (cl_page c) (set_option (vi_old v))"
    "\<not> flushing (ts ! t)"
proof -
  note own = own_role [OF sys_ok_at(1,4) [OF ok], unfolded sys_ok_at(5) [OF ok] pc]
  show i: "vi_index v < length (frames3 p)" using own(4) [of "vi_index v" "cl_pending c"] by (simp add: role_defs)
  then show "length (f3_data (frames3 p ! vi_index v)) = PAGE_SIZE" using data_ok_at(3) [OF d ok(2)] by simp
  show l: "lookup3 hash (cl_page c) p = Some (Loading3 (cl_pending c))"
    using own(2) [of "cl_page c" "cl_pending c"] by (simp add: role_defs)
  then show "saved M (content (store3 p)) (cl_page c)"
    using data_ok_at(4) [OF d ok(2), of "cl_page c"] by (simp add: entry_data_def)
  show "vi_old v = Some old \<Longrightarrow> lookup3 hash old p = Some (EvictingEntry3 (cl_pending c)) \<and> old \<noteq> cl_page c"
    using own(3) [of old "cl_pending c"] l by (auto simp: role_defs)
  show "\<not> flushing (ts ! t)" using pc by (cases "ts ! t") (auto simp: role_defs)
  then show "own_frames (ts ! t) = {vi_index v}" "own_pages (ts ! t) = insert (cl_page c) (set_option (vi_old v))"
    using pc by (auto simp: own_frames_def own_pages_def role_defs)
qed

lemma flush_at:
  assumes ok: "sys_ok hash p gs ts" "t < length ts" and d: "data_ok content ok hash M p ts"
    and pc: "flushing (ts ! t)" "ro_valid (role_of (ts ! t)) = Some (i, pid)"
  shows "i < length (frames3 p)" "length (f3_data (frames3 p ! i)) = PAGE_SIZE" "lookup3 hash pid p = Some (Ready3 i)"
    "good M pid (f3_data (frames3 p ! i))" "own_frames (ts ! t) = {i}" "own_pages (ts ! t) = {pid}"
proof -
  note own = own_role [OF sys_ok_at(1,4) [OF ok], unfolded sys_ok_at(5) [OF ok]]
  show i: "i < length (frames3 p)" and l: "lookup3 hash pid p = Some (Ready3 i)" using own(5) [OF pc(2)] by simp_all
  then show "length (f3_data (frames3 p ! i)) = PAGE_SIZE" using data_ok_at(3) [OF d ok(2)] by simp
  show "good M pid (f3_data (frames3 p ! i))" using data_ok_at(4) [OF d ok(2), of pid] l by (simp add: entry_data_def)
  show "own_frames (ts ! t) = {i}" "own_pages (ts ! t) = {pid}"
    using pc by (cases "ts ! t"; auto simp: own_frames_def own_pages_def role_defs)+
qed

text \<open>Steps of a load.\<close>

lemma load_frame_data:
  assumes ok: "sys_ok hash p gs ts" "t < length ts" and d: "data_ok content ok hash M p ts"
  shows "ts ! t = ClearDirty c v \<Longrightarrow> step_data content ok hash M ts t (thread_step3 rd wr hash (ts ! t) p)"
    and "ts ! t = Replace c v new \<Longrightarrow> step_data content ok hash M ts t (thread_step3 rd wr hash (ts ! t) p)"
    and "ts ! t = RemoveOld c v \<Longrightarrow> step_data content ok hash M ts t (thread_step3 rd wr hash (ts ! t) p)"
    and "ts ! t = Publish c v \<Longrightarrow> step_data content ok hash M ts t (thread_step3 rd wr hash (ts ! t) p)"
    and "ts ! t = RestoreEntry c v e \<Longrightarrow> step_data content ok hash M ts t (thread_step3 rd wr hash (ts ! t) p)"
proof -
  note a = sys_ok_at [OF ok] and b = data_ok_at [OF d ok(2)]
  let ?C = "content (store3 p)"
  have rewrite: "data_ok content ok hash M (upd_frame3 (vi_index v) fn p) (ts[t := pc])"
    if role: "role_of (ts ! t) = role_victim c v"
      and fn: "length (f3_data (fn (frames3 p ! vi_index v))) = PAGE_SIZE"
      and new: "thread_data M ?C ((frames3 p)[vi_index v := fn (frames3 p ! vi_index v)]) pc" for fn pc
  proof (rule data_step [OF ok d])
    note w = victim_at [OF ok d role]
    show "\<forall>f \<in> set (frames3 (upd_frame3 (vi_index v) fn p)). length (f3_data f) = PAGE_SIZE" using lens_update [OF d fn] by simp
    show "f3_data (frames3 (upd_frame3 (vi_index v) fn p) ! i) = f3_data (frames3 p ! i) \<and>
        f3_dirty (frames3 (upd_frame3 (vi_index v) fn p) ! i) = f3_dirty (frames3 p ! i)" if "i \<notin> own_frames (ts ! t)" for i
      using that w(6) by simp
    show "lookup3 hash pid (upd_frame3 (vi_index v) fn p) = lookup3 hash pid p \<and> pid \<notin> own_pages (ts ! t) \<or>
        entry_data M (content (store3 (upd_frame3 (vi_index v) fn p))) (frames3 (upd_frame3 (vi_index v) fn p)) pid
          (lookup3 hash pid (upd_frame3 (vi_index v) fn p))" for pid
      using w(3,4,5) by (auto simp: w(7) entry_data_def)
  qed (use b(1) new victim_at(8) [OF ok d role] in simp_all)
  show "step_data content ok hash M ts t (thread_step3 rd wr hash (ts ! t) p)" if pc: "ts ! t = ClearDirty c v"
  proof -
    have role: "role_of (ts ! t) = role_victim c v" using pc by simp
    show ?thesis using rewrite [OF role, of "\<lambda>f. f\<lparr>f3_dirty := False\<rparr>" "ReadNew c v"] b(2) victim_at(1,2) [OF ok d role] pc
      by simp
  qed
  show "step_data content ok hash M ts t (thread_step3 rd wr hash (ts ! t) p)" if pc: "ts ! t = Replace c v new"
  proof -
    have role: "role_of (ts ! t) = role_victim c v" using pc by simp
    show ?thesis
      using rewrite [OF role, of "\<lambda>f. f\<lparr>f3_data := new, f3_dirty := False, f3_referenced := (cl_mode c = Normal)\<rparr>" "RemoveOld c v"]
        b(2) victim_at(1) [OF ok d role] pc
      by (simp add: load_replace_def)
  qed
  show "step_data content ok hash M ts t (thread_step3 rd wr hash (ts ! t) p)" if pc: "ts ! t = RemoveOld c v"
    using b(1,2) pc a(2)
    by (auto simp: load_remove_old_def lookup_set_entry entry_data_def split: option.splits intro!: data_quiet [OF ok d])
  show "step_data content ok hash M ts t (thread_step3 rd wr hash (ts ! t) p)" if pc: "ts ! t = Publish c v"
  proof -
    have "lookup3 hash (cl_page c) p = Some (Loading3 (cl_pending c))"
      using own_role(2) [OF a(1,4)] a(5) pc by (simp add: role_defs)
    then have "saved M ?C (cl_page c)" using b(4) [of "cl_page c"] by (simp add: entry_data_def)
    then show ?thesis
      using b(1,2) pc a(2)
      by (auto simp: load_publish_def lookup_set_entry entry_data_def quiet_frame intro!: data_quiet [OF ok d])
  qed
  show "step_data content ok hash M ts t (thread_step3 rd wr hash (ts ! t) p)" if pc: "ts ! t = RestoreEntry c v e"
  proof -
    have "role_of (ts ! t) = role_victim c v" using pc by simp
    note w = victim_at [OF ok d this]
    show ?thesis
      using b(1,2) pc a(2) w(5)
      by (auto simp: restore_entry_def Let_def lookup_set_entry entry_data_def quiet_frame split: option.splits
          intro!: data_quiet [OF ok d])
  qed
qed

context page_store begin

lemma wr_saved:
  assumes "\<And>q c. q \<noteq> p \<Longrightarrow> content s q = Some c \<Longrightarrow> content s' q = Some c" "q \<noteq> p" "saved M (content s) q"
  shows "saved M (content s') q"
  using assms by (fastforce simp: saved_def)

lemma load_store_data:
  assumes sys: "sys_ok hash p gs ts" "t < length ts" and d: "data_ok content ok hash M p ts"
  shows "ts ! t = WriteBack c v copy \<Longrightarrow> step_data content ok hash M ts t (thread_step3 rd wr hash (ts ! t) p)"
    and "ts ! t = ReadNew c v \<Longrightarrow> step_data content ok hash M ts t (thread_step3 rd wr hash (ts ! t) p)"
proof -
  note a = sys_ok_at [OF sys] and b = data_ok_at [OF d sys(2)]
  show "step_data content ok hash M ts t (thread_step3 rd wr hash (ts ! t) p)" if pc: "ts ! t = WriteBack c v copy"
  proof -
    have role: "role_of (ts ! t) = role_victim c v" using pc by simp
    note w = victim_at [OF sys d role]
    obtain old where old: "vi_old v = Some old" using a(3) pc by auto
    have copy: "copy = f3_data (frames3 p ! vi_index v)" "f3_dirty (frames3 p ! vi_index v)" "good M old copy"
      using b(2) old unfolding pc thread_data.simps by blast+
    have "length copy = PAGE_SIZE" using copy(1) w(2) by simp
    from b(1) this show ?thesis
    proof (cases rule: wr_cases [where p = old])
      case (1 r b' s')
      note other = wr_saved [of old "store3 p" s' _ M, OF 1(5)]
      have step: "data_ok content ok hash M (p\<lparr>store3 := s'\<rparr>) (ts[t := pc'])"
        if new: "thread_data M (content s') (frames3 p) pc'" for pc'
      proof (rule data_step [OF sys d])
        fix pid assume "pid \<notin> own_pages (ts ! t)" "saved M (content (store3 p)) pid"
        then show "saved M (content (store3 (p\<lparr>store3 := s'\<rparr>))) pid" using other old by (simp add: w(7))
      next
        fix pid
        have "saved M (content s') (cl_page c)" using other [of "cl_page c"] w(4) w(5) [OF old] by metis
        then show "lookup3 hash pid (p\<lparr>store3 := s'\<rparr>) = lookup3 hash pid p \<and> pid \<notin> own_pages (ts ! t) \<or>
            entry_data M (content (store3 (p\<lparr>store3 := s'\<rparr>))) (frames3 (p\<lparr>store3 := s'\<rparr>)) pid (lookup3 hash pid (p\<lparr>store3 := s'\<rparr>))"
          using w(3) w(5) [OF old] old by (auto simp: w(7) entry_data_def)
      qed (use d 1(2) new w(8) in \<open>simp_all add: data_ok_def\<close>)
      show ?thesis
      proof (cases r)
        case (Inl e)
        then show ?thesis using pc old 1(1) copy step [of "RestoreEntry c v e"] by (simp add: load_write_back_def)
      next
        case (Inr u)
        then have "content s' old = Some b'" using 1(6) by simp
        then have "saved M (content s') old" using 1(4) copy(3) by (simp add: saved_def good_def)
        then show ?thesis using Inr pc old 1(1) copy step [of "ClearDirty c v"] by (simp add: load_write_back_def)
      qed
    qed
  qed
  show "step_data content ok hash M ts t (thread_step3 rd wr hash (ts ! t) p)" if pc: "ts ! t = ReadNew c v"
  proof -
    have role: "role_of (ts ! t) = role_victim c v" using pc by simp
    note w = victim_at [OF sys d role]
    have "length (replicate PAGE_SIZE (0 :: u8)) = PAGE_SIZE" by simp
    from b(1) this show ?thesis
    proof (cases rule: rd_cases [where p = "cl_page c"])
      case (1 e b' s')
      then show ?thesis using pc b(2) by (auto simp: load_read_new_def intro!: data_quiet [OF sys d])
    next
      case (2 b' s')
      have "good M (cl_page c) b'" using w(4) 2(4) by (simp add: saved_def good_def)
      then show ?thesis using pc b(2) 2 by (auto simp: load_read_new_def intro!: data_quiet [OF sys d])
    qed
  qed
qed

end

text \<open>A flush may write a page that is clean by now: another flush did, with the same bytes.\<close>

context rewrite_store begin

lemma wr_again_saved:
  assumes "ok s" "wr p b s = Some (r, b', s')" "length b = PAGE_SIZE" "good M p b" "saved M (content s) p"
  shows "saved M (content s') p"
  using assms(4,5) wr_again [OF assms(1-3)] by (fastforce simp: saved_def good_def)

lemma flush_data:
  assumes sys: "sys_ok hash p gs ts" "t < length ts" and d: "data_ok content ok hash M p ts"
  shows "ts ! t = FlushWrite i pid copy \<Longrightarrow> step_data content ok hash M ts t (thread_step3 rd wr hash (ts ! t) p)"
    and "ts ! t = FlushClear i pid \<Longrightarrow> step_data content ok hash M ts t (thread_step3 rd wr hash (ts ! t) p)"
proof -
  note a = sys_ok_at [OF sys] and b = data_ok_at [OF d sys(2)]
  show "step_data content ok hash M ts t (thread_step3 rd wr hash (ts ! t) p)" if pc: "ts ! t = FlushWrite i pid copy"
  proof -
    have "ro_valid (role_of (ts ! t)) = Some (i, pid)" "flushing (ts ! t)" using pc by (simp_all add: role_defs)
    note w = flush_at [OF sys d this(2,1)]
    have copy: "copy = f3_data (frames3 p ! i)" "good M pid copy"
      using b(2) pc w(4) by simp_all
    have "length copy = PAGE_SIZE" using copy(1) w(2) by simp
    from b(1) this show ?thesis
    proof (cases rule: wr_cases [where p = pid])
      case (1 r b' s')
      have keep: "saved M (content s') q" if "saved M (content (store3 p)) q" for q
        using that wr_saved [of pid "store3 p" s' q M, OF 1(5)] wr_again_saved [OF b(1) 1(1) \<open>length copy = PAGE_SIZE\<close> copy(2)]
        by (cases "q = pid") auto
      have step: "data_ok content ok hash M (p\<lparr>store3 := s'\<rparr>) (ts[t := pc'])"
        if new: "thread_data M (content s') (frames3 p) pc'" for pc'
      proof (rule data_step [OF sys d])
        fix q
        show "lookup3 hash q (p\<lparr>store3 := s'\<rparr>) = lookup3 hash q p \<and> q \<notin> own_pages (ts ! t) \<or>
            entry_data M (content (store3 (p\<lparr>store3 := s'\<rparr>))) (frames3 (p\<lparr>store3 := s'\<rparr>)) q (lookup3 hash q (p\<lparr>store3 := s'\<rparr>))"
          using b(4) [of q] keep by (auto simp: entry_data_def split: option.splits entry3.splits)
      qed (use d 1(2) new keep in \<open>simp_all add: data_ok_def\<close>)
      show ?thesis
      proof (cases r)
        case (Inl e)
        then show ?thesis using pc 1(1) step [of "FlushRelease i pid (Some e)"] by (simp add: flush_write_def)
      next
        case (Inr u)
        then have "content s' pid = Some b'" using 1(6) by simp
        then have "saved M (content s') pid" using 1(4) copy(2) by (simp add: saved_def good_def)
        then show ?thesis using Inr pc 1(1) step [of "FlushClear i pid"] by (simp add: flush_write_def)
      qed
    qed
  qed
  show "step_data content ok hash M ts t (thread_step3 rd wr hash (ts ! t) p)" if pc: "ts ! t = FlushClear i pid"
  proof -
    have "ro_valid (role_of (ts ! t)) = Some (i, pid)" "flushing (ts ! t)" using pc by (simp_all add: role_defs)
    note w = flush_at [OF sys d this(2,1)]
    let ?p = "upd_frame3 i (\<lambda>f. f\<lparr>f3_dirty := False\<rparr>) p"
    have sv: "saved M (content (store3 p)) pid" using b(2) pc by simp
    have "data_ok content ok hash M ?p (ts[t := FlushRelease i pid None])"
    proof (rule data_step [OF sys d])
      show "\<forall>f \<in> set (frames3 ?p). length (f3_data f) = PAGE_SIZE"
        using w(2) lens_update [OF d, of "(frames3 p ! i)\<lparr>f3_dirty := False\<rparr>" i] by simp
      show "f3_data (frames3 ?p ! j) = f3_data (frames3 p ! j) \<and> f3_dirty (frames3 ?p ! j) = f3_dirty (frames3 p ! j)"
        if "j \<notin> own_frames (ts ! t)" for j using that w(5) by simp
      show "lookup3 hash q ?p = lookup3 hash q p \<and> q \<notin> own_pages (ts ! t) \<or>
          entry_data M (content (store3 ?p)) (frames3 ?p) q (lookup3 hash q ?p)" for q
        using w(1,3,4) sv by (auto simp: w(6) entry_data_def)
    qed (use b(1) pc in \<open>auto simp: quiet_frame\<close>)
    then show ?thesis using pc by simp
  qed
qed

text \<open>Every step of a thread.\<close>

lemma thread_step_data:
  assumes sys: "sys_ok hash p gs ts" "t < length ts" and d: "data_ok content ok hash M p ts"
  shows "step_data content ok hash M ts t (thread_step3 rd wr hash (ts ! t) p)"
proof -
  note a = sys_ok_at [OF sys] and b = data_ok_at [OF d sys(2)]
  note quiet = data_quiet [OF sys d]
  show ?thesis
  proof (cases "ts ! t")
    case (FlushFrame i)
    then show ?thesis
      using b(1) by (auto simp: flush_frame_def quiet_frame split: frame_state3.splits intro!: quiet)
  next
    case (Scan c i)
    then show ?thesis using b(1) by (auto simp: scan_frame_def split: frame_state3.splits intro!: quiet)
  next
    case (FailRemove c)
    then have "lookup3 hash (cl_page c) p = Some (Loading3 (cl_pending c))"
      using own_role(2) [OF a(1,4)] a(5) by (simp add: role_defs)
    then have "saved M (content (store3 p)) (cl_page c)" using b(4) [of "cl_page c"] by (simp add: entry_data_def)
    then show ?thesis
      using FailRemove b(1) a(2) by (auto simp: lookup_set_entry entry_data_def intro!: quiet)
  next
    case (RestoreRemove c e)
    then have "lookup3 hash (cl_page c) p = Some (Loading3 (cl_pending c))"
      using own_role(2) [OF a(1,4)] a(5) by (simp add: role_defs)
    then have "saved M (content (store3 p)) (cl_page c)" using b(4) [of "cl_page c"] by (simp add: entry_data_def)
    then show ?thesis
      using RestoreRemove b(1) a(2) by (auto simp: lookup_set_entry entry_data_def intro!: quiet)
  next
    case (FlushUnpin i pid r)
    then show ?thesis using b(1) by (auto simp: flush_unpin_def Let_def quiet_frame split: option.splits intro!: quiet)
  next
    case (CheckDirty c v)
    then show ?thesis using b(1,2) by (auto simp: load_check_dirty_def Let_def intro!: quiet)
  qed (use b(1,2) fetch_data [OF sys d] reserve_data [OF sys d] load_frame_data [OF sys d] load_store_data [OF sys d] flush_data [OF sys d] in
      \<open>auto simp: choose_probe_def load_count_miss_def quiet_frame intro!: quiet\<close>)
qed

end

end
