(* ===== verification/Clock_Progress.thy ===== *)
theory Clock_Progress imports Clock_Runs begin

text \<open>
  When the store does not fail the pool does not fail either: a fetch of a readable page returns a
  guard as long as a frame is free, and a flush succeeds. Then the properties of the CLOCK pool on
  \<^verbatim>\<open>DiskManager\<close>.
\<close>

section \<open>A store that works\<close>

locale reliable_store = page_store +
  fixes good :: "'s \<Rightarrow> bool"
  assumes rd_good: "ok s \<Longrightarrow> good s \<Longrightarrow> length b = PAGE_SIZE \<Longrightarrow> content s p = Some c \<Longrightarrow>
      rd p b s = Some (r, b', s') \<Longrightarrow> r = Inr ()"
    and rd_still_good: "ok s \<Longrightarrow> good s \<Longrightarrow> length b = PAGE_SIZE \<Longrightarrow> rd p b s = Some (r, b', s') \<Longrightarrow> good s'"
    and wr_good: "ok s \<Longrightarrow> good s \<Longrightarrow> length b = PAGE_SIZE \<Longrightarrow> wr p b s = Some (r, b', s') \<Longrightarrow>
      r = Inr () \<and> good s'"
begin

lemma write_back_good:
  assumes "pool_wf p" "ok (store p)" "good (store p)" "i < length (frames p)"
    and "write_back wr i p = Some (r, q)"
  shows "r = Inr () \<and> good (store q)"
proof -
  let ?f = "frames p ! i"
  have len: "length (fr_data ?f) = PAGE_SIZE" using assms(1,4) by (simp add: pool_wf_def)
  have at: "frame_at i p = Some ?f" using assms(4) by (simp add: frame_at_def)
  show ?thesis
  proof (cases "\<exists>old. fr_page_id ?f = Some old \<and> fr_dirty ?f")
    case True
    then obtain old where old: "fr_page_id ?f = Some old" "fr_dirty ?f" by blast
    obtain x b' s' where w: "wr old (fr_data ?f) (store p) = Some (x, b', s')"
      using wr_total [OF assms(2) len, of old] by auto
    then have "x = Inr ()" "good s'" using wr_good [OF assms(2,3) len w] by simp_all
    then show ?thesis using assms(5) at old w by (auto simp: write_back_def Let_def set_frame_def)
  next
    case False
    then show ?thesis using assms(3,5) at by (auto simp: write_back_def split: option.splits)
  qed
qed

lemma fetch_good:
  assumes wf: "pool_wf p" and coh: "coherent content p" and st: "ok (store p)" "good (store p)"
    and readable: "pool_view content p pid \<noteq> None"
    and free: "page_table p pid \<noteq> None \<or> (\<exists>f \<in> set (frames p). unpinned f)"
  shows "\<exists>g q. fetch_page rd wr pid mode p = Some (Inr g, q) \<and> good (store q)"
proof (cases "page_table p pid")
  case (Some i)
  from wf coh Some show ?thesis
    by (cases rule: fetch_hit_keeps [where mode = mode]) (use st in auto)
next
  case None
  from wf coh show ?thesis
  proof (cases rule: choose_victim_keeps)
    case (1 v q)
    have n: "length (frames q) = length (frames p)" using same_pages_at(1) [OF 1(6)] .
    have okq: "ok (store q)" "v < length (frames q)" "good (store q)" using st 1(2,7) n by simp_all
    have view: "pool_view content q = pool_view content p"
      using same_pages_view [OF 1(6) _ 1(7)] wf by (simp add: pool_wf_def)
    from 1(4,5) okq(1,2) show ?thesis
    proof (cases rule: write_back_cases)
      case 2: (2 r)
      have good: "good (store r)" using write_back_good [OF 1(4) okq(1,3,2) 2(1)] by simp
      have tab: "page_table r pid = None"
        using None same_pages_at(2) [OF 1(6)] same_pages_at(2) [OF 2(5)] by simp
      have v: "v < length (frames r)" using same_pages_at(1) [OF 2(5)] okq(2) by simp
      obtain c where "pool_view content r pid = Some c"
        using readable view 2(6) by (auto simp: view_le_def)
      then obtain d where d: "content (store r) pid = Some d" using tab by (auto simp: pool_view_def)
      obtain x b' s' where rd: "rd pid (replicate PAGE_SIZE 0) (store r) = Some (x, b', s')"
        using rd_total [OF 2(4), of "replicate PAGE_SIZE 0" pid] by auto
      have zero: "length (replicate PAGE_SIZE (0 :: u8)) = PAGE_SIZE" by simp
      have "x = Inr ()" "good s'"
        using rd_good [OF 2(4) good zero d rd] rd_still_good [OF 2(4) good zero rd] by simp_all
      then show ?thesis
        using None 1(1) 2(1) rd v
        by (simp add: fetch_page_def install_page_def frame_at_def Let_def set_frame_def)
    qed (use write_back_good [OF 1(4) okq(1,3,2)] in auto)
  next
    case (2 q)
    then show ?thesis using free None by (auto simp: in_set_conv_nth)
  qed
qed

lemma flush_frames_good:
  assumes "pool_wf p" "coherent content p" "ok (store p)" "good (store p)" "\<forall>i \<in> set is. i < length (frames p)"
  shows "\<exists>q. flush_frames wr is p = Some (Inr (), q) \<and> good (store q)"
  using assms
proof (induction "is" arbitrary: p)
  case Nil
  then show ?case by simp
next
  case (Cons i "is")
  have i: "i < length (frames p)" using Cons.prems by simp
  from Cons.prems(1-3) i show ?case
  proof (cases rule: write_back_cases)
    case (2 q)
    have "good (store q)" using write_back_good [OF Cons.prems(1,3,4) i 2(1)] by simp
    moreover have "\<forall>i \<in> set is. i < length (frames q)"
      using Cons.prems(5) same_pages_at(1) [OF 2(5)] by simp
    ultimately show ?thesis
      using Cons.IH [OF 2(2,3,4)] write_back_frames(1) [OF 2(1) i] by auto
  qed (use write_back_good [OF Cons.prems(1,3,4) i] in auto)
qed

lemma flush_all_good:
  assumes "pool_wf p" "coherent content p" "ok (store p)" "good (store p)"
  shows "\<exists>q. flush_all wr p = Some (Inr (), q) \<and> good (store q)"
  unfolding flush_all_def using assms by (intro flush_frames_good) auto

end

lemma write_faultless:
  assumes "disk_ok d" "length b = PAGE_SIZE" "os_faults (disk_os d) = []"
  shows "\<exists>d'. disk_write_page crc pid b d = Some (Inr (), seal_page crc b, d') \<and> os_faults (disk_os d') = []"
proof -
  obtain rf d1 where get: "disk_get_relation pid d = (Inr rf, d1)" "os_faults (disk_os d1) = []"
    using get_relation_faultless [OF assms(3)] by blast
  have rf: "rf = page_file_of (relations_dir d) pid" using get_relation_ok(4) [OF assms(1) get(1)] by simp
  have "overwrite_opt 13 (u32_to_le (crc (drop PAGE_HEADER_SIZE b))) b = Some (seal_page crc b)"
    using assms(2) by (simp add: overwrite_opt_def seal_page_def sealed_def PAGE_SIZE_def)
  moreover have "compute_checksum crc b = Some (crc (drop PAGE_HEADER_SIZE b))"
    using assms(2) by (intro compute_checksum_eq) (simp add: PAGE_SIZE_def)
  moreover have "unat (page_no pid) * PAGE_SIZE < 2 ^ 64"
    using page_offset_u64 [of pid] by (simp add: page_offset_def)
  ultimately show ?thesis using get rf seal_page_simps(1) [OF assms(2)]
    by (simp add: disk_write_page_def rf_write_page_with_checksum_def rf_write_page_def
        os_write_all_at_def take_fault_none)
qed

lemma read_still_faultless:
  assumes "disk_ok d" "os_faults (disk_os d) = []" "disk_read_page crc pid b d = Some (r, b', d')"
  shows "os_faults (disk_os d') = []"
proof -
  obtain rf d1 where "disk_get_relation pid d = (Inr rf, d1)" "os_faults (disk_os d1) = []"
    using get_relation_faultless [OF assms(2)] by blast
  then show ?thesis using assms(3)
    by (auto simp: disk_read_page_def rf_read_and_verify_page_def rf_read_page_def os_read_exact_at_def
        take_fault_none Let_def split: Option.bind_splits if_splits sum.splits)
qed

interpretation rdm: reliable_store "disk_read_page crc" "disk_write_page crc" "stored_page crc" disk_ok
    "\<lambda>d. os_faults (disk_os d) = []"
  for crc
proof
  fix s :: disk and b :: bytes and p c r b' s'
  assume *: "disk_ok s" "os_faults (disk_os s) = []" "length b = PAGE_SIZE"
  show "stored_page crc s p = Some c \<Longrightarrow> disk_read_page crc p b s = Some (r, b', s') \<Longrightarrow> r = Inr ()"
    using read_faultless [OF *(1,3,2), of crc p c] by auto
  show "disk_read_page crc p b s = Some (r, b', s') \<Longrightarrow> os_faults (disk_os s') = []"
    using read_still_faultless [OF *(1,2)] by blast
  show "disk_write_page crc p b s = Some (r, b', s') \<Longrightarrow> r = Inr () \<and> os_faults (disk_os s') = []"
    using write_faultless [OF *(1,3,2), of crc p] by auto
qed

section \<open>The pool on the disk manager\<close>

definition disk_view :: "(bytes \<Rightarrow> u32) \<Rightarrow> disk \<Rightarrow> page_id \<Rightarrow> bytes option" where
  "disk_view crc d pid = map_option masked (stored_page crc d pid)"

definition run_pool :: "(bytes \<Rightarrow> u32) \<Rightarrow> nat \<Rightarrow> disk \<Rightarrow> pool_op list \<Rightarrow> (pool_out list \<times> disk world) option" where
  "run_pool crc n d xs = do {
     p \<leftarrow> pool_new n d;
     pool_run (disk_read_page crc) (disk_write_page crc) xs \<lparr>w_pool = p, w_guards = []\<rparr>
   }"

lemma run_pool_inv:
  assumes "0 < n" "disk_ok d" "\<forall>x \<in> set xs. op_ok x" "length xs < 2 ^ 32"
  shows "\<exists>outs w. run_pool crc n d xs = Some (outs, w) \<and> world_inv (stored_page crc) disk_ok w \<and>
    outs_ok (disk_view crc d) outs \<and>
    view_le (fold effect outs (disk_view crc d)) (pool_view (stored_page crc) (w_pool w))"
proof -
  obtain p where p: "pool_new n d = Some p" "world_inv (stored_page crc) disk_ok \<lparr>w_pool = p, w_guards = []\<rparr>"
    "pool_view (stored_page crc) p = disk_view crc d"
    using dm.pool_new_inv [OF assms(1,2), of crc] by (auto simp: disk_view_def fun_eq_iff)
  then show ?thesis
    using dm.pool_run_keeps [OF p(2) assms(3), of "disk_view crc d"] assms(4)
    by (simp add: run_pool_def view_le_refl)
qed

text \<open>C1: whatever clients do with a CLOCK pool over a \<^verbatim>\<open>DiskManager\<close> and however the file system fails,
  no operation panics, and no update is lost: every read through a guard returns the bytes last written
  to that page through any guard, or else the bytes on disk at the start, across all evictions,
  reloads, failed write-backs and failed reads; and the final state of the pool still holds them.\<close>
theorem clock_pool_no_lost_update:
  assumes "0 < n" "disk_ok d" "\<forall>x \<in> set xs. op_ok x" "length xs < 2 ^ 32"
  shows "\<exists>outs w. run_pool crc n d xs = Some (outs, w) \<and> outs_ok (disk_view crc d) outs \<and>
    view_le (fold effect outs (disk_view crc d)) (pool_view (stored_page crc) (w_pool w))"
  using run_pool_inv [OF assms, of crc] by blast

definition sample_ops :: "pool_op list" where
  "sample_ops = [OFetch \<lparr>relation_id = 1, page_no = 0\<rparr> Normal, OWrite 0 (\<lambda>d. replicate PAGE_SIZE 9),
     OFetch \<lparr>relation_id = 1, page_no = 1\<rparr> BulkRead, ODrop 0, OFetch \<lparr>relation_id = 1, page_no = 1\<rparr> BulkRead,
     OFlush, ORead 1]"

lemma sample_ops_ok: "\<forall>x \<in> set sample_ops. op_ok x" "length sample_ops < 2 ^ 32"
  by (auto simp: sample_ops_def op_ok_def)

text \<open>A disk with one page of sevens, whose second call to come fails after nine bytes.\<close>

lemma sevens_disk:
  "\<exists>d. stored_page (\<lambda>_. 5) d \<lparr>relation_id = 1, page_no = 0\<rparr> = Some (seal_page (\<lambda>_. 5) (replicate PAGE_SIZE 7)) \<and>
     os_faults (disk_os d) = [None, Some 9] \<and> disk_ok d"
proof -
  let ?pid = "\<lparr>relation_id = 1, page_no = 0\<rparr>" and ?b = "replicate PAGE_SIZE 7 :: bytes"
  obtain d where d: "disk_write_page (\<lambda>_. 5) ?pid ?b blank_disk = Some (Inr (), seal_page (\<lambda>_. 5) ?b, d)"
    using blank_write by blast
  have len: "length ?b = PAGE_SIZE" by simp
  let ?d = "d\<lparr>disk_os := (disk_os d)\<lparr>os_faults := [None, Some 9]\<rparr>\<rparr>"
  have "stored_page (\<lambda>_. 5) ?d = stored_page (\<lambda>_. 5) d" by (rule stored_page_cong) (simp_all add: file_bytes_def fun_eq_iff)
  moreover have "disk_ok ?d" using dm.wr_keeps [OF blank_disk_ok d len] by (simp add: disk_ok_def)
  ultimately show ?thesis using dm.wr_value [OF blank_disk_ok d len] by (intro exI [of _ ?d]) simp
qed

theorem clock_pool_no_lost_update_witness:
  "\<exists>d outs w. stored_page (\<lambda>_. 5) d \<lparr>relation_id = 1, page_no = 0\<rparr> = Some (seal_page (\<lambda>_. 5) (replicate PAGE_SIZE 7)) \<and>
     os_faults (disk_os d) = [None, Some 9] \<and> run_pool (\<lambda>_. 5) 1 d sample_ops = Some (outs, w) \<and>
     outs_ok (disk_view (\<lambda>_. 5) d) outs"
proof -
  obtain d where d: "stored_page (\<lambda>_. 5) d \<lparr>relation_id = 1, page_no = 0\<rparr> = Some (seal_page (\<lambda>_. 5) (replicate PAGE_SIZE 7))"
    "os_faults (disk_os d) = [None, Some 9]" "disk_ok d"
    using sevens_disk by blast
  from clock_pool_no_lost_update [OF _ d(3) sample_ops_ok, of 1] d(1,2) show ?thesis by fastforce
qed

text \<open>In every state clients can reach, a guard that was not dropped names a frame that still holds
  its page, the pin count of a frame is the number of live guards on it, no page is in two frames, and
  no usage count exceeds the CLOCK bound. So eviction never takes a page away from a guard.\<close>
lemma clock_pool_guards_hold:
  assumes "0 < n" "disk_ok d" "\<forall>x \<in> set xs. op_ok x" "length xs < 2 ^ 32"
    and "run_pool crc n d xs = Some (outs, w)"
  shows "(\<forall>h g. live_guard h w = Some g \<longrightarrow> pg_frame g < length (frames (w_pool w)) \<and>
      fr_page_id (frames (w_pool w) ! pg_frame g) = Some (pg_page_id g)) \<and>
    (\<forall>i < length (frames (w_pool w)). unat (fr_pin (frames (w_pool w) ! i)) = guards_on i (w_guards w)) \<and>
    table_ok (w_pool w) \<and> usage_bounded (w_pool w)"
proof -
  have inv: "world_inv (stored_page crc) disk_ok w" using run_pool_inv [OF assms(1-4), of crc] assms(5) by auto
  have "guards_ok w" "pool_wf (w_pool w)" using inv by (simp_all add: world_inv_def)
  then show ?thesis using dm.live_guard_ok(1,4) [OF inv] by (simp add: guards_ok_def pool_wf_def)
qed

text \<open>C18: when the file system has no more faults, a pool reached by any client history serves every
  page that is cached, or readable on disk while some frame is unpinned, and a flush succeeds and makes
  every update of the history durable: the pages on disk are then what the clients wrote.\<close>
theorem clock_pool_flush_durable:
  assumes "0 < n" "disk_ok d" "\<forall>x \<in> set xs. op_ok x" "length xs < 2 ^ 32"
    and "run_pool crc n d xs = Some (outs, w)" "os_faults (disk_os (store (w_pool w))) = []"
  shows "\<exists>q. flush_all (disk_write_page crc) (w_pool w) = Some (Inr (), q) \<and>
    view_le (fold effect outs (disk_view crc d)) (disk_view crc (store q)) \<and>
    (\<forall>pid mode. pool_view (stored_page crc) q pid \<noteq> None \<longrightarrow>
       page_table q pid \<noteq> None \<or> (\<exists>f \<in> set (frames q). unpinned f) \<longrightarrow>
       (\<exists>g r. fetch_page (disk_read_page crc) (disk_write_page crc) pid mode q = Some (Inr g, r)))"
proof -
  have inv: "world_inv (stored_page crc) disk_ok w"
    and view: "view_le (fold effect outs (disk_view crc d)) (pool_view (stored_page crc) (w_pool w))"
    using run_pool_inv [OF assms(1-4), of crc] assms(5) by auto
  have i: "pool_wf (w_pool w)" "coherent (stored_page crc) (w_pool w)" "disk_ok (store (w_pool w))"
    using inv by (auto simp: world_inv_def)
  obtain q where q: "flush_all (disk_write_page crc) (w_pool w) = Some (Inr (), q)" "os_faults (disk_os (store q)) = []"
    using rdm.flush_all_good [OF i assms(6)] by blast
  from i show ?thesis
  proof (cases rule: dm.flush_all_keeps)
    case (1 r t)
    then have t: "t = q" "r = Inr ()" using q(1) by auto
    then have "pool_view (stored_page crc) q = disk_view crc (store q)"
      using 1(8) by (simp add: disk_view_def fun_eq_iff)
    then have "view_le (fold effect outs (disk_view crc d)) (disk_view crc (store q))"
      using view_le_trans [OF view 1(5)] t by simp
    moreover have "\<exists>g r. fetch_page (disk_read_page crc) (disk_write_page crc) pid mode q = Some (Inr g, r)"
      if "pool_view (stored_page crc) q pid \<noteq> None"
        "page_table q pid \<noteq> None \<or> (\<exists>f \<in> set (frames q). unpinned f)" for pid mode
      using rdm.fetch_good [OF 1(2-4) [unfolded t] q(2) that] by blast
    ultimately show ?thesis using q(1) by blast
  qed
qed

theorem clock_pool_flush_durable_witness:
  "\<exists>d outs w q. run_pool (\<lambda>_. 5) 1 d [OFetch \<lparr>relation_id = 1, page_no = 0\<rparr> Normal, OWrite 0 (\<lambda>_. replicate PAGE_SIZE 9)] =
       Some (outs, w) \<and> length outs = 2 \<and>
     flush_all (disk_write_page (\<lambda>_. 5)) (w_pool w) = Some (Inr (), q) \<and>
     view_le (fold effect outs (disk_view (\<lambda>_. 5) d)) (disk_view (\<lambda>_. 5) (store q))"
proof -
  let ?pid = "\<lparr>relation_id = 1, page_no = 0\<rparr> :: page_id" and ?crc = "\<lambda>_. 5 :: u32"
  let ?xs = "[OFetch ?pid Normal, OWrite 0 (\<lambda>_. replicate PAGE_SIZE 9)]"
  let ?rd = "disk_read_page ?crc" and ?wr = "disk_write_page ?crc"
  have xs: "\<forall>x \<in> set ?xs. op_ok x" "length ?xs < 2 ^ 32" by (simp_all add: op_ok_def)
  obtain d where d: "?wr ?pid (replicate PAGE_SIZE 7) blank_disk = Some (Inr (), seal_page ?crc (replicate PAGE_SIZE 7), d)"
    "os_faults (disk_os d) = []" using blank_write by blast
  have len: "length (replicate PAGE_SIZE (7 :: u8)) = PAGE_SIZE" by simp
  have ok: "disk_ok d" and page: "stored_page ?crc d ?pid \<noteq> None"
    using dm.wr_keeps [OF blank_disk_ok d(1) len] dm.wr_value [OF blank_disk_ok d(1) len] by simp_all
  obtain p where p: "pool_new 1 d = Some p" "world_inv (stored_page ?crc) disk_ok \<lparr>w_pool = p, w_guards = []\<rparr>"
    "pool_view (stored_page ?crc) p ?pid \<noteq> None"
    using dm.pool_new_inv [OF _ ok, of 1 ?crc] page by auto
  have free: "store p = d" "\<exists>f \<in> set (frames p). unpinned f"
    using p(1) by (auto simp: pool_new_def unpinned_def frame_empty_def)
  obtain g q where q: "fetch_page ?rd ?wr ?pid Normal p = Some (Inr g, q)" "os_faults (disk_os (store q)) = []"
    using rdm.fetch_good [of p ?crc ?pid Normal] p(2,3) free d(2) by (auto simp: world_inv_def)
  obtain outs w where run: "run_pool ?crc 1 d ?xs = Some (outs, w)"
    using run_pool_inv [OF _ ok xs, of 1 ?crc] by auto
  then have "length outs = 2" "store (w_pool w) = store q"
    using p(1) q(1)
    by (auto simp: run_pool_def live_guard_def guard_write_def set_frame_def split: Option.bind_splits)
  then show ?thesis
    using clock_pool_flush_durable [OF _ ok xs run] run q(2) by auto
qed

end
