(* ===== verification/Pool_V3_Runs.thy ===== *)
theory Pool_V3_Runs imports Pool_V3_Memory Clock_Progress begin

text \<open>
  Whole executions of the third pool over a \<^verbatim>\<open>DiskManager\<close>: threads fetch, flush, read, write and drop guards under
  any scheduler and any faults of the file system. What they observe is a memory of pages, also when
  several threads flush at once.
\<close>

section \<open>Events\<close>

text \<open>A closure that is given a page of 4096 bytes leaves 4096 bytes, as its type says.\<close>

definition event_ok3 :: "event3 \<Rightarrow> bool" where
  "event_ok3 ev \<longleftrightarrow> (\<forall>h fn d. ev = GuardWrite h fn \<longrightarrow> length d = PAGE_SIZE \<longrightarrow> length (fn d) = PAGE_SIZE)"

definition sys_data ::
    "('s \<Rightarrow> page_id \<Rightarrow> bytes option) \<Rightarrow> ('s \<Rightarrow> bool) \<Rightarrow> (page_id \<Rightarrow> u64) \<Rightarrow>
     (page_id \<Rightarrow> bytes option) \<Rightarrow> 's sys3 \<Rightarrow> bool" where
  "sys_data content ok hash M s \<longleftrightarrow> sys3_ok hash s \<and> data_ok content ok hash M (s3_pool s) (s3_threads s)"

lemma outs_ok_append: "outs_ok v (xs @ ys) \<longleftrightarrow> outs_ok v xs \<and> outs_ok (fold effect xs v) ys"
  by (induction xs arbitrary: v) simp_all

lemma deliver_outs: "outs_ok M (fst (deliver3 r s)) \<and> fold effect (fst (deliver3 r s)) M = M"
  by (simp add: deliver3_def split: option.splits out3.splits)

text \<open>A write through a guard.\<close>

lemma readers_at:
  assumes "sys_ok hash p gs ts" "t < length ts" "ro_reads (role_of (ts ! t)) = Some i" "i < length (frames3 p)"
  shows "0 < f3_readers (frames3 p ! i)"
proof -
  note a = sys_ok_at [OF assms(1,2)]
  have "f3_readers (frames3 p ! i) = cnt (\<lambda>r. ro_reads r = Some i) (map role_of ts)"
    using a(1) assms(4) by (simp add: ctl_inv_def pin_inv_def)
  then show ?thesis using cnt_pos [of t "map role_of ts" "\<lambda>r. ro_reads r = Some i"] assms(2,3) by simp
qed

lemma guard_write_data:
  assumes s: "sys_data content ok hash M s" and g: "live_guard3 h s = Some g" and w: "guard_write3 g fn (s3_pool s) = Some p"
    and fn: "\<And>d. length d = PAGE_SIZE \<Longrightarrow> length (fn d) = PAGE_SIZE"
  shows "data_ok content ok hash (M(pg_page_id g \<mapsto> masked (fn (guard_read3 g (s3_pool s))))) p (s3_threads s)"
proof -
  let ?q = "s3_pool s" and ?i = "pg_frame g" and ?pid = "pg_page_id g" and ?ts = "s3_threads s"
  let ?d = "fn (guard_read3 g (s3_pool s))"
  let ?M = "M(?pid \<mapsto> masked ?d)" and ?C = "content (store3 ?q)"
  have sys: "sys_ok hash ?q (s3_guards s) ?ts" and d: "data_ok content ok hash M ?q ?ts"
    and ok3: "sys3_ok hash s" using s by (simp_all add: sys_data_def sys3_ok_def)
  note live = live_guard_at [OF ok3 g]
  have p: "p = upd_frame3 ?i (\<lambda>f. f\<lparr>f3_dirty := True, f3_data := fn (f3_data f)\<rparr>) ?q" "f3_readers (frames3 ?q ! ?i) = 0"
    using w by (simp_all add: guard_write3_def split: if_splits)
  have len: "length ?d = PAGE_SIZE" using d live(3) fn by (simp add: data_ok_def guard_read3_def)
  have other: "frames3 p ! j = frames3 ?q ! j" if "j \<noteq> ?i" for j using that by (simp add: p)
  have same: "f3_data (frames3 p ! ?i) = ?d" "f3_dirty (frames3 p ! ?i)" using live(3) by (simp_all add: p guard_read3_def)
  have "entry_data ?M ?C (frames3 p) pid (lookup3 hash pid ?q)" for pid
  proof (cases "pid = ?pid")
    case True
    then show ?thesis using live(6) same by (simp add: entry_data_def good_def)
  next
    case False
    have "j \<noteq> ?i" if "lookup3 hash pid ?q = Some (Ready3 j)" for j
    proof -
      have "f3_state (frames3 ?q ! j) = Valid3 pid"
        using sys that ready_at [of "ctl_of hash ?q (s3_guards s) ?ts"] by (simp add: sys_ok_def)
      then show ?thesis using live(4) False by auto
    qed
    moreover have "entry_data M ?C (frames3 ?q) pid (lookup3 hash pid ?q)" using d by (simp add: data_ok_def)
    moreover have "?M pid = M pid" using False by simp
    ultimately show ?thesis
      by (auto simp: entry_data_def good_def saved_def other split: option.splits entry3.splits)
  qed
  moreover have "thread_data ?M ?C (frames3 p) (?ts ! t)" if t: "t < length ?ts" for t
  proof -
    have T: "thread_data M ?C (frames3 ?q) (?ts ! t)" using d t by (simp add: data_ok_def)
    show ?thesis
    proof (cases "?i \<in> own_frames (?ts ! t)")
      case True
      then have fl: "flushing (?ts ! t)" using own_frame_state(2) [OF sys t] live(4) by fastforce
      then obtain q where "ro_valid (role_of (?ts ! t)) = Some (?i, q)"
        using True by (cases "?ts ! t") (auto simp: own_frames_def role_defs)
      moreover have "ro_reads (role_of (?ts ! t)) \<noteq> Some ?i" using readers_at [OF sys t] live(3) p(2) by auto
      ultimately show ?thesis using fl same by (cases "?ts ! t") (auto simp: role_defs)
    next
      case False
      then have "?pid \<notin> own_pages (?ts ! t)" using own_page_entry [OF sys t, of ?pid] live(6) by auto
      moreover have "j \<noteq> ?i" if "j \<in> own_frames (?ts ! t)" for j using False that by auto
      ultimately show ?thesis by (intro thread_data_frame [OF T]) (auto simp: other saved_def)
    qed
  qed
  moreover have "\<forall>f \<in> set (frames3 p). length (f3_data f) = PAGE_SIZE"
    using lens_update [OF d, of "(frames3 ?q ! ?i)\<lparr>f3_dirty := True, f3_data := ?d\<rparr>" ?i] len by (simp add: p guard_read3_def)
  ultimately show ?thesis using d by (simp add: data_ok_def p)
qed

lemma data_ok_start:
  assumes "data_ok content ok hash M p ts" "\<And>M C fs. thread_data M C fs pc"
  shows "data_ok content ok hash M p (ts[t := pc])"
proof -
  have "thread_data M (content (store3 p)) (frames3 p) (ts[t := pc] ! u)"
    if "u < length ts" for u using that assms by (cases "u = t") (auto simp: data_ok_def)
  then show ?thesis using assms(1) by (simp add: data_ok_def)
qed

context rewrite_store begin

lemma sys_step_data:
  assumes s: "sys_data content ok hash M s" and room: "length (s3_guards s) + length (s3_threads s) + 1 < 2 ^ 32"
    and ev: "event_ok3 ev"
  shows "\<exists>outs s'. sys_step3 rd wr hash ev s = Some (outs, s') \<and> outs_ok M outs \<and>
    sys_data content ok hash (fold effect outs M) s'"
proof -
  have ok3: "sys3_ok hash s" and sys: "sys_ok hash (s3_pool s) (s3_guards s) (s3_threads s)"
    and d: "data_ok content ok hash M (s3_pool s) (s3_threads s)"
    using s by (simp_all add: sys_data_def sys3_ok_def)
  have finish: ?thesis if st: "sys_step3 rd wr hash ev s = Some (outs, s')" "outs_ok M outs"
      "data_ok content ok hash (fold effect outs M) (s3_pool s') (s3_threads s')" for outs s'
    using that sys_step_ok(1) [OF ok3 room st(1)] by (auto simp: sys_data_def)
  note live = live_guard_at [OF ok3]
  show ?thesis
  proof (cases ev)
    case (StartFetch t pid mode)
    then show ?thesis using d by (intro finish [of "[]" "start3 t (FetchLookup pid mode) s"]) (auto simp: start3_def intro!: data_ok_start)
  next
    case (StartFlush t)
    then show ?thesis using d ev 
      by (intro finish [of "[]" "start3 t (FlushFrame 0) s"]) (auto simp: start3_def event_ok3_def intro!: data_ok_start)
  next
    case (Turn t)
    show ?thesis
    proof (cases "t < length (s3_threads s)")
      case True
      note step = thread_step_data [OF sys True d]
      show ?thesis
      proof (cases "thread_step3 rd wr hash (s3_threads s ! t) (s3_pool s)")
        case (Next pc r p)
        let ?o = "deliver3 r (s\<lparr>s3_pool := p, s3_threads := (s3_threads s)[t := pc]\<rparr>)"
        have "sys_step3 rd wr hash ev s = Some (fst ?o, snd ?o)" using Turn True Next by (simp add: turn3_def)
        then show ?thesis using step Next deliver_outs [of M r] by (intro finish [of "fst ?o" "snd ?o"]) auto
      next
        case Blocked
        then show ?thesis using Turn True d by (intro finish [of "[]" s]) (simp_all add: turn3_def)
      qed (use step in simp)
    next
      case False
      then show ?thesis using Turn d by (intro finish [of "[]" s]) (simp_all add: turn3_def)
    qed
  next
    case (GuardRead h)
    show ?thesis
    proof (cases "live_guard3 h s")
      case (Some g)
      have "good M (pg_page_id g) (guard_read3 g (s3_pool s))"
        using d live(6) [OF Some] by (auto simp: data_ok_def guard_read3_def entry_data_def dest!: spec [of _ "pg_page_id g"])
      then have "out_ok M (ReadGot (pg_page_id g) (guard_read3 g (s3_pool s)))"
        by (auto simp: good_def split: option.splits)
      then show ?thesis using GuardRead Some d by (intro finish) auto
    next
      case None
      then show ?thesis using GuardRead d by (intro finish [of "[NoGuard]" s]) simp_all
    qed
  next
    case (GuardWrite h fn)
    show ?thesis
    proof (cases "live_guard3 h s")
      case (Some g)
      have fn: "\<And>d. length d = PAGE_SIZE \<Longrightarrow> length (fn d) = PAGE_SIZE" using ev GuardWrite by (simp add: event_ok3_def)
      show ?thesis
      proof (cases "guard_write3 g fn (s3_pool s)")
        case (Some p)
        then show ?thesis
          using GuardWrite \<open>live_guard3 h s = Some g\<close> guard_write_data [OF s \<open>live_guard3 h s = Some g\<close> Some fn]
          by (intro finish) auto
      next
        case None
        then show ?thesis using GuardWrite Some d by (intro finish [of "[]" s]) simp_all
      qed
    next
      case None
      then show ?thesis using GuardWrite d by (intro finish [of "[NoGuard]" s]) simp_all
    qed
  next
    case (GuardDrop h)
    show ?thesis
    proof (cases "live_guard3 h s")
      case (Some g)
      have "0 < f3_pin (frames3 (s3_pool s) ! pg_frame g)" using live(5) [OF Some] by (simp add: word_less_nat_alt)
      then have "guard_drop3 g (s3_pool s) = Some (upd_frame3 (pg_frame g) sub_pin3 (s3_pool s))" by (simp add: guard_drop3_def)
      moreover have "data_ok content ok hash M (upd_frame3 (pg_frame g) sub_pin3 (s3_pool s)) (s3_threads s)"
      proof -
        have e: "entry_data M C (frames3 (upd_frame3 (pg_frame g) sub_pin3 (s3_pool s))) = entry_data M C (frames3 (s3_pool s))" for C
          by (auto simp: fun_eq_iff entry_data_def quiet_frame split: option.splits entry3.splits)
        have "thread_data M C (frames3 (upd_frame3 (pg_frame g) sub_pin3 (s3_pool s))) pc" if "thread_data M C (frames3 (s3_pool s)) pc" for C pc
          by (rule thread_data_frame [OF that]) (simp_all add: quiet_frame)
        moreover have "\<forall>f \<in> set (frames3 (upd_frame3 (pg_frame g) sub_pin3 (s3_pool s))). length (f3_data f) = PAGE_SIZE"
          using d live(3) [OF Some] lens_update [OF d, of "sub_pin3 (frames3 (s3_pool s) ! pg_frame g)" "pg_frame g"]
          by (simp add: data_ok_def)
        ultimately show ?thesis using d e by (simp add: data_ok_def)
      qed
      ultimately show ?thesis using GuardDrop Some by (intro finish) auto
    next
      case None
      then show ?thesis using GuardDrop d by (intro finish [of "[NoGuard]" s]) simp_all
    qed
  qed
qed

lemma sys_run_data:
  assumes "sys_data content ok hash M s" "length (s3_guards s) + length (s3_threads s) + length evs < 2 ^ 32"
    "\<forall>ev \<in> set evs. event_ok3 ev"
  shows "\<exists>outs s'. sys_run3 rd wr hash evs s = Some (outs, s') \<and> outs_ok M outs \<and>
    sys_data content ok hash (fold effect outs M) s'"
  using assms
proof (induction evs arbitrary: M s)
  case (Cons ev evs)
  then obtain o1 s1 where s1: "sys_step3 rd wr hash ev s = Some (o1, s1)" "outs_ok M o1"
    "sys_data content ok hash (fold effect o1 M) s1"
    using sys_step_data [of hash M s ev] by auto
  have "sys3_ok hash s" using Cons.prems(1) by (simp add: sys_data_def)
  note k = sys_step_ok(2,3) [OF this _ s1(1)]
  have "length (s3_guards s1) + length (s3_threads s1) + length evs < 2 ^ 32" using k Cons.prems(2) by simp
  then obtain o2 s2 where s2: "sys_run3 rd wr hash evs s1 = Some (o2, s2)" "outs_ok (fold effect o1 M) o2"
    "sys_data content ok hash (fold effect o2 (fold effect o1 M)) s2"
    using Cons.IH [OF s1(3)] Cons.prems(3) by auto
  then show ?case using s1 by (intro exI [of _ "o1 @ o2"] exI [of _ s2]) (simp add: outs_ok_append)
qed simp

lemma sys3_new_data:
  assumes "sys3_new capacity n st = Some s" "ok st"
  shows "sys_data content ok hash (\<lambda>pid. map_option masked (content st pid)) s"
proof -
  note new = sys3_new_ok [OF assms(1)]
  have "frames3 (s3_pool s) = replicate capacity frame3_empty"
    using assms(1) by (auto simp: sys3_new_def pool3_new_def split: if_splits)
  then show ?thesis
    using new assms(2) by (auto simp: sys_data_def data_ok_def entry_data_def saved_def frame3_empty_def)
qed

end

section \<open>No update is lost\<close>

text \<open>The bytes of a page when no load is under way: those in its frame, or else those in the store.\<close>

definition pool_view3 :: "('s \<Rightarrow> page_id \<Rightarrow> bytes option) \<Rightarrow> (page_id \<Rightarrow> u64) \<Rightarrow> 's pool3 \<Rightarrow> page_id \<Rightarrow> bytes option" where
  "pool_view3 content hash p pid = (case lookup3 hash pid p of
      Some (Ready3 i) \<Rightarrow> Some (masked (f3_data (frames3 p ! i)))
    | _ \<Rightarrow> map_option masked (content (store3 p) pid))"

lemma idle_view:
  assumes s: "sys_data content ok hash M s" and idle: "\<forall>t < length (s3_threads s). s3_threads s ! t = Idle"
  shows "view_le M (pool_view3 content hash (s3_pool s))"
  unfolding view_le_def
proof (intro allI impI)
  fix pid c assume M: "M pid = Some c"
  let ?p = "s3_pool s" and ?x = "ctl_of hash (s3_pool s) (s3_guards s) (s3_threads s)"
  have inv: "ctl_inv ?x" and e: "entry_data M (content (store3 ?p)) (frames3 ?p) pid (lookup3 hash pid ?p)"
    using s by (simp_all add: sys_data_def sys3_ok_def sys_ok_def data_ok_def)
  have "evicts ?x = {}"
    using inv idle by (auto simp: ctl_inv_def held_inv_def holds_def role_defs)
  then have "lookup3 hash pid ?p \<noteq> Some (EvictingEntry3 k)" for k by (auto simp: evicts_def)
  then show "pool_view3 content hash ?p pid = Some c"
    using e M by (auto simp: pool_view3_def entry_data_def good_def saved_def split: option.splits entry3.splits)
qed

text \<open>C2: whatever any number of threads do with version 3 of the pool over a \<^verbatim>\<open>DiskManager\<close>, in whatever order their steps
  interleave and however the file system fails, even if several of them call \<^verbatim>\<open>flush_all\<close> at once: no
  step panics and no update is lost. Every read through a guard returns the bytes last written to that page through any
  guard, or else the bytes on disk at the start, and once all threads are idle the pool still holds them.\<close>

theorem v3_no_lost_update:
  assumes "0 < capacity" "disk_ok d" "\<forall>ev \<in> set evs. event_ok3 ev" "n + length evs < 2 ^ 32"
  shows "\<exists>s outs s'. sys3_new capacity n d = Some s \<and>
    sys_run3 (disk_read_page crc) (disk_write_page crc) hash evs s = Some (outs, s') \<and> outs_ok (disk_view crc d) outs \<and>
    ((\<forall>t < n. s3_threads s' ! t = Idle) \<longrightarrow>
      view_le (fold effect outs (disk_view crc d)) (pool_view3 (stored_page crc) hash (s3_pool s')))"
proof -
  obtain s where s: "sys3_new capacity n d = Some s" using assms(1) by (simp add: sys3_new_def pool3_new_def)
  note new = sys3_new_ok [OF s]
  have "(\<lambda>pid. map_option masked (stored_page crc d pid)) = disk_view crc d" by (simp add: disk_view_def fun_eq_iff)
  then have "sys_data (stored_page crc) disk_ok hash (disk_view crc d) s"
    using rwdm.sys3_new_data [OF s assms(2), of crc hash] by simp
  then obtain outs s' where r: "sys_run3 (disk_read_page crc) (disk_write_page crc) hash evs s = Some (outs, s')"
    "outs_ok (disk_view crc d) outs" "sys_data (stored_page crc) disk_ok hash (fold effect outs (disk_view crc d)) s'"
    using rwdm.sys_run_data [of crc hash "disk_view crc d" s evs] assms(3,4) new(2,3) by auto
  have "length (s3_threads s') = n"
    using sys_run_ok(2) [OF new(1) _ r(1)] assms(4) new(2,3) by simp
  then show ?thesis using s r idle_view [OF r(3)] by auto
qed

text \<open>Two threads on one frame, with a torn write; both flush.\<close>

definition sample_run_events3 :: "event3 list" where
  "sample_run_events3 = [StartFetch 0 \<lparr>relation_id = 1, page_no = 0\<rparr> Normal, StartFetch 1 \<lparr>relation_id = 1, page_no = 1\<rparr> Normal] @
     concat (replicate 14 [Turn 0, Turn 1]) @ [GuardWrite 0 (\<lambda>d. replicate PAGE_SIZE 9), GuardDrop 0, StartFlush 0, StartFlush 1, Turn 0] @
     concat (replicate 14 [Turn 1, Turn 0]) @ [GuardRead 0, GuardRead 1]"

theorem v3_no_lost_update_witness:
  "\<exists>d s outs s'. stored_page (\<lambda>_. 5) d \<lparr>relation_id = 1, page_no = 0\<rparr> = Some (seal_page (\<lambda>_. 5) (replicate PAGE_SIZE 7)) \<and>
     os_faults (disk_os d) = [None, Some 9] \<and> sys3_new 1 2 d = Some s \<and>
     sys_run3 (disk_read_page (\<lambda>_. 5)) (disk_write_page (\<lambda>_. 5)) (\<lambda>_. 7) sample_run_events3 s = Some (outs, s') \<and>
     outs_ok (disk_view (\<lambda>_. 5) d) outs"
proof -
  obtain d where d: "stored_page (\<lambda>_. 5) d \<lparr>relation_id = 1, page_no = 0\<rparr> = Some (seal_page (\<lambda>_. 5) (replicate PAGE_SIZE 7))"
    "os_faults (disk_os d) = [None, Some 9]" "disk_ok d"
    using sevens_disk by blast
  have e: "\<forall>ev \<in> set sample_run_events3. event_ok3 ev" by (auto simp: sample_run_events3_def event_ok3_def)
  have "2 + length sample_run_events3 < 2 ^ 32" by (simp add: sample_run_events3_def length_concat sum_list_replicate)
  from v3_no_lost_update [OF _ d(3) e this, of 1 "\<lambda>_. 5" "\<lambda>_. 7"] d(1,2) show ?thesis by fastforce
qed

end
