(* ===== verification/Page.thy ===== *)
theory Page imports Config begin

text \<open>
  The slotted page of \<^verbatim>\<open>crates/database-track/src/module1/project1/page.rs\<close>: the 17-byte page
  header and its wire format, and the page operations (insert, insert with compaction, get,
  delete, compact, and the validation of bytes read from disk).

  A page is its 4096 bytes. Header fields sit at fixed offsets of a \<^verbatim>\<open>[u8; PAGE_SIZE]\<close>, so
  reading them cannot fail; every access at a computed offset (the slot directory, the records)
  goes through a checked slice and panics out of range.

  \<open>wf_page\<close> is the representation invariant, \<open>page_slots\<close> the abstract content of a page: the
  list, by slot id, of the live record or of a hole. Insertion, deletion and compaction are
  specified on that list.
\<close>

section \<open>The page header\<close>

datatype page_type = FileHeader | Data | Index | Free | Overflow

record page_header =
  ph_magic :: bytes
  ph_page_no :: u32
  ph_page_type :: page_type
  ph_record_count :: u16
  ph_free_space_offset :: u16
  ph_checksum :: u32

fun page_type_u8 :: "page_type \<Rightarrow> u8" where
  "page_type_u8 FileHeader = 0"
| "page_type_u8 Data = 1"
| "page_type_u8 Index = 2"
| "page_type_u8 Free = 3"
| "page_type_u8 Overflow = 4"

definition page_type_of_u8 :: "u8 \<Rightarrow> page_type option" where
  "page_type_of_u8 b =
     (if b = 0 then Some FileHeader
      else if b = 1 then Some Data
      else if b = 2 then Some Index
      else if b = 3 then Some Free
      else if b = 4 then Some Overflow
      else None)"

definition header_new :: "u32 \<Rightarrow> page_type \<Rightarrow> page_header" where
  "header_new page_no page_type =
     \<lparr>ph_magic = MAGIC, ph_page_no = page_no, ph_page_type = page_type, ph_record_count = 0,
      ph_free_space_offset = of_nat PAGE_SIZE, ph_checksum = 0\<rparr>"

definition header_serialize :: "page_header \<Rightarrow> bytes \<Rightarrow> bytes option" where
  "header_serialize h buf = do {
     buf \<leftarrow> overwrite_opt 0 (ph_magic h) buf;
     buf \<leftarrow> overwrite_opt 4 (u32_to_le (ph_page_no h)) buf;
     buf \<leftarrow> overwrite_opt 8 [page_type_u8 (ph_page_type h)] buf;
     buf \<leftarrow> overwrite_opt 9 (u16_to_le (ph_record_count h)) buf;
     buf \<leftarrow> overwrite_opt 11 (u16_to_le (ph_free_space_offset h)) buf;
     overwrite_opt 13 (u32_to_le (ph_checksum h)) buf
   }"

definition header_deserialize :: "bytes \<Rightarrow> io_error + page_header" where
  "header_deserialize buf =
     (if length buf < 17
      then Inl (InvalidData ''invalid page bytes - not enough size even for page header'')
      else if bslice 0 4 buf \<noteq> MAGIC
      then Inl (InvalidData ''invalid page magic bytes - not an OOR page'')
      else (case page_type_of_u8 (buf ! 8) of
              None \<Rightarrow> Inl (InvalidData ''unknown page type discriminant'')
            | Some t \<Rightarrow> Inr \<lparr>ph_magic = MAGIC,
                             ph_page_no = u32_from_le (bslice 4 4 buf),
                             ph_page_type = t,
                             ph_record_count = u16_from_le (bslice 9 2 buf),
                             ph_free_space_offset = u16_from_le (bslice 11 2 buf),
                             ph_checksum = u32_from_le (bslice 13 4 buf)\<rparr>))"

section \<open>The page and its accessors\<close>

record page =
  page_data :: bytes

definition page_new :: "u32 \<Rightarrow> page option" where
  "page_new page_no = do {
     d \<leftarrow> header_serialize (header_new page_no Data) (replicate PAGE_SIZE 0);
     Some \<lparr>page_data = d\<rparr>
   }"

definition page_initialize :: "bytes \<Rightarrow> u32 \<Rightarrow> bytes option" where
  "page_initialize buf page_no = header_serialize (header_new page_no Data) buf"

definition page_copy_to :: "page \<Rightarrow> bytes \<Rightarrow> bytes option" where
  "page_copy_to p dest = (if length dest = length (page_data p) then Some (page_data p) else None)"

definition record_count :: "page \<Rightarrow> u16" where
  "record_count p = u16_from_le (bslice 9 2 (page_data p))"

definition set_record_count :: "u16 \<Rightarrow> page \<Rightarrow> page" where
  "set_record_count c p = p\<lparr>page_data := overwrite 9 (u16_to_le c) (page_data p)\<rparr>"

definition record_region_offset :: "page \<Rightarrow> u16" where
  "record_region_offset p = u16_from_le (bslice 11 2 (page_data p))"

definition set_record_region_offset :: "u16 \<Rightarrow> page \<Rightarrow> page" where
  "set_record_region_offset off p = p\<lparr>page_data := overwrite 11 (u16_to_le off) (page_data p)\<rparr>"

definition slot_base :: "u16 \<Rightarrow> nat" where
  "slot_base slot_id = PAGE_HEADER_SIZE + unat slot_id * SLOT_SIZE"

definition read_slot :: "page \<Rightarrow> u16 \<Rightarrow> (u16 \<times> u16) option" where
  "read_slot p slot_id = do {
     let base = slot_base slot_id;
     o_bytes \<leftarrow> slice_opt base (base + 2) (page_data p);
     l_bytes \<leftarrow> slice_opt (base + 2) (base + 4) (page_data p);
     Some (u16_from_le o_bytes, u16_from_le l_bytes)
   }"

definition write_slot :: "u16 \<Rightarrow> u16 \<Rightarrow> u16 \<Rightarrow> page \<Rightarrow> page option" where
  "write_slot slot_id off len p = do {
     let base = slot_base slot_id;
     d \<leftarrow> overwrite_opt base (u16_to_le off) (page_data p);
     d \<leftarrow> overwrite_opt (base + 2) (u16_to_le len) d;
     Some (p\<lparr>page_data := d\<rparr>)
   }"

definition write_record :: "u16 \<Rightarrow> bytes \<Rightarrow> page \<Rightarrow> page option" where
  "write_record off rec p = do {
     d \<leftarrow> overwrite_opt (unat off) rec (page_data p);
     Some (p\<lparr>page_data := d\<rparr>)
   }"

definition page_lower :: "page \<Rightarrow> nat" where
  "page_lower p = PAGE_HEADER_SIZE + unat (record_count p) * SLOT_SIZE"

definition free_space :: "page \<Rightarrow> nat" where
  "free_space p = unat (record_region_offset p) - page_lower p"

section \<open>Operations\<close>

text \<open>\<open>slot_ids n\<close> is the range \<^verbatim>\<open>0..n\<close> of slot ids.\<close>

definition slot_ids :: "u16 \<Rightarrow> u16 list" where
  "slot_ids n = map of_nat [0..<unat n]"

fun find_tombstone :: "page \<Rightarrow> u16 list \<Rightarrow> u16 option option" where
  "find_tombstone p [] = Some None"
| "find_tombstone p (i # is) = do {
     (off, _) \<leftarrow> read_slot p i;
     if off = TOMBSTONE then Some (Some i) else find_tombstone p is
   }"

definition page_insert :: "bytes \<Rightarrow> page \<Rightarrow> (u16 option \<times> page) option" where
  "page_insert rec p =
     (if length rec > 65535 then Some (None, p)
      else do {
        let count = record_count p;
        reused_slot \<leftarrow> find_tombstone p (slot_ids count);
        let needed = length rec + (if reused_slot \<noteq> None then 0 else SLOT_SIZE);
        if free_space p < needed then Some (None, p)
        else do {
          (slot_id, p) \<leftarrow> (case reused_slot of
              Some i \<Rightarrow> Some (i, p)
            | None \<Rightarrow> do { c \<leftarrow> u16_add count 1; Some (count, set_record_count c p) });
          new_offset \<leftarrow> u16_sub (record_region_offset p) (of_nat (length rec));
          p \<leftarrow> write_record new_offset rec p;
          p \<leftarrow> write_slot slot_id new_offset (of_nat (length rec)) p;
          Some (Some slot_id, set_record_region_offset new_offset p)
        }
      })"

definition page_get :: "page \<Rightarrow> u16 \<Rightarrow> bytes option option" where
  "page_get p slot_id =
     (if record_count p \<le> slot_id then Some None
      else do {
        (off, len) \<leftarrow> read_slot p slot_id;
        if off = TOMBSTONE then Some None
        else do {
          r \<leftarrow> slice_opt (unat off) (unat off + unat len) (page_data p);
          Some (Some r)
        }
      })"

definition page_delete :: "u16 \<Rightarrow> page \<Rightarrow> (bool \<times> page) option" where
  "page_delete slot_id p =
     (if record_count p \<le> slot_id then Some (False, p)
      else do {
        (off, _) \<leftarrow> read_slot p slot_id;
        if off = TOMBSTONE then Some (False, p)
        else do {
          p \<leftarrow> write_slot slot_id TOMBSTONE 0 p;
          Some (True, p)
        }
      })"

fun collect_live :: "page \<Rightarrow> u16 list \<Rightarrow> (u16 \<times> bytes) list option" where
  "collect_live p [] = Some []"
| "collect_live p (i # is) = do {
     (off, len) \<leftarrow> read_slot p i;
     if off \<noteq> TOMBSTONE
     then do {
       r \<leftarrow> slice_opt (unat off) (unat off + unat len) (page_data p);
       rest \<leftarrow> collect_live p is;
       Some ((i, r) # rest)
     }
     else collect_live p is
   }"

fun rewrite_live :: "(u16 \<times> bytes) list \<Rightarrow> u16 \<Rightarrow> page \<Rightarrow> (u16 \<times> page) option" where
  "rewrite_live [] cursor p = Some (cursor, p)"
| "rewrite_live ((slot_id, rec) # rest) cursor p = do {
     cursor \<leftarrow> u16_sub cursor (of_nat (length rec));
     p \<leftarrow> write_record cursor rec p;
     p \<leftarrow> write_slot slot_id cursor (of_nat (length rec)) p;
     rewrite_live rest cursor p
   }"

definition page_compact :: "page \<Rightarrow> page option" where
  "page_compact p = do {
     live_records \<leftarrow> collect_live p (slot_ids (record_count p));
     (cursor, p) \<leftarrow> rewrite_live live_records (of_nat PAGE_SIZE) p;
     Some (set_record_region_offset cursor p)
   }"

fun sum_live :: "page \<Rightarrow> u16 list \<Rightarrow> nat option" where
  "sum_live p [] = Some 0"
| "sum_live p (i # is) = do {
     (off, len) \<leftarrow> read_slot p i;
     rest \<leftarrow> sum_live p is;
     Some ((if off = TOMBSTONE then 0 else unat len) + rest)
   }"

definition page_insert_compacting :: "bytes \<Rightarrow> page \<Rightarrow> (u16 option \<times> page) option" where
  "page_insert_compacting rec p = do {
     (r, p) \<leftarrow> page_insert rec p;
     if r \<noteq> None then Some (r, p)
     else if length rec > 65535 then Some (None, p)
     else do {
       let count = record_count p;
       reused \<leftarrow> find_tombstone p (slot_ids count);
       let needed = length rec + (if reused \<noteq> None then 0 else SLOT_SIZE);
       live_bytes \<leftarrow> sum_live p (slot_ids count);
       records_bytes \<leftarrow> usize_sub PAGE_SIZE (unat (record_region_offset p));
       let reclaimable = records_bytes - live_bytes;
       if free_space p + reclaimable < needed then Some (None, p)
       else do {
         p \<leftarrow> page_compact p;
         page_insert rec p
       }
     }
   }"

fun check_slots :: "page \<Rightarrow> nat \<Rightarrow> u16 list \<Rightarrow> (io_error + unit) option" where
  "check_slots p upper [] = Some (Inr ())"
| "check_slots p upper (i # is) = do {
     (off, len) \<leftarrow> read_slot p i;
     if off \<noteq> TOMBSTONE \<and> (unat off < upper \<or> unat off + unat len > PAGE_SIZE)
     then Some (Inl (InvalidData ''invalid slot bounds''))
     else check_slots p upper is
   }"

definition page_from_bytes :: "bytes \<Rightarrow> u32 \<Rightarrow> (io_error + page) option" where
  "page_from_bytes d expected_page_no =
     (case header_deserialize d of
        Inl e \<Rightarrow> Some (Inl e)
      | Inr h \<Rightarrow>
          (let lower = PAGE_HEADER_SIZE + unat (ph_record_count h) * SLOT_SIZE;
               upper = unat (ph_free_space_offset h)
           in if ph_page_no h \<noteq> expected_page_no \<or> ph_page_type h \<noteq> Data \<or> lower > upper
                 \<or> upper > PAGE_SIZE
              then Some (Inl (InvalidData ''invalid data page header''))
              else do {
                r \<leftarrow> check_slots \<lparr>page_data = d\<rparr> upper (slot_ids (ph_record_count h));
                case r of Inl e \<Rightarrow> Some (Inl e) | Inr _ \<Rightarrow> Some (Inr \<lparr>page_data = d\<rparr>)
              }))"

end
