(* ===== verification/Page_Correct.thy ===== *)
theory Page_Correct imports Page begin

text \<open>
  Correctness of the slotted page (\<^verbatim>\<open>project1/page.rs\<close>).

  \<open>page_slots p\<close> is the abstract content of a page: by slot id, the live record or a hole. The
  operations are specified on that list: \<open>slots_insert\<close> fills the first hole or appends,
  deletion makes a hole, compaction changes nothing. \<open>wf_page\<close> is the representation invariant:
  the directory ends below the record region, every live slot lies inside the region, and the live
  records together fit in it, which is what compaction relies on.
\<close>

section \<open>Abstraction and invariant\<close>

definition slot_entry :: "page \<Rightarrow> u16 \<Rightarrow> u16 \<times> u16" where
  "slot_entry p i = (u16_from_le (bslice (slot_base i) 2 (page_data p)),
                     u16_from_le (bslice (slot_base i + 2) 2 (page_data p)))"

definition slot_live :: "page \<Rightarrow> u16 \<Rightarrow> bool" where
  "slot_live p i \<longleftrightarrow> fst (slot_entry p i) \<noteq> TOMBSTONE"

definition slot_record :: "page \<Rightarrow> u16 \<Rightarrow> bytes" where
  "slot_record p i =
     bslice (unat (fst (slot_entry p i))) (unat (snd (slot_entry p i))) (page_data p)"

definition slot_content :: "page \<Rightarrow> u16 \<Rightarrow> bytes option" where
  "slot_content p i = (if slot_live p i then Some (slot_record p i) else None)"

definition page_slots :: "page \<Rightarrow> bytes option list" where
  "page_slots p = map (slot_content p) (slot_ids (record_count p))"

definition live_bytes :: "page \<Rightarrow> nat" where
  "live_bytes p =
     (\<Sum>i \<leftarrow> slot_ids (record_count p). if slot_live p i then unat (snd (slot_entry p i)) else 0)"

definition slots_in_region :: "page \<Rightarrow> bool" where
  "slots_in_region p \<longleftrightarrow>
     (\<forall>i < record_count p. slot_live p i \<longrightarrow>
        unat (record_region_offset p) \<le> unat (fst (slot_entry p i)) \<and>
        unat (fst (slot_entry p i)) + unat (snd (slot_entry p i)) \<le> PAGE_SIZE)"

definition page_bounds :: "page \<Rightarrow> bool" where
  "page_bounds p \<longleftrightarrow> length (page_data p) = PAGE_SIZE \<and>
     page_lower p \<le> unat (record_region_offset p) \<and>
     unat (record_region_offset p) \<le> PAGE_SIZE"

definition wf_page :: "page \<Rightarrow> bool" where
  "wf_page p \<longleftrightarrow> page_bounds p \<and> slots_in_region p \<and>
     unat (record_region_offset p) + live_bytes p \<le> PAGE_SIZE"

definition hole_index :: "'a option list \<Rightarrow> nat" where
  "hole_index xs = length (takeWhile (\<lambda>x. x \<noteq> None) xs)"

definition slots_insert :: "'a \<Rightarrow> 'a option list \<Rightarrow> 'a option list" where
  "slots_insert r xs =
     (if hole_index xs < length xs then xs[hole_index xs := Some r] else xs @ [Some r])"

definition slot_need :: "'a option list \<Rightarrow> nat" where
  "slot_need xs = (if None \<in> set xs then 0 else SLOT_SIZE)"

definition slots_bytes :: "bytes option list \<Rightarrow> nat" where
  "slots_bytes xs = (\<Sum>x \<leftarrow> xs. case x of None \<Rightarrow> 0 | Some r \<Rightarrow> length r)"

section \<open>Slot ids and holes\<close>

lemma set_slot_ids: "set (slot_ids n) = {i. i < n}"
proof -
  have "i \<in> of_nat ` {0..<unat n}" if "i < n" for i :: u16
    using that by (intro image_eqI [where x = "unat i"]) (auto simp: word_less_nat_alt)
  moreover have "of_nat k < n" if "k < unat n" for k
    using that unat_u16_less [of n] by (simp add: word_less_nat_alt unat_of_nat)
  ultimately show ?thesis by (auto simp: slot_ids_def)
qed

lemma length_slot_ids [simp]: "length (slot_ids n) = unat n"
  by (simp add: slot_ids_def)

lemma nth_slot_ids: "k < unat n \<Longrightarrow> slot_ids n ! k = of_nat k"
  by (simp add: slot_ids_def)

lemma distinct_slot_ids: "distinct (slot_ids n)"
proof -
  have "inj_on (of_nat :: nat \<Rightarrow> u16) {0..<unat n}"
  proof (rule inj_onI)
    fix x y assume "x \<in> {0..<unat n}" "y \<in> {0..<unat n}" and e: "(of_nat x :: u16) = of_nat y"
    then have "x < 65536" "y < 65536" using unat_u16_less [of n] by (simp_all only: atLeastLessThan_iff) linarith+
    then show "x = y" using arg_cong [OF e, of unat] by (simp add: unat_of_nat)
  qed
  then show ?thesis by (simp add: slot_ids_def distinct_map)
qed

lemma slot_ids_Suc: "unat n + 1 < 65536 \<Longrightarrow> slot_ids (n + 1) = slot_ids n @ [n]"
  by (simp add: slot_ids_def unat_word_ariths)

lemma slot_idsD: "i \<in> set (slot_ids n) \<Longrightarrow> i < n"
  by (simp add: set_slot_ids)

lemma find_takeWhile:
  "List.find P xs = (let k = length (takeWhile (\<lambda>x. \<not> P x) xs)
                     in if k < length xs then Some (xs ! k) else None)"
  by (induction xs) (auto simp: Let_def)

lemma hole_index_le [simp]: "hole_index xs \<le> length xs"
  by (simp add: hole_index_def length_takeWhile_le)

lemma hole_index_iff: "hole_index xs < length xs \<longleftrightarrow> None \<in> set xs"
  unfolding hole_index_def by (induction xs) auto

lemma nth_hole_index: "hole_index xs < length xs \<Longrightarrow> xs ! hole_index xs = None"
  unfolding hole_index_def using nth_length_takeWhile by blast

lemma slots_bytes_append [simp]: "slots_bytes (xs @ ys) = slots_bytes xs + slots_bytes ys"
  by (simp add: slots_bytes_def)

lemma slots_bytes_update:
  "k < length xs \<Longrightarrow> xs ! k = None \<Longrightarrow>
   slots_bytes (xs[k := Some r]) = slots_bytes xs + length r"
  unfolding slots_bytes_def by (induction xs arbitrary: k) (auto split: nat.splits simp: nth_Cons)

lemma slots_bytes_clear:
  "k < length xs \<Longrightarrow> slots_bytes (xs[k := None]) \<le> slots_bytes xs"
  unfolding slots_bytes_def by (induction xs arbitrary: k) (auto split: nat.splits)

lemma slots_bytes_insert: "slots_bytes (slots_insert r xs) = slots_bytes xs + length r"
  by (simp add: slots_insert_def slots_bytes_update nth_hole_index) (simp add: slots_bytes_def)

section \<open>Reading back what was written\<close>

lemma slot_base_ge: "17 \<le> slot_base i"
  by (simp add: slot_base_def page_consts)

lemma slot_base_disjoint: "i \<noteq> j \<Longrightarrow> slot_base i + 4 \<le> slot_base j \<or> slot_base j + 4 \<le> slot_base i"
  by (cases i j rule: linorder_cases)
     (auto simp: slot_base_def page_consts word_less_nat_alt)

lemma slot_base_lower: "i < record_count p \<Longrightarrow> slot_base i + 4 \<le> page_lower p"
  by (auto simp: slot_base_def page_lower_def page_consts word_less_nat_alt)

lemma read_slot_eq:
  "slot_base i + 4 \<le> length (page_data p) \<Longrightarrow> read_slot p i = Some (slot_entry p i)"
  by (simp add: read_slot_def slice_opt_def slot_entry_def Let_def)

definition put_slot :: "u16 \<Rightarrow> u16 \<Rightarrow> u16 \<Rightarrow> page \<Rightarrow> page" where
  "put_slot i off len p =
     p\<lparr>page_data := overwrite (slot_base i + 2) (u16_to_le len)
                     (overwrite (slot_base i) (u16_to_le off) (page_data p))\<rparr>"

definition put_record :: "u16 \<Rightarrow> bytes \<Rightarrow> page \<Rightarrow> page" where
  "put_record off rec p = p\<lparr>page_data := overwrite (unat off) rec (page_data p)\<rparr>"

lemma write_slot_eq:
  "slot_base i + 4 \<le> length (page_data p) \<Longrightarrow> write_slot i off len p = Some (put_slot i off len p)"
  by (simp add: write_slot_def overwrite_opt_def put_slot_def Let_def)

lemma write_record_eq:
  "unat off + length rec \<le> length (page_data p) \<Longrightarrow>
   write_record off rec p = Some (put_record off rec p)"
  by (simp add: write_record_def overwrite_opt_def put_record_def)

lemma put_slot_frame:
  assumes "slot_base i + 4 \<le> length (page_data p)"
  shows "length (page_data (put_slot i off len p)) = length (page_data p)"
    and "record_count (put_slot i off len p) = record_count p"
    and "record_region_offset (put_slot i off len p) = record_region_offset p"
    and "slot_entry (put_slot i off len p) i = (off, len)"
    and "j \<noteq> i \<Longrightarrow> slot_entry (put_slot i off len p) j = slot_entry p j"
    and "slot_base i + 4 \<le> a \<Longrightarrow> bslice a n (page_data (put_slot i off len p)) = bslice a n (page_data p)"
    and "bslice 0 9 (page_data (put_slot i off len p)) = bslice 0 9 (page_data p)"
proof -
  note b = slot_base_ge [of i]
  show "length (page_data (put_slot i off len p)) = length (page_data p)"
    using assms by (simp add: put_slot_def)
  show "record_count (put_slot i off len p) = record_count p"
    using assms b by (simp add: put_slot_def record_count_def slice_overwrite_below)
  show "record_region_offset (put_slot i off len p) = record_region_offset p"
    using assms b by (simp add: put_slot_def record_region_offset_def slice_overwrite_below)
  show "slot_entry (put_slot i off len p) i = (off, len)"
    using assms by (simp add: put_slot_def slot_entry_def slice_overwrite_below slice_overwrite_same)
  show "slot_entry (put_slot i off len p) j = slot_entry p j" if "j \<noteq> i"
    using slot_base_disjoint [OF that] assms
    by (auto simp: put_slot_def slot_entry_def slice_overwrite_disjoint)
  show "bslice a n (page_data (put_slot i off len p)) = bslice a n (page_data p)"
    if "slot_base i + 4 \<le> a"
    using that assms by (simp add: put_slot_def slice_overwrite_above)
  show "bslice 0 9 (page_data (put_slot i off len p)) = bslice 0 9 (page_data p)"
    using assms b by (simp add: put_slot_def slice_overwrite_below)
qed

lemma put_record_frame:
  assumes "unat off + length rec \<le> length (page_data p)" "17 \<le> unat off"
  shows "length (page_data (put_record off rec p)) = length (page_data p)"
    and "record_count (put_record off rec p) = record_count p"
    and "record_region_offset (put_record off rec p) = record_region_offset p"
    and "slot_base j + 4 \<le> unat off \<Longrightarrow> slot_entry (put_record off rec p) j = slot_entry p j"
    and "bslice (unat off) (length rec) (page_data (put_record off rec p)) = rec"
    and "a + n \<le> unat off \<or> unat off + length rec \<le> a \<Longrightarrow>
         bslice a n (page_data (put_record off rec p)) = bslice a n (page_data p)"
  using assms
  by (auto simp: put_record_def record_count_def record_region_offset_def slot_entry_def
      slice_overwrite_below slice_overwrite_same slice_overwrite_disjoint)

lemma set_count_frame:
  assumes "17 \<le> length (page_data p)"
  shows "length (page_data (set_record_count c p)) = length (page_data p)"
    and "record_count (set_record_count c p) = c"
    and "record_region_offset (set_record_count c p) = record_region_offset p"
    and "slot_entry (set_record_count c p) j = slot_entry p j"
    and "17 \<le> a \<Longrightarrow> bslice a n (page_data (set_record_count c p)) = bslice a n (page_data p)"
    and "bslice 0 9 (page_data (set_record_count c p)) = bslice 0 9 (page_data p)"
  using assms slot_base_ge [of j]
  by (simp_all add: set_record_count_def record_count_def record_region_offset_def slot_entry_def
      slice_overwrite_same slice_overwrite_above slice_overwrite_below)

lemma set_region_frame:
  assumes "17 \<le> length (page_data p)"
  shows "length (page_data (set_record_region_offset c p)) = length (page_data p)"
    and "record_count (set_record_region_offset c p) = record_count p"
    and "record_region_offset (set_record_region_offset c p) = c"
    and "slot_entry (set_record_region_offset c p) j = slot_entry p j"
    and "17 \<le> a \<Longrightarrow> bslice a n (page_data (set_record_region_offset c p)) = bslice a n (page_data p)"
    and "bslice 0 9 (page_data (set_record_region_offset c p)) = bslice 0 9 (page_data p)"
  using assms slot_base_ge [of j]
  by (simp_all add: set_record_region_offset_def record_count_def record_region_offset_def
      slot_entry_def slice_overwrite_same slice_overwrite_above slice_overwrite_below)

lemmas page_frames = put_slot_frame put_record_frame set_count_frame set_region_frame

section \<open>Directory scans and the abstract slot list\<close>

lemma slot_in_page:
  "page_bounds p \<Longrightarrow> i < record_count p \<Longrightarrow> slot_base i + 4 \<le> length (page_data p)"
  using slot_base_lower [of i p] by (auto simp: page_bounds_def)

lemma find_tombstone_eq:
  "(\<forall>i \<in> set is. slot_base i + 4 \<le> length (page_data p)) \<Longrightarrow>
   find_tombstone p is = Some (List.find (\<lambda>i. \<not> slot_live p i) is)"
  by (induction "is") (auto simp: read_slot_eq slot_live_def split: prod.splits)

lemma slot_content_None: "slot_content p i \<noteq> None \<longleftrightarrow> slot_live p i"
  by (simp add: slot_content_def)

lemma length_page_slots [simp]: "length (page_slots p) = unat (record_count p)"
  by (simp add: page_slots_def)

lemma nth_page_slots: "i < record_count p \<Longrightarrow> page_slots p ! unat i = slot_content p i"
  by (simp add: page_slots_def nth_slot_ids word_less_nat_alt)

lemma hole_index_slots:
  "hole_index (page_slots p) = length (takeWhile (slot_live p) (slot_ids (record_count p)))"
  by (simp add: hole_index_def page_slots_def takeWhile_map comp_def slot_content_None
      del: not_None_eq)

lemma find_tombstone_hole:
  assumes "page_bounds p"
  shows "find_tombstone p (slot_ids (record_count p)) =
    Some (if None \<in> set (page_slots p) then Some (of_nat (hole_index (page_slots p))) else None)"
proof -
  have "find_tombstone p (slot_ids (record_count p)) =
      Some (List.find (\<lambda>i. \<not> slot_live p i) (slot_ids (record_count p)))"
    using assms by (intro find_tombstone_eq) (auto simp: set_slot_ids slot_in_page)
  also have "List.find (\<lambda>i. \<not> slot_live p i) (slot_ids (record_count p)) =
      (if hole_index (page_slots p) < length (page_slots p)
       then Some (slot_ids (record_count p) ! hole_index (page_slots p)) else None)"
    by (subst find_takeWhile) (simp add: hole_index_slots Let_def)
  finally show ?thesis by (auto simp: hole_index_iff [symmetric] nth_slot_ids)
qed

lemma page_slots_update:
  assumes "record_count p' = record_count p" "s < record_count p" "slot_content p' s = x"
    and "\<And>j. j < record_count p \<Longrightarrow> j \<noteq> s \<Longrightarrow> slot_content p' j = slot_content p j"
  shows "page_slots p' = (page_slots p)[unat s := x]"
proof (rule nth_equalityI)
  show "length (page_slots p') = length ((page_slots p)[unat s := x])" using assms(1) by simp
next
  fix k assume "k < length (page_slots p')"
  then have k: "k < unat (record_count p)" using assms(1) by simp
  define j :: u16 where "j = of_nat k"
  have "k < 65536" using k unat_u16_less [of "record_count p"] by linarith
  then have kj: "k = unat j" by (simp add: j_def unat_of_nat)
  with k have "j < record_count p" by (simp add: word_less_nat_alt)
  then have "page_slots p' ! unat j = slot_content p' j" "page_slots p ! unat j = slot_content p j"
    using assms(1) by (simp_all add: nth_page_slots)
  then show "page_slots p' ! k = (page_slots p)[unat s := x] ! k"
    using k assms(3) assms(4) [of j] \<open>j < record_count p\<close>
    by (cases "j = s") (simp_all add: kj unat_inj_iff nth_list_update)
qed

lemma page_slots_snoc:
  assumes "record_count p' = record_count p + 1" "unat (record_count p) + 1 < 65536"
    and "slot_content p' (record_count p) = x"
    and "\<And>j. j < record_count p \<Longrightarrow> slot_content p' j = slot_content p j"
  shows "page_slots p' = page_slots p @ [x]"
  using assms by (auto simp: page_slots_def slot_ids_Suc dest!: slot_idsD)

lemma length_slot_record:
  "page_bounds p \<Longrightarrow> slots_in_region p \<Longrightarrow> i < record_count p \<Longrightarrow> slot_live p i \<Longrightarrow>
   length (slot_record p i) = unat (snd (slot_entry p i))"
  by (auto simp: slot_record_def slots_in_region_def page_bounds_def)

lemma live_bytes_slots:
  assumes "page_bounds p" "slots_in_region p"
  shows "live_bytes p = slots_bytes (page_slots p)"
  unfolding live_bytes_def slots_bytes_def page_slots_def map_map
  using assms by (intro arg_cong [where f = sum_list] map_cong refl)
     (auto simp: slot_content_def length_slot_record dest!: slot_idsD)

lemma wf_page_slots:
  "wf_page p \<longleftrightarrow> page_bounds p \<and> slots_in_region p \<and>
     unat (record_region_offset p) + slots_bytes (page_slots p) \<le> PAGE_SIZE"
  using live_bytes_slots by (auto simp: wf_page_def)

section \<open>Placing one record\<close>

definition place_record :: "u16 \<Rightarrow> bytes \<Rightarrow> page \<Rightarrow> page" where
  "place_record s rec p =
     (let off = record_region_offset p - of_nat (length rec)
      in set_record_region_offset off
           (put_slot s off (of_nat (length rec)) (put_record off rec p)))"

lemma unat_sub_le: "b \<le> a \<Longrightarrow> unat (a - b) = unat a - unat b" for a b :: u16
  by (simp add: unat_sub)

lemma place_record_frame:
  assumes len: "length (page_data p) = PAGE_SIZE" and top: "unat (record_region_offset p) \<le> PAGE_SIZE"
    and room: "slot_base s + 4 + length rec \<le> unat (record_region_offset p)"
  defines "q \<equiv> place_record s rec p"
  shows "length (page_data q) = PAGE_SIZE"
    and "record_count q = record_count p"
    and "unat (record_region_offset q) = unat (record_region_offset p) - length rec"
    and "slot_entry q s = (record_region_offset q, of_nat (length rec))"
    and "slot_content q s = Some rec"
    and "j \<noteq> s \<Longrightarrow> slot_base j + 4 + length rec \<le> unat (record_region_offset p) \<Longrightarrow>
         slot_entry q j = slot_entry p j"
    and "unat (record_region_offset p) \<le> a \<Longrightarrow> bslice a n (page_data q) = bslice a n (page_data p)"
    and "bslice 0 9 (page_data q) = bslice 0 9 (page_data p)"
proof -
  define off where "off = record_region_offset p - of_nat (length rec)"
  have small: "length rec < 65536" using room top by (simp add: page_consts)
  then have "of_nat (length rec) \<le> record_region_offset p"
    using room by (simp add: word_le_nat_alt unat_of_nat)
  then have off: "unat off = unat (record_region_offset p) - length rec"
    using small by (simp add: off_def unat_sub_le unat_of_nat)
  note b = slot_base_ge [of s]
  have r: "unat off + length rec \<le> length (page_data p)" "17 \<le> unat off"
    using off room top len b by auto
  define p1 where "p1 = put_record off rec p"
  have l1: "length (page_data p1) = PAGE_SIZE" using put_record_frame(1) [OF r] len by (simp add: p1_def)
  have s1: "slot_base s + 4 \<le> length (page_data p1)" using room top l1 by simp
  define p2 where "p2 = put_slot s off (of_nat (length rec)) p1"
  have l2: "length (page_data p2) = PAGE_SIZE"
    using put_slot_frame(1) [OF s1] l1 by (simp add: p2_def)
  then have l2': "17 \<le> length (page_data p2)" by (simp add: page_consts)
  have q: "q = set_record_region_offset off p2"
    by (simp add: q_def place_record_def off_def p2_def p1_def Let_def)
  note f = set_region_frame [OF l2', where c = off, folded q] put_slot_frame [OF s1, where off = off and len = "of_nat (length rec)", folded p2_def]
    put_record_frame [OF r, folded p1_def]
  show "length (page_data q) = PAGE_SIZE" using f l2 by simp
  show "record_count q = record_count p" using f by simp
  show reg: "unat (record_region_offset q) = unat (record_region_offset p) - length rec"
    using f off by simp
  show e: "slot_entry q s = (record_region_offset q, of_nat (length rec))" using f by simp
  have "off \<noteq> TOMBSTONE" using off top by (auto simp: page_consts dest!: arg_cong [where f = unat])
  moreover have "bslice (unat off) (length rec) (page_data q) = rec"
    using f(5,12,18) r(2) off room by simp
  ultimately show "slot_content q s = Some rec"
    using e f small by (simp add: slot_content_def slot_live_def slot_record_def unat_of_nat)
  show "slot_entry q j = slot_entry p j"
    if "j \<noteq> s" "slot_base j + 4 + length rec \<le> unat (record_region_offset p)"
    using f that off by simp
  show "bslice a n (page_data q) = bslice a n (page_data p)" if "unat (record_region_offset p) \<le> a"
    using f(5,12,19) [of a n] that off room b by simp
  show "bslice 0 9 (page_data q) = bslice 0 9 (page_data p)"
    using f(6,13) f(19) [of 0 9] r(2) by simp
qed

lemma place_record_content:
  assumes "length (page_data p) = PAGE_SIZE" "unat (record_region_offset p) \<le> PAGE_SIZE"
    and "slot_base s + 4 + length rec \<le> unat (record_region_offset p)"
    and "j \<noteq> s" "slot_base j + 4 + length rec \<le> unat (record_region_offset p)"
    and "slot_live p j \<Longrightarrow> unat (record_region_offset p) \<le> unat (fst (slot_entry p j))"
  shows "slot_content (place_record s rec p) j = slot_content p j"
proof -
  note f = place_record_frame [OF assms(1-3)]
  have "slot_entry (place_record s rec p) j = slot_entry p j" using f(6) assms(4,5) by blast
  then show ?thesis using f(7) assms(6)
    by (auto simp: slot_content_def slot_live_def slot_record_def)
qed

lemma place_record_wf:
  assumes "length (page_data p) = PAGE_SIZE" "unat (record_region_offset p) \<le> PAGE_SIZE"
    and "s < record_count p" "page_lower p + length rec \<le> unat (record_region_offset p)"
    and old: "\<And>i. i < record_count p \<Longrightarrow> i \<noteq> s \<Longrightarrow> slot_live p i \<Longrightarrow>
      unat (record_region_offset p) \<le> unat (fst (slot_entry p i)) \<and>
      unat (fst (slot_entry p i)) + unat (snd (slot_entry p i)) \<le> PAGE_SIZE"
  defines "q \<equiv> place_record s rec p"
  shows "page_bounds q" "slots_in_region q" "record_count q = record_count p"
    and "slot_content q s = Some rec"
    and "\<And>j. j < record_count p \<Longrightarrow> j \<noteq> s \<Longrightarrow> slot_content q j = slot_content p j"
    and "unat (record_region_offset q) = unat (record_region_offset p) - length rec"
    and "bslice 0 9 (page_data q) = bslice 0 9 (page_data p)"
proof -
  have room: "slot_base j + 4 + length rec \<le> unat (record_region_offset p)"
    if "j < record_count p" for j
    using slot_base_lower [OF that] assms(4) by linarith
  note f = place_record_frame [OF assms(1,2) room [OF assms(3)], folded q_def]
  have len: "unat (of_nat (length rec) :: u16) = length rec"
    using assms(2,4) by (simp add: unat_of_nat page_consts)
  show "page_bounds q" using f(1-3) assms(2,4) by (auto simp: page_bounds_def page_lower_def)
  show cnt: "record_count q = record_count p" by (rule f(2))
  show "slot_content q s = Some rec" by (rule f(5))
  show "slot_content q j = slot_content p j" if "j < record_count p" "j \<noteq> s" for j
    unfolding q_def using that assms room old by (intro place_record_content) auto
  show "unat (record_region_offset q) = unat (record_region_offset p) - length rec" by (rule f(3))
  show "bslice 0 9 (page_data q) = bslice 0 9 (page_data p)" by (rule f(8))
  show "slots_in_region q"
    unfolding slots_in_region_def
  proof (intro allI impI)
    fix i assume i: "i < record_count q" and live: "slot_live q i"
    show "unat (record_region_offset q) \<le> unat (fst (slot_entry q i)) \<and>
        unat (fst (slot_entry q i)) + unat (snd (slot_entry q i)) \<le> PAGE_SIZE"
    proof (cases "i = s")
      case True
      then show ?thesis using f(3,4) len assms(2,4) by simp
    next
      case False
      have e: "slot_entry q i = slot_entry p i" using f(6) False room i cnt by simp
      then have "slot_live p i" using live by (simp add: slot_live_def)
      then show ?thesis using old [of i] False i cnt e f(3) by auto
    qed
  qed
qed

section \<open>Insertion\<close>

lemma place_steps:
  assumes "length (page_data p) = PAGE_SIZE" "unat (record_region_offset p) \<le> PAGE_SIZE"
    and "slot_base s + 4 + length rec \<le> unat (record_region_offset p)"
  shows "do { new_offset \<leftarrow> u16_sub (record_region_offset p) (of_nat (length rec));
              q \<leftarrow> write_record new_offset rec p;
              q \<leftarrow> write_slot s new_offset (of_nat (length rec)) q;
              Some (Some s, set_record_region_offset new_offset q) }
         = Some (Some s, place_record s rec p)"
proof -
  have small: "length rec < 65536" using assms by (simp add: page_consts)
  have le: "of_nat (length rec) \<le> record_region_offset p"
    using assms small by (simp add: word_le_nat_alt unat_of_nat)
  have off: "unat (record_region_offset p - of_nat (length rec)) =
      unat (record_region_offset p) - length rec"
    using le small by (simp add: unat_sub_le unat_of_nat)
  have r: "unat (record_region_offset p - of_nat (length rec)) + length rec \<le> length (page_data p)"
      "17 \<le> unat (record_region_offset p - of_nat (length rec))"
    using off assms slot_base_ge [of s] by auto
  have "slot_base s + 4 \<le>
      length (page_data (put_record (record_region_offset p - of_nat (length rec)) rec p))"
    using put_record_frame(1) [OF r] assms by simp
  then show ?thesis
    using le r(1) by (simp add: u16_sub_def write_record_eq write_slot_eq place_record_def Let_def)
qed

definition insert_slot :: "page \<Rightarrow> u16" where
  "insert_slot p = of_nat (hole_index (page_slots p))"

definition insert_base :: "page \<Rightarrow> page" where
  "insert_base p = (if None \<in> set (page_slots p) then p else set_record_count (record_count p + 1) p)"

lemma hole_index_full: "None \<notin> set xs \<Longrightarrow> hole_index xs = length xs"
  using hole_index_iff [of xs] hole_index_le [of xs] by linarith

lemma unat_insert_slot: "unat (insert_slot p) = hole_index (page_slots p)"
  using hole_index_le [of "page_slots p"] unat_u16_less [of "record_count p"]
  by (simp add: insert_slot_def unat_of_nat del: hole_index_le unat_u16_less)

lemma count_Suc:
  assumes "page_bounds p" "4 \<le> free_space p"
  shows "unat (record_count p) + 1 < 65536" "unat (record_count p + 1) = unat (record_count p) + 1"
proof -
  show "unat (record_count p) + 1 < 65536"
    using assms by (simp add: page_bounds_def free_space_def page_lower_def page_consts)
  then show "unat (record_count p + 1) = unat (record_count p) + 1"
    by (simp add: unat_word_ariths)
qed

lemma insert_base_frame:
  assumes b: "page_bounds p" and room: "slot_need (page_slots p) \<le> free_space p"
  defines "q \<equiv> insert_base p"
  shows "length (page_data q) = PAGE_SIZE" "record_region_offset q = record_region_offset p"
    and "slot_entry q j = slot_entry p j" "slot_content q j = slot_content p j \<or> 17 > unat (fst (slot_entry p j))"
    and "page_lower q = page_lower p + slot_need (page_slots p)"
    and "insert_slot p < record_count q"
    and "i < record_count q \<Longrightarrow> i \<noteq> insert_slot p \<Longrightarrow> i < record_count p"
    and "i < record_count p \<Longrightarrow> i < record_count q"
    and "bslice 0 9 (page_data q) = bslice 0 9 (page_data p)"
proof -
  have l: "17 \<le> length (page_data p)" using b by (simp add: page_bounds_def page_consts)
  note f = set_count_frame [OF l, where c = "record_count p + 1"]
  have F: "4 \<le> free_space p" if "None \<notin> set (page_slots p)"
    using room that by (simp add: slot_need_def page_consts)
  show "length (page_data q) = PAGE_SIZE"
    using f b by (simp add: q_def insert_base_def page_bounds_def)
  show "record_region_offset q = record_region_offset p" using f by (simp add: q_def insert_base_def)
  show e: "slot_entry q j = slot_entry p j" using f by (simp add: q_def insert_base_def)
  show "slot_content q j = slot_content p j \<or> 17 > unat (fst (slot_entry p j))"
    using f by (auto simp: q_def insert_base_def slot_content_def slot_live_def slot_record_def)
  show "page_lower q = page_lower p + slot_need (page_slots p)"
    using f count_Suc [OF b F] by (simp add: q_def insert_base_def page_lower_def slot_need_def)
  show "insert_slot p < record_count q"
    using f count_Suc [OF b F] hole_index_iff [of "page_slots p"] hole_index_full [of "page_slots p"]
    by (auto simp: q_def insert_base_def word_less_nat_alt unat_insert_slot)
  show "i < record_count p" if "i < record_count q" "i \<noteq> insert_slot p"
    using that f count_Suc [OF b F] hole_index_full [of "page_slots p"] unat_insert_slot [of p]
    by (auto simp: q_def insert_base_def word_less_nat_alt simp flip: unat_inj_iff split: if_splits)
  show "i < record_count q" if "i < record_count p"
    using that f count_Suc [OF b F] by (auto simp: q_def insert_base_def word_less_nat_alt)
  show "bslice 0 9 (page_data q) = bslice 0 9 (page_data p)" using f by (simp add: q_def insert_base_def)
qed

end
