(* ===== verification/Page_Ops.thy ===== *)
theory Page_Ops imports Page_Correct begin

text \<open>
  The operations of the slotted page against their specification on \<open>page_slots\<close>: what each
  returns on every branch, that each keeps \<open>wf_page\<close>, and that none panics on a well-formed page.
\<close>

section \<open>Insertion\<close>

lemma insert_base_content:
  assumes "wf_page p" "slot_need (page_slots p) \<le> free_space p" "j < record_count p"
  shows "slot_content (insert_base p) j = slot_content p j"
proof -
  have "page_bounds p" "slots_in_region p" using assms(1) by (auto simp: wf_page_def)
  then have "17 \<le> unat (fst (slot_entry p j))" if "slot_live p j"
    using that assms(3) by (force simp: slots_in_region_def page_bounds_def page_lower_def page_consts)
  moreover have "slot_entry (insert_base p) j = slot_entry p j"
      "slot_content (insert_base p) j = slot_content p j \<or> 17 > unat (fst (slot_entry p j))"
    using insert_base_frame(3,4) [OF \<open>page_bounds p\<close> assms(2)] by auto
  ultimately show ?thesis by (auto simp: slot_content_def slot_live_def)
qed

lemma page_insert_runs:
  assumes "wf_page p" "length rec + slot_need (page_slots p) \<le> free_space p"
  shows "page_insert rec p = Some (Some (insert_slot p), place_record (insert_slot p) rec (insert_base p))"
proof -
  have b: "page_bounds p" using assms(1) by (simp add: wf_page_def)
  have need: "slot_need (page_slots p) \<le> free_space p" using assms(2) by simp
  have small: "length rec \<le> 65535"
    using assms(2) b by (auto simp: free_space_def page_bounds_def page_consts)
  note f = insert_base_frame [OF b need]
  have "slot_base (insert_slot p) + 4 + length rec \<le> unat (record_region_offset (insert_base p))"
    using slot_base_lower [OF f(6)] f(2,5) assms(2) b by (auto simp: free_space_def page_bounds_def)
  then have steps: "do { new_offset \<leftarrow> u16_sub (record_region_offset (insert_base p)) (of_nat (length rec));
              q \<leftarrow> write_record new_offset rec (insert_base p);
              q \<leftarrow> write_slot (insert_slot p) new_offset (of_nat (length rec)) q;
              Some (Some (insert_slot p), set_record_region_offset new_offset q) }
         = Some (Some (insert_slot p), place_record (insert_slot p) rec (insert_base p))"
    using f(1,2) b by (intro place_steps) (auto simp: page_bounds_def)
  show ?thesis
  proof (cases "None \<in> set (page_slots p)")
    case True
    then have "insert_base p = p" by (simp add: insert_base_def)
    with True steps assms(2) small show ?thesis
      by (simp add: page_insert_def find_tombstone_hole [OF b] slot_need_def insert_slot_def Let_def)
  next
    case False
    then have "4 \<le> free_space p" using need by (simp add: slot_need_def page_consts)
    then have "u16_add (record_count p) 1 = Some (record_count p + 1)"
      using count_Suc(1) [OF b] by (simp add: u16_add_def)
    moreover have "insert_slot p = record_count p"
      using False by (simp add: insert_slot_def hole_index_full)
    moreover have "insert_base p = set_record_count (record_count p + 1) p"
      using False by (simp add: insert_base_def)
    ultimately show ?thesis using False steps assms(2) small
      by (simp add: page_insert_def find_tombstone_hole [OF b] slot_need_def Let_def)
  qed
qed

lemma page_insert_full:
  assumes "page_bounds p" "free_space p < length rec + slot_need (page_slots p)"
  shows "page_insert rec p = Some (None, p)"
  using assms(2)
  by (auto simp: page_insert_def find_tombstone_hole [OF assms(1)] slot_need_def Let_def)

lemma place_insert_wf:
  assumes wf: "wf_page p" and room: "length rec + slot_need (page_slots p) \<le> free_space p"
  defines "q \<equiv> place_record (insert_slot p) rec (insert_base p)"
  shows "wf_page q" "page_slots q = slots_insert rec (page_slots p)"
    and "bslice 0 9 (page_data q) = bslice 0 9 (page_data p)"
proof -
  have b: "page_bounds p" and r: "slots_in_region p" using wf by (auto simp: wf_page_def)
  have need: "slot_need (page_slots p) \<le> free_space p" using room by simp
  note f = insert_base_frame [OF b need]
  have low: "page_lower (insert_base p) + length rec \<le> unat (record_region_offset (insert_base p))"
    using f(2,5) room b by (auto simp: free_space_def page_bounds_def)
  have top: "unat (record_region_offset (insert_base p)) \<le> PAGE_SIZE"
    using f(2) b by (simp add: page_bounds_def)
  have old: "unat (record_region_offset (insert_base p)) \<le> unat (fst (slot_entry (insert_base p) i)) \<and>
      unat (fst (slot_entry (insert_base p) i)) + unat (snd (slot_entry (insert_base p) i)) \<le> PAGE_SIZE"
    if "i < record_count (insert_base p)" "i \<noteq> insert_slot p" "slot_live (insert_base p) i" for i
    using that r f(2,3) f(7) [of i] by (simp add: slots_in_region_def slot_live_def)
  note g = place_record_wf [OF f(1) top f(6) low old, folded q_def]
  have content: "slot_content q j = slot_content p j" if "j < record_count p" "j \<noteq> insert_slot p" for j
    using g(5) [of j] that f(8) [of j] insert_base_content [OF wf need that(1)] by simp
  show slots: "page_slots q = slots_insert rec (page_slots p)"
  proof (cases "None \<in> set (page_slots p)")
    case True
    then have "hole_index (page_slots p) < unat (record_count p)"
      using hole_index_iff [of "page_slots p"] by simp
    then have "page_slots q = (page_slots p)[unat (insert_slot p) := Some rec]"
      using g(3,4) True content
      by (intro page_slots_update) (auto simp: insert_base_def word_less_nat_alt unat_insert_slot)
    then show ?thesis using True
      by (simp add: slots_insert_def hole_index_iff unat_insert_slot del: length_page_slots)
  next
    case False
    have F: "4 \<le> free_space p" using need False by (simp add: slot_need_def page_consts)
    have "insert_slot p = record_count p" using False by (simp add: insert_slot_def hole_index_full)
    moreover have "record_count q = record_count p + 1"
      using g(3) False set_count_frame(2) b by (simp add: insert_base_def page_bounds_def page_consts)
    ultimately have "page_slots q = page_slots p @ [Some rec]"
      using g(4) content count_Suc [OF b F] by (intro page_slots_snoc) auto
    then show ?thesis using False by (simp add: slots_insert_def hole_index_full)
  qed
  show "bslice 0 9 (page_data q) = bslice 0 9 (page_data p)" using f(9) g(7) by simp
  have "slots_bytes (page_slots q) = slots_bytes (page_slots p) + length rec"
    by (simp add: slots slots_bytes_insert)
  then show "wf_page q"
    using g(1,2,6) f(2) wf low by (simp add: wf_page_slots)
qed

lemma slot_need_hole: "slot_need xs = (if hole_index xs < length xs then 0 else SLOT_SIZE)"
  by (simp add: slot_need_def hole_index_iff)

text \<open>C9: on a well-formed page \<^verbatim>\<open>Page::insert\<close> never panics. It succeeds exactly when the record
  fits in the free space, together with a new directory entry when there is no tombstone to reuse.
  It then returns the id of the first tombstoned slot, or of a new last slot, the record is stored
  under that id and no other record changes, and the page stays well-formed. Otherwise it returns
  None and the page is untouched.\<close>
theorem page_insert_spec:
  assumes "wf_page p"
  shows "if length rec + slot_need (page_slots p) \<le> free_space p
         then \<exists>q. page_insert rec p = Some (Some (of_nat (hole_index (page_slots p))), q) \<and>
                  wf_page q \<and> page_slots q = slots_insert rec (page_slots p)
         else page_insert rec p = Some (None, p)"
  using page_insert_runs [OF assms, of rec] place_insert_wf [OF assms, of rec]
    page_insert_full [of p rec] assms
  by (auto simp: insert_slot_def wf_page_def)


section \<open>A fresh page\<close>

lemma u16_4096 [simp]: "unat (4096 :: u16) = 4096"
  by simp

lemma page_new_runs:
  "\<exists>p. page_new n = Some p \<and> length (page_data p) = PAGE_SIZE \<and> record_count p = 0 \<and>
       record_region_offset p = of_nat PAGE_SIZE \<and> bslice 0 4 (page_data p) = MAGIC \<and>
       bslice 4 4 (page_data p) = u32_to_le n \<and> page_data p ! 8 = 1"
proof -
  define d where "d = replicate PAGE_SIZE (0 :: u8)"
  have "length d = 4096" by (simp add: d_def PAGE_SIZE_def)
  then show ?thesis
    by (simp add: page_new_def header_serialize_def header_new_def overwrite_opt_def flip: d_def)
       (simp add: record_count_def record_region_offset_def PAGE_SIZE_def slice_simps nth_overwrite
        flip: overwrite_def)
qed

lemma page_new_wf:
  assumes "page_new n = Some p"
  shows "wf_page p" "page_slots p = []" "free_space p = PAGE_SIZE - PAGE_HEADER_SIZE"
    and "record_count p = 0"
  using page_new_runs [of n] assms
  by (auto simp: wf_page_def page_bounds_def slots_in_region_def page_slots_def live_bytes_def
      page_lower_def slot_ids_def free_space_def page_consts)

text \<open>The witness inserts three bytes into a fresh page.\<close>
theorem page_insert_spec_witness:
  "\<exists>p q. page_new 7 = Some p \<and> page_insert [1, 2, 3] p = Some (Some 0, q) \<and> wf_page q \<and>
         page_slots q = [Some [1, 2, 3]]"
proof -
  obtain p where p: "page_new 7 = Some p" using page_new_runs [of 7] by blast
  note f = page_new_wf [OF p]
  show ?thesis using page_insert_spec [OF f(1), of "[1, 2, 3]"] p f(2,3)
    by (simp add: slot_need_def hole_index_def slots_insert_def page_consts)
qed

lemma sample_page:
  "\<exists>p q. page_new 7 = Some p \<and> page_insert [1, 2, 3] p = Some (Some 0, q) \<and> wf_page q \<and>
         page_slots q = [Some [1, 2, 3]]"
proof -
  obtain p where p: "page_new 7 = Some p" using page_new_runs [of 7] by blast
  note f = page_new_wf [OF p]
  have fits: "length [1, 2, 3 :: u8] + slot_need (page_slots p) \<le> free_space p"
    using f(2,3) by (simp add: slot_need_def page_consts)
  show ?thesis using p f(2) page_insert_runs [OF f(1) fits] place_insert_wf [OF f(1) fits]
    by (auto simp: insert_slot_def hole_index_def slots_insert_def)
qed

section \<open>Lookup and deletion\<close>

text \<open>On a well-formed page \<^verbatim>\<open>Page::get\<close> never panics and returns exactly the abstract
  content of the slot: the record of a live slot, None for a tombstone and for an id that was never
  allocated.\<close>
lemma page_get_spec:
  assumes "wf_page p"
  shows "page_get p i =
    Some (if unat i < length (page_slots p) then page_slots p ! unat i else None)"
proof (cases "i < record_count p")
  case True
  have b: "page_bounds p" "slots_in_region p" using assms by (auto simp: wf_page_def)
  have "page_slots p ! unat i = slot_content p i" using True by (rule nth_page_slots)
  moreover have "read_slot p i = Some (slot_entry p i)"
    using slot_in_page [OF b(1) True] by (rule read_slot_eq)
  ultimately show ?thesis using True b
    by (cases "slot_entry p i")
       (auto simp: page_get_def word_less_nat_alt slot_content_def slot_live_def slot_record_def
        slice_opt_def slots_in_region_def page_bounds_def not_le)
next
  case False
  then show ?thesis by (simp add: page_get_def word_le_nat_alt word_less_nat_alt not_less)
qed

lemma put_tombstone_wf:
  assumes wf: "wf_page p" and i: "i < record_count p"
  defines "q \<equiv> put_slot i TOMBSTONE 0 p"
  shows "wf_page q" "page_slots q = (page_slots p)[unat i := None]"
    and "bslice 0 9 (page_data q) = bslice 0 9 (page_data p)"
proof -
  have b: "page_bounds p" "slots_in_region p" using wf by (auto simp: wf_page_def)
  note f = put_slot_frame [OF slot_in_page [OF b(1) i], where off = TOMBSTONE and len = 0, folded q_def]
  have low: "slot_base i + 4 \<le> unat (record_region_offset p)"
    using slot_base_lower [OF i] b(1) by (simp add: page_bounds_def)
  show "bslice 0 9 (page_data q) = bslice 0 9 (page_data p)" by (rule f(7))
  have content: "slot_content q j = slot_content p j" if "j < record_count p" "j \<noteq> i" for j
  proof -
    have "slot_live p j \<Longrightarrow> unat (record_region_offset p) \<le> unat (fst (slot_entry p j))"
      using b(2) that(1) by (simp add: slots_in_region_def)
    then show ?thesis using f(5) [OF that(2)] f(6) low
      by (auto simp: slot_content_def slot_live_def slot_record_def)
  qed
  have none: "slot_content q i = None" using f(4) by (simp add: slot_content_def slot_live_def)
  show slots: "page_slots q = (page_slots p)[unat i := None]"
    using f(2) i none content by (intro page_slots_update) auto
  have "page_bounds q" using b(1) f by (simp add: page_bounds_def page_lower_def)
  moreover have "slots_in_region q"
    unfolding slots_in_region_def
  proof (intro allI impI)
    fix j assume "j < record_count q" "slot_live q j"
    then show "unat (record_region_offset q) \<le> unat (fst (slot_entry q j)) \<and>
        unat (fst (slot_entry q j)) + unat (snd (slot_entry q j)) \<le> PAGE_SIZE"
      using b(2) f(2,3,4) f(5) [of j] by (cases "j = i") (auto simp: slots_in_region_def slot_live_def)
  qed
  moreover have "slots_bytes (page_slots q) \<le> slots_bytes (page_slots p)"
    using i by (simp add: slots slots_bytes_clear word_less_nat_alt)
  ultimately show "wf_page q" using wf f(3) by (auto simp: wf_page_slots)
qed

lemma delete_cases:
  assumes "wf_page p"
  shows "if unat i < length (page_slots p) \<and> page_slots p ! unat i \<noteq> None
         then \<exists>q. page_delete i p = Some (True, q) \<and> wf_page q \<and>
                  page_slots q = (page_slots p)[unat i := None] \<and>
                  bslice 0 9 (page_data q) = bslice 0 9 (page_data p)
         else page_delete i p = Some (False, p)"
proof (cases "i < record_count p")
  case True
  have b: "page_bounds p" using assms by (simp add: wf_page_def)
  note s = slot_in_page [OF b True]
  have "page_slots p ! unat i = slot_content p i" using True by (rule nth_page_slots)
  then show ?thesis
    using True read_slot_eq [OF s] write_slot_eq [OF s] put_tombstone_wf [OF assms True]
    by (cases "slot_entry p i")
       (simp add: page_delete_def word_less_nat_alt not_le slot_content_def slot_live_def)
next
  case False
  then show ?thesis by (simp add: page_delete_def word_le_nat_alt word_less_nat_alt not_less)
qed

end
