(* ===== verification/Page_Compact.thy ===== *)
theory Page_Compact imports Page_Ops begin

text \<open>
  Compaction of the slotted page, insertion with compaction, and the validation of page bytes read
  from disk (\<^verbatim>\<open>Page::compact\<close>, \<^verbatim>\<open>Page::insert_compacting\<close>, \<^verbatim>\<open>Page::from_bytes\<close>). Compaction keeps
  the abstract slot list and makes every byte outside directory and live records free; the last
  section shows that \<^verbatim>\<open>from_bytes\<close> accepts pages on which it panics.
\<close>

section \<open>Rewriting the live records\<close>

definition records_size :: "(u16 \<times> bytes) list \<Rightarrow> nat" where
  "records_size L = (\<Sum>(s, r) \<leftarrow> L. length r)"

definition packed :: "page \<Rightarrow> page \<Rightarrow> (u16 \<times> bytes) list \<Rightarrow> nat \<Rightarrow> nat \<Rightarrow> nat \<Rightarrow> bool" where
  "packed p q L low lo hi \<longleftrightarrow>
     length (page_data q) = PAGE_SIZE \<and> record_count q = record_count p \<and>
     bslice 0 9 (page_data q) = bslice 0 9 (page_data p) \<and>
     (\<forall>a n. hi \<le> a \<longrightarrow> bslice a n (page_data q) = bslice a n (page_data p)) \<and>
     (\<forall>j. j \<notin> fst ` set L \<longrightarrow> slot_base j + 4 \<le> low \<longrightarrow> slot_entry q j = slot_entry p j) \<and>
     (\<forall>(s, r) \<in> set L. slot_content q s = Some r \<and> lo \<le> unat (fst (slot_entry q s)) \<and>
        unat (fst (slot_entry q s)) + unat (snd (slot_entry q s)) \<le> hi)"

lemma records_size_simps [simp]:
  "records_size [] = 0" "records_size ((s, r) # L) = length r + records_size L"
  by (simp_all add: records_size_def)

lemma rewrite_live_step:
  assumes "length (page_data p) = PAGE_SIZE" "17 \<le> low" "slot_base s + 4 \<le> low"
    and "low + length r \<le> unat c" "unat c \<le> PAGE_SIZE"
  defines "c1 \<equiv> c - of_nat (length r)"
  defines "p2 \<equiv> put_slot s c1 (of_nat (length r)) (put_record c1 r p)"
  shows "rewrite_live ((s, r) # L) c p = rewrite_live L c1 p2"
    and "unat c1 = unat c - length r" and "packed p p2 [(s, r)] low (unat c1) (unat c)"
proof -
  have small: "length r < 65536" using assms(4,5) by (simp add: page_consts)
  then have le: "of_nat (length r) \<le> c" using assms(4) by (simp add: word_le_nat_alt unat_of_nat)
  show c1: "unat c1 = unat c - length r" using le small by (simp add: c1_def unat_sub_le unat_of_nat)
  have r: "unat c1 + length r \<le> length (page_data p)" "17 \<le> unat c1" using c1 assms by auto
  have s: "slot_base s + 4 \<le> length (page_data (put_record c1 r p))"
    using put_record_frame(1) [OF r] assms by simp
  show "rewrite_live ((s, r) # L) c p = rewrite_live L c1 p2"
    using le r s by (simp add: u16_sub_def write_record_eq write_slot_eq p2_def c1_def)
  note f = put_record_frame [OF r] put_slot_frame [OF s, where off = c1 and len = "of_nat (length r)",
    folded p2_def]
  have "c1 \<noteq> TOMBSTONE" using c1 assms(5) by (auto simp: page_consts dest!: arg_cong [where f = unat])
  then have "slot_content p2 s = Some r"
    using f small assms(3,4) c1 by (simp add: slot_content_def slot_live_def slot_record_def unat_of_nat)
  then show "packed p p2 [(s, r)] low (unat c1) (unat c)"
    using f assms c1 small by (simp add: packed_def unat_of_nat)
qed

lemma packed_Cons:
  assumes "packed p p1 [(s, r)] low mid hi" "packed p1 q L low lo mid"
    and "s \<notin> fst ` set L" "slot_base s + 4 \<le> low" "lo \<le> mid" "mid \<le> hi"
  shows "packed p q ((s, r) # L) low lo hi"
proof -
  have e: "slot_entry q s = slot_entry p1 s" using assms by (simp add: packed_def)
  have sl: "slot_content p1 s = Some r" "mid \<le> unat (fst (slot_entry p1 s))"
    "unat (fst (slot_entry p1 s)) + unat (snd (slot_entry p1 s)) \<le> hi"
    using assms(1) by (auto simp: packed_def)
  then have "slot_content q s = Some r"
    using e assms(2) by (auto simp: packed_def slot_content_def slot_live_def slot_record_def split: if_splits)
  then show ?thesis using assms e sl by (fastforce simp: packed_def)
qed

lemma rewrite_live_runs:
  assumes "length (page_data p) = PAGE_SIZE" "17 \<le> low" "distinct (map fst L)"
    and "\<forall>s \<in> fst ` set L. slot_base s + 4 \<le> low"
    and "low + records_size L \<le> unat c" "unat c \<le> PAGE_SIZE"
  shows "\<exists>c' q. rewrite_live L c p = Some (c', q) \<and> unat c' = unat c - records_size L \<and>
    packed p q L low (unat c') (unat c)"
  using assms
proof (induction L arbitrary: c p)
  case Nil
  then show ?case by (simp add: packed_def)
next
  case (Cons sr L)
  obtain s r where sr: "sr = (s, r)" by (cases sr)
  define c1 where "c1 = c - of_nat (length r)"
  define p2 where "p2 = put_slot s c1 (of_nat (length r)) (put_record c1 r p)"
  have pre: "slot_base s + 4 \<le> low" "low + length r \<le> unat c"
    using Cons.prems(4,5) sr by auto
  note st = rewrite_live_step [OF Cons.prems(1,2) pre Cons.prems(6), folded c1_def, folded p2_def]
  have "\<exists>c' q. rewrite_live L c1 p2 = Some (c', q) \<and> unat c' = unat c1 - records_size L \<and>
      packed p2 q L low (unat c') (unat c1)"
    using Cons.prems st(2,3) sr by (intro Cons.IH) (auto simp: packed_def)
  then obtain c' q where IH: "rewrite_live L c1 p2 = Some (c', q)"
      "unat c' = unat c1 - records_size L" "packed p2 q L low (unat c') (unat c1)" by blast
  have "packed p q ((s, r) # L) low (unat c') (unat c)"
    using Cons.prems(3) sr pre(1) IH(2) st(2) by (intro packed_Cons [OF st(3) IH(3)]) auto
  then show ?case using IH st(1,2) sr by (auto simp del: rewrite_live.simps)
qed

section \<open>Compaction\<close>

definition live_records :: "page \<Rightarrow> (u16 \<times> bytes) list" where
  "live_records p =
     map (\<lambda>i. (i, slot_record p i)) (filter (slot_live p) (slot_ids (record_count p)))"

lemma collect_live_eq:
  assumes "page_bounds p" "slots_in_region p" "\<forall>i \<in> set is. i < record_count p"
  shows "collect_live p is = Some (map (\<lambda>i. (i, slot_record p i)) (filter (slot_live p) is))"
  using assms(3)
proof (induction "is")
  case Nil
  then show ?case by simp
next
  case (Cons i "is")
  have "read_slot p i = Some (slot_entry p i)"
    using Cons.prems slot_in_page [OF assms(1)] by (intro read_slot_eq) simp
  moreover have "unat (fst (slot_entry p i)) + unat (snd (slot_entry p i)) \<le> length (page_data p)"
    if "slot_live p i"
    using assms Cons.prems that by (simp add: slots_in_region_def page_bounds_def)
  ultimately show ?case using Cons
    by (cases "slot_entry p i") (auto simp: slot_live_def slot_record_def slice_opt_def)
qed

lemma records_size_live:
  assumes "page_bounds p" "slots_in_region p"
  shows "records_size (live_records p) = live_bytes p"
proof -
  have "(\<Sum>i \<leftarrow> filter (slot_live p) is. length (slot_record p i)) =
      (\<Sum>i \<leftarrow> is. if slot_live p i then unat (snd (slot_entry p i)) else 0)"
    if "\<forall>i \<in> set is. i < record_count p" for "is"
    using that by (induction "is") (auto simp: length_slot_record [OF assms])
  from this [of "slot_ids (record_count p)"] show ?thesis
    by (simp add: records_size_def live_records_def live_bytes_def comp_def set_slot_ids)
qed

lemma page_compact_runs:
  assumes wf: "wf_page p"
  shows "\<exists>q. page_compact p = Some q \<and> wf_page q \<and> page_slots q = page_slots p \<and>
    record_count q = record_count p \<and> unat (record_region_offset q) = PAGE_SIZE - live_bytes p \<and>
    bslice 0 9 (page_data q) = bslice 0 9 (page_data p)"
proof -
  have b: "page_bounds p" and r: "slots_in_region p" and live: "unat (record_region_offset p) + live_bytes p \<le> PAGE_SIZE"
    using wf by (auto simp: wf_page_def)
  have low: "page_lower p + live_bytes p \<le> PAGE_SIZE" "17 \<le> page_lower p"
    using b live by (auto simp: page_bounds_def page_lower_def page_consts)
  have fst_live: "fst ` set (live_records p) = {i. i < record_count p \<and> slot_live p i}"
    by (auto simp: live_records_def set_slot_ids image_iff)
  have "distinct (map fst (live_records p))"
    by (simp add: live_records_def comp_def distinct_slot_ids)
  then obtain c q where q: "rewrite_live (live_records p) (of_nat PAGE_SIZE) p = Some (c, q)"
      "unat c = PAGE_SIZE - live_bytes p" "packed p q (live_records p) (page_lower p) (unat c) PAGE_SIZE"
    using rewrite_live_runs [of p "page_lower p" "live_records p" "of_nat PAGE_SIZE"] low b
      slot_base_lower [of _ p] records_size_live [OF b r] fst_live
    by (auto simp: page_bounds_def PAGE_SIZE_def)
  have len: "17 \<le> length (page_data q)" using q(3) by (simp add: packed_def page_consts)
  define s where "s = set_record_region_offset c q"
  note f = set_region_frame [OF len, where c = c, folded s_def]
  have cnt: "record_count s = record_count p" using f(2) q(3) by (simp add: packed_def)
  have reg: "record_region_offset s = c" by (rule f(3))
  have lenS: "length (page_data s) = PAGE_SIZE" using f(1) q(3) by (simp add: packed_def)
  have dead: "\<not> slot_live s j" if "j < record_count p" "\<not> slot_live p j" for j
    using q(3) that f(4) fst_live slot_base_lower [of j p]
    by (auto simp: packed_def slot_live_def)
  have live_slot: "slot_content s j = Some (slot_record p j) \<and>
      unat c \<le> unat (fst (slot_entry s j)) \<and>
      unat (fst (slot_entry s j)) + unat (snd (slot_entry s j)) \<le> PAGE_SIZE"
    if "j < record_count p" "slot_live p j" for j
  proof -
    have "(j, slot_record p j) \<in> set (live_records p)"
      using that by (auto simp: live_records_def set_slot_ids)
    then have "slot_content q j = Some (slot_record p j)" "unat c \<le> unat (fst (slot_entry q j))"
      "unat (fst (slot_entry q j)) + unat (snd (slot_entry q j)) \<le> PAGE_SIZE"
      using q(3) by (auto simp: packed_def)
    moreover have "17 \<le> unat c" using q(2) low by simp
    ultimately show ?thesis using f(4,5)
      by (simp add: slot_content_def slot_live_def slot_record_def split: if_splits)
  qed
  have "slot_content s j = slot_content p j" if "j < record_count p" for j
    using dead [OF that] live_slot [OF that] by (cases "slot_live p j") (auto simp: slot_content_def)
  then have slots: "page_slots s = page_slots p"
    using cnt by (simp add: page_slots_def set_slot_ids)
  have "page_bounds s" using lenS cnt reg q(2) low by (simp add: page_bounds_def page_lower_def)
  moreover have "slots_in_region s"
    using live_slot dead cnt reg by (auto simp: slots_in_region_def)
  moreover have "slots_bytes (page_slots s) = live_bytes p"
    by (simp add: slots live_bytes_slots [OF b r])
  ultimately have "wf_page s" using reg q(2) low(1) by (simp add: wf_page_slots)
  moreover have "collect_live p (slot_ids (record_count p)) = Some (live_records p)"
    unfolding live_records_def by (intro collect_live_eq b r) (simp add: set_slot_ids)
  then have "page_compact p = Some s" using q(1) by (simp add: page_compact_def s_def)
  moreover have "bslice 0 9 (page_data s) = bslice 0 9 (page_data p)"
    using f(6) q(3) by (simp add: packed_def)
  ultimately show ?thesis using slots cnt reg q(2) by auto
qed

lemma free_space_packed:
  assumes "wf_page q" "unat (record_region_offset q) = PAGE_SIZE - n"
    and "record_count q = record_count p"
  shows "free_space q = PAGE_SIZE - n - page_lower p"
  using assms by (simp add: free_space_def page_lower_def)

text \<open>Compacting a well-formed page never panics, changes no record and no slot id, keeps the
  page well-formed, and leaves every byte that is neither directory nor live record in the
  free space.\<close>
lemma page_compact_spec:
  assumes "wf_page p"
  shows "\<exists>q. page_compact p = Some q \<and> wf_page q \<and> page_slots q = page_slots p \<and>
    free_space q = PAGE_SIZE - page_lower p - slots_bytes (page_slots p)"
proof -
  obtain q where q: "page_compact p = Some q" "wf_page q" "page_slots q = page_slots p"
    "record_count q = record_count p" "unat (record_region_offset q) = PAGE_SIZE - live_bytes p"
    using page_compact_runs [OF assms] by blast
  then show ?thesis using free_space_packed [OF q(2,5,4)] assms live_bytes_slots [of p]
    by (simp add: wf_page_def)
qed

section \<open>Insertion with compaction\<close>

lemma sum_live_eq:
  assumes "page_bounds p" "\<forall>i \<in> set is. i < record_count p"
  shows "sum_live p is = Some (\<Sum>i \<leftarrow> is. if slot_live p i then unat (snd (slot_entry p i)) else 0)"
  using assms(2)
proof (induction "is")
  case Nil
  then show ?case by simp
next
  case (Cons i "is")
  have "read_slot p i = Some (slot_entry p i)"
    using Cons.prems slot_in_page [OF assms(1)] by (intro read_slot_eq) simp
  then show ?case using Cons by (cases "slot_entry p i") (auto simp: slot_live_def)
qed

lemma insert_compacting_slow:
  assumes wf: "wf_page p" and full: "free_space p < length rec + slot_need (page_slots p)"
    and small: "length rec \<le> 65535"
  shows "page_insert_compacting rec p =
    (if free_space p + (PAGE_SIZE - unat (record_region_offset p) - live_bytes p)
          < length rec + slot_need (page_slots p)
     then Some (None, p)
     else page_compact p \<bind> page_insert rec)"
proof -
  have b: "page_bounds p" using wf by (simp add: wf_page_def)
  have "sum_live p (slot_ids (record_count p)) = Some (live_bytes p)"
    using sum_live_eq [OF b, of "slot_ids (record_count p)"] by (simp add: live_bytes_def set_slot_ids)
  moreover have "usize_sub PAGE_SIZE (unat (record_region_offset p)) =
      Some (PAGE_SIZE - unat (record_region_offset p))"
    using b by (simp add: usize_sub_def page_bounds_def)
  ultimately show ?thesis
    using page_insert_full [OF b full] small find_tombstone_hole [OF b]
    by (auto simp: page_insert_compacting_def Let_def slot_need_def)
qed

lemma insert_compacting_cases:
  assumes wf: "wf_page p"
  shows "if page_lower p + slots_bytes (page_slots p) + length rec + slot_need (page_slots p) \<le> PAGE_SIZE
         then \<exists>q. page_insert_compacting rec p =
                    Some (Some (of_nat (hole_index (page_slots p))), q) \<and>
                  wf_page q \<and> page_slots q = slots_insert rec (page_slots p) \<and>
                  bslice 0 9 (page_data q) = bslice 0 9 (page_data p)
         else page_insert_compacting rec p = Some (None, p)"
    (is "if ?fits then ?ok else ?none")
proof -
  have b: "page_bounds p" and r: "slots_in_region p" using wf by (auto simp: wf_page_def)
  note live = live_bytes_slots [OF b r]
  have room: "free_space p + (PAGE_SIZE - unat (record_region_offset p) - live_bytes p) =
      PAGE_SIZE - page_lower p - live_bytes p"
    using wf by (simp add: wf_page_def page_bounds_def free_space_def)
  consider (fast) "length rec + slot_need (page_slots p) \<le> free_space p"
    | (slow) "free_space p < length rec + slot_need (page_slots p)" "length rec \<le> 65535"
    | (huge) "free_space p < length rec + slot_need (page_slots p)" "65535 < length rec"
    by linarith
  then show ?thesis
  proof cases
    case fast
    then have ?fits using room live wf b by (auto simp: wf_page_def page_bounds_def free_space_def)
    moreover have ?ok
      using page_insert_runs [OF wf fast] place_insert_wf [OF wf fast]
      by (auto simp: page_insert_compacting_def insert_slot_def)
    ultimately show ?thesis by simp
  next
    case slow
    obtain q where q: "page_compact p = Some q" "wf_page q" "page_slots q = page_slots p"
      "record_count q = record_count p" "unat (record_region_offset q) = PAGE_SIZE - live_bytes p"
      "bslice 0 9 (page_data q) = bslice 0 9 (page_data p)"
      using page_compact_runs [OF wf] by blast
    have "free_space q = PAGE_SIZE - page_lower p - live_bytes p"
      using free_space_packed [OF q(2,5,4)] by simp
    then have ok: ?ok if "length rec + slot_need (page_slots p) \<le> PAGE_SIZE - page_lower p - live_bytes p"
      using that page_insert_runs [OF q(2), of rec] place_insert_wf [OF q(2), of rec] q(1,3,6)
        insert_compacting_slow [OF wf slow] room by (auto simp: insert_slot_def)
    have none: ?none if "\<not> length rec + slot_need (page_slots p) \<le> PAGE_SIZE - page_lower p - live_bytes p"
      using that insert_compacting_slow [OF wf slow] room by simp
    have "page_lower p + live_bytes p \<le> PAGE_SIZE"
      using wf by (auto simp: wf_page_def page_bounds_def)
    then have "?fits \<longleftrightarrow> length rec + slot_need (page_slots p) \<le> PAGE_SIZE - page_lower p - live_bytes p"
      using live by (simp add: le_diff_conv2) linarith
    with ok none show ?thesis by auto
  next
    case huge
    then have ?none using page_insert_full [OF b huge(1)] by (simp add: page_insert_compacting_def)
    moreover have "\<not> ?fits" using huge(2) by (simp add: page_consts)
    ultimately show ?thesis by simp
  qed
qed

end
