(* ===== verification/Page_Load.thy ===== *)
theory Page_Load imports Page_Compact begin

text \<open>
  Pages and their bytes: the header round trip, what \<^verbatim>\<open>Page::from_bytes\<close> accepts, and the
  refinement of whole operation sequences. A page built by the operations from \<^verbatim>\<open>Page::new\<close> behaves
  like the abstract slot list and is accepted back by \<^verbatim>\<open>from_bytes\<close>, whatever checksum the disk
  layer stored in it. The last section shows that \<^verbatim>\<open>from_bytes\<close> checks each slot alone, so it also
  accepts bytes on which \<^verbatim>\<open>compact\<close> panics.
\<close>

section \<open>Sequences of operations\<close>

datatype page_op = OpInsert bytes | OpDelete u16 | OpCompact
datatype page_out = OutSlot "u16 option" | OutDeleted bool | OutUnit

fun page_exec :: "page_op \<Rightarrow> page \<Rightarrow> (page_out \<times> page) option" where
  "page_exec (OpInsert r) p = map_option (map_prod OutSlot id) (page_insert_compacting r p)"
| "page_exec (OpDelete i) p = map_option (map_prod OutDeleted id) (page_delete i p)"
| "page_exec OpCompact p = map_option (Pair OutUnit) (page_compact p)"

fun page_exec_all :: "page_op list \<Rightarrow> page \<Rightarrow> (page_out list \<times> page) option" where
  "page_exec_all [] p = Some ([], p)"
| "page_exec_all (x # xs) p = do {
     (r, p) \<leftarrow> page_exec x p;
     (rs, p) \<leftarrow> page_exec_all xs p;
     Some (r # rs, p)
   }"

text \<open>The specification: the same operations on the list of slots. Only the total size matters for
  whether a record fits.\<close>

definition slots_size :: "bytes option list \<Rightarrow> nat" where
  "slots_size xs = PAGE_HEADER_SIZE + length xs * SLOT_SIZE + slots_bytes xs"

fun slots_exec :: "page_op \<Rightarrow> bytes option list \<Rightarrow> page_out \<times> bytes option list" where
  "slots_exec (OpInsert r) xs =
     (if slots_size xs + length r + slot_need xs \<le> PAGE_SIZE
      then (OutSlot (Some (of_nat (hole_index xs))), slots_insert r xs)
      else (OutSlot None, xs))"
| "slots_exec (OpDelete i) xs =
     (if unat i < length xs \<and> xs ! unat i \<noteq> None then (OutDeleted True, xs[unat i := None])
      else (OutDeleted False, xs))"
| "slots_exec OpCompact xs = (OutUnit, xs)"

fun slots_exec_all :: "page_op list \<Rightarrow> bytes option list \<Rightarrow> page_out list \<times> bytes option list" where
  "slots_exec_all [] xs = ([], xs)"
| "slots_exec_all (x # xs) s =
     (let (r, s) = slots_exec x s; (rs, s) = slots_exec_all xs s in (r # rs, s))"

definition page_headed :: "u32 \<Rightarrow> page \<Rightarrow> bool" where
  "page_headed n p \<longleftrightarrow> bslice 0 9 (page_data p) = MAGIC @ u32_to_le n @ [1]"

section \<open>The header round trip\<close>

text \<open>Writing a header into a buffer of at least 17 bytes never panics, changes only the first 17
  bytes, and reading it back gives the same header.\<close>
lemma header_roundtrip:
  assumes "ph_magic h = MAGIC" "17 \<le> length buf"
  shows "\<exists>d. header_serialize h buf = Some d \<and> length d = length buf \<and> drop 17 d = drop 17 buf \<and>
    header_deserialize d = Inr h"
proof -
  define d where "d = overwrite 13 (u32_to_le (ph_checksum h))
    (overwrite 11 (u16_to_le (ph_free_space_offset h)) (overwrite 9 (u16_to_le (ph_record_count h))
    (overwrite 8 [page_type_u8 (ph_page_type h)] (overwrite 4 (u32_to_le (ph_page_no h))
    (overwrite 0 (ph_magic h) buf)))))"
  have len: "length d = length buf" using assms by (simp add: d_def)
  have "header_serialize h buf = Some d"
    using assms by (simp add: header_serialize_def overwrite_opt_def d_def)
  moreover have "drop 17 d = drop 17 buf" using assms by (simp add: d_def overwrite_def)
  moreover have "d ! 8 = page_type_u8 (ph_page_type h)"
    using assms by (simp add: d_def nth_overwrite)
  moreover have "page_type_of_u8 (page_type_u8 t) = Some t" for t
    by (cases t) (simp_all add: page_type_of_u8_def)
  moreover have "bslice 0 4 d = MAGIC" "bslice 4 4 d = u32_to_le (ph_page_no h)"
    "bslice 9 2 d = u16_to_le (ph_record_count h)" "bslice 11 2 d = u16_to_le (ph_free_space_offset h)"
    "bslice 13 4 d = u32_to_le (ph_checksum h)"
    using assms by (simp_all add: d_def slice_simps)
  ultimately show ?thesis using len assms by (auto simp: header_deserialize_def)
qed

section \<open>Refinement of operation sequences\<close>

lemma page_lower_slots: "page_lower p = PAGE_HEADER_SIZE + length (page_slots p) * SLOT_SIZE"
  by (simp add: page_lower_def)

lemma page_exec_refines:
  assumes wf: "wf_page p"
  shows "\<exists>q. page_exec x p = Some (fst (slots_exec x (page_slots p)), q) \<and> wf_page q \<and>
    page_slots q = snd (slots_exec x (page_slots p)) \<and>
    bslice 0 9 (page_data q) = bslice 0 9 (page_data p)"
proof (cases x)
  case (OpInsert r)
  have "slots_size (page_slots p) = page_lower p + slots_bytes (page_slots p)"
    by (simp add: slots_size_def page_lower_slots)
  then show ?thesis using insert_compacting_cases [OF wf, of r] OpInsert wf
    by (auto simp: algebra_simps split: if_splits)
next
  case (OpDelete i)
  then show ?thesis using delete_cases [OF wf, of i] wf by (auto split: if_splits)
next
  case OpCompact
  then show ?thesis using page_compact_runs [OF wf] by auto
qed

lemma page_exec_all_run:
  assumes "wf_page p"
  shows "\<exists>q. page_exec_all xs p = Some (fst (slots_exec_all xs (page_slots p)), q) \<and> wf_page q \<and>
    page_slots q = snd (slots_exec_all xs (page_slots p))"
  using assms
proof (induction xs arbitrary: p)
  case Nil
  then show ?case by simp
next
  case (Cons x xs)
  obtain q where q: "page_exec x p = Some (fst (slots_exec x (page_slots p)), q)" "wf_page q"
    "page_slots q = snd (slots_exec x (page_slots p))"
    using page_exec_refines [OF Cons.prems] by blast
  from Cons.IH [OF q(2)] show ?case using q(1,3) by (auto simp: Let_def split: prod.splits)
qed

text \<open>C3: on a well-formed page every sequence of inserts (with compaction), deletes and compactions runs
  without panic, returns what the same sequence returns on the abstract list of slots, and ends in a
  well-formed page whose slots are the abstract result.\<close>
theorem page_exec_all_refines:
  assumes "wf_page p"
  shows "\<exists>q. page_exec_all xs p = Some (fst (slots_exec_all xs (page_slots p)), q) \<and> wf_page q \<and>
    page_slots q = snd (slots_exec_all xs (page_slots p))"
  using assms by (rule page_exec_all_run)

theorem page_exec_all_refines_witness:
  "\<exists>p q. page_new 7 = Some p \<and>
     page_exec_all [OpInsert [1, 2], OpInsert [3], OpDelete 0, OpCompact, OpInsert [4, 5, 6]] p =
       Some ([OutSlot (Some 0), OutSlot (Some 1), OutDeleted True, OutUnit, OutSlot (Some 0)], q) \<and>
     page_slots q = [Some [4, 5, 6], Some [3]]"
proof -
  obtain p where p: "page_new 7 = Some p" using page_new_runs [of 7] by blast
  show ?thesis
    using page_exec_all_refines [OF page_new_wf(1) [OF p],
        of "[OpInsert [1, 2], OpInsert [3], OpDelete 0, OpCompact, OpInsert [4, 5, 6]]"] p page_new_wf(2) [OF p]
    by (auto simp: slots_size_def slots_bytes_def slot_need_def hole_index_def slots_insert_def page_consts)
qed

section \<open>What from_bytes accepts\<close>

lemma check_slots_eq:
  assumes "\<forall>i \<in> set is. slot_base i + 4 \<le> length (page_data p)"
  shows "check_slots p upper is =
    Some (if \<forall>i \<in> set is. slot_live p i \<longrightarrow> upper \<le> unat (fst (slot_entry p i)) \<and>
             unat (fst (slot_entry p i)) + unat (snd (slot_entry p i)) \<le> PAGE_SIZE
          then Inr () else Inl (InvalidData ''invalid slot bounds''))"
  using assms
proof (induction "is")
  case Nil
  then show ?case by simp
next
  case (Cons i "is")
  then show ?case
    by (cases "slot_entry p i") (auto simp: read_slot_eq slot_live_def not_less not_le)
qed

lemma page_headed_iff:
  assumes "9 \<le> length (page_data p)"
  shows "page_headed n p \<longleftrightarrow> bslice 0 4 (page_data p) = MAGIC \<and>
    bslice 4 4 (page_data p) = u32_to_le n \<and> page_data p ! 8 = 1"
proof -
  have "bslice 0 9 (page_data p) = bslice 0 4 (page_data p) @ bslice 4 4 (page_data p) @ [page_data p ! 8]"
    using assms bslice_split [of 4 9 0 "page_data p"] bslice_split [of 4 5 4 "page_data p"]
      nth_bslice [of 8 "page_data p"] by simp
  then show ?thesis using assms by (auto simp: page_headed_def)
qed

lemma from_bytes_cases:
  assumes len: "length d = PAGE_SIZE"
  shows "\<exists>r. page_from_bytes d n = Some r \<and>
    (\<forall>p. r = Inr p \<longleftrightarrow> p = \<lparr>page_data = d\<rparr> \<and> page_headed n p \<and> page_bounds p \<and> slots_in_region p)"
proof -
  define p where "p = \<lparr>page_data = d\<rparr>"
  have l: "length (page_data p) = 4096" using len by (simp add: p_def PAGE_SIZE_def)
  have head: "page_headed n p \<longleftrightarrow>
      bslice 0 4 d = MAGIC \<and> u32_from_le (bslice 4 4 d) = n \<and> d ! 8 = 1"
    using l to_from_bytes(2) [of "bslice 4 4 d"] from_to_bytes(2) [of n]
    by (subst page_headed_iff) (auto simp: p_def)
  have slots: "check_slots p (unat (record_region_offset p)) (slot_ids (record_count p)) =
      Some (if slots_in_region p then Inr () else Inl (InvalidData ''invalid slot bounds''))"
    if "page_lower p \<le> unat (record_region_offset p)" "unat (record_region_offset p) \<le> PAGE_SIZE"
    using that slot_base_lower [of _ p] l
    by (subst check_slots_eq) (force simp: set_slot_ids slots_in_region_def PAGE_SIZE_def)+
  have "page_from_bytes d n =
      (case header_deserialize d of Inl e \<Rightarrow> Some (Inl e)
       | Inr h \<Rightarrow> if ph_page_no h \<noteq> n \<or> ph_page_type h \<noteq> Data \<or>
                     page_lower p > unat (record_region_offset p) \<or> unat (record_region_offset p) > PAGE_SIZE
                  then Some (Inl (InvalidData ''invalid data page header''))
                  else Some (if slots_in_region p then Inr p else Inl (InvalidData ''invalid slot bounds'')))"
    using slots l
    by (auto simp: page_from_bytes_def header_deserialize_def page_lower_def record_count_def
        record_region_offset_def p_def Let_def split: option.splits sum.splits if_splits)
  moreover have "header_deserialize d = (if bslice 0 4 d \<noteq> MAGIC
      then Inl (InvalidData ''invalid page magic bytes - not an OOR page'')
      else case page_type_of_u8 (d ! 8) of
          None \<Rightarrow> Inl (InvalidData ''unknown page type discriminant'')
        | Some t \<Rightarrow> Inr \<lparr>ph_magic = MAGIC, ph_page_no = u32_from_le (bslice 4 4 d), ph_page_type = t,
            ph_record_count = u16_from_le (bslice 9 2 d), ph_free_space_offset = u16_from_le (bslice 11 2 d),
            ph_checksum = u32_from_le (bslice 13 4 d)\<rparr>)"
    using l by (simp add: header_deserialize_def p_def)
  moreover have "page_type_of_u8 (d ! 8) = Some Data \<longleftrightarrow> d ! 8 = 1"
    by (auto simp: page_type_of_u8_def)
  ultimately show ?thesis using head l
    by (auto simp: page_bounds_def p_def [symmetric] PAGE_SIZE_def split: option.splits)
qed

text \<open>On a full page of bytes \<^verbatim>\<open>Page::from_bytes\<close> never panics. It accepts the bytes exactly when
  the header has the magic, the expected page number and the data type, the directory ends before the
  record region, and every live slot lies inside the region; the page returned is those bytes.\<close>
lemma page_from_bytes_spec:
  assumes len: "length d = PAGE_SIZE"
  shows "\<exists>r. page_from_bytes d n = Some r \<and>
    (\<forall>p. r = Inr p \<longleftrightarrow> p = \<lparr>page_data = d\<rparr> \<and> page_headed n p \<and> page_bounds p \<and> slots_in_region p)"
  using len by (rule from_bytes_cases)

lemma page_exec_all_head:
  "wf_page p \<Longrightarrow> page_exec_all xs p = Some (rs, q) \<Longrightarrow>
   wf_page q \<and> bslice 0 9 (page_data q) = bslice 0 9 (page_data p)"
proof (induction xs arbitrary: p rs)
  case Nil
  then show ?case by simp
next
  case (Cons x xs)
  then show ?case using page_exec_refines [OF Cons.prems(1), of x]
    by (fastforce split: Option.bind_splits)
qed

lemma sealed_frame:
  fixes ck :: u32
  assumes "length (page_data p) = PAGE_SIZE"
  defines "q \<equiv> \<lparr>page_data = sealed ck (page_data p)\<rparr>"
  shows "length (page_data q) = PAGE_SIZE" "record_count q = record_count p"
    and "record_region_offset q = record_region_offset p" "slot_entry q i = slot_entry p i"
    and "17 \<le> a \<Longrightarrow> bslice a n (page_data q) = bslice a n (page_data p)"
    and "bslice 0 9 (page_data q) = bslice 0 9 (page_data p)"
  using assms slot_base_ge [of i]
  by (simp_all add: sealed_def record_count_def record_region_offset_def slot_entry_def page_consts
      slice_overwrite_below slice_overwrite_above)

lemma sealed_wf:
  fixes ck :: u32
  assumes wf: "wf_page p"
  defines "q \<equiv> \<lparr>page_data = sealed ck (page_data p)\<rparr>"
  shows "wf_page q" "page_slots q = page_slots p"
proof -
  have b: "page_bounds p" "slots_in_region p" using wf by (auto simp: wf_page_def)
  then have "length (page_data p) = PAGE_SIZE" by (simp add: page_bounds_def)
  note f = sealed_frame [OF this, where ck = ck, folded q_def]
  have live: "slot_live q i = slot_live p i" for i using f(4) by (simp add: slot_live_def)
  have "slot_content q i = slot_content p i" if "i < record_count p" for i
  proof (cases "slot_live p i")
    case True
    then have "17 \<le> unat (fst (slot_entry p i))"
      using b that by (force simp: slots_in_region_def page_bounds_def page_lower_def page_consts)
    then show ?thesis using f(4,5) live by (simp add: slot_content_def slot_record_def)
  qed (simp add: slot_content_def live)
  then show "page_slots q = page_slots p" using f(2) by (simp add: page_slots_def set_slot_ids)
  then show "wf_page q" using wf f live
    by (simp add: wf_page_slots page_bounds_def page_lower_def slots_in_region_def)
qed

text \<open>C16: a page created by \<^verbatim>\<open>Page::new(n)\<close> and changed by any sequence of operations is accepted
  back by \<^verbatim>\<open>Page::from_bytes\<close> for the same page number after the disk layer stored any checksum in its
  header, and the records read back are the same.\<close>
theorem page_survives_reload:
  assumes "page_new n = Some p" "page_exec_all xs p = Some (rs, q)"
  shows "\<exists>r. page_from_bytes (sealed ck (page_data q)) n = Some (Inr r) \<and> wf_page r \<and>
    page_slots r = snd (slots_exec_all xs [])"
proof -
  define r where "r = \<lparr>page_data = sealed ck (page_data q)\<rparr>"
  note new = page_new_wf [OF assms(1)]
  have q: "wf_page q" "bslice 0 9 (page_data q) = bslice 0 9 (page_data p)"
    using page_exec_all_head [OF new(1) assms(2)] by auto
  obtain rs' q' where "page_exec_all xs p = Some (rs', q')" "page_slots q' = snd (slots_exec_all xs [])"
    using page_exec_all_run [OF new(1), of xs] new(2) by auto
  then have slots: "page_slots q = snd (slots_exec_all xs [])" using assms(2) by simp
  have len: "length (page_data p) = PAGE_SIZE" "length (page_data q) = PAGE_SIZE"
    using new(1) q(1) by (auto simp: wf_page_def page_bounds_def)
  have "page_headed n p"
    using page_new_runs [of n] assms(1) by (auto simp: page_headed_iff page_consts)
  then have "page_headed n r"
    using q(2) sealed_frame(6) [OF len(2), where ck = ck] by (simp add: page_headed_def r_def)
  moreover have r: "wf_page r" "page_slots r = page_slots q"
    unfolding r_def using sealed_wf [OF q(1)] by auto
  moreover have "length (sealed ck (page_data q)) = PAGE_SIZE"
    using sealed_frame(1) [OF len(2)] by simp
  ultimately show ?thesis using from_bytes_cases [of "sealed ck (page_data q)" n] slots
    by (auto simp: r_def wf_page_def)
qed

theorem page_survives_reload_witness:
  "\<exists>p q r rs. page_new 7 = Some p \<and> page_exec_all [OpInsert [1, 2], OpInsert [3], OpDelete 0] p = Some (rs, q) \<and>
     page_from_bytes (sealed 99 (page_data q)) 7 = Some (Inr r) \<and> page_slots r = [None, Some [3]]"
proof -
  let ?xs = "[OpInsert [1, 2], OpInsert [3], OpDelete 0]"
  obtain p where p: "page_new 7 = Some p" using page_new_runs [of 7] by blast
  obtain rs q where q: "page_exec_all ?xs p = Some (rs, q)"
    using page_exec_all_run [OF page_new_wf(1) [OF p], of ?xs] by blast
  show ?thesis using page_survives_reload [OF p q, of 99] p q
    by (auto simp: slots_size_def slots_bytes_def slot_need_def hole_index_def slots_insert_def page_consts)
qed

section \<open>Overlapping slots\<close>

definition overlap_page :: "page \<Rightarrow> page" where
  "overlap_page p = set_record_region_offset 100 (put_slot 1 100 3996 (put_slot 0 100 3996 (set_record_count 2 p)))"

lemma overlap_page_frame:
  assumes "length (page_data p) = PAGE_SIZE"
  shows "length (page_data (overlap_page p)) = PAGE_SIZE" "record_count (overlap_page p) = 2"
    and "record_region_offset (overlap_page p) = 100"
    and "slot_entry (overlap_page p) 0 = (100, 3996)" "slot_entry (overlap_page p) 1 = (100, 3996)"
    and "bslice 0 9 (page_data (overlap_page p)) = bslice 0 9 (page_data p)"
proof -
  define a where "a = set_record_count 2 p"
  define b where "b = put_slot 0 100 3996 a"
  define c where "c = put_slot 1 100 3996 b"
  have l: "17 \<le> length (page_data p)" using assms by (simp add: page_consts)
  note fa = set_count_frame [OF l, where c = 2, folded a_def]
  have la: "slot_base 0 + 4 \<le> length (page_data a)" using fa assms by (simp add: slot_base_def page_consts)
  note fb = put_slot_frame [OF la, where off = 100 and len = 3996, folded b_def]
  have lb: "slot_base 1 + 4 \<le> length (page_data b)" using fb fa assms by (simp add: slot_base_def page_consts)
  note fc = put_slot_frame [OF lb, where off = 100 and len = 3996, folded c_def]
  have lc: "17 \<le> length (page_data c)" using fc fb fa assms by (simp add: page_consts)
  note fd = set_region_frame [OF lc, where c = 100]
  have d: "overlap_page p = set_record_region_offset 100 c"
    by (simp add: overlap_page_def a_def b_def c_def)
  show "length (page_data (overlap_page p)) = PAGE_SIZE" "record_count (overlap_page p) = 2"
    and "record_region_offset (overlap_page p) = 100"
    and "slot_entry (overlap_page p) 0 = (100, 3996)" "slot_entry (overlap_page p) 1 = (100, 3996)"
    and "bslice 0 9 (page_data (overlap_page p)) = bslice 0 9 (page_data p)"
    using fa fb fc fd assms by (simp_all add: d)
qed

text \<open>C20: \<^verbatim>\<open>Page::from_bytes\<close> checks the bounds of each slot but not that the slots are disjoint. There
  are page bytes it accepts, with two live slots on the same range, on which \<^verbatim>\<open>Page::compact\<close> panics:
  its cursor runs below zero.\<close>
theorem from_bytes_accepts_compact_panic:
  "\<exists>d p. length d = PAGE_SIZE \<and> page_from_bytes d 1 = Some (Inr p) \<and> page_compact p = None"
proof -
  obtain p0 where p0: "page_new 1 = Some p0" using page_new_runs [of 1] by blast
  define p where "p = overlap_page p0"
  have "wf_page p0" using page_new_wf(1) [OF p0] .
  then have len0: "length (page_data p0) = PAGE_SIZE" by (auto simp: wf_page_def page_bounds_def)
  note f = overlap_page_frame [OF len0, folded p_def]
  have two: "i < record_count p \<Longrightarrow> i = 0 \<or> i = 1" for i :: u16
  proof -
    assume "i < record_count p"
    then have "unat i = 0 \<or> unat i = 1" using f(2) by (auto simp: word_less_nat_alt)
    then show "i = 0 \<or> i = 1" using unat_inj_iff [of i 0] unat_inj_iff [of i 1] by auto
  qed
  have b: "page_bounds p" using f by (simp add: page_bounds_def page_lower_def page_consts)
  have r: "slots_in_region p"
    unfolding slots_in_region_def
  proof (intro allI impI)
    fix i assume "i < record_count p"
    then have "slot_entry p i = (100, 3996)" using two [of i] f(4,5) by auto
    then show "unat (record_region_offset p) \<le> unat (fst (slot_entry p i)) \<and>
        unat (fst (slot_entry p i)) + unat (snd (slot_entry p i)) \<le> PAGE_SIZE"
      using f(3) by (simp add: PAGE_SIZE_def)
  qed
  have live: "slot_live p 0" "slot_live p 1" using f(4,5) by (simp_all add: slot_live_def TOMBSTONE_def)
  have "page_headed 1 p0"
    using page_new_runs [of 1] p0 by (auto simp: page_headed_iff page_consts)
  then have "page_headed 1 p" using f(6) by (simp add: page_headed_def)
  then have "page_from_bytes (page_data p) 1 = Some (Inr p)"
    using from_bytes_cases [OF f(1), of 1] b r by auto
  moreover have "slot_ids (record_count p) = [0, 1]" using f(2) by (simp add: slot_ids_def upt_rec)
  then have "collect_live p (slot_ids (record_count p)) = Some [(0, slot_record p 0), (1, slot_record p 1)]"
    using collect_live_eq [OF b r, of "[0, 1]"] live f(2) by simp
  moreover have "length (slot_record p 0) = 3996" "length (slot_record p 1) = 3996"
    using f by (simp_all add: slot_record_def page_consts)
  moreover from this
  have "rewrite_live [(0, slot_record p 0), (1, slot_record p 1)] (of_nat PAGE_SIZE) p = None"
    by (simp add: u16_sub_def PAGE_SIZE_def split: Option.bind_splits)
  ultimately have "page_compact p = None" by (simp add: page_compact_def)
  with f(1) \<open>page_from_bytes (page_data p) 1 = Some (Inr p)\<close> show ?thesis by blast
qed

end
