(* ===== verification/Slotted_Page.thy ===== *)
theory Slotted_Page imports Page_Load begin

text \<open>
  The earlier page code of the course: the header of \<^verbatim>\<open>part1/page.rs\<close> and the slotted page of
  \<^verbatim>\<open>part3/slotted_page.rs\<close>, and how it relates to the page of \<^verbatim>\<open>project1/page.rs\<close>. The page types are the
  same five discriminants, so \<open>page_type\<close> is shared; the header record and every operation are
  translated from their own source.
\<close>

section \<open>The header of part1\<close>

record page_header1 =
  h1_magic :: bytes
  h1_page_id :: u32
  h1_page_type :: page_type
  h1_record_count :: u16
  h1_free_space_offset :: u16
  h1_checksum :: u32

definition header1_new :: "u32 \<Rightarrow> page_type \<Rightarrow> page_header1" where
  "header1_new page_id page_type =
     \<lparr>h1_magic = MAGIC, h1_page_id = page_id, h1_page_type = page_type, h1_record_count = 0,
      h1_free_space_offset = of_nat PAGE_HEADER_SIZE, h1_checksum = 0\<rparr>"

definition header1_serialize :: "page_header1 \<Rightarrow> bytes \<Rightarrow> bytes option" where
  "header1_serialize h buf = do {
     buf \<leftarrow> overwrite_opt 0 (h1_magic h) buf;
     buf \<leftarrow> overwrite_opt 4 (u32_to_le (h1_page_id h)) buf;
     buf \<leftarrow> overwrite_opt 8 [page_type_u8 (h1_page_type h)] buf;
     buf \<leftarrow> overwrite_opt 9 (u16_to_le (h1_record_count h)) buf;
     buf \<leftarrow> overwrite_opt 11 (u16_to_le (h1_free_space_offset h)) buf;
     overwrite_opt 13 (u32_to_le (h1_checksum h)) buf
   }"

definition header1_deserialize :: "bytes \<Rightarrow> io_error + page_header1" where
  "header1_deserialize buf =
     (if length buf < 17
      then Inl (InvalidData ''invalid page bytes - not enough size even for page header'')
      else if bslice 0 4 buf \<noteq> MAGIC
      then Inl (InvalidData ''invalid page magic bytes - not an OOR page'')
      else (case page_type_of_u8 (buf ! 8) of
              None \<Rightarrow> Inl (InvalidData ''unknown page type discriminant'')
            | Some t \<Rightarrow> Inr \<lparr>h1_magic = MAGIC,
                             h1_page_id = u32_from_le (bslice 4 4 buf),
                             h1_page_type = t,
                             h1_record_count = u16_from_le (bslice 9 2 buf),
                             h1_free_space_offset = u16_from_le (bslice 11 2 buf),
                             h1_checksum = u32_from_le (bslice 13 4 buf)\<rparr>))"

section \<open>The slotted page of part3\<close>

record slotted_page =
  sp_data :: bytes

definition sp_new :: "u32 \<Rightarrow> slotted_page option" where
  "sp_new page_id = do {
     d \<leftarrow> header1_serialize (header1_new page_id Data) (replicate PAGE_SIZE 0);
     Some \<lparr>sp_data = d\<rparr>
   }"

definition slot_count :: "slotted_page \<Rightarrow> u16" where
  "slot_count p = u16_from_le (bslice 9 2 (sp_data p))"

definition set_slot_count :: "u16 \<Rightarrow> slotted_page \<Rightarrow> slotted_page" where
  "set_slot_count c p = p\<lparr>sp_data := overwrite 9 (u16_to_le c) (sp_data p)\<rparr>"

definition record_region_start :: "slotted_page \<Rightarrow> u16" where
  "record_region_start p = u16_from_le (bslice 11 2 (sp_data p))"

definition set_record_region_start :: "u16 \<Rightarrow> slotted_page \<Rightarrow> slotted_page" where
  "set_record_region_start off p = p\<lparr>sp_data := overwrite 11 (u16_to_le off) (sp_data p)\<rparr>"

definition sp_read_slot :: "slotted_page \<Rightarrow> u16 \<Rightarrow> (u16 \<times> u16) option" where
  "sp_read_slot p slot_id = do {
     let base = PAGE_HEADER_SIZE + unat slot_id * SLOT_SIZE;
     o_bytes \<leftarrow> slice_opt base (base + 2) (sp_data p);
     l_bytes \<leftarrow> slice_opt (base + 2) (base + 4) (sp_data p);
     Some (u16_from_le o_bytes, u16_from_le l_bytes)
   }"

definition sp_write_slot :: "u16 \<Rightarrow> u16 \<Rightarrow> u16 \<Rightarrow> slotted_page \<Rightarrow> slotted_page option" where
  "sp_write_slot slot_id off len p = do {
     let base = PAGE_HEADER_SIZE + unat slot_id * SLOT_SIZE;
     d \<leftarrow> overwrite_opt base (u16_to_le off) (sp_data p);
     d \<leftarrow> overwrite_opt (base + 2) (u16_to_le len) d;
     Some (p\<lparr>sp_data := d\<rparr>)
   }"

definition sp_free_space :: "slotted_page \<Rightarrow> nat" where
  "sp_free_space p = unat (record_region_start p) - (PAGE_HEADER_SIZE + unat (slot_count p) * SLOT_SIZE)"

text \<open>The loop of \<^verbatim>\<open>find_free_slot\<close> over \<^verbatim>\<open>0..count\<close>, then the extension of the directory.\<close>

fun sp_scan :: "slotted_page \<Rightarrow> u16 list \<Rightarrow> u16 option option" where
  "sp_scan p [] = Some None"
| "sp_scan p (i # is) = do {
     (off, _) \<leftarrow> sp_read_slot p i;
     if off = TOMBSTONE then Some (Some i) else sp_scan p is
   }"

definition sp_find_free_slot :: "slotted_page \<Rightarrow> (u16 \<times> slotted_page) option" where
  "sp_find_free_slot p = do {
     let count = slot_count p;
     r \<leftarrow> sp_scan p (slot_ids count);
     (case r of
        Some i \<Rightarrow> Some (i, p)
      | None \<Rightarrow> do { c \<leftarrow> u16_add count 1; Some (count, set_slot_count c p) })
   }"

definition sp_put :: "u16 \<Rightarrow> bytes \<Rightarrow> slotted_page \<Rightarrow> slotted_page option" where
  "sp_put start rec p = do {
     d \<leftarrow> overwrite_opt (unat start) rec (sp_data p);
     Some (p\<lparr>sp_data := d\<rparr>)
   }"

definition sp_insert :: "bytes \<Rightarrow> slotted_page \<Rightarrow> (u16 option \<times> slotted_page) option" where
  "sp_insert rec p =
     (if sp_free_space p < length rec + SLOT_SIZE then Some (None, p)
      else do {
        (slot_id, p) \<leftarrow> sp_find_free_slot p;
        new_offset \<leftarrow> u16_sub (record_region_start p) (of_nat (length rec));
        p \<leftarrow> sp_put new_offset rec p;
        p \<leftarrow> sp_write_slot slot_id new_offset (of_nat (length rec)) p;
        Some (Some slot_id, set_record_region_start new_offset p)
      })"

definition sp_get :: "slotted_page \<Rightarrow> u16 \<Rightarrow> bytes option option" where
  "sp_get p slot_id =
     (if slot_count p \<le> slot_id then Some None
      else do {
        (off, len) \<leftarrow> sp_read_slot p slot_id;
        if off = TOMBSTONE then Some None
        else do {
          r \<leftarrow> slice_opt (unat off) (unat off + unat len) (sp_data p);
          Some (Some r)
        }
      })"

definition sp_delete :: "u16 \<Rightarrow> slotted_page \<Rightarrow> (bool \<times> slotted_page) option" where
  "sp_delete slot_id p =
     (if slot_count p \<le> slot_id then Some (False, p)
      else do {
        (off, _) \<leftarrow> sp_read_slot p slot_id;
        if off = TOMBSTONE then Some (False, p)
        else do { p \<leftarrow> sp_write_slot slot_id TOMBSTONE 0 p; Some (True, p) }
      })"

fun sp_collect :: "slotted_page \<Rightarrow> u16 list \<Rightarrow> (u16 \<times> bytes) list option" where
  "sp_collect p [] = Some []"
| "sp_collect p (i # is) = do {
     (off, len) \<leftarrow> sp_read_slot p i;
     if off \<noteq> TOMBSTONE
     then do {
       r \<leftarrow> slice_opt (unat off) (unat off + unat len) (sp_data p);
       rest \<leftarrow> sp_collect p is;
       Some ((i, r) # rest)
     }
     else sp_collect p is
   }"

fun sp_rewrite :: "(u16 \<times> bytes) list \<Rightarrow> u16 \<Rightarrow> slotted_page \<Rightarrow> (u16 \<times> slotted_page) option" where
  "sp_rewrite [] cursor p = Some (cursor, p)"
| "sp_rewrite ((slot_id, rec) # rest) cursor p = do {
     cursor \<leftarrow> u16_sub cursor (of_nat (length rec));
     p \<leftarrow> sp_put cursor rec p;
     p \<leftarrow> sp_write_slot slot_id cursor (of_nat (length rec)) p;
     sp_rewrite rest cursor p
   }"

definition sp_compact :: "slotted_page \<Rightarrow> slotted_page option" where
  "sp_compact p = do {
     live_records \<leftarrow> sp_collect p (slot_ids (slot_count p));
     (cursor, p) \<leftarrow> sp_rewrite live_records (of_nat PAGE_SIZE) p;
     Some (set_record_region_start cursor p)
   }"

section \<open>The same bytes as a page of project1\<close>

definition as_page :: "slotted_page \<Rightarrow> page" where
  "as_page s = \<lparr>page_data = sp_data s\<rparr>"

lemma as_page_sel [simp]:
  "page_data (as_page s) = sp_data s" "record_count (as_page s) = slot_count s"
  "record_region_offset (as_page s) = record_region_start s" "free_space (as_page s) = sp_free_space s"
  "read_slot (as_page s) i = sp_read_slot s i"
  by (simp_all add: as_page_def record_count_def slot_count_def record_region_offset_def record_region_start_def
      free_space_def sp_free_space_def page_lower_def read_slot_def sp_read_slot_def slot_base_def)

lemma as_page_upd:
  "set_record_count c (as_page s) = as_page (set_slot_count c s)"
  "set_record_region_offset off (as_page s) = as_page (set_record_region_start off s)"
  "write_slot i off' len (as_page s) = map_option as_page (sp_write_slot i off' len s)"
  "write_record off rec (as_page s) = map_option as_page (sp_put off rec s)"
  by (simp_all add: as_page_def set_record_count_def set_slot_count_def set_record_region_offset_def
      set_record_region_start_def write_slot_def sp_write_slot_def write_record_def sp_put_def slot_base_def
      Let_def overwrite_opt_def)

lemma as_page_scan: "find_tombstone (as_page s) is = sp_scan s is"
  by (induction "is") (auto split: Option.bind_splits)

lemma as_page_collect: "collect_live (as_page s) is = sp_collect s is"
  by (induction "is") (auto split: Option.bind_splits)

lemma as_page_rewrite:
  "rewrite_live rs c (as_page s) = map_option (map_prod id as_page) (sp_rewrite rs c s)"
proof (induction rs c s rule: sp_rewrite.induct)
  case (1 cursor p)
  then show ?case by simp
next
  case (2 slot_id rec rest cursor p)
  show ?case
  proof (cases "u16_sub cursor (of_nat (length rec))")
    case (Some c)
    show ?thesis
    proof (cases "sp_put c rec p")
      case s1: (Some p1)
      then show ?thesis using Some 2
        by (cases "sp_write_slot slot_id c (of_nat (length rec)) p1") (simp_all add: as_page_upd)
    qed (use Some in \<open>simp add: as_page_upd\<close>)
  qed simp
qed

lemma as_page_compact: "page_compact (as_page s) = map_option as_page (sp_compact s)"
proof (cases "sp_collect s (slot_ids (slot_count s))")
  case (Some rs)
  then show ?thesis
    by (cases "sp_rewrite rs (of_nat PAGE_SIZE) s")
      (auto simp: page_compact_def sp_compact_def as_page_collect as_page_rewrite as_page_upd)
qed (simp add: page_compact_def sp_compact_def as_page_collect)

lemma as_page_get_delete:
  "page_get (as_page s) i = sp_get s i"
  "page_delete i (as_page s) = map_option (map_prod id as_page) (sp_delete i s)"
proof -
  show "page_get (as_page s) i = sp_get s i" by (auto simp: page_get_def sp_get_def split: Option.bind_splits)
  show "page_delete i (as_page s) = map_option (map_prod id as_page) (sp_delete i s)"
    by (cases "sp_read_slot s i"; cases "sp_write_slot i TOMBSTONE 0 s")
      (auto simp: page_delete_def sp_delete_def as_page_upd)
qed

lemma as_page_insert:
  assumes "length rec + SLOT_SIZE \<le> sp_free_space s" "sp_scan s (slot_ids (slot_count s)) \<noteq> None"
  shows "page_insert rec (as_page s) = map_option (map_prod id as_page) (sp_insert rec s)"
proof -
  have small: "length rec \<le> 65535"
    using assms(1) unat_u16_less [of "record_region_start s"] unfolding sp_free_space_def by linarith
  obtain r where r: "sp_scan s (slot_ids (slot_count s)) = Some r" using assms(2) by auto
  have room: "\<not> sp_free_space s < length rec + (if r \<noteq> None then 0 else SLOT_SIZE)"
    using assms(1) by simp
  show ?thesis
  proof (cases r)
    case (Some i)
    then show ?thesis using r room small assms(1)
      by (cases "u16_sub (record_region_start s) (of_nat (length rec))")
        (auto simp: page_insert_def sp_insert_def sp_find_free_slot_def as_page_scan as_page_upd Let_def
          split: Option.bind_splits)
  next
    case None
    then show ?thesis using r room small assms(1)
      by (cases "u16_add (slot_count s) 1")
        (auto simp: page_insert_def sp_insert_def sp_find_free_slot_def as_page_scan as_page_upd Let_def
          split: Option.bind_splits)
  qed
qed

section \<open>Properties\<close>

text \<open>C19: on a well-formed page the slotted page of part3 behaves as the page of project1 on the same
  bytes: \<^verbatim>\<open>get\<close>, \<^verbatim>\<open>delete\<close> and \<^verbatim>\<open>compact\<close> are the same functions, and \<^verbatim>\<open>insert\<close> is the same except that it
  asks for the four bytes of a directory entry even when it reuses a tombstone, so it may refuse a
  record that fits.\<close>
theorem slotted_page_equivalent:
  assumes "wf_page (as_page s)"
  shows "sp_get s i = page_get (as_page s) i \<and>
    map_option (map_prod id as_page) (sp_delete i s) = page_delete i (as_page s) \<and>
    map_option as_page (sp_compact s) = page_compact (as_page s) \<and>
    map_option (map_prod id as_page) (sp_insert rec s) =
      (if length rec + SLOT_SIZE \<le> sp_free_space s then page_insert rec (as_page s) else Some (None, as_page s))"
proof -
  have "sp_scan s (slot_ids (slot_count s)) \<noteq> None"
    using find_tombstone_hole [of "as_page s"] assms by (simp add: wf_page_def as_page_scan)
  then show ?thesis
    using as_page_insert [of rec s] by (simp add: as_page_get_delete as_page_compact) (simp add: sp_insert_def)
qed

lemma sp_new_runs:
  "\<exists>p. sp_new n = Some p \<and> length (sp_data p) = PAGE_SIZE \<and> slot_count p = 0 \<and>
       record_region_start p = of_nat PAGE_HEADER_SIZE"
proof -
  define d where "d = replicate PAGE_SIZE (0 :: u8)"
  have "length d = 4096" by (simp add: d_def PAGE_SIZE_def)
  then show ?thesis
    by (simp add: sp_new_def header1_new_def header1_serialize_def overwrite_opt_def d_def [symmetric]
        slot_count_def record_region_start_def slice_simps PAGE_SIZE_def)
qed

lemma sp_fresh:
  obtains p q where "sp_new n = Some p" "\<And>r. sp_insert r p = Some (None, p)" "sp_compact p = Some q"
    "wf_page (as_page q)" "page_slots (as_page q) = []" "sp_free_space q = PAGE_SIZE - PAGE_HEADER_SIZE"
proof -
  obtain p where p: "sp_new n = Some p" "length (sp_data p) = PAGE_SIZE" "slot_count p = 0"
    "record_region_start p = of_nat PAGE_HEADER_SIZE" using sp_new_runs by blast
  have full: "sp_insert r p = Some (None, p)" for r
    using p by (simp add: sp_insert_def sp_free_space_def page_consts)
  define q where "q = set_record_region_start (of_nat PAGE_SIZE) p"
  have c: "sp_compact p = Some q" using p(3) by (simp add: sp_compact_def slot_ids_def q_def)
  have q: "length (sp_data q) = PAGE_SIZE" "slot_count q = 0" "record_region_start q = of_nat PAGE_SIZE"
    using p(2,3) by (simp_all add: q_def set_record_region_start_def slot_count_def record_region_start_def
        slice_simps PAGE_SIZE_def)
  have "wf_page (as_page q)" "page_slots (as_page q) = []"
    using q by (simp_all add: wf_page_def page_bounds_def slots_in_region_def page_slots_def live_bytes_def
        page_lower_def slot_ids_def page_consts)
  moreover have "sp_free_space q = PAGE_SIZE - PAGE_HEADER_SIZE"
    using q by (simp add: sp_free_space_def page_consts)
  ultimately show thesis using that [OF p(1) full c] by simp
qed

theorem slotted_page_equivalent_witness:
  "\<exists>p q r. sp_new 7 = Some p \<and> sp_compact p = Some q \<and>
     map_option (map_prod id as_page) (sp_insert [1, 2] q) = Some (Some 0, r) \<and> page_slots r = [Some [1, 2]]"
proof (rule sp_fresh [of 7])
  fix p q assume pq: "sp_new 7 = Some p" "sp_compact p = Some q" "wf_page (as_page q)"
    "page_slots (as_page q) = []" "sp_free_space q = PAGE_SIZE - PAGE_HEADER_SIZE"
  have "length [1, 2 :: u8] + slot_need (page_slots (as_page q)) \<le> free_space (as_page q)"
    using pq(4,5) by (simp add: slot_need_def page_consts)
  note i = page_insert_runs [OF pq(3) this] place_insert_wf [OF pq(3) this]
  have "insert_slot (as_page q) = 0"
    using pq(4) by (simp add: insert_slot_def hole_index_def)
  then show ?thesis
    using slotted_page_equivalent [OF pq(3), of 0 "[1, 2]"] i(1,3) pq
    by (auto simp: slots_insert_def hole_index_def page_consts)
qed

text \<open>After a compaction the page takes a record as long as there is room for it and its directory entry.\<close>

lemma sp_compacted_insert:
  assumes q: "wf_page (as_page q)" "page_slots (as_page q) = []" "sp_free_space q = PAGE_SIZE - PAGE_HEADER_SIZE"
    and r: "length r + SLOT_SIZE \<le> PAGE_SIZE - PAGE_HEADER_SIZE"
  shows "\<exists>q'. sp_insert r q = Some (Some 0, q') \<and> sp_get q' 0 = Some (Some r) \<and> wf_page (as_page q') \<and>
    page_slots (as_page q') = [Some r]"
proof -
  have fs: "free_space (as_page q) = PAGE_SIZE - PAGE_HEADER_SIZE"
    using q(3) by simp
  have fit: "length r + slot_need (page_slots (as_page q)) \<le> free_space (as_page q)"
    using q(2) fs r by (simp add: slot_need_def page_consts)
  note i = page_insert_runs [OF q(1) fit] place_insert_wf [OF q(1) fit]
  have scan: "sp_scan q (slot_ids (slot_count q)) \<noteq> None"
    using find_tombstone_hole [of "as_page q"] q(1) by (simp add: wf_page_def as_page_scan)
  have zero: "insert_slot (as_page q) = 0" using q(2) by (simp add: insert_slot_def hole_index_def)
  have "map_option (map_prod id as_page) (sp_insert r q) =
      Some (Some (insert_slot (as_page q)), place_record (insert_slot (as_page q)) r (insert_base (as_page q)))"
    using as_page_insert [of r q] scan q(3) r i(1) by metis
  then obtain q' where q': "sp_insert r q = Some (Some 0, q')" "as_page q' = place_record (insert_slot (as_page q)) r (insert_base (as_page q))" using zero by auto
  have s: "page_slots (as_page q') = [Some r]"
    using i(3) q(2) q'(2) by (simp add: slots_insert_def hole_index_def)
  have w: "wf_page (as_page q')" using i(2) q'(2) by simp
  show ?thesis using q'(1) s w as_page_get_delete(1) [where s = q' and i = 0] page_get_spec [OF w, of 0] by simp
qed

text \<open>C23: a page that \<^verbatim>\<open>SlottedPage::new\<close> returns is full: its record region starts right after the
  header, so the free space is 0 and every \<^verbatim>\<open>insert\<close>, even of an empty record, returns \<^verbatim>\<open>None\<close>. A
  \<^verbatim>\<open>compact\<close> ends that: on the page it leaves, \<^verbatim>\<open>insert\<close> puts every record that fits with its directory entry into slot 0,
  where \<^verbatim>\<open>get\<close> finds it, and refuses every longer one.\<close>
theorem fresh_slotted_page_full:
  "\<exists>p q. sp_new n = Some p \<and> (\<forall>r. sp_insert r p = Some (None, p)) \<and> sp_compact p = Some q \<and>
     (\<forall>r. if length r + SLOT_SIZE \<le> PAGE_SIZE - PAGE_HEADER_SIZE
          then \<exists>q'. sp_insert r q = Some (Some 0, q') \<and> sp_get q' 0 = Some (Some r) \<and> wf_page (as_page q') \<and>
            page_slots (as_page q') = [Some r]
          else sp_insert r q = Some (None, q))"
proof (rule sp_fresh [of n])
  fix p q assume pq: "sp_new n = Some p" "\<And>r. sp_insert r p = Some (None, p)" "sp_compact p = Some q"
    "wf_page (as_page q)" "page_slots (as_page q) = []" "sp_free_space q = PAGE_SIZE - PAGE_HEADER_SIZE"
  have "sp_insert r q = Some (None, q)" if "\<not> length r + SLOT_SIZE \<le> PAGE_SIZE - PAGE_HEADER_SIZE" for r
    using that pq(6) by (simp add: sp_insert_def)
  then show ?thesis using pq(1-3) sp_compacted_insert [OF pq(4-6)] by metis
qed

end
