(* ===== verification/Lru_Pool.thy ===== *)
theory Lru_Pool imports Slotted_Page Disk_Correct begin

text \<open>
  \<^verbatim>\<open>part1/page.rs\<close> (\<^verbatim>\<open>PageFile\<close>) and \<^verbatim>\<open>part2\<close> (\<^verbatim>\<open>BufferPool\<close> with LRU replacement and \<^verbatim>\<open>PageHandle\<close>). A
  \<^verbatim>\<open>PageFile\<close> reads and writes at a shared cursor, so the cursor is part of its state. The pool reads
  straight into the frame and writes back from it. Its locks only order threads: every operation is
  one step, and a lock is never poisoned, since no operation panics while it holds one.
\<close>

section \<open>PageFile\<close>

record page_file =
  pf_path :: string
  pf_page_size :: nat
  pf_pos :: nat
  pf_os :: os

definition pf_open :: "string \<Rightarrow> nat \<Rightarrow> os \<Rightarrow> (io_error + page_file) \<times> os" where
  "pf_open path page_size s = (case os_open path s of
      (Inl e, s) \<Rightarrow> (Inl e, s)
    | (Inr _, s) \<Rightarrow> (Inr \<lparr>pf_path = path, pf_page_size = page_size, pf_pos = 0, pf_os = s\<rparr>, s))"

definition pf_page_count :: "page_file \<Rightarrow> ((io_error + u32) \<times> page_file) option" where
  "pf_page_count pf = (case os_len (pf_path pf) (pf_os pf) of
      (Inl e, s) \<Rightarrow> Some (Inl e, pf\<lparr>pf_os := s\<rparr>)
    | (Inr file_len, s) \<Rightarrow>
        let pf = pf\<lparr>pf_os := s\<rparr>; n = file_len div pf_page_size pf
        in if pf_page_size pf = 0 then None
           else if file_len mod pf_page_size pf \<noteq> 0 then
             Some (Inl (InvalidData ''database file length is not aligned to the configured page size''), pf)
           else if n < 2 ^ 32 then Some (Inr (of_nat n), pf)
           else Some (Inl (OtherError ''database file contains too many pages''), pf))"

text \<open>\<^verbatim>\<open>seek\<close>, and the calls that move on from the cursor.\<close>

definition pf_seek :: "nat \<Rightarrow> page_file \<Rightarrow> (io_error + unit) \<times> page_file" where
  "pf_seek off pf = (case take_fault (pf_os pf) of
      (Some k, s) \<Rightarrow> (Inl io_fault, pf\<lparr>pf_os := s\<rparr>)
    | (None, s) \<Rightarrow> (Inr (), pf\<lparr>pf_os := s, pf_pos := off\<rparr>))"

definition pf_read_exact :: "bytes \<Rightarrow> page_file \<Rightarrow> (io_error + unit) \<times> bytes \<times> page_file" where
  "pf_read_exact buf pf = (case os_read_exact_at (pf_path pf) (pf_pos pf) buf (pf_os pf) of
      (r, buf, s) \<Rightarrow> (r, buf, pf\<lparr>pf_os := s, pf_pos := pf_pos pf + length buf\<rparr>))"

definition pf_write_all :: "bytes \<Rightarrow> page_file \<Rightarrow> (io_error + unit) \<times> page_file" where
  "pf_write_all src pf = (case os_write_all_at (pf_path pf) (pf_pos pf) src (pf_os pf) of
      (r, s) \<Rightarrow> (r, pf\<lparr>pf_os := s, pf_pos := pf_pos pf + length src\<rparr>))"

definition pf_offset :: "page_file \<Rightarrow> u32 \<Rightarrow> nat option" where
  "pf_offset pf n = (if unat n * pf_page_size pf < 2 ^ 64 then Some (unat n * pf_page_size pf) else None)"

definition pf_read_page ::
    "u32 \<Rightarrow> bytes \<Rightarrow> page_file \<Rightarrow> ((io_error + unit) \<times> bytes \<times> page_file) option" where
  "pf_read_page n buf pf =
     (if length buf \<noteq> pf_page_size pf then None
      else do {
        off \<leftarrow> pf_offset pf n;
        (case pf_seek off pf of
           (Inl e, pf) \<Rightarrow> Some (Inl e, buf, pf)
         | (Inr _, pf) \<Rightarrow> Some (pf_read_exact buf pf))
      })"

definition pf_read_and_verify_page ::
    "(bytes \<Rightarrow> u32) \<Rightarrow> u32 \<Rightarrow> bytes \<Rightarrow> page_file \<Rightarrow> ((io_error + unit) \<times> bytes \<times> page_file) option" where
  "pf_read_and_verify_page crc n buf pf = do {
     (r, buf, pf) \<leftarrow> pf_read_page n buf pf;
     (case r of
        Inl e \<Rightarrow> Some (Inl e, buf, pf)
      | Inr _ \<Rightarrow> do {
          stored \<leftarrow> map_option u32_from_le (slice_opt 13 17 buf);
          computed \<leftarrow> compute_checksum crc buf;
          if stored \<noteq> computed then Some (Inl (InvalidData ''checksum mismatch''), buf, pf)
          else Some (Inr (), buf, pf)
        })
   }"

definition pf_write_page :: "u32 \<Rightarrow> bytes \<Rightarrow> page_file \<Rightarrow> ((io_error + unit) \<times> page_file) option" where
  "pf_write_page n buf pf =
     (if length buf \<noteq> pf_page_size pf then None
      else do {
        off \<leftarrow> pf_offset pf n;
        (case pf_seek off pf of
           (Inl e, pf) \<Rightarrow> Some (Inl e, pf)
         | (Inr _, pf) \<Rightarrow> Some (pf_write_all buf pf))
      })"

definition pf_write_page_with_checksum ::
    "(bytes \<Rightarrow> u32) \<Rightarrow> u32 \<Rightarrow> bytes \<Rightarrow> page_file \<Rightarrow> ((io_error + unit) \<times> bytes \<times> page_file) option" where
  "pf_write_page_with_checksum crc n buf pf = do {
     checksum \<leftarrow> compute_checksum crc buf;
     buf \<leftarrow> overwrite_opt 13 (u32_to_le checksum) buf;
     (r, pf) \<leftarrow> pf_write_page n buf pf;
     Some (r, buf, pf)
   }"

text \<open>\<^verbatim>\<open>seek(SeekFrom::End(0))\<close> returns the length; the page number is truncated to 32 bits.\<close>

definition pf_allocate_page :: "page_file \<Rightarrow> ((io_error + u32) \<times> page_file) option" where
  "pf_allocate_page pf = (case pf_seek (length (file_bytes (pf_os pf) (pf_path pf))) pf of
      (Inl e, pf) \<Rightarrow> Some (Inl e, pf)
    | (Inr _, pf) \<Rightarrow>
        if pf_page_size pf = 0 then None
        else (let page_id = of_nat (pf_pos pf div pf_page_size pf)
              in case pf_write_all (replicate (pf_page_size pf) 0) pf of
                  (Inl e, pf) \<Rightarrow> Some (Inl e, pf)
                | (Inr _, pf) \<Rightarrow> Some (Inr page_id, pf)))"

section \<open>The pool\<close>

record lru_frame =
  lf_page_id :: "u32 option"
  lf_data :: bytes
  lf_pin_count :: u32
  lf_is_dirty :: bool

record lru_pool =
  l_frames :: "lru_frame list"
  l_page_table :: "u32 \<Rightarrow> nat option"
  l_lru_list :: "nat list"
  l_page_file :: page_file

definition lru_frame_new :: lru_frame where
  "lru_frame_new = \<lparr>lf_page_id = None, lf_data = replicate PAGE_SIZE 0, lf_pin_count = 0, lf_is_dirty = False\<rparr>"

definition lru_new :: "nat \<Rightarrow> page_file \<Rightarrow> lru_pool option" where
  "lru_new num_frames pf =
     (if num_frames > 0
      then Some \<lparr>l_frames = replicate num_frames lru_frame_new, l_page_table = (\<lambda>_. None),
        l_lru_list = [0..<num_frames], l_page_file = pf\<rparr>
      else None)"

definition l_frame :: "nat \<Rightarrow> lru_pool \<Rightarrow> lru_frame option" where
  "l_frame i p = (if i < length (l_frames p) then Some (l_frames p ! i) else None)"

definition l_set :: "nat \<Rightarrow> lru_frame \<Rightarrow> lru_pool \<Rightarrow> lru_pool" where
  "l_set i f p = p\<lparr>l_frames := (l_frames p)[i := f]\<rparr>"

text \<open>From the back of the list, the first frame that is not pinned.\<close>

fun find_unpinned :: "nat list \<Rightarrow> lru_pool \<Rightarrow> nat option option" where
  "find_unpinned [] p = Some None"
| "find_unpinned (i # is) p = do {
     f \<leftarrow> l_frame i p;
     if lf_pin_count f = 0 then Some (Some i) else find_unpinned is p
   }"

definition find_evict_target :: "lru_pool \<Rightarrow> (io_error + nat) option" where
  "find_evict_target p = do {
     r \<leftarrow> find_unpinned (rev (l_lru_list p)) p;
     Some (case r of
        Some i \<Rightarrow> Inr i
      | None \<Rightarrow> Inl (OtherError ''buffer pool exhausted: all frames are pinned''))
   }"

definition move_to_front :: "nat \<Rightarrow> lru_pool \<Rightarrow> lru_pool" where
  "move_to_front i p = p\<lparr>l_lru_list := i # filter (\<lambda>j. j \<noteq> i) (l_lru_list p)\<rparr>"

text \<open>The write-back of a dirty victim; it leaves the new checksum in the frame, also on an error.\<close>

definition l_write_back :: "(bytes \<Rightarrow> u32) \<Rightarrow> nat \<Rightarrow> lru_pool \<Rightarrow> ((io_error + unit) \<times> lru_pool) option" where
  "l_write_back crc i p = do {
     f \<leftarrow> l_frame i p;
     (case lf_page_id f of
        None \<Rightarrow> Some (Inr (), p)
      | Some old_page_id \<Rightarrow> do {
          (r, p) \<leftarrow> (if lf_is_dirty f
             then do {
               (r, d, pf) \<leftarrow> pf_write_page_with_checksum crc old_page_id (lf_data f) (l_page_file p);
               Some (r, l_set i (f\<lparr>lf_data := d\<rparr>) (p\<lparr>l_page_file := pf\<rparr>))
             }
             else Some (Inr (), p));
          (case r of
             Inl e \<Rightarrow> Some (Inl e, p)
           | Inr _ \<Rightarrow> Some (Inr (), p\<lparr>l_page_table := (l_page_table p)(old_page_id := None)\<rparr>))
        })
   }"

definition pin_page :: "(bytes \<Rightarrow> u32) \<Rightarrow> u32 \<Rightarrow> lru_pool \<Rightarrow> ((io_error + nat) \<times> lru_pool) option" where
  "pin_page crc pid p = (case l_page_table p pid of
      Some i \<Rightarrow> do {
        f \<leftarrow> l_frame i p;
        if lf_pin_count f = -1 then None
        else Some (Inr i, move_to_front i (l_set i (f\<lparr>lf_pin_count := lf_pin_count f + 1\<rparr>) p))
      }
    | None \<Rightarrow> do {
        t \<leftarrow> find_evict_target p;
        (case t of
           Inl e \<Rightarrow> Some (Inl e, p)
         | Inr i \<Rightarrow> do {
             (w, p) \<leftarrow> l_write_back crc i p;
             (case w of
                Inl e \<Rightarrow> Some (Inl e, p)
              | Inr _ \<Rightarrow> do {
                  f \<leftarrow> l_frame i p;
                  (r, d, pf) \<leftarrow> pf_read_and_verify_page crc pid (lf_data f) (l_page_file p);
                  let f = f\<lparr>lf_data := d\<rparr>;
                  let p = l_set i f (p\<lparr>l_page_file := pf\<rparr>);
                  (case r of
                     Inl e \<Rightarrow> Some (Inl e, p)
                   | Inr _ \<Rightarrow> do {
                       let p = l_set i (f\<lparr>lf_page_id := Some pid, lf_pin_count := 1, lf_is_dirty := False\<rparr>) p;
                       let p = p\<lparr>l_page_table := (l_page_table p)(pid \<mapsto> i)\<rparr>;
                       Some (Inr i, move_to_front i p)
                     })
                })
           })
      })"

record page_handle =
  hd_page_id :: u32
  hd_frame :: nat

definition lru_fetch_page ::
    "(bytes \<Rightarrow> u32) \<Rightarrow> u32 \<Rightarrow> lru_pool \<Rightarrow> ((io_error + page_handle) \<times> lru_pool) option" where
  "lru_fetch_page crc pid p = do {
     (r, p) \<leftarrow> pin_page crc pid p;
     Some (case r of Inl e \<Rightarrow> Inl e | Inr i \<Rightarrow> Inr \<lparr>hd_page_id = pid, hd_frame = i\<rparr>, p)
   }"

definition lru_allocate_page ::
    "(bytes \<Rightarrow> u32) \<Rightarrow> page_type \<Rightarrow> lru_pool \<Rightarrow> ((io_error + page_handle) \<times> lru_pool) option" where
  "lru_allocate_page crc t p = do {
     (n, pf) \<leftarrow> pf_allocate_page (l_page_file p);
     (case n of
        Inl e \<Rightarrow> Some (Inl e, p\<lparr>l_page_file := pf\<rparr>)
      | Inr page_id \<Rightarrow> do {
          d \<leftarrow> header1_serialize (header1_new page_id t) (replicate PAGE_SIZE 0);
          (r, _, pf) \<leftarrow> pf_write_page_with_checksum crc page_id d pf;
          (case r of
             Inl e \<Rightarrow> Some (Inl e, p\<lparr>l_page_file := pf\<rparr>)
           | Inr _ \<Rightarrow> lru_fetch_page crc page_id (p\<lparr>l_page_file := pf\<rparr>))
        })
   }"

definition lru_page_count :: "lru_pool \<Rightarrow> ((io_error + u32) \<times> lru_pool) option" where
  "lru_page_count p = map_option (\<lambda>(r, pf). (r, p\<lparr>l_page_file := pf\<rparr>)) (pf_page_count (l_page_file p))"

fun lru_flush_frames ::
    "(bytes \<Rightarrow> u32) \<Rightarrow> nat list \<Rightarrow> lru_pool \<Rightarrow> ((io_error + unit) \<times> lru_pool) option" where
  "lru_flush_frames crc [] p = Some (Inr (), p)"
| "lru_flush_frames crc (i # is) p = do {
     f \<leftarrow> l_frame i p;
     (case lf_page_id f of
        None \<Rightarrow> lru_flush_frames crc is p
      | Some page_id \<Rightarrow>
          if \<not> lf_is_dirty f then lru_flush_frames crc is p
          else do {
            (r, d, pf) \<leftarrow> pf_write_page_with_checksum crc page_id (lf_data f) (l_page_file p);
            let f = f\<lparr>lf_data := d\<rparr>;
            let p = p\<lparr>l_page_file := pf\<rparr>;
            (case r of
               Inl e \<Rightarrow> Some (Inl e, l_set i f p)
             | Inr _ \<Rightarrow> lru_flush_frames crc is (l_set i (f\<lparr>lf_is_dirty := False\<rparr>) p))
          })
   }"

definition lru_flush_all :: "(bytes \<Rightarrow> u32) \<Rightarrow> lru_pool \<Rightarrow> ((io_error + unit) \<times> lru_pool) option" where
  "lru_flush_all crc p = lru_flush_frames crc [0..<length (l_frames p)] p"

section \<open>PageHandle\<close>

definition ensure_current :: "page_handle \<Rightarrow> u32 option \<Rightarrow> io_error + unit" where
  "ensure_current h pid =
     (if pid = Some (hd_page_id h) then Inr () else Inl (OtherError ''page handle no longer points to its page''))"

definition handle_read :: "page_handle \<Rightarrow> lru_pool \<Rightarrow> (io_error + bytes) option" where
  "handle_read h p = do {
     f \<leftarrow> l_frame (hd_frame h) p;
     Some (case ensure_current h (lf_page_id f) of Inl e \<Rightarrow> Inl e | Inr _ \<Rightarrow> Inr (lf_data f))
   }"

definition handle_modify :: "page_handle \<Rightarrow> bytes \<Rightarrow> lru_pool \<Rightarrow> ((io_error + unit) \<times> lru_pool) option" where
  "handle_modify h d p = do {
     f \<leftarrow> l_frame (hd_frame h) p;
     Some (case ensure_current h (lf_page_id f) of
        Inl e \<Rightarrow> (Inl e, p)
      | Inr _ \<Rightarrow> (Inr (), l_set (hd_frame h) (f\<lparr>lf_data := d, lf_is_dirty := True\<rparr>) p))
   }"

definition handle_drop :: "page_handle \<Rightarrow> lru_pool \<Rightarrow> lru_pool option" where
  "handle_drop h p = do {
     f \<leftarrow> l_frame (hd_frame h) p;
     Some (if lf_page_id f = Some (hd_page_id h) \<and> lf_pin_count f > 0
           then l_set (hd_frame h) (f\<lparr>lf_pin_count := lf_pin_count f - 1\<rparr>) p else p)
   }"

end
