(* ===== verification/Lru_Correct.thy ===== *)
theory Lru_Correct imports Lru_Pool begin

text \<open>
  What the LRU pool guarantees under any faults: the recency list stays a permutation of the frames,
  the victim is the least recently used unpinned frame, handles never go stale. And what it does not
  guarantee: a read that fails after the victim was written back leaves foreign bytes in a frame that
  still claims the old page and is still dirty.
\<close>

section \<open>The page file\<close>

lemma pf_read_total:
  assumes "length b = PAGE_SIZE" "pf_page_size pf = PAGE_SIZE"
  obtains r b' pf' where "pf_read_and_verify_page crc n b pf = Some (r, b', pf')" "length b' = PAGE_SIZE"
    "pf_page_size pf' = PAGE_SIZE"
proof -
  have off: "pf_offset pf n = Some (unat n * PAGE_SIZE)"
    using page_offset_u64 [of "\<lparr>relation_id = 0, page_no = n\<rparr>"] assms(2)
    by (simp add: pf_offset_def page_offset_def)
  obtain x pf1 where s: "pf_seek (unat n * PAGE_SIZE) pf = (x, pf1)" by fastforce
  have p1: "pf_page_size pf1 = PAGE_SIZE" using s assms(2) by (auto simp: pf_seek_def split: prod.splits option.splits)
  obtain y b1 pf2 where e: "pf_read_exact b pf1 = (y, b1, pf2)" by (metis prod_cases3)
  have b1: "length b1 = PAGE_SIZE" "pf_page_size pf2 = PAGE_SIZE"
    using e assms(1) p1 os_read_files(2) by (auto simp: pf_read_exact_def split: prod.splits)
  obtain z b2 pf3 where r: "pf_read_page n b pf = Some (z, b2, pf3)" "length b2 = PAGE_SIZE" "pf_page_size pf3 = PAGE_SIZE"
  proof (cases x)
    case (Inl err)
    then show ?thesis using that [of "Inl err" b pf1] off s assms p1 by (simp add: pf_read_page_def)
  next
    case (Inr u)
    then show ?thesis using that [of y b1 pf2] off s e assms b1 by (simp add: pf_read_page_def)
  qed
  have sl: "slice_opt 13 17 b2 = Some (bslice 13 4 b2)" "compute_checksum crc b2 = Some (crc (drop PAGE_HEADER_SIZE b2))"
    using r(2) by (auto intro!: compute_checksum_eq simp: slice_opt_def PAGE_SIZE_def)
  show thesis
  proof (cases z)
    case (Inl err)
    then show ?thesis using that [of "Inl err" b2 pf3] r by (simp add: pf_read_and_verify_page_def)
  next
    case (Inr u)
    show ?thesis
    proof (cases "u32_from_le (bslice 13 4 b2) = crc (drop PAGE_HEADER_SIZE b2)")
      case True
      then show ?thesis using that [of "Inr ()" b2 pf3] r sl Inr by (simp add: pf_read_and_verify_page_def)
    next
      case False
      then show ?thesis using that [of "Inl (InvalidData ''checksum mismatch'')" b2 pf3] r sl Inr
        by (simp add: pf_read_and_verify_page_def)
    qed
  qed
qed

lemma pf_write_total:
  assumes "length b = PAGE_SIZE" "pf_page_size pf = PAGE_SIZE"
  obtains r pf' where "pf_write_page_with_checksum crc n b pf = Some (r, seal_page crc b, pf')"
    "pf_page_size pf' = PAGE_SIZE"
proof -
  have off: "pf_offset pf n = Some (unat n * PAGE_SIZE)"
    using page_offset_u64 [of "\<lparr>relation_id = 0, page_no = n\<rparr>"] assms(2)
    by (simp add: pf_offset_def page_offset_def)
  have c: "compute_checksum crc b = Some (crc (drop PAGE_HEADER_SIZE b))"
    "overwrite_opt 13 (u32_to_le (crc (drop PAGE_HEADER_SIZE b))) b = Some (seal_page crc b)"
    using assms(1) by (auto intro!: compute_checksum_eq simp: overwrite_opt_def seal_page_def sealed_def PAGE_SIZE_def)
  obtain x pf1 where s: "pf_seek (unat n * PAGE_SIZE) pf = (x, pf1)" by fastforce
  have p1: "pf_page_size pf1 = PAGE_SIZE" using s assms(2) by (auto simp: pf_seek_def split: prod.splits option.splits)
  obtain y pf2 where w: "pf_write_all (seal_page crc b) pf1 = (y, pf2)" by fastforce
  have p2: "pf_page_size pf2 = PAGE_SIZE" using w p1 by (auto simp: pf_write_all_def split: prod.splits)
  show thesis
  proof (cases x)
    case (Inl err)
    then show ?thesis using that [of "Inl err" pf1] off c s p1 assms seal_page_simps(1) [OF assms(1)]
      by (simp add: pf_write_page_with_checksum_def pf_write_page_def)
  next
    case (Inr u)
    then show ?thesis using that [of y pf2] off c s w p2 assms seal_page_simps(1) [OF assms(1)]
      by (simp add: pf_write_page_with_checksum_def pf_write_page_def)
  qed
qed

lemma pf_allocate_total:
  assumes "pf_page_size pf = PAGE_SIZE"
  obtains r pf' where "pf_allocate_page pf = Some (r, pf')" "pf_page_size pf' = PAGE_SIZE"
proof -
  let ?n = "length (file_bytes (pf_os pf) (pf_path pf))"
  obtain x pf1 where s: "pf_seek ?n pf = (x, pf1)" by fastforce
  have p1: "pf_page_size pf1 = PAGE_SIZE" using s assms by (auto simp: pf_seek_def split: prod.splits option.splits)
  obtain y pf2 where w: "pf_write_all (replicate PAGE_SIZE 0) pf1 = (y, pf2)" by fastforce
  have p2: "pf_page_size pf2 = PAGE_SIZE" using w p1 by (auto simp: pf_write_all_def split: prod.splits)
  show thesis
    using that s w p1 p2 by (cases x; cases y) (auto simp: pf_allocate_page_def Let_def PAGE_SIZE_def)
qed

section \<open>Invariant\<close>

definition lru_wf :: "lru_pool \<Rightarrow> bool" where
  "lru_wf p \<longleftrightarrow> distinct (l_lru_list p) \<and> set (l_lru_list p) = {..<length (l_frames p)} \<and>
     pf_page_size (l_page_file p) = PAGE_SIZE \<and> (\<forall>f \<in> set (l_frames p). length (lf_data f) = PAGE_SIZE) \<and>
     (\<forall>pid i. l_page_table p pid = Some i \<longrightarrow>
        i < length (l_frames p) \<and> lf_page_id (l_frames p ! i) = Some pid)"

text \<open>A step that leaves the pinned frames their page and their pins.\<close>

definition lru_keeps :: "lru_pool \<Rightarrow> lru_pool \<Rightarrow> bool" where
  "lru_keeps p q \<longleftrightarrow> length (l_frames q) = length (l_frames p) \<and>
     (\<forall>j < length (l_frames p). lf_pin_count (l_frames q ! j) = lf_pin_count (l_frames p ! j) \<and>
        lf_page_id (l_frames q ! j) = lf_page_id (l_frames p ! j))"

lemma lru_keeps_refl: "lru_keeps p p"
  by (simp add: lru_keeps_def)

lemma lru_keeps_trans: "lru_keeps p q \<Longrightarrow> lru_keeps q r \<Longrightarrow> lru_keeps p r"
  by (simp add: lru_keeps_def)

lemma l_set_sel [simp]:
  "l_lru_list (l_set i f p) = l_lru_list p" "l_page_table (l_set i f p) = l_page_table p"
  "l_page_file (l_set i f p) = l_page_file p" "length (l_frames (l_set i f p)) = length (l_frames p)"
  by (simp_all add: l_set_def)

lemma l_set_at: "i < length (l_frames p) \<Longrightarrow> l_frames (l_set i f p) ! j = (if j = i then f else l_frames p ! j)"
  by (simp add: l_set_def)

lemma l_frame_iff: "l_frame i p = Some f \<longleftrightarrow> i < length (l_frames p) \<and> f = l_frames p ! i"
  by (auto simp: l_frame_def)

text \<open>Replacing the bytes, the dirty flag or the pin of a frame, and the file.\<close>

lemma l_set_wf:
  assumes "lru_wf p" "i < length (l_frames p)" "length (lf_data f) = PAGE_SIZE"
    and "lf_page_id f = lf_page_id (l_frames p ! i)" "pf_page_size pf = PAGE_SIZE"
  shows "lru_wf (l_set i f (p\<lparr>l_page_file := pf\<rparr>))"
  using assms
  by (auto simp: lru_wf_def l_set_def nth_list_update all_set_conv_all_nth)

lemma l_set_keeps:
  assumes "i < length (l_frames p)" "lf_page_id f = lf_page_id (l_frames p ! i)"
    and "lf_pin_count f = lf_pin_count (l_frames p ! i)"
  shows "lru_keeps p (l_set i f (p\<lparr>l_page_file := pf\<rparr>))"
  using assms by (auto simp: lru_keeps_def l_set_def nth_list_update)

lemma move_to_front_wf: "lru_wf p \<Longrightarrow> i < length (l_frames p) \<Longrightarrow> lru_wf (move_to_front i p)"
  by (auto simp: lru_wf_def move_to_front_def)

section \<open>The victim\<close>

lemma find_unpinned_eq:
  "\<forall>i \<in> set is. i < length (l_frames p) \<Longrightarrow>
   find_unpinned is p = Some (List.find (\<lambda>i. lf_pin_count (l_frames p ! i) = 0) is)"
  by (induction "is") (auto simp: l_frame_def)

lemma find_split: "List.find P xs = Some x \<Longrightarrow> P x \<and> (\<exists>ys zs. xs = ys @ x # zs \<and> (\<forall>y \<in> set ys. \<not> P y))"
proof (induction xs)
  case Nil
  then show ?case by simp
next
  case (Cons a xs)
  show ?case
  proof (cases "P a")
    case True
    then show ?thesis using Cons.prems by (intro conjI exI [of _ "[]"] exI [of _ xs]) simp_all
  next
    case False
    then obtain ys zs where "P x" "xs = ys @ x # zs" "\<forall>y \<in> set ys. \<not> P y" using Cons by auto
    then show ?thesis using False by (intro conjI exI [of _ "a # ys"] exI [of _ zs]) simp_all
  qed
qed

lemma find_evict_cases:
  assumes "lru_wf p"
  obtains i newer older where "find_evict_target p = Some (Inr i)" "i < length (l_frames p)"
      "lf_pin_count (l_frames p ! i) = 0" "l_lru_list p = newer @ i # older"
      "\<forall>j \<in> set older. lf_pin_count (l_frames p ! j) \<noteq> 0"
    | e where "find_evict_target p = Some (Inl e)" "\<forall>f \<in> set (l_frames p). lf_pin_count f \<noteq> 0"
proof -
  let ?P = "\<lambda>i. lf_pin_count (l_frames p ! i) = 0"
  have mem: "\<forall>i \<in> set (rev (l_lru_list p)). i < length (l_frames p)" using assms by (simp add: lru_wf_def)
  note eq = find_unpinned_eq [OF mem]
  show thesis
  proof (cases "List.find ?P (rev (l_lru_list p))")
    case None
    then have none: "\<forall>i < length (l_frames p). \<not> ?P i" using assms by (auto simp: find_None_iff lru_wf_def)
    show thesis
    proof (rule that(2))
      show "find_evict_target p = Some (Inl (OtherError ''buffer pool exhausted: all frames are pinned''))"
        using eq None by (simp add: find_evict_target_def)
      show "\<forall>f \<in> set (l_frames p). lf_pin_count f \<noteq> 0" using none by (auto simp: in_set_conv_nth)
    qed
  next
    case (Some i)
    obtain ys zs where "?P i" "rev (l_lru_list p) = ys @ i # zs" "\<forall>y \<in> set ys. \<not> ?P y"
      using find_split [OF Some] by blast
    moreover from this(2) have "l_lru_list p = rev zs @ i # rev ys" by (simp add: rev_eq_append_conv)
    moreover have "i < length (l_frames p)" using mem calculation(2) by simp
    moreover have "find_evict_target p = Some (Inr i)" using eq Some by (simp add: find_evict_target_def)
    ultimately show thesis using that(1) [of i "rev zs" "rev ys"] by simp
  qed
qed


section \<open>Fetch\<close>

lemma l_write_back_keeps:
  assumes wf: "lru_wf p" and i: "i < length (l_frames p)"
  obtains r q where "l_write_back crc i p = Some (r, q)" "lru_wf q" "lru_keeps p q" "l_lru_list q = l_lru_list p"
    "\<And>pid. l_page_table q pid = l_page_table p pid \<or> l_page_table q pid = None"
    "r = Inr () \<Longrightarrow> (\<forall>pid. lf_page_id (l_frames p ! i) = Some pid \<longrightarrow> l_page_table q pid = None)"
proof -
  let ?f = "l_frames p ! i"
  have at: "l_frame i p = Some ?f" and len: "length (lf_data ?f) = PAGE_SIZE"
    and ps: "pf_page_size (l_page_file p) = PAGE_SIZE" using wf i by (auto simp: l_frame_iff lru_wf_def)
  have remove: "lru_wf (q\<lparr>l_page_table := (l_page_table q)(old := None)\<rparr>)" if "lru_wf q" for q old
    using that by (auto simp: lru_wf_def)
  show thesis
  proof (cases "lf_page_id ?f")
    case None
    then show thesis using that [of "Inr ()" p] at wf by (simp add: l_write_back_def lru_keeps_refl)
  next
    case (Some old)
    show thesis
    proof (cases "lf_is_dirty ?f")
      case False
      then show thesis
        using that [of "Inr ()" "p\<lparr>l_page_table := (l_page_table p)(old := None)\<rparr>"] at Some remove [OF wf]
        by (simp add: l_write_back_def lru_keeps_def)
    next
      case True
      obtain r pf where w: "pf_write_page_with_checksum crc old (lf_data ?f) (l_page_file p) =
          Some (r, seal_page crc (lf_data ?f), pf)" "pf_page_size pf = PAGE_SIZE"
        using pf_write_total [OF len ps] by blast
      define q where "q = l_set i (?f\<lparr>lf_data := seal_page crc (lf_data ?f)\<rparr>) (p\<lparr>l_page_file := pf\<rparr>)"
      have q: "lru_wf q" "lru_keeps p q" "l_lru_list q = l_lru_list p" "l_page_table q = l_page_table p"
        using l_set_wf [OF wf i] l_set_keeps [OF i] seal_page_simps(1) [OF len] w(2) by (simp_all add: q_def)
      show thesis
      proof (cases r)
        case (Inl e)
        then show thesis using that [of "Inl e" q] at Some True w(1) q by (simp add: l_write_back_def q_def)
      next
        case (Inr u)
        then show thesis
          using that [of "Inr ()" "q\<lparr>l_page_table := (l_page_table q)(old := None)\<rparr>"] at Some True w(1) q remove [OF q(1)]
          by (simp add: l_write_back_def q_def lru_keeps_def)
      qed
    qed
  qed
qed

text \<open>Every way a fetch can end.\<close>

lemma lru_fetch_cases:
  assumes wf: "lru_wf p" and room: "\<forall>f \<in> set (l_frames p). lf_pin_count f \<noteq> -1"
  obtains e q where "lru_fetch_page crc pid p = Some (Inl e, q)" "lru_wf q" "lru_keeps p q"
      "l_lru_list q = l_lru_list p"
    | i q where "lru_fetch_page crc pid p = Some (Inr \<lparr>hd_page_id = pid, hd_frame = i\<rparr>, q)" "lru_wf q"
      "i < length (l_frames p)" "length (l_frames q) = length (l_frames p)"
      "lf_page_id (l_frames q ! i) = Some pid" "lf_pin_count (l_frames q ! i) = lf_pin_count (l_frames p ! i) + 1"
      "\<forall>j < length (l_frames p). j \<noteq> i \<longrightarrow> lf_pin_count (l_frames q ! j) = lf_pin_count (l_frames p ! j) \<and>
         lf_page_id (l_frames q ! j) = lf_page_id (l_frames p ! j)"
      "l_lru_list q = i # filter (\<lambda>j. j \<noteq> i) (l_lru_list p)"
      "l_page_table p pid = Some i \<and> lf_page_id (l_frames p ! i) = Some pid \<or>
       l_page_table p pid = None \<and> lf_pin_count (l_frames p ! i) = 0 \<and>
         (\<exists>newer older. l_lru_list p = newer @ i # older \<and> (\<forall>j \<in> set older. lf_pin_count (l_frames p ! j) \<noteq> 0))"
proof (cases "l_page_table p pid")
  case (Some i)
  note got = that(2)
  have i: "i < length (l_frames p)" "lf_page_id (l_frames p ! i) = Some pid" using wf Some by (auto simp: lru_wf_def)
  let ?f = "l_frames p ! i"
  have pin: "lf_pin_count ?f \<noteq> -1" using room i(1) by simp
  define t where "t = l_set i (?f\<lparr>lf_pin_count := lf_pin_count ?f + 1\<rparr>) p"
  have "lru_wf (l_set i (?f\<lparr>lf_pin_count := lf_pin_count ?f + 1\<rparr>) (p\<lparr>l_page_file := l_page_file p\<rparr>))"
    using wf i by (intro l_set_wf) (auto simp: lru_wf_def)
  then have "lru_wf (move_to_front i t)" using i(1) by (intro move_to_front_wf) (simp_all add: t_def)
  moreover have "lru_fetch_page crc pid p = Some (Inr \<lparr>hd_page_id = pid, hd_frame = i\<rparr>, move_to_front i t)"
    using Some i pin by (simp add: lru_fetch_page_def pin_page_def l_frame_iff [THEN iffD2] t_def)
  ultimately show thesis
    using got [of i "move_to_front i t"] i Some by (simp add: move_to_front_def t_def l_set_at)
next
  case None
  note fail = that(1) and got = that(2)
  from wf show thesis
  proof (cases rule: find_evict_cases)
    case (2 e)
    then show thesis using fail [of e p] None wf
      by (simp add: lru_fetch_page_def pin_page_def lru_keeps_refl)
  next
    case (1 i newer older)
    from wf 1(2) show thesis
    proof (rule l_write_back_keeps [where crc = crc])
      fix r q assume q: "l_write_back crc i p = Some (r, q)" "lru_wf q" "lru_keeps p q" "l_lru_list q = l_lru_list p"
        "\<And>pid. l_page_table q pid = l_page_table p pid \<or> l_page_table q pid = None"
        "r = Inr () \<Longrightarrow> (\<forall>pid. lf_page_id (l_frames p ! i) = Some pid \<longrightarrow> l_page_table q pid = None)"
      show thesis
      proof (cases r)
        case (Inl e)
        then show thesis using fail [of e q] None 1(1) q by (simp add: lru_fetch_page_def pin_page_def)
      next
        case (Inr u)
        let ?f = "l_frames q ! i"
        have i: "i < length (l_frames q)" using 1(2) q(3) by (simp add: lru_keeps_def)
        have len: "length (lf_data ?f) = PAGE_SIZE" and ps: "pf_page_size (l_page_file q) = PAGE_SIZE"
          using q(2) i by (auto simp: lru_wf_def)
        obtain x d pf where rd: "pf_read_and_verify_page crc pid (lf_data ?f) (l_page_file q) = Some (x, d, pf)"
          "length d = PAGE_SIZE" "pf_page_size pf = PAGE_SIZE" using pf_read_total [OF len ps] by blast
        define t where "t = l_set i (?f\<lparr>lf_data := d\<rparr>) (q\<lparr>l_page_file := pf\<rparr>)"
        have t: "lru_wf t" "lru_keeps q t" using l_set_wf [OF q(2) i] l_set_keeps [OF i] rd(2,3) by (simp_all add: t_def)
        show thesis
        proof (cases x)
          case (Inl e)
          have "lru_fetch_page crc pid p = Some (Inl e, t)"
            using None 1(1) q(1) \<open>r = Inr u\<close> i rd(1) Inl
            by (simp add: lru_fetch_page_def pin_page_def l_frame_def t_def Let_def)
          then show thesis
            using fail [of e t] t(1) lru_keeps_trans [OF q(3) t(2)] q(4) by (simp add: t_def)
        next
          case (Inr v)
          define g where "g = ?f\<lparr>lf_data := d, lf_page_id := Some pid, lf_pin_count := 1, lf_is_dirty := False\<rparr>"
          define w where "w = (l_set i g (q\<lparr>l_page_file := pf\<rparr>))\<lparr>l_page_table := (l_page_table q)(pid \<mapsto> i)\<rparr>"
          have fetch: "lru_fetch_page crc pid p = Some (Inr \<lparr>hd_page_id = pid, hd_frame = i\<rparr>, move_to_front i w)"
            using None 1(1) q(1) \<open>r = Inr u\<close> i rd(1) Inr
            by (simp add: lru_fetch_page_def pin_page_def l_frame_def g_def w_def Let_def)
              (simp add: l_set_def)
          have wat: "l_frames w ! j = (if j = i then g else l_frames q ! j)" for j
            using i by (simp add: w_def l_set_def)
          have nw: "length (l_frames w) = length (l_frames q)" by (simp add: w_def)
          have other: "x \<noteq> pid \<Longrightarrow> l_page_table q x = Some j \<Longrightarrow> j \<noteq> i" for x j
          proof
            assume x: "l_page_table q x = Some j" "j = i"
            then have "lf_page_id ?f = Some x" using q(2) by (auto simp: lru_wf_def)
            then have "lf_page_id (l_frames p ! i) = Some x" using q(3) 1(2) by (simp add: lru_keeps_def)
            then show False using q(6) \<open>r = Inr u\<close> x by simp
          qed
          have "lru_wf w"
            unfolding lru_wf_def
          proof (intro conjI allI impI ballI)
            show "distinct (l_lru_list w)" "set (l_lru_list w) = {..<length (l_frames w)}"
              "pf_page_size (l_page_file w) = PAGE_SIZE"
              using q(2) rd(3) by (simp_all add: lru_wf_def w_def)
            fix f assume "f \<in> set (l_frames w)"
            then show "length (lf_data f) = PAGE_SIZE"
              using wat nw q(2) rd(2) by (fastforce simp: in_set_conv_nth [of f] lru_wf_def g_def)
          next
            fix x j assume "l_page_table w x = Some j"
            then have "x = pid \<and> j = i \<or> x \<noteq> pid \<and> l_page_table q x = Some j"
              by (auto simp: w_def split: if_splits)
            then show "j < length (l_frames w)" "lf_page_id (l_frames w ! j) = Some x"
              using i q(2) other wat nw by (auto simp: lru_wf_def g_def)
          qed
          then have "lru_wf (move_to_front i w)" using i nw by (intro move_to_front_wf) simp_all
          moreover have "l_frames (move_to_front i w) = l_frames w"
            "l_lru_list (move_to_front i w) = i # filter (\<lambda>j. j \<noteq> i) (l_lru_list p)"
            using q(4) by (simp_all add: move_to_front_def w_def)
          moreover have "lf_pin_count (l_frames p ! i) = 0" using 1(3) .
          ultimately show thesis
            using got [of i "move_to_front i w"] fetch 1(2,4,5) None wat nw q(3)
            by (auto simp: lru_keeps_def g_def)
        qed
      qed
    qed
  qed
qed

end
