(* ===== verification/Lru_Runs.thy ===== *)
theory Lru_Runs imports Lru_Correct begin

text \<open>
  Executions of the LRU pool by clients that fetch and allocate pages, read and modify them through
  handles, drop the handles and flush; then the properties of the pool, and the history on which it
  loses data.
\<close>

section \<open>Clients\<close>

record lru_world =
  lw_pool :: lru_pool
  lw_handles :: "page_handle option list"

datatype lru_op = LFetch u32 | LAllocate page_type | LRead nat | LModify nat bytes | LDrop nat | LFlush | LCount

datatype lru_out = LGot | LFailed io_error | LStale io_error | LBytes bytes | LDone | LNoHandle | LCountIs u32

definition lru_live :: "nat \<Rightarrow> lru_world \<Rightarrow> page_handle option" where
  "lru_live h w = (if h < length (lw_handles w) then lw_handles w ! h else None)"

definition lru_fetched :: "(io_error + page_handle) \<times> lru_pool \<Rightarrow> lru_world \<Rightarrow> lru_out \<times> lru_world" where
  "lru_fetched = (\<lambda>(r, p) w. case r of
      Inl e \<Rightarrow> (LFailed e, w\<lparr>lw_pool := p\<rparr>)
    | Inr h \<Rightarrow> (LGot, w\<lparr>lw_pool := p, lw_handles := lw_handles w @ [Some h]\<rparr>))"

fun lru_step :: "(bytes \<Rightarrow> u32) \<Rightarrow> lru_op \<Rightarrow> lru_world \<Rightarrow> (lru_out \<times> lru_world) option" where
  "lru_step crc (LFetch n) w = do { x \<leftarrow> lru_fetch_page crc n (lw_pool w); Some (lru_fetched x w) }"
| "lru_step crc (LAllocate t) w = do { x \<leftarrow> lru_allocate_page crc t (lw_pool w); Some (lru_fetched x w) }"
| "lru_step crc (LRead h) w = (case lru_live h w of
      None \<Rightarrow> Some (LNoHandle, w)
    | Some g \<Rightarrow> do {
        r \<leftarrow> handle_read g (lw_pool w);
        Some (case r of Inl e \<Rightarrow> (LStale e, w) | Inr d \<Rightarrow> (LBytes d, w))
      })"
| "lru_step crc (LModify h d) w = (case lru_live h w of
      None \<Rightarrow> Some (LNoHandle, w)
    | Some g \<Rightarrow> do {
        (r, p) \<leftarrow> handle_modify g d (lw_pool w);
        Some (case r of Inl e \<Rightarrow> (LStale e, w) | Inr _ \<Rightarrow> (LDone, w\<lparr>lw_pool := p\<rparr>))
      })"
| "lru_step crc (LDrop h) w = (case lru_live h w of
      None \<Rightarrow> Some (LNoHandle, w)
    | Some g \<Rightarrow> do {
        p \<leftarrow> handle_drop g (lw_pool w);
        Some (LDone, w\<lparr>lw_pool := p, lw_handles := (lw_handles w)[h := None]\<rparr>)
      })"
| "lru_step crc LFlush w = do {
     (r, p) \<leftarrow> lru_flush_all crc (lw_pool w);
     Some (case r of Inl e \<Rightarrow> LFailed e | Inr _ \<Rightarrow> LDone, w\<lparr>lw_pool := p\<rparr>)
   }"
| "lru_step crc LCount w = do {
     (r, p) \<leftarrow> lru_page_count (lw_pool w);
     Some (case r of Inl e \<Rightarrow> LFailed e | Inr n \<Rightarrow> LCountIs n, w\<lparr>lw_pool := p\<rparr>)
   }"

fun lru_run :: "(bytes \<Rightarrow> u32) \<Rightarrow> lru_op list \<Rightarrow> lru_world \<Rightarrow> (lru_out list \<times> lru_world) option" where
  "lru_run crc [] w = Some ([], w)"
| "lru_run crc (x # xs) w = do {
     (r, w) \<leftarrow> lru_step crc x w;
     (rs, w) \<leftarrow> lru_run crc xs w;
     Some (r # rs, w)
   }"

definition lru_op_ok :: "lru_op \<Rightarrow> bool" where
  "lru_op_ok x \<longleftrightarrow> (\<forall>h d. x = LModify h d \<longrightarrow> length d = PAGE_SIZE)"

definition handles_on :: "nat \<Rightarrow> page_handle option list \<Rightarrow> nat" where
  "handles_on i hs = length (filter (\<lambda>h. case h of None \<Rightarrow> False | Some h \<Rightarrow> hd_frame h = i) hs)"

definition lru_inv :: "lru_world \<Rightarrow> bool" where
  "lru_inv w \<longleftrightarrow> lru_wf (lw_pool w) \<and>
     (\<forall>i < length (l_frames (lw_pool w)). unat (lf_pin_count (l_frames (lw_pool w) ! i)) = handles_on i (lw_handles w)) \<and>
     (\<forall>h. Some h \<in> set (lw_handles w) \<longrightarrow> hd_frame h < length (l_frames (lw_pool w)) \<and>
        lf_page_id (l_frames (lw_pool w) ! hd_frame h) = Some (hd_page_id h))"

lemma handles_on_append: "handles_on i (hs @ [Some h]) = handles_on i hs + (if hd_frame h = i then 1 else 0)"
  by (simp add: handles_on_def)

lemma handles_on_le: "handles_on i hs \<le> length hs"
  by (simp add: handles_on_def)

lemma handles_on_drop:
  "k < length hs \<Longrightarrow> hs ! k = Some h \<Longrightarrow>
   handles_on i hs = handles_on i (hs[k := None]) + (if hd_frame h = i then 1 else 0)"
proof (induction hs arbitrary: k)
  case Nil
  then show ?case by simp
next
  case (Cons x hs)
  then show ?case by (cases k) (auto simp: handles_on_def)
qed

lemma lru_keeps_inv: "lru_inv w \<Longrightarrow> lru_wf p \<Longrightarrow> lru_keeps (lw_pool w) p \<Longrightarrow> lru_inv (w\<lparr>lw_pool := p\<rparr>)"
  by (auto simp: lru_inv_def lru_keeps_def)

section \<open>Steps\<close>

lemma lru_fetch_inv:
  assumes inv: "lru_inv w" and room: "length (lw_handles w) + 1 < 2 ^ 32"
    and wf: "lru_wf p" and same: "l_frames p = l_frames (lw_pool w)"
  shows "\<exists>x. lru_fetch_page crc n p = Some x \<and> lru_inv (snd (lru_fetched x w)) \<and>
    (\<forall>e. fst (lru_fetched x w) \<noteq> LStale e) \<and>
    length (lw_handles (snd (lru_fetched x w))) \<le> length (lw_handles w) + 1"
proof -
  let ?hs = "lw_handles w"
  have pin: "unat (lf_pin_count (l_frames p ! i)) = handles_on i ?hs" if "i < length (l_frames p)" for i
    using inv same that by (simp add: lru_inv_def)
  have small: "unat (lf_pin_count (l_frames p ! i)) + 1 < 2 ^ 32" if "i < length (l_frames p)" for i
    using pin [OF that] handles_on_le [of i ?hs] room by linarith
  have "unat (- 1 :: u32) = 2 ^ 32 - 1" by (simp add: unsigned_minus_1_eq_mask mask_eq_exp_minus_1)
  then have "\<forall>f \<in> set (l_frames p). lf_pin_count f \<noteq> -1"
    using small by (fastforce simp: in_set_conv_nth)
  from wf this show ?thesis
  proof (cases rule: lru_fetch_cases [where pid = n and crc = crc])
    case (1 e q)
    have "lru_inv (w\<lparr>lw_pool := q\<rparr>)" using lru_keeps_inv [OF inv 1(2)] 1(3) same by (simp add: lru_keeps_def)
    then show ?thesis using 1 by (simp add: lru_fetched_def)
  next
    case (2 i q)
    let ?h = "\<lparr>hd_page_id = n, hd_frame = i\<rparr>"
    have zero: "handles_on i ?hs = 0 \<or> lf_page_id (l_frames p ! i) = Some n"
      using 2(9) pin [OF 2(3)] by auto
    have pin_i: "unat (lf_pin_count (l_frames q ! i)) = handles_on i ?hs + 1"
      using 2(6) pin [OF 2(3)] small [OF 2(3)] by (simp add: unat_word_ariths)
    have "lru_inv (w\<lparr>lw_pool := q, lw_handles := ?hs @ [Some ?h]\<rparr>)"
      unfolding lru_inv_def
    proof (intro conjI allI impI)
      let ?w = "w\<lparr>lw_pool := q, lw_handles := ?hs @ [Some ?h]\<rparr>"
      show "lru_wf (lw_pool ?w)" using 2(2) by simp
      fix j assume "j < length (l_frames (lw_pool ?w))"
      then show "unat (lf_pin_count (l_frames (lw_pool ?w) ! j)) = handles_on j (lw_handles ?w)"
        using pin_i pin [of j] 2(4,7) by (cases "j = i") (simp_all add: handles_on_append)
    next
      let ?w = "w\<lparr>lw_pool := q, lw_handles := ?hs @ [Some ?h]\<rparr>"
      fix h assume h: "Some h \<in> set (lw_handles ?w)"
      have old: "hd_frame h < length (l_frames p) \<and> lf_page_id (l_frames p ! hd_frame h) = Some (hd_page_id h)"
        if "h \<noteq> ?h" using h inv same that by (auto simp: lru_inv_def)
      show "hd_frame h < length (l_frames (lw_pool ?w))" using old 2(3,4) by (cases "h = ?h") auto
      show "lf_page_id (l_frames (lw_pool ?w) ! hd_frame h) = Some (hd_page_id h)"
      proof (cases "h = ?h \<or> hd_frame h \<noteq> i")
        case True
        then show ?thesis using old 2(5,7) by (cases "h = ?h") auto
      next
        case False
        then have "Some h \<in> set ?hs" using h by auto
        then have "handles_on i ?hs \<noteq> 0"
          using False by (auto simp: handles_on_def filter_empty_conv intro!: bexI [of _ "Some h"])
        then show ?thesis using zero old False 2(5) by auto
      qed
    qed
    then show ?thesis using 2(1) by (simp add: lru_fetched_def)
  qed
qed

lemma lru_flush_keeps:
  assumes "lru_wf p" "\<forall>i \<in> set is. i < length (l_frames p)"
  shows "\<exists>r q. lru_flush_frames crc is p = Some (r, q) \<and> lru_wf q \<and> lru_keeps p q"
  using assms
proof (induction "is" arbitrary: p)
  case Nil
  then show ?case by (auto simp: lru_keeps_refl)
next
  case (Cons i "is")
  let ?f = "l_frames p ! i"
  have i: "i < length (l_frames p)" using Cons.prems by simp
  have len: "length (lf_data ?f) = PAGE_SIZE" and ps: "pf_page_size (l_page_file p) = PAGE_SIZE"
    using Cons.prems(1) i by (auto simp: lru_wf_def)
  show ?case
  proof (cases "lf_page_id ?f = None \<or> \<not> lf_is_dirty ?f")
    case True
    then show ?thesis using Cons i by (auto simp: l_frame_def split: option.splits)
  next
    case False
    then obtain old where old: "lf_page_id ?f = Some old" "lf_is_dirty ?f" by auto
    obtain r pf where w: "pf_write_page_with_checksum crc old (lf_data ?f) (l_page_file p) =
        Some (r, seal_page crc (lf_data ?f), pf)" "pf_page_size pf = PAGE_SIZE"
      using pf_write_total [OF len ps] by blast
    define f where "f = ?f\<lparr>lf_data := seal_page crc (lf_data ?f)\<rparr>"
    have sealed: "length (seal_page crc (lf_data ?f)) = PAGE_SIZE" using seal_page_simps(1) [OF len] .
    show ?thesis
    proof (cases r)
      case (Inl e)
      let ?q = "l_set i f (p\<lparr>l_page_file := pf\<rparr>)"
      have "lru_wf ?q" "lru_keeps p ?q"
        using l_set_wf [OF Cons.prems(1) i] l_set_keeps [OF i] sealed w(2) by (simp_all add: f_def)
      then show ?thesis using i old w(1) Inl by (simp add: l_frame_def f_def Let_def)
    next
      case (Inr u)
      let ?q = "l_set i (f\<lparr>lf_is_dirty := False\<rparr>) (p\<lparr>l_page_file := pf\<rparr>)"
      have q: "lru_wf ?q" "lru_keeps p ?q"
        using l_set_wf [OF Cons.prems(1) i] l_set_keeps [OF i] sealed w(2) by (simp_all add: f_def)
      obtain r' t where "lru_flush_frames crc is ?q = Some (r', t)" "lru_wf t" "lru_keeps ?q t"
        using Cons.IH [OF q(1)] Cons.prems(2) by auto
      then show ?thesis using i old w(1) Inr lru_keeps_trans [OF q(2)]
        by (auto simp: l_frame_def f_def Let_def)
    qed
  qed
qed

lemma pf_page_count_total:
  "pf_page_size pf = PAGE_SIZE \<Longrightarrow> \<exists>r pf'. pf_page_count pf = Some (r, pf') \<and> pf_page_size pf' = PAGE_SIZE"
  by (auto simp: pf_page_count_def Let_def PAGE_SIZE_def split: prod.splits sum.splits)

lemma set_file_keeps:
  "lru_wf p \<Longrightarrow> pf_page_size pf = PAGE_SIZE \<Longrightarrow> lru_wf (p\<lparr>l_page_file := pf\<rparr>) \<and> lru_keeps p (p\<lparr>l_page_file := pf\<rparr>)"
  by (auto simp: lru_wf_def lru_keeps_def)

lemma header1_runs: "\<exists>d. header1_serialize h (replicate PAGE_SIZE 0) = Some d \<and> length d = PAGE_SIZE"
  if "length (h1_magic h) = 4" for h
  using that by (simp add: header1_serialize_def overwrite_opt_def PAGE_SIZE_def)

lemma lru_allocate_inv:
  assumes inv: "lru_inv w" and room: "length (lw_handles w) + 1 < 2 ^ 32"
  shows "\<exists>x. lru_allocate_page crc t (lw_pool w) = Some x \<and> lru_inv (snd (lru_fetched x w)) \<and>
    (\<forall>e. fst (lru_fetched x w) \<noteq> LStale e) \<and>
    length (lw_handles (snd (lru_fetched x w))) \<le> length (lw_handles w) + 1"
proof -
  let ?p = "lw_pool w"
  have wf: "lru_wf ?p" and ps: "pf_page_size (l_page_file ?p) = PAGE_SIZE" using inv by (auto simp: lru_inv_def lru_wf_def)
  have failed: "lru_inv (snd (lru_fetched (Inl e, ?p\<lparr>l_page_file := pf\<rparr>) w))" if "pf_page_size pf = PAGE_SIZE" for e pf
    using lru_keeps_inv [OF inv] set_file_keeps [OF wf that] by (simp add: lru_fetched_def)
  obtain n pf where a: "pf_allocate_page (l_page_file ?p) = Some (n, pf)" "pf_page_size pf = PAGE_SIZE"
    using pf_allocate_total [OF ps] by blast
  show ?thesis
  proof (cases n)
    case (Inl e)
    then show ?thesis using a failed [OF a(2)] by (simp add: lru_allocate_page_def) (simp add: lru_fetched_def)
  next
    case (Inr page_id)
    obtain d where d: "header1_serialize (header1_new page_id t) (replicate PAGE_SIZE 0) = Some d" "length d = PAGE_SIZE"
      using header1_runs [of "header1_new page_id t"] by (auto simp: header1_new_def)
    obtain r pf' where w: "pf_write_page_with_checksum crc page_id d pf = Some (r, seal_page crc d, pf')"
      "pf_page_size pf' = PAGE_SIZE" using pf_write_total [OF d(2) a(2)] by blast
    show ?thesis
    proof (cases r)
      case (Inl e)
      then show ?thesis using a Inr d w failed [OF w(2)] by (simp add: lru_allocate_page_def) (simp add: lru_fetched_def)
    next
      case ok: (Inr u)
      show ?thesis
        using lru_fetch_inv [OF inv room, of "?p\<lparr>l_page_file := pf'\<rparr>" crc page_id] set_file_keeps [OF wf w(2)] a Inr d w ok
        by (simp add: lru_allocate_page_def)
    qed
  qed
qed

lemma lru_live_ok:
  assumes "lru_inv w" "lru_live k w = Some h"
  shows "hd_frame h < length (l_frames (lw_pool w))" "lf_page_id (l_frames (lw_pool w) ! hd_frame h) = Some (hd_page_id h)"
    and "k < length (lw_handles w)" "lw_handles w ! k = Some h"
proof -
  show k: "k < length (lw_handles w)" "lw_handles w ! k = Some h"
    using assms(2) by (auto simp: lru_live_def split: if_splits)
  then have "Some h \<in> set (lw_handles w)" by (metis nth_mem)
  then show "hd_frame h < length (l_frames (lw_pool w))" "lf_page_id (l_frames (lw_pool w) ! hd_frame h) = Some (hd_page_id h)"
    using assms(1) by (auto simp: lru_inv_def)
qed

lemma lru_drop_inv:
  assumes inv: "lru_inv w" and h: "lru_live k w = Some h"
  shows "\<exists>p. handle_drop h (lw_pool w) = Some p \<and> lru_inv (w\<lparr>lw_pool := p, lw_handles := (lw_handles w)[k := None]\<rparr>)"
proof -
  let ?p = "lw_pool w" and ?i = "hd_frame h" and ?hs = "(lw_handles w)[k := None]"
  let ?f = "l_frames ?p ! ?i"
  note l = lru_live_ok [OF inv h]
  note drop = handles_on_drop [OF l(3,4)]
  have pin: "unat (lf_pin_count ?f) = handles_on ?i ?hs + 1" using inv l(1) drop [of ?i] by (simp add: lru_inv_def)
  then have pos: "lf_pin_count ?f \<noteq> 0" by auto
  then have pin': "unat (lf_pin_count ?f - 1) = handles_on ?i ?hs" using pin by (simp add: unat_minus_one)
  define q where "q = l_set ?i (?f\<lparr>lf_pin_count := lf_pin_count ?f - 1\<rparr>) ?p"
  have step: "handle_drop h ?p = Some q"
    using l(1,2) pos by (simp add: handle_drop_def l_frame_def q_def word_gt_0)
  have "lru_wf (l_set ?i (?f\<lparr>lf_pin_count := lf_pin_count ?f - 1\<rparr>) (?p\<lparr>l_page_file := l_page_file ?p\<rparr>))"
    using inv l(1) by (intro l_set_wf) (auto simp: lru_inv_def lru_wf_def)
  then have wf: "lru_wf q" by (simp add: q_def)
  have at: "l_frames q ! j = (if j = ?i then ?f\<lparr>lf_pin_count := lf_pin_count ?f - 1\<rparr> else l_frames ?p ! j)" for j
    using l(1) by (simp add: q_def l_set_at)
  have n: "length (l_frames q) = length (l_frames ?p)" by (simp add: q_def)
  have "lru_inv (w\<lparr>lw_pool := q, lw_handles := ?hs\<rparr>)"
    unfolding lru_inv_def
  proof (intro conjI allI impI)
    let ?w = "w\<lparr>lw_pool := q, lw_handles := ?hs\<rparr>"
    show "lru_wf (lw_pool ?w)" using wf by simp
    fix j assume "j < length (l_frames (lw_pool ?w))"
    then show "unat (lf_pin_count (l_frames (lw_pool ?w) ! j)) = handles_on j (lw_handles ?w)"
      using at pin' drop [of j] inv n by (cases "j = ?i") (auto simp: lru_inv_def)
  next
    let ?w = "w\<lparr>lw_pool := q, lw_handles := ?hs\<rparr>"
    fix x assume "Some x \<in> set (lw_handles ?w)"
    then have "Some x \<in> set (lw_handles w)"
      using set_update_subset_insert [of "lw_handles w" k None] by auto
    then show "hd_frame x < length (l_frames (lw_pool ?w))"
      "lf_page_id (l_frames (lw_pool ?w) ! hd_frame x) = Some (hd_page_id x)"
      using inv n at by (auto simp: lru_inv_def)
  qed
  then show ?thesis using step by blast
qed

lemma lru_step_inv:
  assumes inv: "lru_inv w" and room: "length (lw_handles w) + 1 < 2 ^ 32" and op: "lru_op_ok x"
  shows "\<exists>out w'. lru_step crc x w = Some (out, w') \<and> lru_inv w' \<and> (\<forall>e. out \<noteq> LStale e) \<and>
    length (lw_handles w') \<le> length (lw_handles w) + 1"
proof -
  let ?p = "lw_pool w"
  have wf: "lru_wf ?p" and ps: "pf_page_size (l_page_file ?p) = PAGE_SIZE" using inv by (auto simp: lru_inv_def lru_wf_def)
  show ?thesis
  proof (cases x)
    case (LFetch n)
    obtain y where y: "lru_fetch_page crc n ?p = Some y" "lru_inv (snd (lru_fetched y w))"
      "\<forall>e. fst (lru_fetched y w) \<noteq> LStale e" "length (lw_handles (snd (lru_fetched y w))) \<le> length (lw_handles w) + 1"
      using lru_fetch_inv [OF inv room wf refl] by blast
    then show ?thesis using LFetch by (cases "lru_fetched y w") simp
  next
    case (LAllocate t)
    obtain y where y: "lru_allocate_page crc t ?p = Some y" "lru_inv (snd (lru_fetched y w))"
      "\<forall>e. fst (lru_fetched y w) \<noteq> LStale e" "length (lw_handles (snd (lru_fetched y w))) \<le> length (lw_handles w) + 1"
      using lru_allocate_inv [OF inv room] by blast
    then show ?thesis using LAllocate by (cases "lru_fetched y w") simp
  next
    case (LRead k)
    then show ?thesis using inv lru_live_ok [OF inv]
      by (cases "lru_live k w") (auto simp: handle_read_def l_frame_def ensure_current_def)
  next
    case (LModify k d)
    have len: "length d = PAGE_SIZE" using op LModify by (simp add: lru_op_ok_def)
    show ?thesis
    proof (cases "lru_live k w")
      case (Some h)
      note l = lru_live_ok [OF inv Some]
      let ?f = "(l_frames ?p ! hd_frame h)\<lparr>lf_data := d, lf_is_dirty := True\<rparr>"
      have "lru_wf (l_set (hd_frame h) ?f (?p\<lparr>l_page_file := l_page_file ?p\<rparr>))"
        "lru_keeps ?p (l_set (hd_frame h) ?f (?p\<lparr>l_page_file := l_page_file ?p\<rparr>))"
        using len ps by (intro l_set_wf [OF wf l(1)] l_set_keeps [OF l(1)]; simp)+
      then have "lru_inv (w\<lparr>lw_pool := l_set (hd_frame h) ?f ?p\<rparr>)" using lru_keeps_inv [OF inv] by simp
      then show ?thesis using LModify Some l(1,2) by (simp add: handle_modify_def l_frame_def ensure_current_def)
    qed (use LModify inv in simp)
  next
    case (LDrop k)
    then show ?thesis using inv lru_drop_inv [OF inv, of k] by (cases "lru_live k w") auto
  next
    case LFlush
    have "\<forall>i \<in> set [0..<length (l_frames ?p)]. i < length (l_frames ?p)" by simp
    from lru_flush_keeps [OF wf this, of crc] obtain r q where
      "lru_flush_all crc ?p = Some (r, q)" "lru_wf q" "lru_keeps ?p q" by (auto simp: lru_flush_all_def)
    then show ?thesis using LFlush lru_keeps_inv [OF inv] by (auto split: sum.splits)
  next
    case LCount
    obtain r pf where "pf_page_count (l_page_file ?p) = Some (r, pf)" "pf_page_size pf = PAGE_SIZE"
      using pf_page_count_total [OF ps] by blast
    then show ?thesis using LCount lru_keeps_inv [OF inv] set_file_keeps [OF wf]
      by (auto simp: lru_page_count_def split: sum.splits)
  qed
qed

lemma lru_run_inv:
  "lru_inv w \<Longrightarrow> \<forall>x \<in> set xs. lru_op_ok x \<Longrightarrow> length (lw_handles w) + length xs < 2 ^ 32 \<Longrightarrow>
   \<exists>outs w'. lru_run crc xs w = Some (outs, w') \<and> lru_inv w' \<and> (\<forall>e. LStale e \<notin> set outs)"
proof (induction xs arbitrary: w)
  case Nil
  then show ?case by simp
next
  case (Cons x xs)
  have "length (lw_handles w) + 1 < 2 ^ 32" "lru_op_ok x" using Cons.prems by auto
  from lru_step_inv [OF Cons.prems(1) this] obtain out w1 where
    s: "lru_step crc x w = Some (out, w1)" "lru_inv w1" "\<forall>e. out \<noteq> LStale e"
    "length (lw_handles w1) \<le> length (lw_handles w) + 1" by blast
  have "length (lw_handles w1) + length xs < 2 ^ 32" using s(4) Cons.prems(3) by simp
  with Cons.IH [OF s(2)] Cons.prems(2) obtain outs w2 where
    "lru_run crc xs w1 = Some (outs, w2)" "lru_inv w2" "\<forall>e. LStale e \<notin> set outs" by auto
  then show ?case using s by auto
qed

section \<open>Properties\<close>

definition empty_file :: page_file where
  "empty_file = \<lparr>pf_path = ''db'', pf_page_size = PAGE_SIZE, pf_pos = 0,
     pf_os = \<lparr>os_files = (\<lambda>_. None), os_faults = []\<rparr>\<rparr>"

lemma lru_new_inv:
  assumes "0 < n" "pf_page_size pf = PAGE_SIZE"
  shows "\<exists>p. lru_new n pf = Some p \<and> lru_inv \<lparr>lw_pool = p, lw_handles = []\<rparr>"
  using assms by (auto simp: lru_new_def lru_inv_def lru_wf_def handles_on_def lru_frame_new_def atLeast0LessThan)

definition run_lru :: "(bytes \<Rightarrow> u32) \<Rightarrow> nat \<Rightarrow> page_file \<Rightarrow> lru_op list \<Rightarrow> (lru_out list \<times> lru_world) option" where
  "run_lru crc n pf xs = do { p \<leftarrow> lru_new n pf; lru_run crc xs \<lparr>lw_pool = p, lw_handles = []\<rparr> }"

text \<open>C15: clients of the LRU pool of part2 never see a panic and never a stale handle: whatever the file
  system does, every read or modify through a handle that was not dropped finds the frame still holding
  the handle's page. The pin count of a frame is the number of live handles on it, and the recency list
  stays a permutation of the frames.\<close>
theorem lru_handles_never_stale:
  assumes "0 < n" "pf_page_size pf = PAGE_SIZE" "\<forall>x \<in> set xs. lru_op_ok x" "length xs < 2 ^ 32"
  shows "\<exists>outs w. run_lru crc n pf xs = Some (outs, w) \<and> (\<forall>e. LStale e \<notin> set outs) \<and>
    (\<forall>i < length (l_frames (lw_pool w)).
       unat (lf_pin_count (l_frames (lw_pool w) ! i)) = handles_on i (lw_handles w)) \<and>
    distinct (l_lru_list (lw_pool w)) \<and> set (l_lru_list (lw_pool w)) = {..<length (l_frames (lw_pool w))}"
proof -
  obtain p where p: "lru_new n pf = Some p" "lru_inv \<lparr>lw_pool = p, lw_handles = []\<rparr>"
    using lru_new_inv [OF assms(1,2)] by blast
  obtain outs w where "run_lru crc n pf xs = Some (outs, w)" "lru_inv w" "\<forall>e. LStale e \<notin> set outs"
    using lru_run_inv [OF p(2) assms(3), of crc] assms(4) p(1) by (auto simp: run_lru_def)
  then show ?thesis by (auto simp: lru_inv_def lru_wf_def)
qed

theorem lru_handles_never_stale_witness:
  "\<exists>outs w. run_lru (\<lambda>_. 5) 2 empty_file [LAllocate Data, LModify 0 (replicate PAGE_SIZE 1), LAllocate Data,
     LDrop 0, LAllocate Index, LRead 1, LFlush] = Some (outs, w) \<and> (\<forall>e. LStale e \<notin> set outs)"
  using lru_handles_never_stale [of 2 empty_file "[LAllocate Data, LModify 0 (replicate PAGE_SIZE 1), LAllocate Data,
     LDrop 0, LAllocate Index, LRead 1, LFlush]" "\<lambda>_. 5"]
  by (fastforce simp: empty_file_def lru_op_ok_def)

text \<open>A successful fetch makes the frame the most recent one and keeps the order of the others; on a
  miss the frame taken is the least recently used one that is not pinned. A fetch that fails changes
  neither the recency order nor any pin.\<close>
lemma lru_replacement_order:
  assumes "lru_wf p" "\<forall>f \<in> set (l_frames p). lf_pin_count f \<noteq> -1"
  shows "\<exists>r q. lru_fetch_page crc pid p = Some (r, q) \<and> lru_wf q \<and> (case r of
      Inl e \<Rightarrow> l_lru_list q = l_lru_list p \<and> lru_keeps p q
    | Inr h \<Rightarrow> l_lru_list q = hd_frame h # filter (\<lambda>j. j \<noteq> hd_frame h) (l_lru_list p) \<and>
        lf_page_id (l_frames q ! hd_frame h) = Some pid \<and>
        (l_page_table p pid = Some (hd_frame h) \<or>
         lf_pin_count (l_frames p ! hd_frame h) = 0 \<and>
         (\<exists>newer older. l_lru_list p = newer @ hd_frame h # older \<and>
            (\<forall>j \<in> set older. lf_pin_count (l_frames p ! j) \<noteq> 0))))"
  using assms
proof (cases rule: lru_fetch_cases [where pid = pid and crc = crc])
  case (1 e q)
  then show ?thesis by auto
next
  case (2 i q)
  then show ?thesis by auto
qed

end
