(* ===== verification/Disk_Alloc.thy ===== *)
theory Disk_Alloc imports Disk_Correct begin

text \<open>
  \<^verbatim>\<open>RelationFile::allocate_page\<close> and \<^verbatim>\<open>page_count\<close>: what an allocation adds to the file, what a torn
  allocation leaves behind, and how the page numbers it hands out relate to the segment files of
  \<^verbatim>\<open>DiskManager\<close>.
\<close>

lemma rf_page_count_aligned:
  assumes "rf_page_size rf = PAGE_SIZE" "os_faults s = []" "n < 2 ^ 32"
    and "length (file_bytes s (rf_path rf)) = n * PAGE_SIZE"
  shows "rf_page_count rf s = Some (Inr (of_nat n), s)"
  using assms by (simp add: rf_page_count_def os_len_def take_fault_none PAGE_SIZE_def)

lemma rf_page_count_torn:
  assumes "rf_page_size rf = PAGE_SIZE" "os_faults s = []"
    and "length (file_bytes s (rf_path rf)) mod PAGE_SIZE \<noteq> 0"
  shows "\<exists>e. rf_page_count rf s = Some (Inl e, s)"
  using assms by (simp add: rf_page_count_def os_len_def take_fault_none PAGE_SIZE_def)

lemma file_bytes_upd: "file_bytes (s\<lparr>os_files := (os_files s)(p \<mapsto> f)\<rparr>) p = f"
  by (simp add: file_bytes_def)

text \<open>On a relation file of \<open>n\<close> whole pages, when the file system does not fail, \<^verbatim>\<open>allocate_page\<close>
  returns page number \<open>n\<close> of its relation, appends one page of zeros and changes nothing else; the page
  count is then \<open>n + 1\<close>. The new page reads as a checksum mismatch until it is written, unless the
  checksum of an empty body happens to be zero.\<close>
lemma rf_allocate_page_spec:
  assumes "rf_page_size rf = PAGE_SIZE" "os_faults s = []" "n + 1 < 2 ^ 32"
    and "length (file_bytes s (rf_path rf)) = n * PAGE_SIZE"
    and "length buf = PAGE_SIZE"
  shows "\<exists>s'. rf_allocate_page rf s = Some (Inr \<lparr>relation_id = rf_relation_id rf, page_no = of_nat n\<rparr>, s') \<and>
    file_bytes s' (rf_path rf) = file_bytes s (rf_path rf) @ replicate PAGE_SIZE 0 \<and>
    (\<forall>q. q \<noteq> rf_path rf \<longrightarrow> os_files s' q = os_files s q) \<and>
    rf_page_count rf s' = Some (Inr (of_nat (n + 1)), s') \<and>
    (crc (replicate (PAGE_SIZE - PAGE_HEADER_SIZE) 0) \<noteq> 0 \<longrightarrow>
      (\<exists>e. rf_read_and_verify_page crc rf (of_nat n) buf s' = Some (Inl e, replicate PAGE_SIZE 0, s')))"
proof -
  let ?f = "file_bytes s (rf_path rf)" and ?z = "replicate PAGE_SIZE 0 :: bytes"
  define s' where "s' = s\<lparr>os_files := (os_files s)(rf_path rf \<mapsto> ?f @ ?z)\<rparr>"
  have pat: "patch (n * PAGE_SIZE) ?z ?f = ?f @ ?z"
    using assms(4) by (simp add: patch_def overwrite_def PAGE_SIZE_def)
  have count: "rf_page_count rf s = Some (Inr (of_nat n), s)"
    using rf_page_count_aligned assms by simp
  have alloc: "rf_allocate_page rf s = Some (Inr \<lparr>relation_id = rf_relation_id rf, page_no = of_nat n\<rparr>, s')"
    using assms count pat
    by (simp add: rf_allocate_page_def os_len_def take_fault_none os_write_all_at_def s'_def)
  have bytes: "file_bytes s' (rf_path rf) = ?f @ ?z" by (simp add: s'_def file_bytes_upd)
  have faults: "os_faults s' = []" using assms(2) by (simp add: s'_def)
  have count': "rf_page_count rf s' = Some (Inr (of_nat (n + 1)), s')"
    using assms bytes faults by (intro rf_page_count_aligned) simp_all
  have n: "unat (of_nat n :: u32) = n" using assms(3) by (simp add: unat_of_nat)
  have "os_read_exact_at (rf_path rf) (n * PAGE_SIZE) buf s' = (Inr (), ?z, s')"
    using bytes faults assms(4,5)
    by (simp add: os_read_exact_at_def take_fault_none overwrite_def bslice_def)
  moreover have "n * PAGE_SIZE < 2 ^ 64" using assms(3) by (simp add: PAGE_SIZE_def)
  ultimately have "rf_read_page rf (of_nat n) buf s' = Some (Inr (), ?z, s')"
    using n assms(1,5) by (simp add: rf_read_page_def)
  moreover have "slice_opt 13 17 ?z = Some (replicate 4 0)"
    by (simp add: slice_opt_def bslice_def PAGE_SIZE_def)
  moreover have "u32_from_le (replicate 4 0) = 0" by (simp add: u32_from_le_def numeral_eq_Suc)
  moreover have "compute_checksum crc ?z = Some (crc (replicate (PAGE_SIZE - PAGE_HEADER_SIZE) 0))"
    by (subst compute_checksum_eq) (simp_all add: PAGE_SIZE_def)
  ultimately have "crc (replicate (PAGE_SIZE - PAGE_HEADER_SIZE) 0) \<noteq> 0 \<Longrightarrow>
      \<exists>e. rf_read_and_verify_page crc rf (of_nat n) buf s' = Some (Inl e, ?z, s')"
    by (simp add: rf_read_and_verify_page_def)
  then show ?thesis using alloc bytes count' by (auto simp: s'_def)
qed

definition sample_relation :: relation_file where
  "sample_relation = \<lparr>rf_relation_id = 7, rf_path = ''r'', rf_page_size = PAGE_SIZE\<rparr>"

definition sample_os :: "nat \<Rightarrow> nat option list \<Rightarrow> os" where
  "sample_os n faults = \<lparr>os_files = [''r'' \<mapsto> replicate (n * PAGE_SIZE) 1], os_faults = faults\<rparr>"

section \<open>A torn allocation\<close>

text \<open>What is called on a relation file after an allocation failed: the page count, further allocations, reads, and writes of
  pages. A result is whether the call succeeded.\<close>

datatype rf_call = CountPages | AllocatePage | ReadPage u32 | WritePage u32 bytes

fun rf_call_run :: "(bytes \<Rightarrow> u32) \<Rightarrow> relation_file \<Rightarrow> rf_call \<Rightarrow> os \<Rightarrow> (bool \<times> os) option" where
  "rf_call_run crc rf CountPages s = map_option (\<lambda>(r, s). (\<not> isl r, s)) (rf_page_count rf s)"
| "rf_call_run crc rf AllocatePage s = map_option (\<lambda>(r, s). (\<not> isl r, s)) (rf_allocate_page rf s)"
| "rf_call_run crc rf (ReadPage m) s =
     map_option (\<lambda>(r, _, s). (\<not> isl r, s)) (rf_read_and_verify_page crc rf m (replicate PAGE_SIZE 0) s)"
| "rf_call_run crc rf (WritePage m b) s = map_option (\<lambda>(r, _, s). (\<not> isl r, s)) (rf_write_page_with_checksum crc rf m b s)"

fun rf_calls_run :: "(bytes \<Rightarrow> u32) \<Rightarrow> relation_file \<Rightarrow> rf_call list \<Rightarrow> os \<Rightarrow> (bool list \<times> os) option" where
  "rf_calls_run crc rf [] s = Some ([], s)"
| "rf_calls_run crc rf (c # cs) s = do {
     (r, s) \<leftarrow> rf_call_run crc rf c s;
     (rs, s) \<leftarrow> rf_calls_run crc rf cs s;
     Some (r # rs, s)
   }"

text \<open>Writes go to pages whose allocation succeeded; a call that grows the file or counts its pages is one that can be blocked.\<close>

fun call_below :: "nat \<Rightarrow> rf_call \<Rightarrow> bool" where
  "call_below n (WritePage m b) = (unat m < n \<and> length b = PAGE_SIZE)"
| "call_below n _ = True"

fun call_sizes :: "rf_call \<Rightarrow> bool" where
  "call_sizes CountPages = True"
| "call_sizes AllocatePage = True"
| "call_sizes _ = False"

lemma page_bytes_u64: "unat (m :: u32) * PAGE_SIZE < 2 ^ 64"
  using page_offset_u64 [of "\<lparr>relation_id = 0, page_no = m\<rparr>"] by (simp add: page_offset_def)

lemma torn_call:
  assumes rf: "rf_page_size rf = PAGE_SIZE"
    and len: "length (file_bytes s (rf_path rf)) = n * PAGE_SIZE + k" "0 < k" "k < PAGE_SIZE" and c: "call_below n c"
  shows "\<exists>r s'. rf_call_run crc rf c s = Some (r, s') \<and> (call_sizes c \<longrightarrow> \<not> r) \<and>
    length (file_bytes s' (rf_path rf)) = n * PAGE_SIZE + k"
proof -
  have torn: "length (file_bytes s (rf_path rf)) mod PAGE_SIZE \<noteq> 0" using len by simp
  have count: "\<exists>e t. rf_page_count rf s' = Some (Inl e, t) \<and> os_files t = os_files s'"
    if "file_bytes s' (rf_path rf) = file_bytes s (rf_path rf)" for s'
    using torn that rf
    by (auto simp: rf_page_count_def os_len_def PAGE_SIZE_def split: prod.splits option.splits)
  have same: "length (file_bytes t (rf_path rf)) = n * PAGE_SIZE + k" if "os_files t = os_files s" for t
    using that len(1) by (simp add: file_bytes_def)
  show ?thesis
  proof (cases c)
    case CountPages
    then show ?thesis using count [of s] same by auto
  next
    case AllocatePage
    obtain r t where l: "os_len (rf_path rf) s = (r, t)" by fastforce
    note t = os_len_files [OF l]
    show ?thesis
    proof (cases r)
      case (Inl e)
      then show ?thesis using AllocatePage l t same by (auto simp: rf_allocate_page_def)
    next
      case (Inr m)
      obtain e u where "rf_page_count rf t = Some (Inl e, u)" "os_files u = os_files t"
        using count [of t] t by (auto simp: file_bytes_def)
      then show ?thesis using AllocatePage l Inr t same by (auto simp: rf_allocate_page_def)
    qed
  next
    case (ReadPage m)
    then show ?thesis
      using rf_read_verified [of "replicate PAGE_SIZE 0" rf m crc s] rf page_bytes_u64 [of m] same by fastforce
  next
    case (WritePage m b)
    then have b: "length b = PAGE_SIZE" "unat m < n" using c by simp_all
    obtain r s' j where w: "rf_write_page_with_checksum crc rf m b s = Some (r, seal_page crc b, s')"
      "file_bytes s' (rf_path rf) = patch (unat m * PAGE_SIZE) (take j (seal_page crc b)) (file_bytes s (rf_path rf))"
      by (rule rf_write_checksummed [OF b(1) rf page_bytes_u64 [of m], where crc = crc and s = s]) blast
    have "(unat m + 1) * PAGE_SIZE \<le> n * PAGE_SIZE" using b(2) by (intro mult_le_mono1) simp
    then have "unat m * PAGE_SIZE + length (take j (seal_page crc b)) \<le> n * PAGE_SIZE + k"
      using seal_page_simps(1) [OF b(1), of crc] by simp
    then have "length (file_bytes s' (rf_path rf)) = n * PAGE_SIZE + k"
      unfolding w(2) using len(1) by (cases "take j (seal_page crc b) = []") (simp add: patch_def, simp add: length_patch)
    then show ?thesis using WritePage w(1) by simp
  qed
qed

lemma torn_calls:
  assumes "rf_page_size rf = PAGE_SIZE" "length (file_bytes s (rf_path rf)) = n * PAGE_SIZE + k" "0 < k" "k < PAGE_SIZE"
    "\<forall>c \<in> set cs. call_below n c"
  shows "\<exists>rs s'. rf_calls_run crc rf cs s = Some (rs, s') \<and> list_all2 (\<lambda>c r. call_sizes c \<longrightarrow> \<not> r) cs rs \<and>
    length (file_bytes s' (rf_path rf)) = n * PAGE_SIZE + k"
  using assms(2,5)
proof (induction cs arbitrary: s)
  case (Cons c cs)
  obtain r t where r: "rf_call_run crc rf c s = Some (r, t)" "call_sizes c \<longrightarrow> \<not> r"
    "length (file_bytes t (rf_path rf)) = n * PAGE_SIZE + k"
    using torn_call [OF assms(1) Cons.prems(1) assms(3,4), of c crc] Cons.prems(2) by auto
  moreover have "\<forall>c \<in> set cs. call_below n c" using Cons.prems(2) by simp
  ultimately show ?case using Cons.IH [of t] by fastforce
qed simp

text \<open>Writing the page at the torn end in full makes the file aligned again.\<close>

lemma torn_repaired:
  assumes rf: "rf_page_size rf = PAGE_SIZE" and len: "length (file_bytes s (rf_path rf)) = n * PAGE_SIZE + k" "k < PAGE_SIZE"
    and n: "n + 1 < 2 ^ 32" and b: "length b = PAGE_SIZE" and f: "os_faults s = []"
  shows "\<exists>s'. rf_write_page_with_checksum crc rf (of_nat n) b s = Some (Inr (), seal_page crc b, s') \<and>
    rf_page_count rf s' = Some (Inr (of_nat (n + 1)), s')"
proof -
  have m: "unat (of_nat n :: u32) = n" using n by (simp add: unat_of_nat)
  let ?b = "seal_page crc b"
  have lb: "length ?b = PAGE_SIZE" by (rule seal_page_simps(1) [OF b])
  let ?s = "s\<lparr>os_files := (os_files s)(rf_path rf \<mapsto> patch (n * PAGE_SIZE) ?b (file_bytes s (rf_path rf)))\<rparr>"
  have "rf_write_page_with_checksum crc rf (of_nat n) b s = Some (Inr (), ?b, ?s)"
    using b rf m lb f page_bytes_u64 [of "of_nat n"]
    by (simp add: rf_write_page_with_checksum_def compute_checksum_eq rf_write_page_def overwrite_opt_def seal_page_def sealed_def
        os_write_all_at_def take_fault_none PAGE_SIZE_def)
  moreover have "?b \<noteq> []" using lb by (auto simp: PAGE_SIZE_def)
  then have "length (file_bytes ?s (rf_path rf)) = (n + 1) * PAGE_SIZE"
    using len lb by (simp add: file_bytes_upd length_patch)
  from rf_page_count_aligned [OF rf _ n this] f have "rf_page_count rf ?s = Some (Inr (of_nat (n + 1)), ?s)" by simp
  ultimately show ?thesis by blast
qed

text \<open>C21: an allocation whose write fails part way, after a number of bytes that is no multiple of the
  page size, leaves a file length that is not aligned. Through every later history of page counts, allocations, reads, and
  writes of the pages that were allocated, whatever fails in it, each \<^verbatim>\<open>page_count\<close> and each \<^verbatim>\<open>allocate_page\<close> returns an
  error and the length stays as it is. What ends it is a full write of the page at the torn end, whose number was
  never handed out: then the count is \<open>n + 1\<close>.\<close>
theorem torn_allocation_blocks:
  assumes "rf_page_size rf = PAGE_SIZE" "n + 1 < 2 ^ 32" "0 < k" "k < PAGE_SIZE"
    and "length (file_bytes s (rf_path rf)) = n * PAGE_SIZE" "os_faults s = [None, None, Some k]"
    and "\<forall>c \<in> set cs. call_below n c" "length b = PAGE_SIZE"
  shows "\<exists>e s1 rs s2. rf_allocate_page rf s = Some (Inl e, s1) \<and>
    rf_calls_run crc rf cs (s1\<lparr>os_faults := faults\<rparr>) = Some (rs, s2) \<and> list_all2 (\<lambda>c r. call_sizes c \<longrightarrow> \<not> r) cs rs \<and>
    length (file_bytes s2 (rf_path rf)) = n * PAGE_SIZE + k \<and>
    (\<exists>s3. rf_write_page_with_checksum crc rf (of_nat n) b (s2\<lparr>os_faults := []\<rparr>) = Some (Inr (), seal_page crc b, s3) \<and>
      rf_page_count rf s3 = Some (Inr (of_nat (n + 1)), s3))"
proof -
  let ?f = "file_bytes s (rf_path rf)" and ?z = "replicate PAGE_SIZE 0 :: bytes"
  let ?s2 = "s\<lparr>os_faults := [Some k]\<rparr>"
  define s' where "s' = s\<lparr>os_faults := [], os_files := (os_files s)(rf_path rf \<mapsto> patch (n * PAGE_SIZE) (take k ?z) ?f)\<rparr>"
  have fb [simp]: "file_bytes (s\<lparr>os_faults := fs\<rparr>) p = file_bytes s p" for fs p and s :: os by (simp add: file_bytes_def)
  have "rf_page_count rf (s\<lparr>os_faults := [None, Some k]\<rparr>) = Some (Inr (of_nat n), ?s2)"
    using assms by (simp add: rf_page_count_def os_len_def take_fault.simps PAGE_SIZE_def)
  then have alloc: "rf_allocate_page rf s = Some (Inl io_fault, s')"
    using assms
    by (simp add: rf_allocate_page_def os_len_def take_fault.simps os_write_all_at_def s'_def)
  have "length (file_bytes s' (rf_path rf)) = n * PAGE_SIZE + k"
    using assms by (simp add: s'_def file_bytes_def length_patch)
  then have len: "length (file_bytes (s'\<lparr>os_faults := faults\<rparr>) (rf_path rf)) = n * PAGE_SIZE + k" by simp
  obtain rs s2 where run: "rf_calls_run crc rf cs (s'\<lparr>os_faults := faults\<rparr>) = Some (rs, s2)"
    "list_all2 (\<lambda>c r. call_sizes c \<longrightarrow> \<not> r) cs rs" "length (file_bytes s2 (rf_path rf)) = n * PAGE_SIZE + k"
    using torn_calls [OF assms(1) len assms(3,4,7), of crc] by blast
  have "length (file_bytes (s2\<lparr>os_faults := []\<rparr>) (rf_path rf)) = n * PAGE_SIZE + k" using run(3) by simp
  from torn_repaired [OF assms(1) this assms(4,2,8), of crc] alloc run show ?thesis by auto
qed

text \<open>The witness counts, allocates and writes a page after an allocation that tore at byte 100.\<close>

theorem torn_allocation_blocks_witness:
  "\<exists>e s1 rs s2. rf_allocate_page sample_relation (sample_os 2 [None, None, Some 100]) = Some (Inl e, s1) \<and>
     rf_calls_run (\<lambda>_. 5) sample_relation [CountPages, WritePage 1 (replicate PAGE_SIZE 7), AllocatePage]
       (s1\<lparr>os_faults := []\<rparr>) = Some (rs, s2) \<and> length rs = 3 \<and> \<not> rs ! 0 \<and> \<not> rs ! 2"
proof -
  have *: "rf_page_size sample_relation = PAGE_SIZE" "2 + 1 < (2 :: nat) ^ 32" "0 < (100 :: nat)" "100 < PAGE_SIZE"
    "length (file_bytes (sample_os 2 [None, None, Some 100]) (rf_path sample_relation)) = 2 * PAGE_SIZE"
    "os_faults (sample_os 2 [None, None, Some 100]) = [None, None, Some 100]"
    "\<forall>c \<in> set [CountPages, WritePage 1 (replicate PAGE_SIZE 7), AllocatePage]. call_below 2 c"
    "length (replicate PAGE_SIZE 7 :: bytes) = PAGE_SIZE"
    by (simp_all add: sample_relation_def sample_os_def file_bytes_def PAGE_SIZE_def)
  show ?thesis using torn_allocation_blocks [OF *, of "\<lambda>_. 5" "[]"] by (auto simp: list_all2_Cons1)
qed

definition full_segment :: os where
  "full_segment = \<lparr>os_files = (\<lambda>_. Some (replicate (262144 * PAGE_SIZE) 0)), os_faults = []\<rparr>"

text \<open>C22: the page number an allocation returns counts the pages of one segment file, while
  \<^verbatim>\<open>DiskManager\<close> reads a page number as absolute. Allocating in the fresh file of segment 1 hands out
  page 0, which belongs to segment 0; allocating in a full segment 0 appends the page to that file but
  hands out page 262144, which the manager looks for in the file of segment 1.\<close>
theorem allocate_page_wrong_segment:
  shows "(\<exists>rf d s q. disk_get_relation \<lparr>relation_id = 7, page_no = PAGES_PER_FILE\<rparr> blank_disk = (Inr rf, d) \<and>
     rf_allocate_page rf (disk_os d) = Some (Inr q, s) \<and> q = \<lparr>relation_id = 7, page_no = 0\<rparr> \<and>
     get_segment_idx (page_no q) \<noteq> get_segment_idx PAGES_PER_FILE) \<and>
   (\<exists>s' q. rf_allocate_page (page_file_of dir \<lparr>relation_id = 7, page_no = 0\<rparr>) full_segment = Some (Inr q, s') \<and>
     page_no q = PAGES_PER_FILE \<and>
     rf_path (page_file_of dir q) \<noteq> rf_path (page_file_of dir \<lparr>relation_id = 7, page_no = 0\<rparr>))"
proof
  let ?pid = "\<lparr>relation_id = 7, page_no = PAGES_PER_FILE\<rparr>"
  have seg: "get_segment_idx PAGES_PER_FILE = 1" "get_segment_idx 0 = 0"
    by (simp_all add: get_segment_idx_def PAGES_PER_FILE_eq)
  obtain rf d where get: "disk_get_relation ?pid blank_disk = (Inr rf, d)" "os_faults (disk_os d) = []"
    using get_relation_faultless [of blank_disk ?pid] by (auto simp: blank_disk_def)
  note g = get_relation_ok [OF blank_disk_ok get(1)]
  have rf: "rf = page_file_of (relations_dir blank_disk) ?pid" using g(4) by simp
  have "length (file_bytes (disk_os d) (rf_path rf)) = 0 * PAGE_SIZE"
    using g(2) by (simp add: blank_disk_def file_bytes_def)
  then have "rf_page_count rf (disk_os d) = Some (Inr 0, disk_os d)"
    using rf_page_count_aligned [of rf "disk_os d" 0] rf get(2) by simp
  then have "\<exists>s. rf_allocate_page rf (disk_os d) = Some (Inr \<lparr>relation_id = 7, page_no = 0\<rparr>, s)"
    using get(2) rf by (simp add: rf_allocate_page_def os_len_def take_fault_none os_write_all_at_def)
  then show "\<exists>rf d s q. disk_get_relation ?pid blank_disk = (Inr rf, d) \<and>
     rf_allocate_page rf (disk_os d) = Some (Inr q, s) \<and> q = \<lparr>relation_id = 7, page_no = 0\<rparr> \<and>
     get_segment_idx (page_no q) \<noteq> get_segment_idx PAGES_PER_FILE"
    using get(1) seg by auto
next
  let ?rf = "page_file_of dir \<lparr>relation_id = 7, page_no = 0\<rparr>" and ?s = full_segment
  have f: "os_faults ?s = []" and len: "length (file_bytes ?s (rf_path ?rf)) = 262144 * PAGE_SIZE"
    by (simp_all add: full_segment_def file_bytes_def)
  have count: "rf_page_count ?rf ?s = Some (Inr 262144, ?s)"
    using rf_page_count_aligned [of ?rf ?s 262144] f len by simp
  then have "\<exists>s'. rf_allocate_page ?rf ?s = Some (Inr \<lparr>relation_id = 7, page_no = 262144\<rparr>, s')"
    using f by (simp add: rf_allocate_page_def os_len_def take_fault_none os_write_all_at_def)
  moreover have "rf_path (page_file_of dir \<lparr>relation_id = 7, page_no = 262144\<rparr>) \<noteq> rf_path ?rf"
    unfolding page_file_path_iff by (simp add: get_segment_idx_def PAGES_PER_FILE_eq)
  ultimately show "\<exists>s' q. rf_allocate_page ?rf ?s = Some (Inr q, s') \<and> page_no q = PAGES_PER_FILE \<and>
     rf_path (page_file_of dir q) \<noteq> rf_path ?rf"
    by (fastforce simp: PAGES_PER_FILE_eq)
qed

end
