(* ===== verification/Clock_Pool_V2.thy ===== *)
theory Clock_Pool_V2 imports Clock_Progress begin

text \<open>
  \<^verbatim>\<open>project1/buffer_pool_v2.rs\<close>: the second CLOCK pool, with a state per frame, reservations by
  compare-and-swap on the pin count, and the table behind a read-write lock. Every fetch runs under
  that lock, so fetches are steps one after the other, as in the first pool. The section at the end
  proves that the two pools compute the same results on every history.
\<close>

section \<open>State\<close>

datatype frame_state = Empty | Valid page_id | Evicting

record frame2 =
  f2_state :: frame_state
  f2_data :: bytes
  f2_pin :: u32
  f2_usage :: u8
  f2_dirty :: bool

record 's pool2 =
  frames2 :: "frame2 list"
  page_table2 :: "page_id \<Rightarrow> nat option"
  clock_hand2 :: nat
  stats2 :: pool_stats
  store2 :: 's

definition frame2_empty :: frame2 where
  "frame2_empty = \<lparr>f2_state = Empty, f2_data = replicate PAGE_SIZE 0, f2_pin = 0, f2_usage = 0, f2_dirty = False\<rparr>"

definition pool2_new :: "nat \<Rightarrow> 's \<Rightarrow> 's pool2 option" where
  "pool2_new capacity s =
     (if capacity > 0
      then Some \<lparr>frames2 = replicate capacity frame2_empty, page_table2 = (\<lambda>_. None), clock_hand2 = 0,
        stats2 = stats_default, store2 = s\<rparr>
      else None)"

definition frame2_at :: "nat \<Rightarrow> 's pool2 \<Rightarrow> frame2 option" where
  "frame2_at i p = (if i < length (frames2 p) then Some (frames2 p ! i) else None)"

definition set_frame2 :: "nat \<Rightarrow> frame2 \<Rightarrow> 's pool2 \<Rightarrow> 's pool2" where
  "set_frame2 i f p = p\<lparr>frames2 := (frames2 p)[i := f]\<rparr>"

section \<open>Victim selection\<close>

text \<open>\<^verbatim>\<open>compare_exchange(0, 1)\<close> on the pin count: the frame with the reservation, or nothing.\<close>

definition reserve2 :: "frame2 \<Rightarrow> frame2 option" where
  "reserve2 f = (if f2_pin f = 0 then Some (f\<lparr>f2_pin := 1\<rparr>) else None)"

fun clock_sweep2 :: "nat \<Rightarrow> bool \<Rightarrow> 's pool2 \<Rightarrow> (nat option \<times> bool \<times> 's pool2) option" where
  "clock_sweep2 0 found p = Some (None, found, p)"
| "clock_sweep2 (Suc k) found p = do {
     let index = clock_hand2 p;
     let p = p\<lparr>clock_hand2 := (clock_hand2 p + 1) mod length (frames2 p)\<rparr>;
     f \<leftarrow> frame2_at index p;
     (case reserve2 f of
        None \<Rightarrow> clock_sweep2 k found p
      | Some f \<Rightarrow>
          if f2_usage f = 0 then Some (Some index, True, set_frame2 index f p)
          else clock_sweep2 k True
            (set_frame2 index (f\<lparr>f2_usage := f2_usage f - 1, f2_pin := f2_pin f - 1\<rparr>)
              (p\<lparr>stats2 := (stats2 p)\<lparr>clock_second_chances := clock_second_chances (stats2 p) + 1\<rparr>\<rparr>)))
   }"

fun clock_passes2 :: "nat \<Rightarrow> 's pool2 \<Rightarrow> ((pool_error + nat) \<times> 's pool2) option" where
  "clock_passes2 0 p = None"
| "clock_passes2 (Suc k) p = do {
     (victim, found, p) \<leftarrow> clock_sweep2 (length (frames2 p)) False p;
     (case victim of
        Some index \<Rightarrow> Some (Inr index, p)
      | None \<Rightarrow> if \<not> found then Some (Inl AllFramesPinned, p) else clock_passes2 k p)
   }"

definition choose_victim2 :: "'s pool2 \<Rightarrow> ((pool_error + nat) \<times> 's pool2) option" where
  "choose_victim2 p = clock_passes2 (unat MAX_USAGE_COUNT + 1) p"

section \<open>Fetch\<close>

definition record_access2 :: "access_mode \<Rightarrow> frame2 \<Rightarrow> frame2" where
  "record_access2 mode f = (case mode of
      Normal \<Rightarrow> f\<lparr>f2_usage := min (saturating_add1 (f2_usage f)) MAX_USAGE_COUNT\<rparr>
    | BulkRead \<Rightarrow> f\<lparr>f2_usage := max (f2_usage f) 1\<rparr>)"

definition pin_hit2 :: "nat \<Rightarrow> page_id \<Rightarrow> access_mode \<Rightarrow> 's pool2 \<Rightarrow> (page_guard \<times> 's pool2) option" where
  "pin_hit2 index pid mode p = do {
     f \<leftarrow> frame2_at index p;
     let p = set_frame2 index (record_access2 mode (f\<lparr>f2_pin := f2_pin f + 1\<rparr>)) p;
     Some (\<lparr>pg_page_id = pid, pg_frame = index\<rparr>, p\<lparr>stats2 := (stats2 p)\<lparr>hits := hits (stats2 p) + 1\<rparr>\<rparr>)
   }"

text \<open>The error paths restore the state of the frame and give the reservation back.\<close>

definition restore_victim2 :: "nat \<Rightarrow> frame_state \<Rightarrow> 's pool2 \<Rightarrow> 's pool2 option" where
  "restore_victim2 i previous p = do {
     f \<leftarrow> frame2_at i p;
     Some (set_frame2 i (f\<lparr>f2_state := previous, f2_pin := f2_pin f - 1\<rparr>) p)
   }"

definition write_back2 ::
    "(page_id \<Rightarrow> bytes \<Rightarrow> 's \<Rightarrow> ((io_error + unit) \<times> bytes \<times> 's) option) \<Rightarrow>
     nat \<Rightarrow> frame_state \<Rightarrow> page_id option \<Rightarrow> 's pool2 \<Rightarrow> ((pool_error + unit) \<times> 's pool2) option" where
  "write_back2 wr i previous old_page_id p = do {
     f \<leftarrow> frame2_at i p;
     (case old_page_id of
        None \<Rightarrow> Some (Inr (), p)
      | Some old_id \<Rightarrow>
          if \<not> f2_dirty f then Some (Inr (), p)
          else do {
            (r, _, s) \<leftarrow> wr old_id (f2_data f) (store2 p);
            let p = p\<lparr>store2 := s\<rparr>;
            (case r of
               Inl e \<Rightarrow> do { p \<leftarrow> restore_victim2 i previous p; Some (Inl (Io e), p) }
             | Inr _ \<Rightarrow> Some (Inr (), set_frame2 i (f\<lparr>f2_dirty := False\<rparr>) p))
          })
   }"

definition install_page2 ::
    "nat \<Rightarrow> page_id \<Rightarrow> page_id option \<Rightarrow> bytes \<Rightarrow> 's pool2 \<Rightarrow> 's pool2 option" where
  "install_page2 i pid old_page_id new_data p = do {
     f \<leftarrow> frame2_at i p;
     let p = set_frame2 i (f\<lparr>f2_data := new_data, f2_dirty := False, f2_usage := 1, f2_state := Valid pid\<rparr>) p;
     let table = (case old_page_id of Some old_id \<Rightarrow> (page_table2 p)(old_id := None) | None \<Rightarrow> page_table2 p);
     let st = stats2 p;
     let st = st\<lparr>misses := misses st + 1\<rparr>;
     let st = (if old_page_id \<noteq> None then st\<lparr>evictions := evictions st + 1\<rparr> else st);
     Some (p\<lparr>page_table2 := table(pid \<mapsto> i), stats2 := st\<rparr>)
   }"

text \<open>The first lookup, under the read lock, and the second, under the write lock, see the same table
  when no other thread runs between them.\<close>

definition fetch_page2 ::
    "(page_id \<Rightarrow> bytes \<Rightarrow> 's \<Rightarrow> ((io_error + unit) \<times> bytes \<times> 's) option) \<Rightarrow>
     (page_id \<Rightarrow> bytes \<Rightarrow> 's \<Rightarrow> ((io_error + unit) \<times> bytes \<times> 's) option) \<Rightarrow>
     page_id \<Rightarrow> access_mode \<Rightarrow> 's pool2 \<Rightarrow> ((pool_error + page_guard) \<times> 's pool2) option" where
  "fetch_page2 rd wr pid mode p = (case page_table2 p pid of
      Some frame_idx \<Rightarrow> map_option (map_prod Inr id) (pin_hit2 frame_idx pid mode p)
    | None \<Rightarrow> do {
        (v, p) \<leftarrow> choose_victim2 p;
        (case v of
           Inl e \<Rightarrow> Some (Inl e, p)
         | Inr i \<Rightarrow> do {
             f \<leftarrow> frame2_at i p;
             let previous = f2_state f;
             old_page_id \<leftarrow> (case previous of
                Empty \<Rightarrow> Some None
              | Valid old_id \<Rightarrow> Some (Some old_id)
              | Evicting \<Rightarrow> None);
             let p = set_frame2 i (f\<lparr>f2_state := Evicting\<rparr>) p;
             (w, p) \<leftarrow> write_back2 wr i previous old_page_id p;
             (case w of
                Inl e \<Rightarrow> Some (Inl e, p)
              | Inr _ \<Rightarrow> do {
                  (r, new_data, s) \<leftarrow> rd pid (replicate PAGE_SIZE 0) (store2 p);
                  let p = p\<lparr>store2 := s\<rparr>;
                  (case r of
                     Inl e \<Rightarrow> do { p \<leftarrow> restore_victim2 i previous p; Some (Inl (Io e), p) }
                   | Inr _ \<Rightarrow> do {
                       p \<leftarrow> install_page2 i pid old_page_id new_data p;
                       Some (Inr \<lparr>pg_page_id = pid, pg_frame = i\<rparr>, p)
                     })
                })
           })
      })"

section \<open>Flush and guards\<close>

fun flush_frames2 ::
    "(page_id \<Rightarrow> bytes \<Rightarrow> 's \<Rightarrow> ((io_error + unit) \<times> bytes \<times> 's) option) \<Rightarrow> nat list \<Rightarrow> 's pool2 \<Rightarrow>
     ((pool_error + unit) \<times> 's pool2) option" where
  "flush_frames2 wr [] p = Some (Inr (), p)"
| "flush_frames2 wr (i # is) p = do {
     f \<leftarrow> frame2_at i p;
     (case f2_state f of
        Valid pid \<Rightarrow>
          if \<not> f2_dirty f then flush_frames2 wr is p
          else do {
            (r, _, s) \<leftarrow> wr pid (f2_data f) (store2 p);
            let p = p\<lparr>store2 := s\<rparr>;
            (case r of
               Inl e \<Rightarrow> Some (Inl (Io e), p)
             | Inr _ \<Rightarrow> flush_frames2 wr is (set_frame2 i (f\<lparr>f2_dirty := False\<rparr>) p))
          }
      | _ \<Rightarrow> flush_frames2 wr is p)
   }"

definition flush_all2 ::
    "(page_id \<Rightarrow> bytes \<Rightarrow> 's \<Rightarrow> ((io_error + unit) \<times> bytes \<times> 's) option) \<Rightarrow> 's pool2 \<Rightarrow>
     ((pool_error + unit) \<times> 's pool2) option" where
  "flush_all2 wr p = flush_frames2 wr [0..<length (frames2 p)] p"

definition guard_read2 :: "page_guard \<Rightarrow> (bytes \<Rightarrow> 'r) \<Rightarrow> 's pool2 \<Rightarrow> 'r option" where
  "guard_read2 g fn p = map_option (\<lambda>f. fn (f2_data f)) (frame2_at (pg_frame g) p)"

definition guard_write2 :: "page_guard \<Rightarrow> (bytes \<Rightarrow> bytes) \<Rightarrow> 's pool2 \<Rightarrow> 's pool2 option" where
  "guard_write2 g fn p = do {
     f \<leftarrow> frame2_at (pg_frame g) p;
     Some (set_frame2 (pg_frame g) (f\<lparr>f2_dirty := True, f2_data := fn (f2_data f)\<rparr>) p)
   }"

definition guard_drop2 :: "page_guard \<Rightarrow> 's pool2 \<Rightarrow> 's pool2 option" where
  "guard_drop2 g p = do {
     f \<leftarrow> frame2_at (pg_frame g) p;
     if f2_pin f > 0 then Some (set_frame2 (pg_frame g) (f\<lparr>f2_pin := f2_pin f - 1\<rparr>) p) else None
   }"

end
