(* ===== verification/Clock_V2_Equiv.thy ===== *)
theory Clock_V2_Equiv imports Clock_Pool_V2 begin

text \<open>
  The second CLOCK pool computes what the first one computes. The abstraction forgets the frame states
  and keeps the page of a valid frame; no frame is \<^verbatim>\<open>Evicting\<close> between operations, so the
  \<^verbatim>\<open>unreachable!\<close> of \<^verbatim>\<open>fetch_page\<close> is never reached.
\<close>

section \<open>The abstraction\<close>

definition abs_frame :: "frame2 \<Rightarrow> frame" where
  "abs_frame f = \<lparr>fr_page_id = (case f2_state f of Valid pid \<Rightarrow> Some pid | _ \<Rightarrow> None), fr_data = f2_data f,
     fr_pin = f2_pin f, fr_usage = f2_usage f, fr_dirty = f2_dirty f\<rparr>"

definition abs_pool :: "'s pool2 \<Rightarrow> 's pool" where
  "abs_pool p = \<lparr>frames = map abs_frame (frames2 p), page_table = page_table2 p, clock_hand = clock_hand2 p,
     stats = stats2 p, store = store2 p\<rparr>"

definition settled :: "'s pool2 \<Rightarrow> bool" where
  "settled p \<longleftrightarrow> (\<forall>f \<in> set (frames2 p). f2_state f \<noteq> Evicting)"

lemma abs_pool_sel [simp]:
  "frames (abs_pool p) = map abs_frame (frames2 p)" "page_table (abs_pool p) = page_table2 p"
  "clock_hand (abs_pool p) = clock_hand2 p" "stats (abs_pool p) = stats2 p" "store (abs_pool p) = store2 p"
  by (simp_all add: abs_pool_def)

lemma abs_frame_sel [simp]:
  "fr_data (abs_frame f) = f2_data f" "fr_pin (abs_frame f) = f2_pin f" "fr_usage (abs_frame f) = f2_usage f"
  "fr_dirty (abs_frame f) = f2_dirty f"
  "fr_page_id (abs_frame f) = (case f2_state f of Valid pid \<Rightarrow> Some pid | _ \<Rightarrow> None)"
  by (simp_all add: abs_frame_def)

lemma abs_frame_at: "frame_at i (abs_pool p) = map_option abs_frame (frame2_at i p)"
  by (simp add: frame_at_def frame2_at_def)

lemma abs_set_frame: "set_frame i (abs_frame f) (abs_pool p) = abs_pool (set_frame2 i f p)"
  by (simp add: set_frame_def set_frame2_def abs_pool_def map_update)

lemma abs_frame_upd:
  "(abs_frame f)\<lparr>fr_pin := c\<rparr> = abs_frame (f\<lparr>f2_pin := c\<rparr>)"
  "(abs_frame f)\<lparr>fr_usage := u\<rparr> = abs_frame (f\<lparr>f2_usage := u\<rparr>)"
  "(abs_frame f)\<lparr>fr_dirty := b\<rparr> = abs_frame (f\<lparr>f2_dirty := b\<rparr>)"
  "(abs_frame f)\<lparr>fr_data := d\<rparr> = abs_frame (f\<lparr>f2_data := d\<rparr>)"
  by (simp_all add: abs_frame_def)

lemma abs_pool_upd:
  "(abs_pool p)\<lparr>clock_hand := h\<rparr> = abs_pool (p\<lparr>clock_hand2 := h\<rparr>)"
  "(abs_pool p)\<lparr>stats := st\<rparr> = abs_pool (p\<lparr>stats2 := st\<rparr>)"
  "(abs_pool p)\<lparr>store := s\<rparr> = abs_pool (p\<lparr>store2 := s\<rparr>)"
  by (simp_all add: abs_pool_def)

lemmas abs_simps = abs_frame_at abs_set_frame abs_frame_upd abs_pool_upd

section \<open>Victim selection\<close>

definition abs_res :: "('r \<times> 's pool2) \<Rightarrow> 'r \<times> 's pool" where
  "abs_res = (\<lambda>(r, p). (r, abs_pool p))"

lemma abs_res_simp [simp]: "abs_res (r, p) = (r, abs_pool p)"
  by (simp add: abs_res_def)

lemma sweep_abs:
  "clock_sweep k found (abs_pool p) = map_option (\<lambda>(v, b, q). (v, b, abs_pool q)) (clock_sweep2 k found p)"
proof (induction k arbitrary: found p)
  case 0
  then show ?case by simp
next
  case (Suc k)
  let ?h = "clock_hand2 p" and ?p = "p\<lparr>clock_hand2 := (clock_hand2 p + 1) mod length (frames2 p)\<rparr>"
  show ?case
  proof (cases "frame2_at ?h ?p")
    case None
    then show ?thesis by (simp add: Let_def abs_simps)
  next
    case (Some f)
    then show ?thesis
      using Suc.IH by (cases f) (simp add: Let_def reserve2_def abs_simps)
  qed
qed

lemma passes_abs: "clock_passes k (abs_pool p) = map_option abs_res (clock_passes2 k p)"
proof (induction k arbitrary: p)
  case 0
  then show ?case by simp
next
  case (Suc k)
  show ?case
    by (cases "clock_sweep2 (length (frames2 p)) False p")
      (auto simp: sweep_abs Suc.IH split: option.splits)
qed

lemma choose_abs: "choose_victim (abs_pool p) = map_option abs_res (choose_victim2 p)"
  by (simp add: choose_victim_def choose_victim2_def passes_abs)

lemma settled_set: "settled p \<Longrightarrow> f2_state f \<noteq> Evicting \<Longrightarrow> settled (set_frame2 i f p)"
  by (auto simp: settled_def set_frame2_def dest!: set_update_subset_insert [THEN subsetD])

lemma settled_other [simp]:
  "settled (p\<lparr>clock_hand2 := h\<rparr>) = settled p" "settled (p\<lparr>stats2 := st\<rparr>) = settled p"
  "settled (p\<lparr>store2 := s\<rparr>) = settled p" "settled (p\<lparr>page_table2 := t\<rparr>) = settled p"
  by (simp_all add: settled_def)

lemma settled_at: "settled p \<Longrightarrow> frame2_at i p = Some f \<Longrightarrow> f2_state f \<noteq> Evicting"
  by (auto simp: settled_def frame2_at_def split: if_splits)

lemma sweep2_victim:
  "settled p \<Longrightarrow> clock_sweep2 k found p = Some (v, b, q) \<Longrightarrow>
   settled q \<and> (\<forall>i. v = Some i \<longrightarrow> (\<exists>f. frame2_at i q = Some f \<and> f2_pin f = 1))"
proof (induction k arbitrary: found p)
  case 0
  then show ?case by simp
next
  case (Suc k)
  let ?p = "p\<lparr>clock_hand2 := (clock_hand2 p + 1) mod length (frames2 p)\<rparr>"
  obtain f where f: "frame2_at (clock_hand2 p) ?p = Some f" using Suc.prems(2) by (auto simp: Let_def split: Option.bind_splits)
  have sf: "f2_state f \<noteq> Evicting" using settled_at [OF _ f] Suc.prems(1) by simp
  show ?case
  proof (cases "f2_pin f = 0 \<and> f2_usage f = 0")
    case True
    then show ?thesis using Suc.prems f sf
      by (auto simp: Let_def reserve2_def frame2_at_def set_frame2_def settled_def
          dest!: set_update_subset_insert [THEN subsetD] split: if_splits)
  next
    case False
    have IH: "settled r \<Longrightarrow> clock_sweep2 k b' r = Some (v, b, q) \<Longrightarrow> ?thesis" for b' r
      using Suc.IH by blast
    show ?thesis
    proof (cases "f2_pin f = 0")
      case True
      then show ?thesis using Suc.prems f sf False
        by (intro IH [of _ True]) (auto simp: Let_def reserve2_def intro!: settled_set)
    next
      case pinned: False
      then show ?thesis using Suc.prems f
        by (intro IH [of ?p found]) (auto simp: Let_def reserve2_def)
    qed
  qed
qed

lemma passes2_victim:
  "settled p \<Longrightarrow> clock_passes2 k p = Some (r, q) \<Longrightarrow>
   settled q \<and> (\<forall>i. r = Inr i \<longrightarrow> (\<exists>f. frame2_at i q = Some f \<and> f2_pin f = 1))"
proof (induction k arbitrary: p)
  case 0
  then show ?case by simp
next
  case (Suc k)
  then show ?case using sweep2_victim [OF Suc.prems(1), of "length (frames2 p)" False]
    by (auto split: option.splits if_splits Option.bind_splits)
qed

lemma choose2_victim:
  assumes "settled p" "choose_victim2 p = Some (r, q)"
  shows "settled q" "r = Inr i \<Longrightarrow> \<exists>f. frame2_at i q = Some f \<and> f2_pin f = 1 \<and> f2_state f \<noteq> Evicting"
  using passes2_victim [OF assms [unfolded choose_victim2_def]] settled_at by auto

section \<open>Fetch, flush, guards\<close>

lemma frame2_at_upd [simp]:
  "i < length (frames2 p) \<Longrightarrow> frame2_at i (set_frame2 i f p) = Some f"
  "frame2_at i (p\<lparr>store2 := s\<rparr>) = frame2_at i p" "frame2_at i (p\<lparr>stats2 := st\<rparr>) = frame2_at i p"
  "set_frame2 i f (set_frame2 i g p) = set_frame2 i f p"
  "(set_frame2 i f p)\<lparr>store2 := s\<rparr> = set_frame2 i f (p\<lparr>store2 := s\<rparr>)"
  "length (frames2 (set_frame2 i f p)) = length (frames2 p)" "store2 (set_frame2 i f p) = store2 p"
  "stats2 (set_frame2 i f p) = stats2 p" "page_table2 (set_frame2 i f p) = page_table2 p"
  by (simp_all add: frame2_at_def set_frame2_def)

lemma frame_at_upd [simp]:
  "i < length (frames p) \<Longrightarrow> frame_at i (set_frame i f p) = Some f"
  "frame_at i (p\<lparr>store := s\<rparr>) = frame_at i p"
  "set_frame i f (set_frame i g p) = set_frame i f p"
  "(set_frame i f p)\<lparr>store := s\<rparr> = set_frame i f (p\<lparr>store := s\<rparr>)"
  "length (frames (set_frame i f p)) = length (frames p)" "store (set_frame i f p) = store p"
  "stats (set_frame i f p) = stats p" "page_table (set_frame i f p) = page_table p"
  by (simp_all add: frame_at_def set_frame_def)

lemma frame2_at_length: "frame2_at i p = Some f \<Longrightarrow> i < length (frames2 p)"
  by (simp add: frame2_at_def split: if_splits)

definition old_page :: "frame2 \<Rightarrow> page_id option" where
  "old_page f = (case f2_state f of Valid pid \<Rightarrow> Some pid | _ \<Rightarrow> None)"

text \<open>The write-back, with the frame marked \<^verbatim>\<open>Evicting\<close> in the second pool only.\<close>

lemma write_back_abs:
  assumes f: "frame2_at i q = Some f" "f2_pin f = 1" "f2_state f \<noteq> Evicting"
  defines "q' \<equiv> set_frame2 i (f\<lparr>f2_state := Evicting\<rparr>) q"
  shows "(write_back wr i (abs_pool q) = None \<and> write_back2 wr i (f2_state f) (old_page f) q' = None) \<or>
    (\<exists>e r. write_back wr i (abs_pool q) = Some (Inl e, abs_pool r) \<and>
       write_back2 wr i (f2_state f) (old_page f) q' = Some (Inl e, r) \<and>
       r = set_frame2 i (f\<lparr>f2_pin := 0\<rparr>) (q\<lparr>store2 := store2 r\<rparr>)) \<or>
    (\<exists>g s. write_back wr i (abs_pool q) = Some (Inr (), abs_pool (set_frame2 i g (q\<lparr>store2 := s\<rparr>))) \<and>
       write_back2 wr i (f2_state f) (old_page f) q' =
         Some (Inr (), set_frame2 i (g\<lparr>f2_state := Evicting\<rparr>) (q\<lparr>store2 := s\<rparr>)) \<and>
       f2_pin g = 1 \<and> f2_state g = f2_state f)"
proof -
  have i: "i < length (frames2 q)" using frame2_at_length [OF f(1)] .
  have self: "set_frame2 i f q = q"
    using f(1) by (auto simp: set_frame2_def frame2_at_def split: if_splits)
  show ?thesis
  proof (cases "\<exists>old. f2_state f = Valid old \<and> f2_dirty f")
    case False
    then have "write_back wr i (abs_pool q) = Some (Inr (), abs_pool (set_frame2 i f (q\<lparr>store2 := store2 q\<rparr>)))"
      using f by (auto simp: write_back_def abs_simps self split: frame_state.splits)
    moreover have "write_back2 wr i (f2_state f) (old_page f) q' =
        Some (Inr (), set_frame2 i (f\<lparr>f2_state := Evicting\<rparr>) (q\<lparr>store2 := store2 q\<rparr>))"
      using False i by (auto simp: write_back2_def q'_def old_page_def split: frame_state.splits)
    ultimately show ?thesis using f(2) by blast
  next
    case True
    then obtain old where old: "f2_state f = Valid old" "f2_dirty f" by blast
    show ?thesis
    proof (cases "wr old (f2_data f) (store2 q)")
      case None
      then show ?thesis using old f i
        by (simp add: write_back_def write_back2_def q'_def old_page_def abs_simps)
    next
      case (Some x)
      obtain r b' s where x: "x = (r, b', s)" by (cases x)
      show ?thesis
      proof (cases r)
        case (Inl e)
        then show ?thesis using old f i Some x
          by (cases f) (simp add: write_back_def write_back2_def q'_def old_page_def abs_simps release_victim_def
              restore_victim2_def Let_def)
      next
        case (Inr u)
        have "write_back wr i (abs_pool q) =
            Some (Inr (), abs_pool (set_frame2 i (f\<lparr>f2_dirty := False\<rparr>) (q\<lparr>store2 := s\<rparr>)))"
          using old f i Some x Inr by (simp add: write_back_def abs_simps Let_def)
        moreover have "write_back2 wr i (f2_state f) (old_page f) q' =
            Some (Inr (), set_frame2 i ((f\<lparr>f2_dirty := False\<rparr>)\<lparr>f2_state := Evicting\<rparr>) (q\<lparr>store2 := s\<rparr>))"
          using old f i Some x Inr by (cases f) (simp add: write_back2_def q'_def old_page_def Let_def)
        moreover have "f2_pin (f\<lparr>f2_dirty := False\<rparr>) = 1" "f2_state (f\<lparr>f2_dirty := False\<rparr>) = f2_state f"
          using f(2) by simp_all
        ultimately show ?thesis by blast
      qed
    qed
  qed
qed

lemma install_abs:
  assumes "i < length (frames2 q)" "f2_state g \<noteq> Evicting"
  shows "install_page i pid d (abs_pool (set_frame2 i g q)) =
    map_option abs_pool (install_page2 i pid (old_page g) d (set_frame2 i (g\<lparr>f2_state := Evicting\<rparr>) q))"
proof -
  have "fr_page_id (abs_frame g) = old_page g" by (simp add: old_page_def)
  then show ?thesis using assms
    by (cases "old_page g"; simp add: install_page_def install_page2_def abs_simps Let_def;
        simp add: abs_pool_def set_frame_def set_frame2_def abs_frame_def map_update)
qed

lemma pin_hit_abs:
  "page_table2 p pid = Some i \<Longrightarrow>
   fetch_page rd wr pid mode (abs_pool p) = map_option abs_res (fetch_page2 rd wr pid mode p)"
  by (cases mode) (auto simp: fetch_page_def fetch_page2_def pin_hit2_def abs_simps Let_def record_access_def
      record_access2_def set_frame_def set_frame2_def abs_pool_def abs_frame_def map_update frame2_at_def frame_at_def)

lemma fetch_abs:
  assumes "settled p"
  shows "fetch_page rd wr pid mode (abs_pool p) = map_option abs_res (fetch_page2 rd wr pid mode p)"
proof (cases "page_table2 p pid")
  case (Some i)
  then show ?thesis by (rule pin_hit_abs)
next
  case None
  show ?thesis
  proof (cases "choose_victim2 p")
    case (Some x)
    obtain v q where x: "x = (v, q)" by (cases x)
    show ?thesis
    proof (cases v)
      case (Inr i)
      note ch = choose2_victim [OF assms Some [unfolded x]]
      obtain f where f: "frame2_at i q = Some f" "f2_pin f = 1" "f2_state f \<noteq> Evicting" using ch(2) Inr by blast
      have i: "i < length (frames2 q)" using frame2_at_length [OF f(1)] .
      have old: "(case f2_state f of Empty \<Rightarrow> Some None | Valid old_id \<Rightarrow> Some (Some old_id) | Evicting \<Rightarrow> None) =
          Some (old_page f)" using f(3) by (simp add: old_page_def split: frame_state.splits)
      from write_back_abs [OF f, of wr] show ?thesis
      proof (elim disjE exE conjE)
        assume "write_back wr i (abs_pool q) = None"
          "write_back2 wr i (f2_state f) (old_page f) (set_frame2 i (f\<lparr>f2_state := Evicting\<rparr>) q) = None"
        then show ?thesis using None Some x Inr f(1) old
          by (simp add: fetch_page_def fetch_page2_def choose_abs Let_def)
      next
        fix e r assume "write_back wr i (abs_pool q) = Some (Inl e, abs_pool r)"
          "write_back2 wr i (f2_state f) (old_page f) (set_frame2 i (f\<lparr>f2_state := Evicting\<rparr>) q) = Some (Inl e, r)"
        then show ?thesis using None Some x Inr f(1) old
          by (simp add: fetch_page_def fetch_page2_def choose_abs Let_def)
      next
        fix g s
        assume w: "write_back wr i (abs_pool q) = Some (Inr (), abs_pool (set_frame2 i g (q\<lparr>store2 := s\<rparr>)))"
          "write_back2 wr i (f2_state f) (old_page f) (set_frame2 i (f\<lparr>f2_state := Evicting\<rparr>) q) =
             Some (Inr (), set_frame2 i (g\<lparr>f2_state := Evicting\<rparr>) (q\<lparr>store2 := s\<rparr>))"
          and g: "f2_pin g = 1" "f2_state g = f2_state f"
        have og: "old_page f = old_page g" using g(2) by (simp add: old_page_def)
        show ?thesis
        proof (cases "rd pid (replicate PAGE_SIZE 0) s")
          case None: None
          then show ?thesis using \<open>page_table2 p pid = None\<close> Some x Inr f(1) old w
            by (simp add: fetch_page_def fetch_page2_def choose_abs Let_def)
        next
          case rd: (Some y)
          obtain r d t where y: "y = (r, d, t)" by (cases y)
          have same: "(q\<lparr>store2 := s\<rparr>)\<lparr>store2 := t\<rparr> = q\<lparr>store2 := t\<rparr>" by simp
          show ?thesis
          proof (cases r)
            case (Inl e)
            then show ?thesis using \<open>page_table2 p pid = None\<close> Some x Inr f(1) old w rd y i g
              by (cases g) (simp add: fetch_page_def fetch_page2_def choose_abs Let_def release_victim_def
                  restore_victim2_def abs_simps)
          next
            case (Inr u)
            have "install_page i pid d (abs_pool (set_frame2 i g (q\<lparr>store2 := t\<rparr>))) = map_option abs_pool
                (install_page2 i pid (old_page g) d (set_frame2 i (g\<lparr>f2_state := Evicting\<rparr>) (q\<lparr>store2 := t\<rparr>)))"
              using i f(3) g(2) by (intro install_abs) simp_all
            then show ?thesis using \<open>page_table2 p pid = None\<close> Some x \<open>v = Inr i\<close> f(1) old w rd y Inr i og
              by (auto simp: fetch_page_def fetch_page2_def choose_abs Let_def abs_simps
                  split: Option.bind_splits)
          qed
        qed
      qed
    qed (use None Some x in \<open>simp add: fetch_page_def fetch_page2_def choose_abs\<close>)
  qed (use None in \<open>simp add: fetch_page_def fetch_page2_def choose_abs\<close>)
qed

text \<open>Fetch leaves no frame \<^verbatim>\<open>Evicting\<close>.\<close>

lemma settled_finish:
  "settled q \<Longrightarrow> f2_state g \<noteq> Evicting \<Longrightarrow>
   settled (set_frame2 i g (set_frame2 i f q)) \<and> settled ((set_frame2 i g (set_frame2 i f q))\<lparr>store2 := s\<rparr>)"
  by (simp add: settled_set)

lemma fetch2_settled:
  assumes "settled p" "fetch_page2 rd wr pid mode p = Some (r, q)"
  shows "settled q"
proof (cases "page_table2 p pid")
  case (Some i)
  then show ?thesis using assms settled_at [OF assms(1)]
    by (cases mode) (auto simp: fetch_page2_def pin_hit2_def Let_def record_access2_def
        intro!: settled_set split: Option.bind_splits)
next
  case None
  then obtain v t where v: "choose_victim2 p = Some (v, t)"
    using assms(2) by (auto simp: fetch_page2_def split: Option.bind_splits)
  note ch = choose2_victim [OF assms(1) v]
  show ?thesis
  proof (cases v)
    case (Inl e)
    then show ?thesis using None v assms(2) ch(1) by (simp add: fetch_page2_def)
  next
    case (Inr i)
    obtain f where f: "frame2_at i t = Some f" "f2_pin f = 1" "f2_state f \<noteq> Evicting" using ch(2) Inr by blast
    have i: "i < length (frames2 t)" using frame2_at_length [OF f(1)] .
    have old: "(case f2_state f of Empty \<Rightarrow> Some None | Valid old_id \<Rightarrow> Some (Some old_id) | Evicting \<Rightarrow> None) =
        Some (old_page f)" using f(3) by (simp add: old_page_def split: frame_state.splits)
    from write_back_abs [OF f, of wr] show ?thesis
    proof (elim disjE exE conjE)
      assume "write_back2 wr i (f2_state f) (old_page f) (set_frame2 i (f\<lparr>f2_state := Evicting\<rparr>) t) = None"
      then show ?thesis using None v Inr f(1) old assms(2) by (simp add: fetch_page2_def Let_def)
    next
      fix e r'
      assume "write_back2 wr i (f2_state f) (old_page f) (set_frame2 i (f\<lparr>f2_state := Evicting\<rparr>) t) = Some (Inl e, r')"
        and r': "r' = set_frame2 i (f\<lparr>f2_pin := 0\<rparr>) (t\<lparr>store2 := store2 r'\<rparr>)"
      then have "q = r'" using None v Inr f(1) old assms(2) by (simp add: fetch_page2_def Let_def)
      moreover have "settled (set_frame2 i (f\<lparr>f2_pin := 0\<rparr>) (t\<lparr>store2 := store2 r'\<rparr>))"
        using ch(1) f(3) by (intro settled_set) simp_all
      ultimately show ?thesis using r' by simp
    next
      fix g s
      assume w: "write_back2 wr i (f2_state f) (old_page f) (set_frame2 i (f\<lparr>f2_state := Evicting\<rparr>) t) =
             Some (Inr (), set_frame2 i (g\<lparr>f2_state := Evicting\<rparr>) (t\<lparr>store2 := s\<rparr>))"
        and g: "f2_state g = f2_state f"
      then show ?thesis using None v Inr f(1,3) old assms(2) ch(1) i
        by (auto simp: fetch_page2_def Let_def restore_victim2_def install_page2_def intro!: settled_set
            split: Option.bind_splits sum.splits)
    qed
  qed
qed

lemma flush_abs:
  "flush_frames wr is (abs_pool p) = map_option abs_res (flush_frames2 wr is p)"
proof (induction "is" arbitrary: p)
  case Nil
  then show ?case by simp
next
  case (Cons i "is")
  show ?case
  proof (cases "frame2_at i p")
    case None
    then show ?thesis by (simp add: abs_frame_at)
  next
    case (Some f)
    show ?thesis
    proof (cases "f2_state f")
      case (Valid pid)
      then show ?thesis using Some Cons.IH
        by (cases "wr pid (f2_data f) (store2 p)")
          (auto simp: abs_simps Let_def split: sum.splits prod.splits)
    qed (use Some Cons.IH in \<open>simp_all add: abs_simps\<close>)
  qed
qed

lemma flush2_settled:
  "settled p \<Longrightarrow> flush_frames2 wr is p = Some (r, q) \<Longrightarrow> settled q"
proof (induction "is" arbitrary: p)
  case Nil
  then show ?case by simp
next
  case (Cons i "is")
  then obtain f where f: "frame2_at i p = Some f" by (auto split: Option.bind_splits)
  have "f2_state f \<noteq> Evicting" using settled_at [OF Cons.prems(1) f] .
  then have "settled (set_frame2 i (f\<lparr>f2_dirty := False\<rparr>) (p\<lparr>store2 := s\<rparr>))" for s
    using Cons.prems(1) by (intro settled_set) simp_all
  from Cons.IH [OF this] show ?case using Cons.IH Cons.prems f
    by (cases "f2_state f")
      (auto simp: Let_def split: if_splits sum.splits Option.bind_splits)
qed

section \<open>Histories\<close>

record 's world2 =
  w2_pool :: "'s pool2"
  w2_guards :: "page_guard option list"

definition live_guard2 :: "nat \<Rightarrow> 's world2 \<Rightarrow> page_guard option" where
  "live_guard2 h w = (if h < length (w2_guards w) then w2_guards w ! h else None)"

fun pool_step2 ::
    "(page_id \<Rightarrow> bytes \<Rightarrow> 's \<Rightarrow> ((io_error + unit) \<times> bytes \<times> 's) option) \<Rightarrow>
     (page_id \<Rightarrow> bytes \<Rightarrow> 's \<Rightarrow> ((io_error + unit) \<times> bytes \<times> 's) option) \<Rightarrow>
     pool_op \<Rightarrow> 's world2 \<Rightarrow> (pool_out \<times> 's world2) option" where
  "pool_step2 rd wr (OFetch pid mode) w = do {
     (r, p) \<leftarrow> fetch_page2 rd wr pid mode (w2_pool w);
     (case r of
        Inl e \<Rightarrow> Some (FetchFailed e, w\<lparr>w2_pool := p\<rparr>)
      | Inr g \<Rightarrow> Some (Fetched, w\<lparr>w2_pool := p, w2_guards := w2_guards w @ [Some g]\<rparr>))
   }"
| "pool_step2 rd wr (ORead h) w = (case live_guard2 h w of
      None \<Rightarrow> Some (NoGuard, w)
    | Some g \<Rightarrow> do { d \<leftarrow> guard_read2 g (\<lambda>d. d) (w2_pool w); Some (ReadGot (pg_page_id g) d, w) })"
| "pool_step2 rd wr (OWrite h fn) w = (case live_guard2 h w of
      None \<Rightarrow> Some (NoGuard, w)
    | Some g \<Rightarrow> do {
        d \<leftarrow> guard_read2 g fn (w2_pool w);
        p \<leftarrow> guard_write2 g fn (w2_pool w);
        Some (Wrote (pg_page_id g) d, w\<lparr>w2_pool := p\<rparr>)
      })"
| "pool_step2 rd wr (ODrop h) w = (case live_guard2 h w of
      None \<Rightarrow> Some (NoGuard, w)
    | Some g \<Rightarrow> do {
        p \<leftarrow> guard_drop2 g (w2_pool w);
        Some (Dropped, w\<lparr>w2_pool := p, w2_guards := (w2_guards w)[h := None]\<rparr>)
      })"
| "pool_step2 rd wr OFlush w = do {
     (r, p) \<leftarrow> flush_all2 wr (w2_pool w);
     Some (FlushDone r, w\<lparr>w2_pool := p\<rparr>)
   }"

fun pool_run2 ::
    "(page_id \<Rightarrow> bytes \<Rightarrow> 's \<Rightarrow> ((io_error + unit) \<times> bytes \<times> 's) option) \<Rightarrow>
     (page_id \<Rightarrow> bytes \<Rightarrow> 's \<Rightarrow> ((io_error + unit) \<times> bytes \<times> 's) option) \<Rightarrow>
     pool_op list \<Rightarrow> 's world2 \<Rightarrow> (pool_out list \<times> 's world2) option" where
  "pool_run2 rd wr [] w = Some ([], w)"
| "pool_run2 rd wr (x # xs) w = do {
     (r, w) \<leftarrow> pool_step2 rd wr x w;
     (rs, w) \<leftarrow> pool_run2 rd wr xs w;
     Some (r # rs, w)
   }"

definition abs_world :: "'s world2 \<Rightarrow> 's world" where
  "abs_world w = \<lparr>w_pool = abs_pool (w2_pool w), w_guards = w2_guards w\<rparr>"

lemma abs_world_sel [simp]:
  "w_pool (abs_world w) = abs_pool (w2_pool w)" "w_guards (abs_world w) = w2_guards w"
  "live_guard h (abs_world w) = live_guard2 h w"
  by (simp_all add: abs_world_def live_guard_def live_guard2_def)

lemma abs_world_upd:
  "(abs_world w)\<lparr>w_pool := abs_pool p\<rparr> = abs_world (w\<lparr>w2_pool := p\<rparr>)"
  "(abs_world w)\<lparr>w_guards := gs\<rparr> = abs_world (w\<lparr>w2_guards := gs\<rparr>)"
  by (simp_all add: abs_world_def)

lemma guard_read_abs: "guard_read g fn (abs_pool p) = guard_read2 g fn p"
  by (simp add: guard_read_def guard_read2_def abs_frame_at option.map_comp comp_def)

lemma guard_write_abs: "guard_write g fn (abs_pool p) = map_option abs_pool (guard_write2 g fn p)"
  by (cases "frame2_at (pg_frame g) p") (simp_all add: guard_write_def guard_write2_def abs_simps)

lemma guard_drop_abs: "guard_drop g (abs_pool p) = map_option abs_pool (guard_drop2 g p)"
  by (cases "frame2_at (pg_frame g) p") (simp_all add: guard_drop_def guard_drop2_def abs_simps)

lemma pool_step_abs:
  assumes "settled (w2_pool w)"
  shows "pool_step rd wr x (abs_world w) = map_option (\<lambda>(r, w). (r, abs_world w)) (pool_step2 rd wr x w)"
proof (cases x)
  case (OFetch pid mode)
  then show ?thesis
    by (cases "fetch_page2 rd wr pid mode (w2_pool w)")
      (auto simp: fetch_abs [OF assms] abs_world_upd split: sum.splits)
next
  case OFlush
  then show ?thesis
    by (cases "flush_all2 wr (w2_pool w)")
      (auto simp: flush_all_def flush_all2_def flush_abs abs_world_upd)
qed (auto simp: guard_read_abs guard_write_abs guard_drop_abs abs_world_upd
    split: option.splits Option.bind_splits)

lemma pool_step2_settled:
  assumes "settled (w2_pool w)" "pool_step2 rd wr x w = Some (r, w')"
  shows "settled (w2_pool w')"
  using assms fetch2_settled [OF assms(1)] flush2_settled [OF assms(1)] settled_at [OF assms(1)]
  by (cases x) (auto simp: flush_all2_def guard_write2_def guard_drop2_def intro!: settled_set
      split: option.splits Option.bind_splits sum.splits if_splits)

lemma pool_run_abs:
  "settled (w2_pool w) \<Longrightarrow>
   pool_run rd wr xs (abs_world w) = map_option (\<lambda>(r, w). (r, abs_world w)) (pool_run2 rd wr xs w)"
proof (induction xs arbitrary: w)
  case Nil
  then show ?case by simp
next
  case (Cons x xs)
  show ?case
  proof (cases "pool_step2 rd wr x w")
    case (Some y)
    obtain r w' where y: "y = (r, w')" by (cases y)
    have "settled (w2_pool w')" using pool_step2_settled [OF Cons.prems] Some y by blast
    from Cons.IH [OF this] show ?thesis using Some y
      by (cases "pool_run2 rd wr xs w'") (auto simp: pool_step_abs [OF Cons.prems])
  qed (simp add: pool_step_abs [OF Cons.prems])
qed

text \<open>C10: on every history of client operations, over any store, the pool of \<^verbatim>\<open>buffer_pool_v2.rs\<close>
  returns exactly what the pool of \<^verbatim>\<open>buffer_pool.rs\<close> returns, panics included, and ends in the same frames,
  table, hand, counters and store, the frame states forgotten.\<close>
theorem pool_v2_equivalent:
  "do { p \<leftarrow> pool_new n s; pool_run rd wr xs \<lparr>w_pool = p, w_guards = []\<rparr> } =
   map_option (\<lambda>(r, w). (r, abs_world w))
     (do { p \<leftarrow> pool2_new n s; pool_run2 rd wr xs \<lparr>w2_pool = p, w2_guards = []\<rparr> })"
proof (cases "0 < n")
  case True
  let ?p = "\<lparr>frames2 = replicate n frame2_empty, page_table2 = (\<lambda>_. None), clock_hand2 = 0,
    stats2 = stats_default, store2 = s\<rparr>"
  have "settled ?p" by (simp add: settled_def frame2_empty_def)
  moreover have "pool_new n s = Some (abs_pool ?p)"
    using True by (simp add: pool_new_def abs_pool_def abs_frame_def frame2_empty_def frame_empty_def)
  ultimately show ?thesis
    using True pool_run_abs [of "\<lparr>w2_pool = ?p, w2_guards = []\<rparr>" rd wr xs]
    by (simp add: pool2_new_def abs_world_def)
qed (simp add: pool_new_def pool2_new_def)

end
