(* ===== verification/Stream_Parser.thy ===== *)
theory Stream_Parser imports Prelude begin

text \<open>
  Incremental parsing of a byte stream, the pattern of every reader of \<^verbatim>\<open>foundation-track\<close>: bytes
  arrive in chunks of any size, are appended to a buffer, and messages are cut from its front. The
  locale \<open>stream_parser\<close> is what such a reader needs of its parser: a message that was recognised
  has a positive length inside the buffer, and more bytes behind it do not change it. Then the
  messages depend on the bytes alone and not on the chunks. The model of the readers themselves is in
  the theories of their files.
\<close>

section \<open>Cutting messages from a buffer\<close>

function parse_all :: "(bytes \<Rightarrow> ('a \<times> nat) option) \<Rightarrow> bytes \<Rightarrow> 'a list \<times> bytes" where
  "parse_all parse buf = (case parse buf of
      None \<Rightarrow> ([], buf)
    | Some (v, n) \<Rightarrow>
        if 0 < n \<and> n \<le> length buf
        then (let (vs, rest) = parse_all parse (drop n buf) in (v # vs, rest))
        else ([], buf))"
  by pat_completeness auto
termination by (relation "measure (\<lambda>(_, buf). length buf)") auto

declare parse_all.simps [simp del]

text \<open>Feeding chunks: the messages that come out, and the bytes that stay in the buffer.\<close>

fun feed :: "(bytes \<Rightarrow> ('a \<times> nat) option) \<Rightarrow> bytes \<Rightarrow> bytes list \<Rightarrow> 'a list \<times> bytes" where
  "feed parse buf [] = ([], buf)"
| "feed parse buf (c # cs) =
     (let (vs, rest) = parse_all parse (buf @ c); (ws, rest') = feed parse rest cs in (vs @ ws, rest'))"

section \<open>The contract\<close>

locale stream_parser =
  fixes parse :: "bytes \<Rightarrow> ('a \<times> nat) option"
  assumes inside: "parse b = Some (v, n) \<Longrightarrow> 0 < n \<and> n \<le> length b"
    and stable: "parse b = Some (v, n) \<Longrightarrow> parse (b @ c) = Some (v, n)"
begin

lemma parse_all_None: "parse b = None \<Longrightarrow> parse_all parse b = ([], b)"
  by (subst parse_all.simps) simp

lemma parse_all_Some:
  "parse b = Some (v, n) \<Longrightarrow>
   parse_all parse b = (v # fst (parse_all parse (drop n b)), snd (parse_all parse (drop n b)))"
  by (subst parse_all.simps) (auto dest: inside split: prod.splits)

lemma parse_rest: "parse (snd (parse_all parse b)) = None"
proof (induction b rule: length_induct)
  case (1 b)
  show ?case
  proof (cases "parse b")
    case None
    then show ?thesis by (simp add: parse_all_None)
  next
    case (Some r)
    then obtain v n where r: "parse b = Some (v, n)" by (cases r) auto
    then have "length (drop n b) < length b" using inside by fastforce
    then show ?thesis using 1 by (simp add: parse_all_Some [OF r])
  qed
qed

lemma parse_all_append:
  "parse_all parse (b @ c) =
     (fst (parse_all parse b) @ fst (parse_all parse (snd (parse_all parse b) @ c)),
      snd (parse_all parse (snd (parse_all parse b) @ c)))"
proof (induction b rule: length_induct)
  case (1 b)
  show ?case
  proof (cases "parse b")
    case None
    then show ?thesis by (simp add: parse_all_None)
  next
    case (Some r)
    then obtain v n where r: "parse b = Some (v, n)" by (cases r) auto
    have n: "0 < n" "n \<le> length b" using inside [OF r] by auto
    have "length (drop n b) < length b" using n by simp
    then have IH: "parse_all parse (drop n b @ c) =
        (fst (parse_all parse (drop n b)) @ fst (parse_all parse (snd (parse_all parse (drop n b)) @ c)),
         snd (parse_all parse (snd (parse_all parse (drop n b)) @ c)))" using 1 by blast
    show ?thesis using parse_all_Some [OF stable [OF r, of c]] parse_all_Some [OF r] IH n by simp
  qed
qed

text \<open>The messages and the bytes left over are those of the whole stream.\<close>

lemma feed_parse_all: "parse b = None \<Longrightarrow> feed parse b cs = parse_all parse (b @ concat cs)"
proof (induction cs arbitrary: b)
  case Nil
  then show ?case by (simp add: parse_all_None)
next
  case (Cons c cs)
  show ?case
    using Cons.IH [OF parse_rest, of "b @ c"] parse_all_append [of "b @ c" "concat cs"]
    by (simp add: case_prod_unfold Let_def)
qed

lemma feed_chunks: "parse [] = None \<Longrightarrow> concat cs = concat ds \<Longrightarrow> feed parse [] cs = feed parse [] ds"
  by (simp add: feed_parse_all)

lemma parse_all_messages:
  assumes "\<And>m rest. m \<in> set ms \<Longrightarrow> parse (enc m @ rest) = Some (val m, length (enc m))"
    and "parse [] = None"
  shows "parse_all parse (concat (map enc ms)) = (map val ms, [])"
  using assms(1)
proof (induction ms)
  case Nil
  then show ?case by (simp add: parse_all_None assms(2))
next
  case (Cons m ms)
  have "parse (enc m @ concat (map enc ms)) = Some (val m, length (enc m))" using Cons.prems by simp
  from parse_all_Some [OF this] show ?case using Cons by simp
qed

end

end
