(* ===== verification/Telemetry_Frame.thy ===== *)
theory Telemetry_Frame imports Stream_Parser begin

text \<open>
  \<^verbatim>\<open>module5/project5/frame.rs\<close>: the binary telemetry frame, its generator, the parser on a cursor,
  and the two stages of the batch pipeline. Outside code is a parameter: the integer reads and
  writes of the crate \<^verbatim>\<open>bytes\<close> are the record \<open>wire\<close> with the contract \<open>wire_format\<close>, the generator
  of the crate \<^verbatim>\<open>fastrand\<close> is the record \<open>rng\<close> with the contract \<open>frame_rng\<close>, and the clock is the
  argument \<open>timestamp_ms\<close>, as it is in \<^verbatim>\<open>create_at\<close>. \<^verbatim>\<open>sort_unstable_by_key\<close> may order equal keys in
  any way: it is an argument too.
\<close>

unbundle bit_operations_syntax

section \<open>Outside code\<close>

record wire =
  put_u64 :: "u64 \<Rightarrow> bytes"
  put_u32 :: "u32 \<Rightarrow> bytes"
  put_u16 :: "u16 \<Rightarrow> bytes"
  put_u8 :: "u8 \<Rightarrow> bytes"
  get_u64 :: "bytes \<Rightarrow> u64"
  get_u32 :: "bytes \<Rightarrow> u32"
  get_u16 :: "bytes \<Rightarrow> u16"
  get_u8 :: "bytes \<Rightarrow> u8"

text \<open>A range that is empty, or an empty choice, makes the generator panic (\<open>None\<close>).\<close>

record 'g rng =
  rng_u64 :: "nat \<Rightarrow> nat \<Rightarrow> 'g \<Rightarrow> (u64 \<times> 'g) option"
  rng_u32 :: "nat \<Rightarrow> nat \<Rightarrow> 'g \<Rightarrow> (u32 \<times> 'g) option"
  rng_u16 :: "nat \<Rightarrow> nat \<Rightarrow> 'g \<Rightarrow> (u16 \<times> 'g) option"
  rng_choice :: "u8 list \<Rightarrow> 'g \<Rightarrow> (u8 option \<times> 'g)"
  rng_fill :: "nat \<Rightarrow> 'g \<Rightarrow> bytes \<times> 'g"

section \<open>Data\<close>

record frame_header =
  fh_timestamp_ms :: u64
  fh_sequence :: u64
  fh_satellite_id :: u32
  fh_byte_count :: "u16 option"
  fh_station_id :: u8
  fh_flags :: u8

record telemetry_frame =
  tf_header :: frame_header
  tf_payload :: bytes

datatype frame_error = Incomplete | Other string

definition ALNUM :: bytes where
  "ALNUM = map (\<lambda>c. of_nat (of_char c)) ''ABCDEFGHIJKLMNOPQRSTUVWXYZabcdefghijklmnopqrstuvwxyz0123456789''"

definition FLAGS :: bytes where
  "FLAGS = [0x80, 0x81, 0x8f, 0x70, 0x78, 0x7a, 0x50, 0x39, 0x10, 0x11, 0x15, 0x1d, 0x1f, 0x00, 0x01,
    0x03, 0x07, 0x08, 0x0b, 0x0f]"

section \<open>Parsing\<close>

text \<open>A cursor is the buffer and a position. Reading \<open>n\<close> bytes past the end panics.\<close>

definition cursor_take :: "nat \<Rightarrow> bytes \<Rightarrow> nat \<Rightarrow> (bytes \<times> nat) option" where
  "cursor_take n src pos = map_option (\<lambda>b. (b, pos + n)) (slice_opt pos (pos + n) src)"

definition byte_at :: "nat \<Rightarrow> bytes \<Rightarrow> u8 option" where
  "byte_at i src = (if i < length src then Some (src ! i) else None)"

text \<open>The scan for a line ending; \<open>is\<close> are the indices still to look at.\<close>

fun scan_crlf :: "bytes \<Rightarrow> nat list \<Rightarrow> nat option option" where
  "scan_crlf src [] = Some None"
| "scan_crlf src (i # is) = do {
     a \<leftarrow> byte_at i src;
     b \<leftarrow> byte_at (i + 1) src;
     if a = 13 \<and> b = 10 then Some (Some i) else scan_crlf src is
   }"

definition get_payload :: "bytes \<Rightarrow> nat \<Rightarrow> u16 option \<Rightarrow> ((frame_error + bytes) \<times> nat) option" where
  "get_payload src start payload_length = (case payload_length of
      Some len \<Rightarrow>
        if length src - start < unat len then Some (Inl Incomplete, start)
        else do {
          b \<leftarrow> slice_opt start (start + unat len) src;
          Some (Inr b, start + unat len)
        }
    | None \<Rightarrow> do {
        end \<leftarrow> usize_sub (length src) 1;
        r \<leftarrow> scan_crlf src [start..<end];
        (case r of
           Some i \<Rightarrow> do { b \<leftarrow> slice_opt start i src; Some (Inr b, i + 2) }
         | None \<Rightarrow> Some (Inl Incomplete, start))
      })"

definition try_extract_frame ::
    "wire \<Rightarrow> bytes \<Rightarrow> nat \<Rightarrow> ((frame_error + telemetry_frame) \<times> nat) option" where
  "try_extract_frame W src pos =
     (if length src - pos < 24 then Some (Inl Incomplete, pos)
      else do {
        (timestamp_ms, pos) \<leftarrow> cursor_take 8 src pos;
        (sequence, pos) \<leftarrow> cursor_take 8 src pos;
        (satellite_id, pos) \<leftarrow> cursor_take 4 src pos;
        (byte_count, pos) \<leftarrow> cursor_take 2 src pos;
        (station_id, pos) \<leftarrow> cursor_take 1 src pos;
        (flags, pos) \<leftarrow> cursor_take 1 src pos;
        let count = get_u16 W byte_count;
        let count = (if count = 0 then None else Some count);
        (r, pos) \<leftarrow> get_payload src pos count;
        Some (case r of
           Inl e \<Rightarrow> (Inl e, pos)
         | Inr payload \<Rightarrow>
             (Inr \<lparr>tf_header = \<lparr>fh_timestamp_ms = get_u64 W timestamp_ms, fh_sequence = get_u64 W sequence,
                 fh_satellite_id = get_u32 W satellite_id, fh_byte_count = count,
                 fh_station_id = get_u8 W station_id, fh_flags = get_u8 W flags\<rparr>,
               tf_payload = payload\<rparr>, pos))
      })"

definition frame_from_bytes :: "wire \<Rightarrow> bytes \<Rightarrow> telemetry_frame option option" where
  "frame_from_bytes W src = do {
     (r, _) \<leftarrow> try_extract_frame W src 0;
     Some (case r of Inl e \<Rightarrow> None | Inr f \<Rightarrow> Some f)
   }"

definition header_validate :: "frame_header \<Rightarrow> bool" where
  "header_validate h = (fh_flags h AND 0x80 = 0)"

section \<open>Generation\<close>

text \<open>The payload bytes are drawn at random and mapped to letters and digits.\<close>

definition alnum_byte :: "u8 \<Rightarrow> u8" where
  "alnum_byte b = ALNUM ! unat (b mod 62)"

definition frame_create_at ::
    "wire \<Rightarrow> 'g rng \<Rightarrow> 'g \<Rightarrow> u8 \<Rightarrow> u16 \<Rightarrow> u64 \<Rightarrow> (bytes \<times> 'g) option" where
  "frame_create_at W R g station_id max_payload timestamp_ms = do {
     (sequence, g) \<leftarrow> rng_u64 R 0 (2 ^ 15) g;
     (satellite_id, g) \<leftarrow> rng_u32 R 0 80 g;
     let (c, g) = rng_choice R FLAGS g;
     flags \<leftarrow> c;
     (len, g) \<leftarrow> rng_u16 R 1 (unat max_payload) g;
     let (raw, g) = rng_fill R (unat len) g;
     Some (put_u64 W timestamp_ms @ put_u64 W sequence @ put_u32 W satellite_id @ put_u16 W len @
       put_u8 W station_id @ put_u8 W flags @ map alnum_byte raw, g)
   }"

fun create_batch ::
    "wire \<Rightarrow> 'g rng \<Rightarrow> nat \<Rightarrow> 'g \<Rightarrow> u8 \<Rightarrow> u16 \<Rightarrow> u64 \<Rightarrow> (bytes list \<times> 'g) option" where
  "create_batch W R 0 g station_id max_payload ts = Some ([], g)"
| "create_batch W R (Suc n) g station_id max_payload ts = do {
     (b, g) \<leftarrow> frame_create_at W R g station_id max_payload ts;
     (bs, g) \<leftarrow> create_batch W R n g station_id max_payload ts;
     Some (b # bs, g)
   }"

definition extend_batch ::
    "wire \<Rightarrow> 'g rng \<Rightarrow> 'g \<Rightarrow> u8 \<Rightarrow> u16 \<Rightarrow> bytes list \<Rightarrow> nat \<Rightarrow> u64 \<Rightarrow> (bytes list \<times> 'g) option" where
  "extend_batch W R g station_id max_payload batch n timestamp_ms = do {
     (bs, g) \<leftarrow> create_batch W R n g station_id max_payload timestamp_ms;
     Some (batch @ bs, g)
   }"

section \<open>The batch pipeline\<close>

definition header_key :: "frame_header \<Rightarrow> u32 \<times> u64" where
  "header_key h = (fh_satellite_id h, fh_sequence h)"

fun dedup_from :: "('h \<Rightarrow> 'k) \<Rightarrow> nat \<Rightarrow> 'k set \<Rightarrow> 'h list \<Rightarrow> nat list" where
  "dedup_from key i seen [] = []"
| "dedup_from key i seen (h # hs) =
     (if key h \<in> seen then dedup_from key (i + 1) seen hs
      else i # dedup_from key (i + 1) (insert (key h) seen) hs)"

definition deduplicate_indices :: "frame_header list \<Rightarrow> nat list" where
  "deduplicate_indices headers = dedup_from header_key 0 {} headers"

text \<open>An index out of range panics in the key function.\<close>

definition sort_indices_by_timestamp ::
    "((nat \<Rightarrow> u64) \<Rightarrow> nat list \<Rightarrow> nat list) \<Rightarrow> nat list \<Rightarrow> frame_header list \<Rightarrow> nat list option" where
  "sort_indices_by_timestamp unstable_sort indices headers =
     (if \<forall>i \<in> set indices. i < length headers
      then Some (unstable_sort (\<lambda>i. fh_timestamp_ms (headers ! i)) indices)
      else None)"

end
