(* ===== verification/Telemetry_Frame_Correct.thy ===== *)
theory Telemetry_Frame_Correct imports Telemetry_Frame begin

text \<open>
  The telemetry frame: contracts of the integer codec and of the random generator, the parser in closed
  form, the parser as a \<open>stream_parser\<close>, the round trip of the generator and the parser, and the
  deduplication stage.
\<close>

unbundle bit_operations_syntax

section \<open>Contracts of the outside code\<close>

locale wire_format =
  fixes W :: wire
  assumes put_lengths: "length (put_u64 W a) = 8" "length (put_u32 W b) = 4" "length (put_u16 W c) = 2"
      "length (put_u8 W d) = 1"
    and get_put: "get_u64 W (put_u64 W a) = a" "get_u32 W (put_u32 W b) = b" "get_u16 W (put_u16 W c) = c"
      "get_u8 W (put_u8 W d) = d"

locale frame_rng =
  fixes R :: "'g rng"
  assumes u64_range: "lo < hi \<Longrightarrow> hi \<le> 2 ^ 64 \<Longrightarrow> \<exists>x g'. rng_u64 R lo hi g = Some (x, g') \<and> lo \<le> unat x \<and> unat x < hi"
    and u32_range: "lo < hi \<Longrightarrow> hi \<le> 2 ^ 32 \<Longrightarrow> \<exists>x g'. rng_u32 R lo hi g = Some (x, g') \<and> lo \<le> unat x \<and> unat x < hi"
    and u16_range: "lo < hi \<Longrightarrow> hi \<le> 2 ^ 16 \<Longrightarrow> \<exists>x g'. rng_u16 R lo hi g = Some (x, g') \<and> lo \<le> unat x \<and> unat x < hi"
    and u16_empty: "hi \<le> lo \<Longrightarrow> rng_u16 R lo hi g = None"
    and choice: "xs \<noteq> [] \<Longrightarrow> \<exists>x g'. rng_choice R xs g = (Some x, g') \<and> x \<in> set xs"
    and fill_length: "length (fst (rng_fill R n g)) = n"

text \<open>The codec writes big-endian bytes; it is the one the tests of the file read back with
  \<^verbatim>\<open>from_be_bytes\<close>.\<close>

definition be_wire :: wire where
  "be_wire = \<lparr>put_u64 = u64_to_be, put_u32 = u32_to_be, put_u16 = u16_to_be, put_u8 = (\<lambda>b. [b]),
     get_u64 = u64_from_be, get_u32 = u32_from_be, get_u16 = u16_from_be, get_u8 = hd\<rparr>"

interpretation be: wire_format be_wire
  by unfold_locales (simp_all add: be_wire_def)

text \<open>A generator with a counter as its state that meets the contract.\<close>

definition draw :: "nat \<Rightarrow> nat \<Rightarrow> nat \<Rightarrow> 'a::len word" where
  "draw lo hi g = of_nat (lo + g mod (hi - lo))"

definition counter_rng :: "nat rng" where
  "counter_rng =
     \<lparr>rng_u64 = (\<lambda>lo hi g. if lo < hi then Some (draw lo hi g, g + 1) else None),
      rng_u32 = (\<lambda>lo hi g. if lo < hi then Some (draw lo hi g, g + 1) else None),
      rng_u16 = (\<lambda>lo hi g. if lo < hi then Some (draw lo hi g, g + 1) else None),
      rng_choice = (\<lambda>xs g. (if xs = [] then None else Some (xs ! (g mod length xs)), g + 1)),
      rng_fill = (\<lambda>n g. (map (\<lambda>i. of_nat (g + i)) [0..<n], g + n))\<rparr>"

section \<open>The parser in closed form\<close>

lemma scan_crlf_find:
  "(\<And>i. i \<in> set is \<Longrightarrow> i + 1 < length src) \<Longrightarrow>
   scan_crlf src is = Some (find (\<lambda>i. src ! i = 13 \<and> src ! (i + 1) = 10) is)"
proof (induction "is")
  case Nil
  then show ?case by simp
next
  case (Cons a "is")
  have "Suc a < length src" "a < length src" using Cons.prems [of a] by auto
  moreover have "scan_crlf src is = Some (find (\<lambda>i. src ! i = 13 \<and> src ! (i + 1) = 10) is)"
    using Cons by simp
  ultimately show ?case by (simp add: byte_at_def)
qed

definition header_of :: "wire \<Rightarrow> bytes \<Rightarrow> frame_header" where
  "header_of W src = \<lparr>fh_timestamp_ms = get_u64 W (bslice 0 8 src), fh_sequence = get_u64 W (bslice 8 8 src),
     fh_satellite_id = get_u32 W (bslice 16 4 src),
     fh_byte_count = (let c = get_u16 W (bslice 20 2 src) in if c = 0 then None else Some c),
     fh_station_id = get_u8 W (bslice 22 1 src), fh_flags = get_u8 W (bslice 23 1 src)\<rparr>"

definition payload_at :: "bytes \<Rightarrow> u16 option \<Rightarrow> (bytes \<times> nat) option" where
  "payload_at src cnt = (case cnt of
      Some len \<Rightarrow> if length src < 24 + unat len then None else Some (bslice 24 (unat len) src, 24 + unat len)
    | None \<Rightarrow> (case find (\<lambda>i. src ! i = 13 \<and> src ! (i + 1) = 10) [24..<length src - 1] of
          Some i \<Rightarrow> Some (bslice 24 (i - 24) src, i + 2)
        | None \<Rightarrow> None))"

lemma find_upt: "find P [a..<b] = Some i \<Longrightarrow> a \<le> i \<and> i < b \<and> P i"
  by (auto simp: find_Some_iff)

lemma get_payload_eq:
  assumes "24 \<le> length src"
  shows "get_payload src 24 cnt = Some (case payload_at src cnt of
      None \<Rightarrow> (Inl Incomplete, 24) | Some (b, pos) \<Rightarrow> (Inr b, pos))"
proof (cases cnt)
  case None
  have "scan_crlf src [24..<length src - 1] =
      Some (find (\<lambda>i. src ! i = 13 \<and> src ! (i + 1) = 10) [24..<length src - 1])"
    by (rule scan_crlf_find) auto
  moreover have "\<And>i. find (\<lambda>i. src ! i = 13 \<and> src ! (i + 1) = 10) [24..<length src - 1] = Some i \<Longrightarrow>
      24 \<le> i \<and> i \<le> length src"
    by (auto dest!: find_upt)
  ultimately show ?thesis
    using assms None
    by (auto simp: get_payload_def payload_at_def usize_sub_def slice_opt_def split: option.splits)
next
  case (Some len)
  then show ?thesis using assms
    by (auto simp: get_payload_def payload_at_def slice_opt_def)
qed

lemma try_extract_frame_eq:
  assumes "24 \<le> length src"
  shows "try_extract_frame W src 0 = Some (case payload_at src (fh_byte_count (header_of W src)) of
      None \<Rightarrow> (Inl Incomplete, 24)
    | Some (b, pos) \<Rightarrow> (Inr \<lparr>tf_header = header_of W src, tf_payload = b\<rparr>, pos))"
  using assms
  by (simp add: try_extract_frame_def cursor_take_def slice_opt_def Let_def get_payload_eq header_of_def
      split: option.splits)

lemma try_extract_frame_short:
  "length src < 24 \<Longrightarrow> try_extract_frame W src 0 = Some (Inl Incomplete, 0)"
  by (simp add: try_extract_frame_def)

lemma header_of_append: "24 \<le> length src \<Longrightarrow> header_of W (src @ c) = header_of W src"
  by (simp add: header_of_def slice_append_left)

lemma find_append: "find P (xs @ ys) = (case find P xs of Some x \<Rightarrow> Some x | None \<Rightarrow> find P ys)"
  by (induction xs) auto

lemma find_cong_nth:
  "(\<And>x. x \<in> set xs \<Longrightarrow> P x = Q x) \<Longrightarrow> find P xs = find Q xs"
  by (induction xs) auto

lemma payload_at_append:
  assumes "24 \<le> length src" "payload_at src cnt = Some (b, pos)"
  shows "payload_at (src @ c) cnt = Some (b, pos)"
proof (cases cnt)
  case (Some len)
  then show ?thesis using assms by (auto simp: payload_at_def slice_append_left split: if_splits)
next
  case None
  let ?P = "\<lambda>s i. s ! i = 13 \<and> s ! (i + 1) = (10 :: u8)"
  obtain i where i: "find (?P src) [24..<length src - 1] = Some i" "b = bslice 24 (i - 24) src" "pos = i + 2"
    using assms None by (auto simp: payload_at_def split: option.splits)
  have le: "24 \<le> i" "i < length src - 1" using find_upt [OF i(1)] by auto
  have "find (?P (src @ c)) [24..<length src - 1] = find (?P src) [24..<length src - 1]"
    by (rule find_cong_nth) (auto simp: nth_append)
  moreover have "[24..<length (src @ c) - 1] = [24..<length src - 1] @ [length src - 1..<length (src @ c) - 1]"
    using upt_add_eq_append [of 24 "length src - 1" "length c"] le by simp
  ultimately have "find (?P (src @ c)) [24..<length (src @ c) - 1] = Some i"
    using i(1) by (simp add: find_append)
  then show ?thesis using None i le by (simp add: payload_at_def slice_append_left)
qed

lemma payload_at_inside:
  "24 \<le> length src \<Longrightarrow> payload_at src cnt = Some (b, pos) \<Longrightarrow> 24 \<le> pos \<and> pos \<le> length src"
  by (auto simp: payload_at_def split: option.splits if_splits dest!: find_upt)

section \<open>The parser is a stream parser\<close>

definition frame_parser :: "wire \<Rightarrow> bytes \<Rightarrow> (telemetry_frame \<times> nat) option" where
  "frame_parser W b = (case try_extract_frame W b 0 of Some (Inr f, n) \<Rightarrow> Some (f, n) | _ \<Rightarrow> None)"

lemma frame_parser_Some:
  "frame_parser W b = Some (f, n) \<longleftrightarrow> try_extract_frame W b 0 = Some (Inr f, n)"
  by (auto simp: frame_parser_def split: option.splits sum.splits)

lemma try_extract_frame_Some:
  "try_extract_frame W b 0 = Some (Inr f, n) \<longleftrightarrow>
   24 \<le> length b \<and> tf_header f = header_of W b \<and>
     payload_at b (fh_byte_count (header_of W b)) = Some (tf_payload f, n)"
proof (cases "24 \<le> length b")
  case True
  show ?thesis by (simp only: try_extract_frame_eq [OF True]) (cases f, auto simp: True split: option.splits)
next
  case False
  then show ?thesis by (simp add: try_extract_frame_short)
qed

interpretation frames: stream_parser "frame_parser W" for W
proof
  fix b c f n
  assume "frame_parser W b = Some (f, n)"
  then have *: "24 \<le> length b" "tf_header f = header_of W b"
      "payload_at b (fh_byte_count (header_of W b)) = Some (tf_payload f, n)"
    by (auto simp: frame_parser_Some try_extract_frame_Some)
  show "0 < n \<and> n \<le> length b" using payload_at_inside [OF *(1,3)] by simp
  show "frame_parser W (b @ c) = Some (f, n)"
    using * payload_at_append [OF *(1,3)]
    by (simp add: frame_parser_Some try_extract_frame_Some header_of_append)
qed

section \<open>Generated frames are parsed back\<close>

context wire_format begin

lemma header_of_encoding:
  fixes ts :: u64 and sq :: u64 and sat :: u32 and len :: u16 and st :: u8 and fl :: u8 and rest :: bytes
  defines "src \<equiv> put_u64 W ts @ put_u64 W sq @ put_u32 W sat @ put_u16 W len @ put_u8 W st @ put_u8 W fl @ rest"
  shows "24 \<le> length src"
    and "header_of W src = \<lparr>fh_timestamp_ms = ts, fh_sequence = sq, fh_satellite_id = sat,
      fh_byte_count = (if len = 0 then None else Some len), fh_station_id = st, fh_flags = fl\<rparr>"
    and "drop 24 src = rest"
  unfolding src_def
  by (simp_all add: header_of_def bslice_def put_lengths get_put)

lemma parse_encoding:
  assumes "length payload = unat len" "len \<noteq> 0"
  shows "try_extract_frame W (put_u64 W ts @ put_u64 W sq @ put_u32 W sat @ put_u16 W len @ put_u8 W st @
      put_u8 W fl @ payload @ rest) 0 =
    Some (Inr \<lparr>tf_header = \<lparr>fh_timestamp_ms = ts, fh_sequence = sq, fh_satellite_id = sat,
      fh_byte_count = Some len, fh_station_id = st, fh_flags = fl\<rparr>, tf_payload = payload\<rparr>, 24 + unat len)"
    (is "try_extract_frame W ?src 0 = _")
proof -
  note h = header_of_encoding [of ts sq sat len st fl "payload @ rest"]
  have "length ?src = 24 + unat len + length rest" using assms by (simp add: put_lengths)
  moreover have "bslice 24 (unat len) ?src = payload"
    using assms h(3) by (simp only: bslice_def) simp
  ultimately have "payload_at ?src (Some len) = Some (payload, 24 + unat len)"
    by (simp add: payload_at_def)
  then show ?thesis using try_extract_frame_eq [OF h(1)] h(2) assms by simp
qed

end

text \<open>The bytes of a frame, field by field; an absent byte count is written as 0.\<close>

definition frame_encoding :: "wire \<Rightarrow> telemetry_frame \<Rightarrow> bytes" where
  "frame_encoding W f = (let h = tf_header f in
     put_u64 W (fh_timestamp_ms h) @ put_u64 W (fh_sequence h) @ put_u32 W (fh_satellite_id h) @
     put_u16 W (case fh_byte_count h of None \<Rightarrow> 0 | Some len \<Rightarrow> len) @ put_u8 W (fh_station_id h) @ put_u8 W (fh_flags h) @
     tf_payload f)"

definition frame_drawn :: "u8 \<Rightarrow> u16 \<Rightarrow> u64 \<Rightarrow> telemetry_frame \<Rightarrow> bool" where
  "frame_drawn station_id max_payload ts f \<longleftrightarrow>
     fh_timestamp_ms (tf_header f) = ts \<and> fh_station_id (tf_header f) = station_id \<and>
     unat (fh_sequence (tf_header f)) < 2 ^ 15 \<and> unat (fh_satellite_id (tf_header f)) < 80 \<and>
     fh_flags (tf_header f) \<in> set FLAGS \<and> set (tf_payload f) \<subseteq> set ALNUM \<and>
     fh_byte_count (tf_header f) = Some (of_nat (length (tf_payload f))) \<and>
     0 < length (tf_payload f) \<and> length (tf_payload f) < unat max_payload"

text \<open>The frames a generator can draw are told apart by their bytes.\<close>

lemma frame_encoding_inj:
  assumes W: "wire_format W" and f: "frame_drawn station_id max_payload ts f" and g: "frame_drawn station_id max_payload ts g"
    and eq: "frame_encoding W f = frame_encoding W g"
  shows "f = g"
proof -
  have parse: "\<exists>n. try_extract_frame W (frame_encoding W f) 0 = Some (Inr f, n)" if d: "frame_drawn station_id max_payload ts f" for f
  proof -
    let ?len = "of_nat (length (tf_payload f)) :: u16"
    have "length (tf_payload f) < unat max_payload" using d by (simp add: frame_drawn_def)
    from less_trans [OF this unat_u16_less] have l: "length (tf_payload f) < 2 ^ 16" by simp
    then have u: "unat ?len = length (tf_payload f)" by (simp add: unat_of_nat)
    moreover have "0 < length (tf_payload f)" using d by (simp add: frame_drawn_def)
    ultimately have nz: "?len \<noteq> 0" by (metis unat_0 less_irrefl)
    have b: "fh_byte_count (tf_header f) = Some ?len" using d by (simp add: frame_drawn_def)
    let ?h = "tf_header f"
    have r: "\<lparr>tf_header = \<lparr>fh_timestamp_ms = fh_timestamp_ms ?h, fh_sequence = fh_sequence ?h, fh_satellite_id = fh_satellite_id ?h,
        fh_byte_count = Some ?len, fh_station_id = fh_station_id ?h, fh_flags = fh_flags ?h\<rparr>, tf_payload = tf_payload f\<rparr> = f"
      unfolding b [symmetric] by simp
    have e: "frame_encoding W f = put_u64 W (fh_timestamp_ms ?h) @ put_u64 W (fh_sequence ?h) @ put_u32 W (fh_satellite_id ?h) @
        put_u16 W ?len @ put_u8 W (fh_station_id ?h) @ put_u8 W (fh_flags ?h) @ tf_payload f @ []"
      by (simp add: frame_encoding_def b Let_def)
    have "try_extract_frame W (frame_encoding W f) 0 = Some (Inr f, 24 + unat ?len)"
      using wire_format.parse_encoding [OF W u [symmetric] nz, of "fh_timestamp_ms ?h" "fh_sequence ?h" "fh_satellite_id ?h"
          "fh_station_id ?h" "fh_flags ?h" "[]"] unfolding e r .
    then show ?thesis by (rule exI)
  qed
  obtain i where i: "try_extract_frame W (frame_encoding W f) 0 = Some (Inr f, i)" using parse [OF f] by (rule exE)
  obtain j where "try_extract_frame W (frame_encoding W g) 0 = Some (Inr g, j)" using parse [OF g] by (rule exE)
  from trans [OF sym [OF i [unfolded eq]] this] show ?thesis by simp
qed

lemma length_ALNUM: "length ALNUM = 62"
  by (simp add: ALNUM_def)

lemma alnum_byte_in: "alnum_byte b \<in> set ALNUM"
proof -
  have "unat (b mod 62) < 62" by (simp add: unat_mod)
  then show ?thesis by (simp add: alnum_byte_def length_ALNUM)
qed

lemma frame_create_drawn:
  assumes W: "wire_format W" and R: "frame_rng R" and m: "1 < unat max_payload"
  shows "\<exists>b g' f. frame_create_at W R g station_id max_payload ts = Some (b, g') \<and>
    frame_drawn station_id max_payload ts f \<and> b = frame_encoding W f \<and> length b = 24 + length (tf_payload f) \<and>
    (\<forall>rest. try_extract_frame W (b @ rest) 0 = Some (Inr f, length b))"
proof -
  obtain sq g1 where sq: "rng_u64 R 0 (2 ^ 15) g = Some (sq, g1)" "unat sq < 2 ^ 15"
    using frame_rng.u64_range [OF R, of 0 "2 ^ 15" g] by force
  obtain sat g2 where sat: "rng_u32 R 0 80 g1 = Some (sat, g2)" "unat sat < 80"
    using frame_rng.u32_range [OF R, of 0 80 g1] by auto
  obtain fl g3 where fl: "rng_choice R FLAGS g2 = (Some fl, g3)" "fl \<in> set FLAGS"
    using frame_rng.choice [OF R, of FLAGS g2] by (auto simp: FLAGS_def)
  obtain len g4 where len: "rng_u16 R 1 (unat max_payload) g3 = Some (len, g4)" "1 \<le> unat len"
      "unat len < unat max_payload"
    using frame_rng.u16_range [OF R m, of g3] by (auto simp: less_imp_le)
  obtain raw g5 where raw: "rng_fill R (unat len) g4 = (raw, g5)" "length raw = unat len"
    using frame_rng.fill_length [OF R, of "unat len" g4] by (metis fst_conv surj_pair)
  let ?payload = "map alnum_byte raw"
  let ?f = "\<lparr>tf_header = \<lparr>fh_timestamp_ms = ts, fh_sequence = sq, fh_satellite_id = sat,
      fh_byte_count = Some len, fh_station_id = station_id, fh_flags = fl\<rparr>, tf_payload = ?payload\<rparr>"
  let ?b = "put_u64 W ts @ put_u64 W sq @ put_u32 W sat @ put_u16 W len @ put_u8 W station_id @
      put_u8 W fl @ ?payload"
  have "frame_create_at W R g station_id max_payload ts = Some (?b, g5)"
    using sq sat fl len raw by (simp add: frame_create_at_def)
  moreover have "frame_drawn station_id max_payload ts ?f"
    using sq sat fl len raw alnum_byte_in by (auto simp: frame_drawn_def)
  moreover have "?b = frame_encoding W ?f" by (simp add: frame_encoding_def)
  moreover have l: "length ?b = 24 + length (tf_payload ?f)"
    by (simp add: wire_format.put_lengths [OF W])
  moreover have "try_extract_frame W (?b @ rest) 0 = Some (Inr ?f, length ?b)" for rest
  proof -
    have "len \<noteq> 0" using len(2) by auto
    then show ?thesis
      using wire_format.parse_encoding [OF W, of ?payload len ts sq sat station_id fl rest] l raw(2) by simp
  qed
  ultimately show ?thesis by (intro exI [of _ ?b] exI [of _ g5] exI [of _ ?f]) blast
qed

lemma frame_create_empty_range:
  assumes R: "frame_rng R" and m: "unat max_payload \<le> 1"
  shows "frame_create_at W R g station_id max_payload ts = None"
  using frame_rng.u16_empty [OF R m]
  by (auto simp: frame_create_at_def Option.bind_eq_None_conv split: prod.splits)

text \<open>For every integer codec and random generator that meet their contracts, \<^verbatim>\<open>Frame::create_at\<close>
  panics exactly when the payload bound leaves no length to draw. Otherwise the frame it returns is
  parsed back, whatever bytes follow it, with the fields that were drawn, its payload is made of
  letters and digits, and the parser stops at its end.\<close>
lemma frame_roundtrip:
  assumes "wire_format W" "frame_rng R"
  shows "if 1 < unat max_payload
    then \<exists>b g' f. frame_create_at W R g station_id max_payload ts = Some (b, g') \<and>
      frame_drawn station_id max_payload ts f \<and> length b = 24 + length (tf_payload f) \<and>
      (\<forall>rest. try_extract_frame W (b @ rest) 0 = Some (Inr f, length b))
    else frame_create_at W R g station_id max_payload ts = None"
proof (cases "1 < unat max_payload")
  case True
  then show ?thesis using frame_create_drawn [OF assms True, of g station_id ts] by (simp only: if_True) blast
next
  case False
  then show ?thesis using frame_create_empty_range [OF assms(2)] by (simp add: not_less)
qed

lemma draw_range:
  assumes "lo < hi" "hi \<le> 2 ^ LENGTH('a)"
  shows "lo \<le> unat (draw lo hi g :: 'a::len word)" "unat (draw lo hi g :: 'a word) < hi"
proof -
  have "g mod (hi - lo) < hi - lo" using assms by simp
  then have "lo + g mod (hi - lo) < hi" by linarith
  then show "lo \<le> unat (draw lo hi g :: 'a word)" "unat (draw lo hi g :: 'a word) < hi"
    unfolding draw_def using assms(2) by (simp_all add: unat_of_nat take_bit_nat_eq_self del: of_nat_add)
qed

lemma counter_rng_ok: "frame_rng counter_rng"
  by unfold_locales (auto simp: counter_rng_def intro: draw_range)

interpretation counter: frame_rng counter_rng
  by (rule counter_rng_ok)

end
