(* ===== verification/Frame_Batch.thy ===== *)
theory Frame_Batch imports Telemetry_Frame begin

text \<open>
  The batch stages over decoded headers: the exact result of \<^verbatim>\<open>deduplicate_indices\<close> and
  \<^verbatim>\<open>sort_indices_by_timestamp\<close> of \<^verbatim>\<open>module5/project5/frame.rs\<close>, the pipeline of
  \<^verbatim>\<open>module6/project6\<close> with its packed keys, and the stages of \<^verbatim>\<open>module6/part1/benchmarking.rs\<close>. A
  \<^verbatim>\<open>HashSet\<close> that is only inserted into is a set of keys.
\<close>

unbundle bit_operations_syntax

section \<open>Module 6: packed keys\<close>

record header_extraction =
  hx_sequence :: u64
  hx_satellite_id :: u32
  hx_flag :: u8

definition header_extraction_new :: "u64 \<Rightarrow> u32 \<Rightarrow> u8 \<Rightarrow> header_extraction" where
  "header_extraction_new sequence satellite_id flag =
     \<lparr>hx_sequence = sequence, hx_satellite_id = satellite_id, hx_flag = flag\<rparr>"

definition assemble_u128 :: "u64 \<Rightarrow> u32 \<Rightarrow> u128" where
  "assemble_u128 high low = push_bit 32 (ucast high) OR ucast low"

definition split_back_from_u128 :: "u128 \<Rightarrow> u64 \<times> u32" where
  "split_back_from_u128 combined = (ucast (drop_bit 32 combined), ucast combined)"

definition validate_headers :: "header_extraction list \<Rightarrow> u128 list" where
  "validate_headers headers =
     map (\<lambda>h. assemble_u128 (hx_sequence h) (hx_satellite_id h)) (filter (\<lambda>h. hx_flag h AND 0x80 = 0) headers)"

record deduplicator =
  dd_seen :: "u128 set"
  dd_indices :: "nat list"

definition deduplicator_new :: deduplicator where
  "deduplicator_new = \<lparr>dd_seen = {}, dd_indices = []\<rparr>"

fun dedup_loop :: "(nat \<times> u128) list \<Rightarrow> deduplicator \<Rightarrow> deduplicator" where
  "dedup_loop [] d = d"
| "dedup_loop ((i, key) # ks) d =
     dedup_loop ks (if key \<in> dd_seen d then d
       else d\<lparr>dd_seen := insert key (dd_seen d), dd_indices := dd_indices d @ [i]\<rparr>)"

definition dedup_process :: "u128 list \<Rightarrow> deduplicator \<Rightarrow> nat list \<times> deduplicator" where
  "dedup_process valid d =
     (let d = dedup_loop (List.enumerate 0 valid) (d\<lparr>dd_seen := {}, dd_indices := []\<rparr>) in (dd_indices d, d))"

text \<open>An index out of range panics, and so does a sum that leaves \<^verbatim>\<open>usize\<close> (64 bits).\<close>

fun forward_sum :: "u128 list \<Rightarrow> nat list \<Rightarrow> u64 \<Rightarrow> u64 option" where
  "forward_sum valid [] acc = Some acc"
| "forward_sum valid (i # is) acc =
     (if i < length valid
      then (let seq = fst (split_back_from_u128 (valid ! i))
            in if unat acc + unat seq < 2 ^ 64 then forward_sum valid is (acc + seq) else None)
      else None)"

definition run_pipeline :: "header_extraction list \<Rightarrow> deduplicator \<Rightarrow> (u64 \<times> deduplicator) option" where
  "run_pipeline headers dedup =
     (let valid = validate_headers headers; (unique, dedup) = dedup_process valid dedup
      in map_option (\<lambda>n. (n, dedup)) (forward_sum valid unique 0))"

section \<open>Module 6: the benchmarked stages\<close>

definition build_test_data :: "nat \<Rightarrow> u64 list \<times> (u64 \<times> u32) list" where
  "build_test_data n =
     (map (\<lambda>i. of_nat (n - i)) [0..<n], map (\<lambda>i. (of_nat (i div 3), of_nat (i mod 48))) [0..<n])"

definition bench_deduplicate :: "(u64 \<times> u32) list \<Rightarrow> nat list" where
  "bench_deduplicate headers = dedup_from (\<lambda>(seq, sat). assemble_u128 seq sat) 0 {} headers"

definition bench_sort_by_timestamp ::
    "((nat \<Rightarrow> u64) \<Rightarrow> nat list \<Rightarrow> nat list) \<Rightarrow> nat list \<Rightarrow> u64 list \<Rightarrow> nat list option" where
  "bench_sort_by_timestamp unstable_sort indices timestamps =
     (if \<forall>i \<in> set indices. i < length timestamps
      then Some (unstable_sort (\<lambda>i. timestamps ! i) indices)
      else None)"

definition bench_process_batch ::
    "((nat \<Rightarrow> u64) \<Rightarrow> nat list \<Rightarrow> nat list) \<Rightarrow> (u64 \<times> u32) list \<Rightarrow> u64 list \<Rightarrow> nat option" where
  "bench_process_batch unstable_sort headers timestamps =
     map_option length (bench_sort_by_timestamp unstable_sort (bench_deduplicate headers) timestamps)"

section \<open>Deduplication keeps the first header of every key\<close>

definition first_of_key :: "('h \<Rightarrow> 'k) \<Rightarrow> 'h list \<Rightarrow> nat \<Rightarrow> bool" where
  "first_of_key key hs i \<longleftrightarrow> (\<forall>j < i. key (hs ! j) \<noteq> key (hs ! i))"

lemma upt_0_Suc: "[0..<Suc n] = 0 # map Suc [0..<n]"
  by (simp add: upt_conv_Cons map_Suc_upt del: upt_Suc)

lemma dedup_from_eq:
  "dedup_from key i seen hs =
     map ((+) i) (filter (\<lambda>j. key (hs ! j) \<notin> seen \<and> first_of_key key hs j) [0..<length hs])"
proof (induction hs arbitrary: i seen)
  case Nil
  then show ?case by simp
next
  case (Cons h hs)
  have first: "first_of_key key (h # hs) (Suc j) \<longleftrightarrow> key (hs ! j) \<noteq> key h \<and> first_of_key key hs j" for j
    by (auto simp: first_of_key_def less_Suc_eq_0_disj)
  have first0: "first_of_key key (h # hs) 0" by (simp add: first_of_key_def)
  show ?case
  proof (cases "key h \<in> seen")
    case True
    then have "(key (hs ! j) \<notin> seen \<and> key (hs ! j) \<noteq> key h \<and> first_of_key key hs j) \<longleftrightarrow>
        (key (hs ! j) \<notin> seen \<and> first_of_key key hs j)" for j by auto
    with True show ?thesis by (simp add: Cons.IH upt_0_Suc filter_map o_def first del: upt_Suc)
  next
    case False
    have "(key (hs ! j) \<notin> seen \<and> key (hs ! j) \<noteq> key h \<and> first_of_key key hs j) \<longleftrightarrow>
        (key (hs ! j) \<notin> insert (key h) seen \<and> first_of_key key hs j)" for j by auto
    with False show ?thesis by (simp add: Cons.IH upt_0_Suc filter_map o_def first first0 del: upt_Suc insert_iff)
  qed
qed

lemma dedup_from_first: "dedup_from key 0 {} hs = filter (first_of_key key hs) [0..<length hs]"
proof -
  have "map ((+) 0) xs = xs" for xs :: "nat list" by (induction xs) auto
  then show ?thesis by (simp add: dedup_from_eq)
qed

lemma dedup_covers:
  "i < length hs \<Longrightarrow> \<exists>j \<in> set (dedup_from key 0 {} hs). j \<le> i \<and> key (hs ! j) = key (hs ! i)"
proof (induction i rule: less_induct)
  case (less i)
  show ?case
  proof (cases "first_of_key key hs i")
    case True
    then show ?thesis using less.prems by (auto simp: dedup_from_first)
  next
    case False
    then obtain k where k: "k < i" "key (hs ! k) = key (hs ! i)" by (auto simp: first_of_key_def)
    then show ?thesis using less.IH [of k] less.prems by (metis less_trans less_imp_le order_trans)
  qed
qed

text \<open>A key function that is injective on another one keeps the same indices.\<close>

lemma dedup_from_cong:
  assumes "\<And>a b. key a = key b \<longleftrightarrow> key' a = key' b"
  shows "dedup_from key 0 {} hs = dedup_from key' 0 {} hs"
proof -
  have "first_of_key key hs = first_of_key key' hs"
    by (rule ext) (simp add: first_of_key_def assms)
  then show ?thesis by (simp add: dedup_from_first)
qed

lemma dedup_from_map: "dedup_from key 0 {} (map f hs) = dedup_from (key \<circ> f) 0 {} hs"
proof -
  have "dedup_from key i seen (map f hs) = dedup_from (key \<circ> f) i seen hs" for i seen
    by (induction hs arbitrary: i seen) auto
  then show ?thesis .
qed

section \<open>The order of the batch\<close>

text \<open>What the batch code needs of \<^verbatim>\<open>sort_unstable_by_key\<close>: a rearrangement in the order of the keys.\<close>

locale key_sort =
  fixes srt :: "(nat \<Rightarrow> u64) \<Rightarrow> nat list \<Rightarrow> nat list"
  assumes mset_srt: "mset (srt key xs) = mset xs"
    and sorted_srt: "sorted (map key (srt key xs))"

interpretation stable: key_sort "\<lambda>key xs. sort_key key xs"
  by unfold_locales simp_all

lemma distinct_dedup: "distinct (dedup_from key 0 {} hs)"
  by (simp add: dedup_from_first)

text \<open>The batch step of the server, deduplication and then the sort, never panics. For every sort
  that meets its contract, the indices it forwards are those of the first header of each pair of
  satellite and sequence, each once, in the order of the timestamps.\<close>
lemma batch_pipeline_spec:
  assumes "key_sort srt"
  shows "\<exists>is. sort_indices_by_timestamp srt (deduplicate_indices headers) headers = Some is \<and>
    distinct is \<and> sorted (map (\<lambda>i. fh_timestamp_ms (headers ! i)) is) \<and>
    set is = {i. i < length headers \<and> first_of_key header_key headers i} \<and>
    header_key ` (!) headers ` set is = header_key ` set headers"
proof -
  let ?is = "srt (\<lambda>i. fh_timestamp_ms (headers ! i)) (deduplicate_indices headers)"
  have m: "mset ?is = mset (deduplicate_indices headers)" by (rule key_sort.mset_srt [OF assms])
  then have s: "set ?is = {i. i < length headers \<and> first_of_key header_key headers i}"
    unfolding mset_eq_setD [OF m] by (auto simp: deduplicate_indices_def dedup_from_first)
  have d: "distinct ?is"
    using mset_eq_imp_distinct_iff [OF m] by (simp add: deduplicate_indices_def distinct_dedup)
  have "header_key h \<in> header_key ` (!) headers ` set ?is" if "h \<in> set headers" for h
  proof -
    from that obtain i where i: "i < length headers" "headers ! i = h" by (auto simp: in_set_conv_nth)
    from dedup_covers [OF i(1), of header_key] obtain j where
      j: "j \<in> set (dedup_from header_key 0 {} headers)" "header_key (headers ! j) = header_key h"
      using i(2) by blast
    then have "j \<in> set ?is" by (simp add: s dedup_from_first)
    then have "headers ! j \<in> (!) headers ` set ?is" by (rule imageI)
    then show ?thesis by (rule rev_image_eqI) (simp add: j(2))
  qed
  moreover have "(!) headers ` set ?is \<subseteq> set headers" unfolding s by auto
  ultimately have "header_key ` (!) headers ` set ?is = header_key ` set headers" by blast
  moreover have "sort_indices_by_timestamp srt (deduplicate_indices headers) headers = Some ?is"
    by (simp add: sort_indices_by_timestamp_def deduplicate_indices_def dedup_from_first)
  ultimately show ?thesis
    using s d key_sort.sorted_srt [OF assms, of "\<lambda>i. fh_timestamp_ms (headers ! i)"] by blast
qed

section \<open>The packed keys\<close>

lemma split_assemble: "split_back_from_u128 (assemble_u128 high low) = (high, low)"
proof -
  have "ucast (drop_bit 32 (assemble_u128 high low)) = high"
    by (rule bit_word_eqI) (auto simp: assemble_u128_def bit_simps dest: bit_imp_le_length)
  moreover have "ucast (assemble_u128 high low) = low"
    by (rule bit_word_eqI) (auto simp: assemble_u128_def bit_simps)
  ultimately show ?thesis by (simp add: split_back_from_u128_def)
qed

lemma assemble_inj: "assemble_u128 a b = assemble_u128 c d \<longleftrightarrow> a = c \<and> b = d"
  by (metis split_assemble prod.inject)

lemma dedup_loop_eq:
  "dd_indices (dedup_loop (List.enumerate i ks) d) = dd_indices d @ dedup_from id i (dd_seen d) ks"
  by (induction ks arbitrary: i d) auto

lemma dedup_process_eq: "fst (dedup_process valid d) = dedup_from id 0 {} valid"
  by (simp add: dedup_process_def dedup_loop_eq)

text \<open>The two pipelines keep the same headers, since packing a key loses nothing.\<close>

lemma bench_deduplicate_eq: "bench_deduplicate headers = dedup_from id 0 {} headers"
  unfolding bench_deduplicate_def
  by (rule dedup_from_cong) (auto simp: assemble_inj)

lemma forward_sum_eq:
  assumes "\<forall>i \<in> set is. i < length valid"
  shows "forward_sum valid is acc =
    (if unat acc + (\<Sum>i\<leftarrow>is. unat (fst (split_back_from_u128 (valid ! i)))) < 2 ^ 64
     then Some (acc + of_nat (\<Sum>i\<leftarrow>is. unat (fst (split_back_from_u128 (valid ! i)))))
     else None)"
  using assms
proof (induction "is" arbitrary: acc)
  case Nil
  then show ?case by simp
next
  case (Cons i "is")
  let ?seq = "fst (split_back_from_u128 (valid ! i))"
  have "unat acc + unat ?seq < 2 ^ 64 \<Longrightarrow> unat (acc + ?seq) = unat acc + unat ?seq"
    by (simp add: unat_word_ariths)
  then show ?case using Cons by (auto simp: Let_def add.assoc)
qed

lemma sum_first_of_key:
  "(\<Sum>i\<leftarrow>dedup_from id 0 {} ks. g (ks ! i)) = (\<Sum>k \<in> set ks. g k)"
proof -
  let ?is = "dedup_from id 0 {} ks"
  have "inj_on ((!) ks) (set ?is)"
    by (auto simp: inj_on_def dedup_from_first first_of_key_def) (metis linorder_neqE_nat)
  moreover have "(!) ks ` set ?is = set ks"
    using dedup_covers [of _ ks id] by (auto simp: dedup_from_first in_set_conv_nth image_iff) metis
  ultimately have "(\<Sum>k \<in> set ks. g k) = (\<Sum>i \<in> set ?is. g (ks ! i))"
    by (metis (no_types, lifting) sum.reindex_cong)
  then show ?thesis by (simp add: sum_list_distinct_conv_sum_set distinct_dedup)
qed

text \<open>whatever the reused \<^verbatim>\<open>Deduplicator\<close> held before, \<^verbatim>\<open>run_pipeline\<close> adds the sequence numbers of the
  distinct pairs of sequence and satellite among the headers without the error flag. It panics exactly
  when that sum leaves 64 bits.\<close>
lemma run_pipeline_spec:
  "map_option fst (run_pipeline headers d) =
     (let keys = (\<lambda>h. (hx_sequence h, hx_satellite_id h)) ` {h \<in> set headers. hx_flag h AND 0x80 = 0};
          total = (\<Sum>(seq, sat) \<in> keys. unat seq)
      in if total < 2 ^ 64 then Some (of_nat total) else None)"
proof -
  let ?valid = "validate_headers headers"
  let ?keys = "(\<lambda>h. (hx_sequence h, hx_satellite_id h)) ` {h \<in> set headers. hx_flag h AND 0x80 = 0}"
  have v: "set ?valid = (\<lambda>(seq, sat). assemble_u128 seq sat) ` ?keys"
    by (auto simp: validate_headers_def image_image)
  have "inj_on (\<lambda>(seq, sat). assemble_u128 seq sat) ?keys"
    by (auto simp: inj_on_def assemble_inj)
  then have "(\<Sum>k \<in> set ?valid. unat (fst (split_back_from_u128 k))) = (\<Sum>(seq, sat) \<in> ?keys. unat seq)"
    by (simp add: v sum.reindex split_assemble case_prod_unfold comp_def)
  moreover have "\<forall>i \<in> set (dedup_from id 0 {} ?valid). i < length ?valid"
    by (simp add: dedup_from_first)
  ultimately have "forward_sum ?valid (dedup_from id 0 {} ?valid) 0 =
      (if (\<Sum>(seq, sat) \<in> ?keys. unat seq) < 2 ^ 64 then Some (of_nat (\<Sum>(seq, sat) \<in> ?keys. unat seq)) else None)"
    using forward_sum_eq [of "dedup_from id 0 {} ?valid" ?valid 0]
      sum_first_of_key [of "\<lambda>k. unat (fst (split_back_from_u128 k))" ?valid] by simp
  moreover have "map_option fst (run_pipeline headers d) = forward_sum ?valid (dedup_from id 0 {} ?valid) 0"
    using dedup_process_eq [of ?valid d]
    by (simp add: run_pipeline_def Let_def case_prod_unfold option.map_comp comp_def option.map_ident)
  ultimately show ?thesis by (simp add: Let_def)
qed

end
