(* ===== verification/Frame_Connection.thy ===== *)
theory Frame_Connection imports Telemetry_Frame_Correct Frame_Batch begin

text \<open>
  \<^verbatim>\<open>module5/project5/connection.rs\<close>, \<^verbatim>\<open>shutdown.rs\<close> and the connection handler of \<^verbatim>\<open>server.rs\<close>. The
  socket is outside code: what its reads return is the list \<open>input\<close> of the model, one element for each
  \<^verbatim>\<open>read_buf\<close>, and a read that returns no byte, or the end of the list, is the end of the stream. For
  writes the model keeps the bytes handed to the stream and takes the results of the calls from a
  list.
\<close>

section \<open>Reading frames\<close>

datatype read_event = Chunk bytes | ReadFail string

definition parse_frame ::
    "wire \<Rightarrow> bytes \<Rightarrow> ((string + telemetry_frame option) \<times> bytes) option" where
  "parse_frame W buffer = do {
     (r, pos) \<leftarrow> try_extract_frame W buffer 0;
     Some (case r of
        Inr frame \<Rightarrow> (Inr (Some frame), drop pos buffer)
      | Inl Incomplete \<Rightarrow> (Inr None, buffer)
      | Inl (Other e) \<Rightarrow> (Inl e, buffer))
   }"

definition end_of_stream :: "bytes \<Rightarrow> string + telemetry_frame option" where
  "end_of_stream buffer = (if buffer = [] then Inr None else Inl ''connection reset by peer'')"

fun read_frame ::
    "wire \<Rightarrow> read_event list \<Rightarrow> bytes \<Rightarrow>
     ((string + telemetry_frame option) \<times> bytes \<times> read_event list) option" where
  "read_frame W [] buffer = do {
     (r, buffer) \<leftarrow> parse_frame W buffer;
     Some (case r of
        Inl e \<Rightarrow> (Inl e, buffer, [])
      | Inr (Some frame) \<Rightarrow> (Inr (Some frame), buffer, [])
      | Inr None \<Rightarrow> (end_of_stream buffer, buffer, []))
   }"
| "read_frame W (ev # input) buffer = do {
     (r, buffer) \<leftarrow> parse_frame W buffer;
     (case r of
        Inl e \<Rightarrow> Some (Inl e, buffer, ev # input)
      | Inr (Some frame) \<Rightarrow> Some (Inr (Some frame), buffer, ev # input)
      | Inr None \<Rightarrow> (case ev of
            ReadFail e \<Rightarrow> Some (Inl e, buffer, input)
          | Chunk c \<Rightarrow>
              if c = [] then Some (end_of_stream buffer, buffer, input)
              else read_frame W input (buffer @ c)))
   }"

section \<open>Writing frames\<close>

text \<open>\<open>handed\<close> is what was given to the buffered stream, \<open>flushed\<close> how much of it the last successful
  flush covers; \<open>results\<close> holds the outcome of each call to come, a call past its end succeeds.\<close>

record out_stream =
  handed :: bytes
  flushed :: nat
  results :: "bool list"

definition next_result :: "out_stream \<Rightarrow> bool \<times> out_stream" where
  "next_result w = (case results w of [] \<Rightarrow> (True, w) | b # bs \<Rightarrow> (b, w\<lparr>results := bs\<rparr>))"

definition write_all :: "bytes \<Rightarrow> out_stream \<Rightarrow> bool \<times> out_stream" where
  "write_all b w = (let (ok, w) = next_result w in (ok, if ok then w\<lparr>handed := handed w @ b\<rparr> else w))"

definition flush_stream :: "out_stream \<Rightarrow> bool \<times> out_stream" where
  "flush_stream w = (let (ok, w) = next_result w in (ok, if ok then w\<lparr>flushed := length (handed w)\<rparr> else w))"

fun write_frames :: "bytes list \<Rightarrow> out_stream \<Rightarrow> bool \<times> out_stream" where
  "write_frames [] w = flush_stream w"
| "write_frames (frame # frames) w =
     (let (ok, w) = write_all frame w in if ok then write_frames frames w else (False, w))"

section \<open>Shutdown\<close>

text \<open>\<^verbatim>\<open>Shutdown\<close>: \<open>recv\<close> returns at once when the flag is set, otherwise it waits for the broadcast and
  sets the flag. The channel is the Boolean \<open>signalled\<close>; \<open>None\<close> is a call that keeps waiting.\<close>

record shutdown =
  sd_is_shutdown :: bool

definition shutdown_new :: shutdown where
  "shutdown_new = \<lparr>sd_is_shutdown = False\<rparr>"

definition is_shutdown :: "shutdown \<Rightarrow> bool" where
  "is_shutdown s = sd_is_shutdown s"

definition shutdown_recv :: "bool \<Rightarrow> shutdown \<Rightarrow> shutdown option" where
  "shutdown_recv signalled s =
     (if sd_is_shutdown s then Some s else if signalled then Some (s\<lparr>sd_is_shutdown := True\<rparr>) else None)"

section \<open>The connection handler\<close>

text \<open>The handler collects valid headers; a batch of 1000 goes through the pipeline on a blocking thread.
  \<open>processed\<close> records each batch with the indices the pipeline kept. The rest of the batch is a local
  variable, lost when the handler returns. \<open>n\<close> is the number of reads that finish before the shutdown
  branch of the \<^verbatim>\<open>select!\<close> wins.\<close>

datatype handler_end = Stopped | PeerClosed | HandlerError string

record handler =
  hn_buffer :: bytes
  hn_input :: "read_event list"
  hn_batch :: "frame_header list"
  hn_processed :: "(frame_header list \<times> nat list) list"

definition handler_new :: "read_event list \<Rightarrow> handler" where
  "handler_new input = \<lparr>hn_buffer = [], hn_input = input, hn_batch = [], hn_processed = []\<rparr>"

definition handle_frame ::
    "((nat \<Rightarrow> u64) \<Rightarrow> nat list \<Rightarrow> nat list) \<Rightarrow> telemetry_frame \<Rightarrow> handler \<Rightarrow> handler option" where
  "handle_frame srt frame h =
     (let header = tf_header frame;
          batch = (if header_validate header then hn_batch h @ [header] else hn_batch h)
      in if 1000 \<le> length batch
         then do {
           indices \<leftarrow> sort_indices_by_timestamp srt (deduplicate_indices batch) batch;
           Some (h\<lparr>hn_batch := [], hn_processed := hn_processed h @ [(batch, indices)]\<rparr>)
         }
         else Some (h\<lparr>hn_batch := batch\<rparr>))"

fun handler_run ::
    "wire \<Rightarrow> ((nat \<Rightarrow> u64) \<Rightarrow> nat list \<Rightarrow> nat list) \<Rightarrow> nat \<Rightarrow> handler \<Rightarrow> (handler_end \<times> handler) option" where
  "handler_run W srt 0 h = Some (Stopped, h)"
| "handler_run W srt (Suc n) h = do {
     (r, buffer, input) \<leftarrow> read_frame W (hn_input h) (hn_buffer h);
     let h = h\<lparr>hn_buffer := buffer, hn_input := input\<rparr>;
     (case r of
        Inl e \<Rightarrow> Some (HandlerError e, h)
      | Inr None \<Rightarrow> Some (PeerClosed, h)
      | Inr (Some frame) \<Rightarrow> do {
          h \<leftarrow> handle_frame srt frame h;
          handler_run W srt n h
        })
   }"

end
