(* ===== verification/Frame_Server.thy ===== *)
theory Frame_Server imports Frame_Connection begin

text \<open>
  The accept loop of \<^verbatim>\<open>module5/project5/server.rs\<close> and its graceful shutdown, as a step relation: the
  semaphore, the connection the loop is about to accept, the handler tasks and the phases of \<^verbatim>\<open>run\<close>.
  A handler task holds a permit and a clone of the shutdown-complete sender until it ends. What a
  handler does with its connection is \<open>handler_run\<close>; here only its end matters, which may come at any time: that the
  drop of \<^verbatim>\<open>notify_shutdown\<close> makes a handler end is a matter of its \<^verbatim>\<open>select!\<close>, the argument \<open>n\<close> of \<open>handler_run\<close>.
\<close>

definition MAX_CONNECTIONS :: nat where "MAX_CONNECTIONS = 256"

datatype phase = Accepting | Draining | Finished

record server =
  sv_permits :: nat
  sv_holding :: bool
  sv_handlers :: nat
  sv_senders :: nat 
  sv_phase :: phase

definition server_new :: server where
  "server_new = \<lparr>sv_permits = MAX_CONNECTIONS, sv_holding = False, sv_handlers = 0, sv_senders = 1,
     sv_phase = Accepting\<rparr>"

datatype server_event = Acquire | AcceptOk | AcceptErr | HandlerDone | ShutdownSignal | RecvNone

text \<open>\<open>sv_holding\<close>: the loop has a permit and waits for a connection. \<open>sv_senders\<close> counts the clones of the
  shutdown-complete sender. One event: an accept that fails drops the permit at the end of the iteration. When the shutdown
  future wins, the loop is dropped with the permit it may hold, then the sender of the listener.
  \<^verbatim>\<open>recv\<close> returns \<^verbatim>\<open>None\<close> when the last sender is gone.\<close>

inductive server_step :: "server \<Rightarrow> server_event \<Rightarrow> server \<Rightarrow> bool" where
  acquire: "sv_phase s = Accepting \<Longrightarrow> \<not> sv_holding s \<Longrightarrow> 0 < sv_permits s \<Longrightarrow>
    server_step s Acquire (s\<lparr>sv_permits := sv_permits s - 1, sv_holding := True\<rparr>)"
| accept_ok: "sv_phase s = Accepting \<Longrightarrow> sv_holding s \<Longrightarrow>
    server_step s AcceptOk
      (s\<lparr>sv_holding := False, sv_handlers := sv_handlers s + 1, sv_senders := sv_senders s + 1\<rparr>)"
| accept_err: "sv_phase s = Accepting \<Longrightarrow> sv_holding s \<Longrightarrow>
    server_step s AcceptErr (s\<lparr>sv_holding := False, sv_permits := sv_permits s + 1\<rparr>)"
| handler_done: "0 < sv_handlers s \<Longrightarrow>
    server_step s HandlerDone
      (s\<lparr>sv_handlers := sv_handlers s - 1, sv_permits := sv_permits s + 1, sv_senders := sv_senders s - 1\<rparr>)"
| shutdown_signal: "sv_phase s = Accepting \<Longrightarrow>
    server_step s ShutdownSignal
      (s\<lparr>sv_phase := Draining, sv_holding := False, sv_senders := sv_senders s - 1,
         sv_permits := (if sv_holding s then sv_permits s + 1 else sv_permits s)\<rparr>)"
| recv_none: "sv_phase s = Draining \<Longrightarrow> sv_senders s = 0 \<Longrightarrow>
    server_step s RecvNone (s\<lparr>sv_phase := Finished\<rparr>)"

inductive_cases server_stepE: "server_step s ev t"

inductive_simps server_step_simps:
  "server_step s Acquire t" "server_step s AcceptOk t" "server_step s AcceptErr t"
  "server_step s HandlerDone t" "server_step s ShutdownSignal t" "server_step s RecvNone t"

inductive server_run :: "server \<Rightarrow> server_event list \<Rightarrow> server \<Rightarrow> bool" where
  run_nil: "server_run s [] s"
| run_step: "server_run s evs t \<Longrightarrow> server_step t ev u \<Longrightarrow> server_run s (evs @ [ev]) u"

section \<open>Permits, handlers and senders\<close>

definition server_inv :: "server \<Rightarrow> bool" where
  "server_inv s \<longleftrightarrow> sv_permits s + sv_handlers s + (if sv_holding s then 1 else 0) = MAX_CONNECTIONS \<and>
     sv_senders s = sv_handlers s + (if sv_phase s = Accepting then 1 else 0) \<and>
     (sv_phase s \<noteq> Accepting \<longrightarrow> \<not> sv_holding s) \<and> (sv_phase s = Finished \<longrightarrow> sv_handlers s = 0)"

lemma server_inv_step: "server_step s ev t \<Longrightarrow> server_inv s \<Longrightarrow> server_inv t"
  by (induction rule: server_step.induct) (auto simp: server_inv_def split: if_splits)

lemma server_inv_run: "server_run s evs t \<Longrightarrow> server_inv s \<Longrightarrow> server_inv t"
  by (induction rule: server_run.induct) (auto intro: server_inv_step)

lemma server_inv_new: "server_inv server_new"
  by (simp add: server_inv_def server_new_def)

lemma server_run_append: "server_run t evs' u \<Longrightarrow> server_run s evs t \<Longrightarrow> server_run s (evs @ evs') u"
proof (induction rule: server_run.induct)
  case (run_nil t)
  then show ?case by simp
next
  case (run_step t evs' v ev u)
  then have "server_run s ((evs @ evs') @ [ev]) u" by (blast intro: server_run.run_step)
  then show ?case by simp
qed

text \<open>While draining, handlers only end: each end brings the server closer to the return of \<^verbatim>\<open>run\<close>.\<close>

lemma drain:
  "server_inv s \<Longrightarrow> sv_phase s = Draining \<Longrightarrow>
   \<exists>t. server_run s (replicate (sv_handlers s) HandlerDone @ [RecvNone]) t \<and> sv_phase t = Finished"
proof (induction "sv_handlers s" arbitrary: s)
  case 0
  have "server_run s ([] @ [RecvNone]) (s\<lparr>sv_phase := Finished\<rparr>)"
    by (rule run_step [OF run_nil server_step.recv_none]) (use 0 in \<open>auto simp: server_inv_def\<close>)
  then show ?case using 0 by (intro exI [of _ "s\<lparr>sv_phase := Finished\<rparr>"]) simp
next
  case (Suc n)
  let ?t = "s\<lparr>sv_handlers := sv_handlers s - 1, sv_permits := sv_permits s + 1, sv_senders := sv_senders s - 1\<rparr>"
  have step: "server_step s HandlerDone ?t" using Suc by (intro server_step.handler_done) simp
  then have inv: "server_inv ?t" using Suc.prems(1) by (rule server_inv_step)
  have n: "n = sv_handlers ?t" using Suc.hyps(2) by simp
  have p: "sv_phase ?t = Draining" using Suc.prems(2) by simp
  from Suc.hyps(1) [OF n inv p] obtain u where u: "server_run ?t (replicate n HandlerDone @ [RecvNone]) u"
    "sv_phase u = Finished" using n by auto
  have "server_run s [HandlerDone] ?t" using run_step [OF run_nil step] by simp
  from server_run_append [OF u(1) this] show ?case using u(2) Suc.hyps(2) [symmetric] by auto
qed

text \<open>C26: in every state the server can reach at most 256 handlers run, each with its own permit, and no
  permit is lost or made twice, whatever accepts fail. After the shutdown signal no connection is
  accepted; \<^verbatim>\<open>run\<close> returns only when every handler has ended, and it does return once they have.\<close>
theorem server_bounded_and_drained:
  assumes "server_run server_new evs s"
  shows "sv_handlers s \<le> MAX_CONNECTIONS \<and>
    sv_permits s + sv_handlers s + (if sv_holding s then 1 else 0) = MAX_CONNECTIONS \<and>
    (sv_phase s = Finished \<longrightarrow> sv_handlers s = 0) \<and>
    (sv_phase s \<noteq> Accepting \<longrightarrow> (\<nexists>t. server_step s AcceptOk t)) \<and>
    (sv_phase s = Draining \<longrightarrow>
      (\<exists>t. server_run s (replicate (sv_handlers s) HandlerDone @ [RecvNone]) t \<and> sv_phase t = Finished))"
proof -
  have inv: "server_inv s" using server_inv_run [OF assms server_inv_new] .
  then have "sv_permits s + sv_handlers s + (if sv_holding s then 1 else 0) = MAX_CONNECTIONS"
    by (simp add: server_inv_def)
  moreover from this have "sv_handlers s \<le> MAX_CONNECTIONS" by linarith
  ultimately show ?thesis using inv drain [OF inv]
    by (auto simp: server_step_simps) (simp_all add: server_inv_def)
qed

text \<open>The witness accepts one connection, is told to shut down and drains.\<close>

theorem server_bounded_and_drained_witness:
  "\<exists>s t. server_run server_new [Acquire, AcceptOk, ShutdownSignal] s \<and> sv_handlers s = 1 \<and>
     server_run s [HandlerDone, RecvNone] t \<and> sv_phase t = Finished"
proof -
  let ?s = "\<lparr>sv_permits = 255, sv_holding = False, sv_handlers = 1, sv_senders = 1, sv_phase = Draining\<rparr>"
  have "server_step server_new Acquire
      \<lparr>sv_permits = 255, sv_holding = True, sv_handlers = 0, sv_senders = 1, sv_phase = Accepting\<rparr>"
    "server_step \<lparr>sv_permits = 255, sv_holding = True, sv_handlers = 0, sv_senders = 1, sv_phase = Accepting\<rparr>
      AcceptOk \<lparr>sv_permits = 255, sv_holding = False, sv_handlers = 1, sv_senders = 2, sv_phase = Accepting\<rparr>"
    "server_step \<lparr>sv_permits = 255, sv_holding = False, sv_handlers = 1, sv_senders = 2, sv_phase = Accepting\<rparr>
      ShutdownSignal ?s"
    by (simp_all add: server_step_simps server_new_def MAX_CONNECTIONS_def)
  from run_step [OF run_step [OF run_step [OF run_nil this(1)] this(2)] this(3)]
  have run: "server_run server_new [Acquire, AcceptOk, ShutdownSignal] ?s" by simp
  from server_bounded_and_drained [OF run] obtain t where
    "server_run ?s (replicate 1 HandlerDone @ [RecvNone]) t" "sv_phase t = Finished" by auto
  then show ?thesis using run by (intro exI [of _ ?s] exI [of _ t]) simp
qed

end
