(* ===== verification/Frame_Client.thy ===== *)
theory Frame_Client imports Frame_Connection begin

text \<open>
  \<^verbatim>\<open>module5/project5/client.rs\<close>, the pool of station ids of \<^verbatim>\<open>config.rs\<close> and the arena of
  \<^verbatim>\<open>batch_arena.rs\<close>. Time, the results of connection attempts and the random choice of an sid are
  arguments.
\<close>

section \<open>The pool of station ids\<close>

type_synonym id_pool = "u8 \<Rightarrow> u8 option"

definition id_pool_new :: "nat \<Rightarrow> id_pool option" where
  "id_pool_new tot =
     (if tot \<le> 256 then Some (map_of (map (\<lambda>i. (of_nat i, of_nat i)) [0..<tot])) else None)"

text \<open>\<^verbatim>\<open>fastrand::choice\<close> over the map is \<open>pick\<close>; it returns nothing for an empty map, where the
  \<^verbatim>\<open>unwrap\<close> panics.\<close>

definition select_id :: "(id_pool \<Rightarrow> u8 option) \<Rightarrow> id_pool \<Rightarrow> (u8 \<times> id_pool) option" where
  "select_id pick pool = do {
     idx \<leftarrow> pick pool;
     sid \<leftarrow> pool idx;
     Some (sid, pool(idx := None))
   }"

definition drop_id :: "u8 \<Rightarrow> id_pool \<Rightarrow> id_pool" where
  "drop_id sid pool = pool(sid \<mapsto> sid)"

section \<open>Connecting\<close>

text \<open>One iteration: the time since the start in milliseconds, the result of \<^verbatim>\<open>TcpStream::connect\<close>, the
  millisecond part of the clock, and whether the shutdown signal ends the sleep.\<close>

record attempt =
  at_elapsed_ms :: nat
  at_connected :: bool
  at_subsec_millis :: nat
  at_shutdown :: bool

datatype connect_end = Connected u8 | WindowExceeded | ShutdownFirst | StillTrying

definition backoff_delay_plus_jitter :: "nat \<Rightarrow> nat \<Rightarrow> nat" where
  "backoff_delay_plus_jitter attempt millis = 2 ^ (min attempt 5) * 1000 + millis mod 1000"

text \<open>The result, the delays slept in milliseconds, and the pool. \<open>None\<close> is the panic of an empty
  pool.\<close>

fun client_connect ::
    "(id_pool \<Rightarrow> u8 option) \<Rightarrow> attempt list \<Rightarrow> nat \<Rightarrow> id_pool \<Rightarrow> (connect_end \<times> nat list \<times> id_pool) option" where
  "client_connect pick [] attempt pool = Some (StillTrying, [], pool)"
| "client_connect pick (a # as) attempt pool =
     (if at_elapsed_ms a > 180 * 1000 then Some (WindowExceeded, [], pool)
      else if at_connected a then do {
        (sid, pool) \<leftarrow> select_id pick pool;
        Some (Connected sid, [], pool)
      }
      else
        (let attempt = attempt + 1; delay = backoff_delay_plus_jitter attempt (at_subsec_millis a)
         in if at_shutdown a then Some (ShutdownFirst, [], pool)
            else do {
              (r, delays, pool) \<leftarrow> client_connect pick as attempt pool;
              Some (r, delay # delays, pool)
            }))"

section \<open>Sending\<close>

definition BATCH_SIZE :: nat where "BATCH_SIZE = 256"

text \<open>One iteration of the loop: the clock, and \<open>Some k\<close> when the shutdown branch wins after \<open>k\<close> bytes of
  the batch were handed to the stream, which cancels the write.\<close>

record send_turn =
  st_timestamp_ms :: u64
  st_cancelled :: "nat option"

datatype send_end = SendError | SendStopped | StillSending

text \<open>After the loop the stream is flushed when its buffer is not empty; an error there is the result.\<close>

definition final_flush :: "out_stream \<Rightarrow> send_end \<times> out_stream" where
  "final_flush w =
     (if flushed w = length (handed w) then (SendStopped, w)
      else (let (ok, w) = flush_stream w in (if ok then SendStopped else SendError, w)))"

fun client_sending ::
    "wire \<Rightarrow> 'g rng \<Rightarrow> u8 \<Rightarrow> send_turn list \<Rightarrow> 'g \<Rightarrow> out_stream \<Rightarrow> (send_end \<times> out_stream) option" where
  "client_sending W R station_id [] g w = Some (StillSending, w)"
| "client_sending W R station_id (t # ts) g w = do {
     (batch, g) \<leftarrow> extend_batch W R g station_id 256 [] BATCH_SIZE (st_timestamp_ms t);
     (case st_cancelled t of
        Some k \<Rightarrow> Some (final_flush (w\<lparr>handed := handed w @ take k (concat batch)\<rparr>))
      | None \<Rightarrow>
          (let (ok, w) = write_frames batch w
           in if ok then client_sending W R station_id ts g w else Some (SendError, w)))
   }"

section \<open>The batch arena\<close>

record batch_arena =
  ar_slab :: bytes
  ar_offsets :: "nat list"

definition batch_arena_new :: batch_arena where
  "batch_arena_new = \<lparr>ar_slab = [], ar_offsets = []\<rparr>"

definition arena_alloc :: "bytes \<Rightarrow> batch_arena \<Rightarrow> batch_arena" where
  "arena_alloc payload a =
     (let offsets = (if ar_offsets a = [] then ar_offsets a @ [length payload]
        else ar_offsets a @ [last (ar_offsets a) + length payload])
      in a\<lparr>ar_offsets := offsets, ar_slab := ar_slab a @ payload\<rparr>)"

definition arena_reset :: "batch_arena \<Rightarrow> batch_arena" where
  "arena_reset a = a\<lparr>ar_slab := [], ar_offsets := []\<rparr>"

section \<open>Ids are held by one client at a time\<close>

datatype id_op = Take | GiveBack nat

text \<open>Clients that take ids and give back the one at a position of the list of ids in use.\<close>

fun id_ops :: "(id_pool \<Rightarrow> u8 option) \<Rightarrow> id_op list \<Rightarrow> u8 list \<times> id_pool \<Rightarrow> (u8 list \<times> id_pool) option" where
  "id_ops pick [] (used, pool) = Some (used, pool)"
| "id_ops pick (Take # ops) (used, pool) = do {
     (sid, pool) \<leftarrow> select_id pick pool;
     id_ops pick ops (used @ [sid], pool)
   }"
| "id_ops pick (GiveBack i # ops) (used, pool) =
     (if i < length used then id_ops pick ops (take i used @ drop (Suc i) used, drop_id (used ! i) pool)
      else id_ops pick ops (used, pool))"

definition ids_inv :: "nat \<Rightarrow> u8 list \<times> id_pool \<Rightarrow> bool" where
  "ids_inv tot s \<longleftrightarrow> distinct (fst s) \<and> set (fst s) \<inter> dom (snd s) = {} \<and>
     set (fst s) \<union> dom (snd s) = of_nat ` {..<tot} \<and> (\<forall>i v. snd s i = Some v \<longrightarrow> v = i)"

lemma id_pool_new_lookup:
  "map_of (map (\<lambda>i. (of_nat i :: u8, of_nat i :: u8)) [0..<tot]) x = (if x \<in> of_nat ` {..<tot} then Some x else None)"
proof -
  have "map_of (map (\<lambda>i. (of_nat i :: u8, of_nat i :: u8)) is) x = (if x \<in> of_nat ` set is then Some x else None)"
    for "is" by (induction "is") auto
  from this [of "[0..<tot]"] show ?thesis by (simp add: lessThan_atLeast0)
qed

lemma ids_inv_new: "id_pool_new tot = Some pool \<Longrightarrow> ids_inv tot ([], pool)"
  by (auto simp: id_pool_new_def ids_inv_def id_pool_new_lookup dom_def split: if_splits)

lemma ids_inv_take:
  assumes "ids_inv tot (used, pool)" "select_id pick pool = Some (sid, pool')"
  shows "ids_inv tot (used @ [sid], pool')"
proof -
  obtain x where x: "pool x = Some sid" "pool' = pool(x := None)"
    using assms(2) by (auto simp: select_id_def split: bind_splits)
  then have "x = sid" using assms(1) by (auto simp: ids_inv_def)
  with x have d: "dom pool' = dom pool - {sid}" "sid \<in> dom pool" "\<forall>i v. pool' i = Some v \<longrightarrow> pool i = Some v"
    by auto
  show ?thesis using assms(1) d(2,3) unfolding ids_inv_def fst_conv snd_conv d(1)
    by auto
qed

lemma ids_inv_drop:
  assumes "ids_inv tot (used, pool)" "i < length used"
  shows "ids_inv tot (take i used @ drop (Suc i) used, drop_id (used ! i) pool)"
proof -
  have u: "used = take i used @ used ! i # drop (Suc i) used" using id_take_nth_drop [OF assms(2)] .
  then have d: "distinct (take i used @ used ! i # drop (Suc i) used)" using assms(1) by (simp add: ids_inv_def)
  have s: "set used = insert (used ! i) (set (take i used @ drop (Suc i) used))" by (subst u) auto
  show ?thesis using assms(1) d unfolding ids_inv_def fst_conv snd_conv s
    by (auto simp: drop_id_def)
qed

lemma ids_inv_ops:
  "ids_inv tot s \<Longrightarrow> id_ops pick ops s = Some s' \<Longrightarrow> ids_inv tot s'"
proof (induction pick ops s rule: id_ops.induct)
  case (2 pick ops used pool)
  then show ?case by (auto split: bind_splits dest: ids_inv_take)
next
  case (3 pick i ops used pool)
  then show ?case by (auto split: if_splits dest: ids_inv_drop)
qed auto

text \<open>Over every sequence of clients that take and give back station ids, an id is held by at most one
  client, no id is lost or invented, and \<^verbatim>\<open>select_id\<close> panics exactly when all ids are in use.\<close>
lemma id_pool_exclusive:
  assumes "id_pool_new n = Some pool" "id_ops pick ops ([], pool) = Some (used, pool')"
    and "\<And>p. pick p = None \<longleftrightarrow> p = Map.empty" "\<And>p i. pick p = Some i \<Longrightarrow> i \<in> dom p"
  shows "distinct used \<and> set used \<inter> dom pool' = {} \<and> set used \<union> dom pool' = of_nat ` {..<n} \<and>
    (select_id pick pool' = None \<longleftrightarrow> length used = n)"
proof -
  have inv: "ids_inv n (used, pool')" using ids_inv_ops [OF ids_inv_new [OF assms(1)] assms(2)] .
  have n: "n \<le> 256" using assms(1) by (simp add: id_pool_new_def split: if_splits)
  have "inj_on (of_nat :: nat \<Rightarrow> u8) {..<n}"
  proof (rule inj_onI)
    fix i j assume ij: "i \<in> {..<n}" "j \<in> {..<n}" "(of_nat i :: u8) = of_nat j"
    have "unat (of_nat i :: u8) = i" "unat (of_nat j :: u8) = j" using n ij(1,2) by (simp_all add: unat_of_nat_u8)
    then show "i = j" using ij(3) by metis
  qed
  then have card: "card ((of_nat :: nat \<Rightarrow> u8) ` {..<n}) = n" by (simp add: card_image)
  have used: "distinct used" "set used \<inter> dom pool' = {}" "set used \<union> dom pool' = of_nat ` {..<n}"
    using inv unfolding ids_inv_def by simp_all
  have fin: "finite (dom pool')" using used(3) by (metis finite_Un finite_imageI finite_lessThan)
  have "length used + card (dom pool') = n"
    using card_Un_disjoint [OF finite_set fin used(2)] used(1,3) card by (simp add: distinct_card)
  then have "length used = n \<longleftrightarrow> pool' = Map.empty" using fin by (auto simp: card_eq_0_iff)
  moreover have "select_id pick pool' = None \<longleftrightarrow> pool' = Map.empty"
    using assms(3) [of pool'] assms(4) [of pool']
    by (cases "pick pool'") (auto simp: select_id_def)
  ultimately have "select_id pick pool' = None \<longleftrightarrow> length used = n" by (simp only:)
  with used show ?thesis by (intro conjI)
qed

definition pick_least :: "id_pool \<Rightarrow> u8 option" where
  "pick_least pool = find (\<lambda>i. pool i \<noteq> None) (map of_nat [0..<256])"

lemma pick_least_props: "pick_least p = None \<longleftrightarrow> p = Map.empty" "pick_least p = Some i \<Longrightarrow> i \<in> dom p"
proof -
  have "i \<in> set (map of_nat [0..<256])" for i :: u8
  proof -
    have "of_nat (unat i) = i" by simp
    moreover have "unat i \<in> set [0..<256]" by simp
    ultimately show ?thesis by (metis imageI list.set_map)
  qed
  then show "pick_least p = None \<longleftrightarrow> p = Map.empty"
    unfolding pick_least_def find_None_iff by blast
  show "pick_least p = Some i \<Longrightarrow> i \<in> dom p"
    by (auto simp: pick_least_def find_Some_iff)
qed

section \<open>Reconnection delays\<close>

lemma client_connect_delays:
  "client_connect pick as k pool = Some (r, delays, pool') \<Longrightarrow>
   \<forall>i < length delays. 2 ^ min (k + i + 1) 5 * 1000 \<le> delays ! i \<and> delays ! i < 2 ^ min (k + i + 1) 5 * 1000 + 1000"
proof (induction pick as k pool arbitrary: r delays pool' rule: client_connect.induct)
  case (2 pick a as k pool)
  show ?case
  proof (cases "at_elapsed_ms a > 180 * 1000 \<or> at_connected a \<or> at_shutdown a")
    case True
    then show ?thesis using 2(2) by (auto split: if_splits bind_splits)
  next
    case False
    then obtain ds where ds: "client_connect pick as (k + 1) pool = Some (r, ds, pool')"
      "delays = backoff_delay_plus_jitter (k + 1) (at_subsec_millis a) # ds"
      using 2(2) by (auto simp: Let_def split: bind_splits)
    show ?thesis using 2(1) [OF _ _ refl refl _ ds(1)] False ds(2)
      by (auto simp: backoff_delay_plus_jitter_def nth_Cons less_Suc_eq_0_disj split: nat.splits)
  qed
qed auto

section \<open>The arena holds every payload\<close>

fun arena_alloc_all :: "bytes list \<Rightarrow> batch_arena \<Rightarrow> batch_arena" where
  "arena_alloc_all [] a = a"
| "arena_alloc_all (p # ps) a = arena_alloc_all ps (arena_alloc p a)"

definition arena_entry :: "batch_arena \<Rightarrow> nat \<Rightarrow> bytes" where
  "arena_entry a i =
     (let start = (if i = 0 then 0 else ar_offsets a ! (i - 1))
      in bslice start (ar_offsets a ! i - start) (ar_slab a))"

lemma arena_alloc_all_eq:
  fixes a :: batch_arena and ps qs :: "bytes list"
  assumes "length (ar_offsets a) = length qs" "ar_slab a = concat qs"
    "\<forall>i < length qs. ar_offsets a ! i = length (concat (take (Suc i) qs))"
  defines "b \<equiv> arena_alloc_all ps a"
  shows "length (ar_offsets b) = length (qs @ ps) \<and> ar_slab b = concat (qs @ ps) \<and>
    (\<forall>i < length (qs @ ps). ar_offsets b ! i = length (concat (take (Suc i) (qs @ ps))))"
  unfolding b_def using assms(1-3)
proof (induction ps arbitrary: a qs)
  case Nil
  then show ?case by simp
next
  case (Cons p ps)
  let ?b = "arena_alloc p a"
  have "ar_offsets ?b = ar_offsets a @ [length (concat (qs @ [p]))]"
  proof (cases "qs = []")
    case True
    then show ?thesis using Cons.prems by (simp add: arena_alloc_def)
  next
    case False
    have ne: "ar_offsets a \<noteq> []" using False Cons.prems(1) by auto
    have "last (ar_offsets a) = ar_offsets a ! (length qs - 1)" using last_conv_nth [OF ne] Cons.prems(1) by simp
    also have "\<dots> = length (concat qs)" using Cons.prems(3) False by simp
    finally show ?thesis using ne by (simp add: arena_alloc_def)
  qed
  then show ?case using Cons.IH [of ?b "qs @ [p]"] Cons.prems
    by (auto simp: arena_alloc_def nth_append less_Suc_eq)
qed

lemma bslice_concat:
  "i < length ps \<Longrightarrow> bslice (length (concat (take i ps))) (length (ps ! i)) (concat ps) = ps ! i"
  by (subst (3) id_take_nth_drop [of i ps]) (simp_all add: bslice_def)

lemma arena_entries:
  assumes "i < length ps"
  shows "arena_entry (arena_alloc_all ps (arena_reset a)) i = ps ! i"
proof -
  let ?b = "arena_alloc_all ps (arena_reset a)"
  have b: "ar_slab ?b = concat ps" "\<And>i. i < length ps \<Longrightarrow> ar_offsets ?b ! i = length (concat (take (Suc i) ps))"
    using arena_alloc_all_eq [of "arena_reset a" "[]" ps] by (auto simp: arena_reset_def)
  have "(if i = 0 then 0 else ar_offsets ?b ! (i - 1)) = length (concat (take i ps))"
    using b(2) [of "i - 1"] assms by simp
  moreover have "length (concat (take (Suc i) ps)) = length (concat (take i ps)) + length (ps ! i)"
    using assms by (simp add: take_Suc_conv_app_nth)
  ultimately show ?thesis using b assms by (simp add: arena_entry_def bslice_concat)
qed

end
