(* ===== verification/Frame_Connection_Correct.thy ===== *)
theory Frame_Connection_Correct imports Frame_Connection begin

text \<open>
  The connection handler on a stream of chunks: what it receives depends on the bytes alone, each batch
  it processes has exactly 1000 headers, and nothing is reordered. The locale \<open>stream_parser\<close> gives
  the independence of the chunks; the theorem at the end composes generator, writer and handler.
\<close>

section \<open>One read\<close>

lemma parse_frame_eq:
  "parse_frame W b = Some (case frame_parser W b of
      Some (f, n) \<Rightarrow> (Inr (Some f), drop n b) | None \<Rightarrow> (Inr None, b))"
proof (cases "24 \<le> length b")
  case True
  show ?thesis
    by (simp add: parse_frame_def frame_parser_def try_extract_frame_eq [OF True] split: option.splits)
next
  case False
  then show ?thesis by (simp add: parse_frame_def frame_parser_def try_extract_frame_short)
qed

lemma read_frame_message:
  assumes "parse_all (frame_parser W) (buf @ concat cs) = (f # fs, rest)" "[] \<notin> set cs"
  shows "\<exists>buf' cs'. read_frame W (map Chunk cs) buf = Some (Inr (Some f), buf', map Chunk cs') \<and>
    parse_all (frame_parser W) (buf' @ concat cs') = (fs, rest) \<and> [] \<notin> set cs'"
  using assms
proof (induction cs arbitrary: buf)
  case Nil
  then obtain n where n: "frame_parser W buf = Some (f, n)"
    by (cases "frame_parser W buf") (auto simp: frames.parse_all_None frames.parse_all_Some)
  then have "parse_all (frame_parser W) (drop n buf) = (fs, rest)"
    using Nil frames.parse_all_Some [OF n] by (simp add: prod_eq_iff)
  then show ?case using n by (intro exI [of _ "drop n buf"] exI [of _ "[]"]) (simp add: parse_frame_eq)
next
  case (Cons c cs)
  show ?case
  proof (cases "frame_parser W buf")
    case None
    moreover have "c \<noteq> []" "[] \<notin> set cs" using Cons.prems(2) by auto
    ultimately show ?thesis using Cons.IH [of "buf @ c"] Cons.prems(1) by (simp add: parse_frame_eq)
  next
    case (Some r)
    then obtain g n where n: "frame_parser W buf = Some (g, n)" by (cases r) auto
    have le: "n \<le> length buf" using frames.inside [OF n] by simp
    from frames.parse_all_Some [OF frames.stable [OF n, of "concat (c # cs)"]]
    have "g = f" "parse_all (frame_parser W) (drop n buf @ concat (c # cs)) = (fs, rest)"
      using Cons.prems le by (simp_all add: prod_eq_iff)
    then show ?thesis using n Cons.prems
      by (intro exI [of _ "drop n buf"] exI [of _ "c # cs"]) (simp add: parse_frame_eq)
  qed
qed

lemma read_frame_end:
  assumes "parse_all (frame_parser W) (buf @ concat cs) = ([], rest)" "[] \<notin> set cs"
  shows "read_frame W (map Chunk cs) buf = Some (end_of_stream rest, rest, [])"
proof -
  have None: "frame_parser W b = None" if "parse_all (frame_parser W) b = ([], r)" for b r
    using that frames.parse_all_Some [of W b] by (cases "frame_parser W b") auto
  have "frame_parser W buf = None" if "frame_parser W (buf @ c) = None" for buf c
    using that frames.stable [of W buf] by (cases "frame_parser W buf") auto
  then show ?thesis using assms None [OF assms(1)] frames.parse_all_None [of W "buf @ concat cs"]
  proof (induction cs arbitrary: buf)
    case Nil
    then show ?case by (simp add: parse_frame_eq)
  next
    case (Cons c cs)
    have "frame_parser W buf = None" using Cons.prems(1,4) by blast
    moreover have "c \<noteq> []" using Cons.prems(3) by auto
    ultimately show ?case using Cons.IH [of "buf @ c"] Cons.prems by (simp add: parse_frame_eq)
  qed
qed

section \<open>The handler\<close>

definition batch_ok :: "frame_header list \<times> nat list \<Rightarrow> bool" where
  "batch_ok b \<longleftrightarrow> length (fst b) = 1000 \<and> distinct (snd b) \<and>
     sorted (map (\<lambda>i. fh_timestamp_ms (fst b ! i)) (snd b)) \<and>
     set (snd b) = {i. i < length (fst b) \<and> first_of_key header_key (fst b) i}"

definition handler_ok :: "telemetry_frame list \<Rightarrow> handler \<Rightarrow> bool" where
  "handler_ok fs h \<longleftrightarrow> concat (map fst (hn_processed h)) @ hn_batch h = filter header_validate (map tf_header fs) \<and>
     (\<forall>b \<in> set (hn_processed h). batch_ok b) \<and> length (hn_batch h) < 1000"

lemma batch_pipeline:
  assumes "key_sort srt"
  obtains ix where "sort_indices_by_timestamp srt (deduplicate_indices headers) headers = Some ix"
    "distinct ix" "sorted (map (\<lambda>i. fh_timestamp_ms (headers ! i)) ix)"
    "set ix = {i. i < length headers \<and> first_of_key header_key headers i}"
proof -
  have m: "mset (srt k xs) = mset xs" for k xs by (rule key_sort.mset_srt [OF assms])
  let ?ix = "srt (\<lambda>i. fh_timestamp_ms (headers ! i)) (deduplicate_indices headers)"
  show thesis
  proof (rule that [of ?ix])
    show "sort_indices_by_timestamp srt (deduplicate_indices headers) headers = Some ?ix"
      by (simp add: sort_indices_by_timestamp_def deduplicate_indices_def dedup_from_first)
    show "distinct ?ix" using mset_eq_imp_distinct_iff [OF m] distinct_dedup
      by (metis deduplicate_indices_def)
    show "set ?ix = {i. i < length headers \<and> first_of_key header_key headers i}"
      unfolding mset_eq_setD [OF m] by (auto simp: deduplicate_indices_def dedup_from_first)
  qed (rule key_sort.sorted_srt [OF assms])
qed

lemma handle_frame_ok:
  assumes "key_sort srt" "handler_ok fs h"
  shows "\<exists>h'. handle_frame srt f h = Some h' \<and> handler_ok (fs @ [f]) h' \<and>
    hn_buffer h' = hn_buffer h \<and> hn_input h' = hn_input h"
proof -
  let ?batch = "if header_validate (tf_header f) then hn_batch h @ [tf_header f] else hn_batch h"
  from batch_pipeline [OF assms(1), of ?batch] obtain ix where ix:
    "sort_indices_by_timestamp srt (deduplicate_indices ?batch) ?batch = Some ix" "distinct ix"
    "sorted (map (\<lambda>i. fh_timestamp_ms (?batch ! i)) ix)"
    "set ix = {i. i < length ?batch \<and> first_of_key header_key ?batch i}" .
  have l: "length ?batch \<le> 1000" using assms(2) by (simp add: handler_ok_def)
  have c: "concat (map fst (hn_processed h)) @ ?batch = filter header_validate (map tf_header (fs @ [f]))"
    using assms(2) by (auto simp: handler_ok_def)
  show ?thesis
  proof (cases "1000 \<le> length ?batch")
    case True
    then have "batch_ok (?batch, ix)" using ix l by (simp add: batch_ok_def)
    then have "handler_ok (fs @ [f]) (h\<lparr>hn_batch := [], hn_processed := hn_processed h @ [(?batch, ix)]\<rparr>)"
      using assms(2) c by (auto simp: handler_ok_def)
    moreover have "handle_frame srt f h = Some (h\<lparr>hn_batch := [], hn_processed := hn_processed h @ [(?batch, ix)]\<rparr>)"
      using True ix(1) by (simp add: handle_frame_def Let_def)
    ultimately show ?thesis by simp
  next
    case False
    then have "handler_ok (fs @ [f]) (h\<lparr>hn_batch := ?batch\<rparr>)"
      using assms(2) c by (auto simp: handler_ok_def)
    moreover have "handle_frame srt f h = Some (h\<lparr>hn_batch := ?batch\<rparr>)"
      using False by (simp add: handle_frame_def Let_def)
    ultimately show ?thesis by simp
  qed
qed

lemma handler_run_stream:
  assumes "key_sort srt" "handler_ok gs h" "hn_input h = map Chunk cs" "[] \<notin> set cs"
    and "parse_all (frame_parser W) (hn_buffer h @ concat cs) = (fs, rest)" "length fs < n"
  shows "\<exists>h'. handler_run W srt n h = Some (if rest = [] then PeerClosed else HandlerError ''connection reset by peer'', h') \<and>
    handler_ok (gs @ fs) h'"
  using assms(2-)
proof (induction n arbitrary: gs h cs fs)
  case 0
  then show ?case by simp
next
  case (Suc n)
  show ?case
  proof (cases fs)
    case Nil
    then show ?thesis using Suc.prems read_frame_end [OF _ Suc.prems(3), of W "hn_buffer h" rest]
      by (auto simp: end_of_stream_def handler_ok_def)
  next
    case (Cons f fs')
    obtain buf' cs' where r: "read_frame W (map Chunk cs) (hn_buffer h) = Some (Inr (Some f), buf', map Chunk cs')"
      "parse_all (frame_parser W) (buf' @ concat cs') = (fs', rest)" "[] \<notin> set cs'"
      using read_frame_message Suc.prems(3,4) Cons by blast
    let ?h = "h\<lparr>hn_buffer := buf', hn_input := map Chunk cs'\<rparr>"
    have "handler_ok gs ?h" using Suc.prems(1) by (simp add: handler_ok_def)
    from handle_frame_ok [OF assms(1) this, of f] obtain h' where h':
      "handle_frame srt f ?h = Some h'" "handler_ok (gs @ [f]) h'" "hn_buffer h' = buf'"
      "hn_input h' = map Chunk cs'" by auto
    from Suc.IH [OF h'(2,4) r(3)] show ?thesis
      using Suc.prems h' r Cons by auto
  qed
qed

section \<open>From the generator to the handler\<close>

lemma create_batch_drawn:
  assumes "wire_format W" "frame_rng R" "1 < unat max_payload"
  shows "\<exists>bs g' fs. create_batch W R n g station_id max_payload ts = Some (bs, g') \<and> length fs = n \<and>
    (\<forall>f \<in> set fs. frame_drawn station_id max_payload ts f) \<and> bs = map (frame_encoding W) fs \<and>
    list_all2 (\<lambda>b f. \<forall>rest. try_extract_frame W (b @ rest) 0 = Some (Inr f, length b)) bs fs"
proof (induction n arbitrary: g)
  case 0
  then show ?case by simp
next
  case (Suc n)
  obtain b g1 f where b: "frame_create_at W R g station_id max_payload ts = Some (b, g1)"
    "frame_drawn station_id max_payload ts f" "b = frame_encoding W f"
    "\<forall>rest. try_extract_frame W (b @ rest) 0 = Some (Inr f, length b)"
    using frame_create_drawn [OF assms, of g station_id ts] by blast
  obtain bs g2 fs where "create_batch W R n g1 station_id max_payload ts = Some (bs, g2)" "length fs = n"
    "\<forall>f \<in> set fs. frame_drawn station_id max_payload ts f" "bs = map (frame_encoding W) fs"
    "list_all2 (\<lambda>b f. \<forall>rest. try_extract_frame W (b @ rest) 0 = Some (Inr f, length b)) bs fs"
    using Suc.IH [of g1] by blast
  then show ?case using b
    by (intro exI [of _ "b # bs"] exI [of _ g2] exI [of _ "f # fs"]) simp
qed






section \<open>Streams that are cut short\<close>

lemma parse_all_Nil: "parse_all (frame_parser W) [] = ([], [])"
  by (rule frames.parse_all_None) (simp add: frame_parser_def try_extract_frame_def)

lemma cut_parse_None:
  assumes "\<forall>rest. try_extract_frame W (b @ rest) 0 = Some (Inr f, length b)" "k < length b"
  shows "frame_parser W (take k b) = None"
proof (rule ccontr)
  assume "frame_parser W (take k b) \<noteq> None"
  then obtain g n where n: "frame_parser W (take k b) = Some (g, n)" by auto
  have "n \<le> k" using frames.inside [OF n] assms(2) by simp
  moreover have "frame_parser W b = Some (g, n)" using frames.stable [OF n, of "drop k b"] by simp
  moreover have "frame_parser W b = Some (f, length b)"
    using assms(1) [rule_format, of "[]"] by (simp add: frame_parser_Some)
  ultimately show False using assms(2) by simp
qed

lemma parse_all_cut:
  assumes "list_all2 (\<lambda>b f. \<forall>rest. try_extract_frame W (b @ rest) 0 = Some (Inr f, length b)) bs fs"
    and "k \<le> length (concat bs)"
  shows "\<exists>j rest. j \<le> length bs \<and> parse_all (frame_parser W) (take k (concat bs)) = (take j fs, rest) \<and>
    length (concat (take j bs)) + length rest = k \<and>
    (j < length bs \<longrightarrow> k < length (concat (take (Suc j) bs)))"
  using assms
proof (induction bs fs arbitrary: k rule: list_all2_induct)
  case Nil
  then show ?case by (simp add: parse_all_Nil)
next
  case (Cons b bs f fs)
  show ?case
  proof (cases "k < length b")
    case True
    then show ?thesis using cut_parse_None [OF Cons.hyps(1) True]
      by (intro exI [of _ 0] exI [of _ "take k b"]) (simp add: frames.parse_all_None)
  next
    case False
    have "k - length b \<le> length (concat bs)" using Cons.prems by simp
    from Cons.IH [OF this] obtain j rest where j: "j \<le> length bs"
      "parse_all (frame_parser W) (take (k - length b) (concat bs)) = (take j fs, rest)"
      "length (concat (take j bs)) + length rest = k - length b"
      "j < length bs \<longrightarrow> k - length b < length (concat (take (Suc j) bs))"
      by blast
    have "frame_parser W (b @ take (k - length b) (concat bs)) = Some (f, length b)"
      using Cons.hyps(1) by (simp add: frame_parser_Some)
    from frames.parse_all_Some [OF this]
    have "parse_all (frame_parser W) (take k (concat (b # bs))) = (take (Suc j) (f # fs), rest)"
      using False j(2) by simp
    then show ?thesis using j False by (intro exI [of _ "Suc j"] exI [of _ rest]) auto
  qed
qed

text \<open>C25: when a writer fails or is cancelled by a shutdown, only the first \<open>k\<close> bytes of the batch arrive.
  The handler then handles exactly the frames of the batch that are complete: their headers without the error flag are in its
  batches, in order. It reports the close as clean when the
  cut falls between two frames, and as a reset in every other case; it never invents or loses a
  complete frame.\<close>
theorem frames_cut_short:
  assumes "wire_format W" "frame_rng R" "key_sort srt" "1 < unat max_payload"
    and "extend_batch W R g station_id max_payload [] m ts = Some (batch, g')"
    and "concat cs = take k (concat batch)" "k \<le> length (concat batch)" "[] \<notin> set cs" "m < n"
  shows "\<exists>h fs j. length fs = m \<and> batch = map (frame_encoding W) fs \<and> j \<le> m \<and> length (concat (take j batch)) \<le> k \<and>
    (j < m \<longrightarrow> k < length (concat (take (Suc j) batch))) \<and>
    (\<forall>f \<in> set fs. frame_drawn station_id max_payload ts f) \<and> handler_ok (take j fs) h \<and>
    handler_run W srt n (handler_new (map Chunk cs)) =
      Some (if length (concat (take j batch)) = k then PeerClosed else HandlerError ''connection reset by peer'', h)"
proof -
  obtain fs where fs: "length fs = m" "\<forall>f \<in> set fs. frame_drawn station_id max_payload ts f"
    "list_all2 (\<lambda>b f. \<forall>rest. try_extract_frame W (b @ rest) 0 = Some (Inr f, length b)) batch fs" "batch = map (frame_encoding W) fs"
    using create_batch_drawn [OF assms(1,2,4), of m g station_id ts] assms(5) by (auto simp: extend_batch_def)
  have len: "length batch = m" using list_all2_lengthD [OF fs(3)] fs(1) by simp
  obtain j rest where j: "j \<le> m" "parse_all (frame_parser W) (concat cs) = (take j fs, rest)"
    "length (concat (take j batch)) + length rest = k"
    "j < m \<longrightarrow> k < length (concat (take (Suc j) batch))"
    using parse_all_cut [OF fs(3) assms(7)] assms(6) len by auto
  have p: "parse_all (frame_parser W) (hn_buffer (handler_new (map Chunk cs)) @ concat cs) = (take j fs, rest)"
    using j(2) by (simp add: handler_new_def)
  have ok: "handler_ok [] (handler_new (map Chunk cs))" by (simp add: handler_ok_def handler_new_def)
  have "length (take j fs) < n" using assms(9) fs(1) by simp
  from handler_run_stream [OF assms(3) ok _ assms(8) p this] obtain h where
    h: "handler_run W srt n (handler_new (map Chunk cs)) =
      Some (if rest = [] then PeerClosed else HandlerError ''connection reset by peer'', h)" "handler_ok (take j fs) h"
    by (auto simp: handler_new_def)
  have "rest = [] \<longleftrightarrow> length (concat (take j batch)) = k" using j(3) by auto
  then have "handler_run W srt n (handler_new (map Chunk cs)) =
      Some (if length (concat (take j batch)) = k then PeerClosed else HandlerError ''connection reset by peer'', h)"
    using h(1) by presburger
  moreover have "length (concat (take j batch)) \<le> k" using j(3) by linarith
  ultimately show ?thesis using fs h(2) j(1,4) by blast
qed

text \<open>The witness sends the first ten bytes of one frame.\<close>

theorem frames_cut_short_witness:
  "\<exists>batch g' h. extend_batch be_wire counter_rng 7 3 256 [] 1 1000 = Some (batch, g') \<and>
     handler_run be_wire (\<lambda>key xs. sort_key key xs) 2 (handler_new (map Chunk [take 10 (concat batch)])) =
       Some (HandlerError ''connection reset by peer'', h)"
proof -
  obtain b g' and f :: telemetry_frame where b: "frame_create_at be_wire counter_rng 7 3 256 1000 = Some (b, g')"
    "length b = 24 + length (tf_payload f)"
    using frame_create_drawn [OF be.wire_format_axioms counter_rng_ok, of 256 7 3 1000] by auto
  have e: "extend_batch be_wire counter_rng 7 3 256 [] 1 1000 = Some ([b], g')"
    using b(1) by (simp add: extend_batch_def)
  have ne: "take 10 b \<noteq> []" using b(2) by auto
  from frames_cut_short [OF be.wire_format_axioms counter_rng_ok stable.key_sort_axioms _ e,
      of "[take 10 b]" 10 2] obtain h j where
    "j \<le> 1" "length (concat (take j [b])) \<le> 10"
    "handler_run be_wire (\<lambda>key xs. sort_key key xs) 2 (handler_new (map Chunk [take 10 b])) =
      Some (if length (concat (take j [b])) = 10 then PeerClosed else HandlerError ''connection reset by peer'', h)"
    using b(2) ne by auto
  moreover have "j = 0" using calculation(1,2) b(2) by (cases j) auto
  ultimately show ?thesis using e by auto
qed

end
