(* ===== verification/Length_Framing.thy ===== *)
theory Length_Framing imports Stream_Parser Frame_Connection begin

text \<open>
  The length-prefixed messages of modules 1 and 4: \<^verbatim>\<open>module1/encoder.rs\<close>, the readers of
  \<^verbatim>\<open>module1/project1.rs\<close>, \<^verbatim>\<open>module4/part1/connection_processing.rs\<close> and \<^verbatim>\<open>module4/project4/frame.rs\<close>, the
  writers of the last two, and the connection task of \<^verbatim>\<open>module4/project4/gs_server.rs\<close>, which parses the
  same messages from a buffer. \<^verbatim>\<open>read_exact\<close> of the crate \<^verbatim>\<open>tokio\<close> is the parameter \<open>rx\<close> with the
  contract \<open>exact_reader\<close>.
\<close>

section \<open>Outside code\<close>

text \<open>\<open>avail\<close> are the bytes the peer sends before the stream ends, \<open>fault\<close> is the error a read past them
  reports: \<^verbatim>\<open>UnexpectedEof\<close> when the peer closed the connection.\<close>

locale exact_reader =
  fixes rx :: "nat \<Rightarrow> 's \<Rightarrow> (io_error + bytes) \<times> 's"
    and avail :: "'s \<Rightarrow> bytes"
    and fault :: "'s \<Rightarrow> io_error"
  assumes enough: "n \<le> length (avail s) \<Longrightarrow>
      \<exists>s'. rx n s = (Inr (take n (avail s)), s') \<and> avail s' = drop n (avail s) \<and> fault s' = fault s"
    and short: "length (avail s) < n \<Longrightarrow> \<exists>s'. rx n s = (Inl (fault s), s') \<and> avail s' = [] \<and> fault s' = fault s"

section \<open>Writing\<close>

definition encode_message :: "bytes \<Rightarrow> bytes" where
  "encode_message payload = u32_to_be (of_nat (length payload)) @ payload"

definition write_frame :: "bytes \<Rightarrow> out_stream \<Rightarrow> bool \<times> out_stream" where
  "write_frame payload w =
     (let len = u32_to_be (of_nat (length payload));
          (ok, w) = write_all len w
      in if \<not> ok then (False, w)
         else (let (ok, w) = write_all payload w
               in if \<not> ok then (False, w) else flush_stream w))"

text \<open>\<^verbatim>\<open>write_framed\<close> of part1 makes the same calls on a buffered stream.\<close>

definition write_framed :: "bytes \<Rightarrow> out_stream \<Rightarrow> bool \<times> out_stream" where
  "write_framed payload w =
     (let len = (of_nat (length payload) :: u32);
          (ok, w) = write_all (u32_to_be len) w
      in if \<not> ok then (False, w)
         else (let (ok, w) = write_all payload w
               in if \<not> ok then (False, w) else flush_stream w))"

text \<open>\<^verbatim>\<open>create_frame\<close>: a random length below 15 and random content.\<close>

definition create_frame :: "('g \<Rightarrow> u32 \<times> 'g) \<Rightarrow> (nat \<Rightarrow> 'g \<Rightarrow> bytes \<times> 'g) \<Rightarrow> 'g \<Rightarrow> bytes \<times> 'g" where
  "create_frame random_below_15 fill_bytes g =
     (let (len, g) = random_below_15 g;
          (content, g) = fill_bytes (unat len) g
      in (u32_to_be len @ content, g))"

section \<open>Reading\<close>

definition m1_read_frame :: "(nat \<Rightarrow> 's \<Rightarrow> (io_error + bytes) \<times> 's) \<Rightarrow> 's \<Rightarrow> (io_error + bytes) \<times> 's" where
  "m1_read_frame rx s = (case rx 4 s of
      (Inl e, s) \<Rightarrow> (Inl e, s)
    | (Inr len_buffer, s) \<Rightarrow> rx (unat (u32_from_be len_buffer)) s)"

datatype read_error = ReadIo io_error | FrameTooLarge nat

definition gs_read_frame ::
    "(nat \<Rightarrow> 's \<Rightarrow> (io_error + bytes) \<times> 's) \<Rightarrow> 's \<Rightarrow> (read_error + bytes option) \<times> 's" where
  "gs_read_frame rx s = (case rx 4 s of
      (Inl e, s) \<Rightarrow> (if e = UnexpectedEof then Inr None else Inl (ReadIo e), s)
    | (Inr len_buf, s) \<Rightarrow>
        (let len = unat (u32_from_be len_buf)
         in if len > 65536 then (Inl (FrameTooLarge len), s)
            else (case rx len s of
                (Inl e, s) \<Rightarrow> (Inl (ReadIo e), s)
              | (Inr buf, s) \<Rightarrow> (Inr (Some buf), s))))"

definition part1_read_frame ::
    "(nat \<Rightarrow> 's \<Rightarrow> (io_error + bytes) \<times> 's) \<Rightarrow> 's \<Rightarrow> (read_error + bytes option) \<times> 's" where
  "part1_read_frame rx s = (case rx 4 s of
      (Inr len_buf, s) \<Rightarrow>
        (let len = unat (u32_from_be len_buf)
         in if len > 65536 then (Inl (FrameTooLarge len), s)
            else (case rx len s of
                (Inl e, s) \<Rightarrow> (Inl (ReadIo e), s)
              | (Inr payload, s) \<Rightarrow> (Inr (Some payload), s)))
    | (Inl e, s) \<Rightarrow> (if e = UnexpectedEof then (Inr None, s) else (Inl (ReadIo e), s)))"

section \<open>The connection task of the server\<close>

text \<open>The inner \<^verbatim>\<open>while\<close>: complete messages are cut from the buffer, the rest stays.\<close>

function drain_messages :: "bytes \<Rightarrow> bytes list \<times> bytes" where
  "drain_messages buf =
     (if 4 \<le> length buf
      then (let frame_len = unat (u32_from_be (take 4 buf))
            in if length buf < 4 + frame_len then ([], buf)
               else (let (payloads, rest) = drain_messages (drop frame_len (drop 4 buf))
                     in (take frame_len (drop 4 buf) # payloads, rest)))
      else ([], buf))"
  by pat_completeness auto
termination by (relation "measure length") auto

declare drain_messages.simps [simp del]

text \<open>What a branch of the \<^verbatim>\<open>select!\<close> delivers: the result of \<^verbatim>\<open>read_buf\<close>, a tick with the frame that
  \<^verbatim>\<open>create_frame\<close> makes, or the shutdown channel (closed, or its new value).\<close>

datatype gs_event = GsRead bytes | GsReadErr string | GsTick bytes | GsShutdown "bool option"

datatype gs_log = TextMessage bytes | NonUtf8 nat

datatype gs_end = GsPeerClosed | GsReadFailed string | GsWriteFailed | GsShutdownSeen | GsRunning

record gs_conn =
  gc_buf :: bytes
  gc_log :: "gs_log list"
  gc_out :: out_stream

definition log_message :: "(bytes \<Rightarrow> bool) \<Rightarrow> bytes \<Rightarrow> gs_log" where
  "log_message utf8 payload = (if utf8 payload then TextMessage payload else NonUtf8 (length payload))"

fun run_connection :: "(bytes \<Rightarrow> bool) \<Rightarrow> gs_event list \<Rightarrow> gs_conn \<Rightarrow> gs_end \<times> gs_conn" where
  "run_connection utf8 [] c = (GsRunning, c)"
| "run_connection utf8 (GsRead b # evs) c =
     (if b = [] then (GsPeerClosed, c)
      else (let (payloads, rest) = drain_messages (gc_buf c @ b)
            in run_connection utf8 evs
                 (c\<lparr>gc_buf := rest, gc_log := gc_log c @ map (log_message utf8) payloads\<rparr>)))"
| "run_connection utf8 (GsReadErr e # evs) c = (GsReadFailed e, c)"
| "run_connection utf8 (GsTick frame # evs) c =
     (let (ok, w) = write_all frame (gc_out c); c = c\<lparr>gc_out := w\<rparr>
      in if ok then run_connection utf8 evs c else (GsWriteFailed, c))"
| "run_connection utf8 (GsShutdown change # evs) c =
     (if change = None \<or> change = Some True
      then (GsShutdownSeen, c\<lparr>gc_out := snd (write_frame (map (of_nat \<circ> of_char) ''server shut down'') (gc_out c))\<rparr>)
      else run_connection utf8 evs c)"

text \<open>\<^verbatim>\<open>tle_handler\<close>: the status and the body.\<close>

definition tle_handler :: "string \<Rightarrow> string \<Rightarrow> nat \<times> string" where
  "tle_handler http_method path =
     (if http_method = ''GET'' \<and> path = ''/tle/0''
      then (200, ''{'' @ [CHR 0x22] @ ''norad_id'' @ [CHR 0x22] @ '':0,'' @ [CHR 0x22] @ ''name'' @ [CHR 0x22] @ '':'' @
        [CHR 0x22] @ ''Artemis'' @ [CHR 0x22] @ '','' @ [CHR 0x22] @ ''line1'' @ [CHR 0x22] @ '':'' @ [CHR 0x22] @
        ''Hello'' @ [CHR 0x22] @ '','' @ [CHR 0x22] @ ''line2'' @ [CHR 0x22] @ '':'' @ [CHR 0x22] @ ''Bye'' @
        [CHR 0x22] @ ''}'')
      else (404, ''Not Found''))"

end
