(* ===== verification/Length_Framing_Correct.thy ===== *)
theory Length_Framing_Correct imports Length_Framing begin

text \<open>
  The length-prefixed protocol: what writers send is what every reader returns, what each reader makes
  of a stream that ends inside a message, and the independence of the server's buffered parser from
  the chunks and from the ticks that are interleaved with them.
\<close>

section \<open>A reader that meets the contract\<close>

record tcp =
  tcp_bytes :: bytes
  tcp_end :: io_error

definition tcp_read_exact :: "nat \<Rightarrow> tcp \<Rightarrow> (io_error + bytes) \<times> tcp" where
  "tcp_read_exact n s =
     (if n \<le> length (tcp_bytes s) then (Inr (take n (tcp_bytes s)), s\<lparr>tcp_bytes := drop n (tcp_bytes s)\<rparr>)
      else (Inl (tcp_end s), s\<lparr>tcp_bytes := []\<rparr>))"

interpretation tcp: exact_reader tcp_read_exact tcp_bytes tcp_end
  by unfold_locales (auto simp: tcp_read_exact_def)

section \<open>Writers\<close>

lemma write_frame_ok:
  "write_frame payload w = (True, w') \<Longrightarrow>
   handed w' = handed w @ encode_message payload \<and> flushed w' = length (handed w')"
  by (auto simp: write_frame_def write_all_def flush_stream_def next_result_def encode_message_def Let_def
      split: list.splits if_splits prod.splits)

lemma write_framed_eq: "write_framed payload w = write_frame payload w"
  by (simp add: write_framed_def write_frame_def Let_def)

lemma unat_length_u32: "n < 2 ^ 32 \<Longrightarrow> unat (of_nat n :: u32) = n"
  by (simp add: unat_of_nat)

lemma take_encode: "take 4 (encode_message m) = u32_to_be (of_nat (length m))"
  by (simp add: encode_message_def)

lemma drop_encode: "drop 4 (encode_message m) = m"
  by (simp add: encode_message_def)

lemma length_encode: "length (encode_message m) = 4 + length m"
  by (simp add: encode_message_def)

section \<open>Readers\<close>

lemma part1_read_frame_eq: "part1_read_frame rx s = gs_read_frame rx s"
  by (auto simp: part1_read_frame_def gs_read_frame_def Let_def split: sum.splits prod.splits)

fun read_many :: "('s \<Rightarrow> 'r \<times> 's) \<Rightarrow> nat \<Rightarrow> 's \<Rightarrow> 'r list \<times> 's" where
  "read_many rd 0 s = ([], s)"
| "read_many rd (Suc n) s = (let (r, s) = rd s; (rs, s) = read_many rd n s in (r # rs, s))"

context exact_reader begin

lemma rx_header:
  assumes "avail s = encode_message m @ r"
  obtains s' where "rx 4 s = (Inr (u32_to_be (of_nat (length m))), s')" "avail s' = m @ r" "fault s' = fault s"
  using enough [of 4 s] assms by (auto simp: take_encode drop_encode length_encode)

lemma rx_payload:
  assumes "avail s = m @ r"
  obtains s' where "rx (length m) s = (Inr m, s')" "avail s' = r" "fault s' = fault s"
  using enough [of "length m" s] assms by auto

lemma gs_read_one:
  assumes "avail s = encode_message m @ r" "length m \<le> 65536"
  obtains s' where "gs_read_frame rx s = (Inr (Some m), s')" "avail s' = r" "fault s' = fault s"
proof -
  obtain s1 where s1: "rx 4 s = (Inr (u32_to_be (of_nat (length m))), s1)" "avail s1 = m @ r" "fault s1 = fault s"
    using rx_header assms(1) by blast
  obtain s2 where s2: "rx (length m) s1 = (Inr m, s2)" "avail s2 = r" "fault s2 = fault s1"
    using rx_payload s1(2) by blast
  have "gs_read_frame rx s = (Inr (Some m), s2)"
    using s1 s2 assms(2) by (simp add: gs_read_frame_def unat_length_u32)
  then show thesis using that s1 s2 by simp
qed

lemma m1_read_one:
  assumes "avail s = encode_message m @ r" "length m < 2 ^ 32"
  obtains s' where "m1_read_frame rx s = (Inr m, s')" "avail s' = r" "fault s' = fault s"
proof -
  obtain s1 where s1: "rx 4 s = (Inr (u32_to_be (of_nat (length m))), s1)" "avail s1 = m @ r" "fault s1 = fault s"
    using rx_header assms(1) by blast
  obtain s2 where s2: "rx (length m) s1 = (Inr m, s2)" "avail s2 = r" "fault s2 = fault s1"
    using rx_payload s1(2) by blast
  have "m1_read_frame rx s = (Inr m, s2)"
    using s1 s2 unat_length_u32 [OF assms(2)] by (simp add: m1_read_frame_def)
  then show thesis using that s1 s2 by simp
qed

lemma read_many_messages:
  assumes "\<And>s m r. avail s = encode_message m @ r \<Longrightarrow> m \<in> set ms \<Longrightarrow>
      \<exists>s'. rd s = (val m, s') \<and> avail s' = r \<and> fault s' = fault s"
    and "avail s = concat (map encode_message ms) @ tail"
  shows "\<exists>s'. read_many rd (length ms) s = (map val ms, s') \<and> avail s' = tail \<and> fault s' = fault s"
  using assms
proof (induction ms arbitrary: s)
  case Nil
  then show ?case by simp
next
  case (Cons m ms)
  obtain s1 where s1: "rd s = (val m, s1)" "avail s1 = concat (map encode_message ms) @ tail" "fault s1 = fault s"
    using Cons.prems(1) [of s m "concat (map encode_message ms) @ tail"] Cons.prems(2) by auto
  obtain s2 where "read_many rd (length ms) s1 = (map val ms, s2)" "avail s2 = tail" "fault s2 = fault s1"
    using Cons.IH [of s1] Cons.prems(1) s1(2) by auto
  then show ?case using s1 by auto
qed

lemma gs_read_tail:
  "fst (gs_read_frame rx s) =
     (if length (avail s) < 4 then (if fault s = UnexpectedEof then Inr None else Inl (ReadIo (fault s)))
      else (let len = unat (u32_from_be (take 4 (avail s)))
            in if len > 65536 then Inl (FrameTooLarge len)
               else if length (avail s) < 4 + len then Inl (ReadIo (fault s))
               else Inr (Some (take len (drop 4 (avail s))))))"
proof (cases "length (avail s) < 4")
  case True
  then show ?thesis using short [OF True] by (auto simp: gs_read_frame_def)
next
  case False
  let ?len = "unat (u32_from_be (take 4 (avail s)))"
  obtain s1 where s1: "rx 4 s = (Inr (take 4 (avail s)), s1)" "avail s1 = drop 4 (avail s)" "fault s1 = fault s"
    using enough [of 4 s] False by auto
  show ?thesis
  proof (cases "length (avail s) < 4 + ?len")
    case True
    then have "length (avail s1) < ?len" using s1(2) False by simp
    from short [OF this] show ?thesis using s1 True False by (auto simp: gs_read_frame_def Let_def)
  next
    case notshort: False
    then have "?len \<le> length (avail s1)" using s1(2) by simp
    from enough [OF this] show ?thesis using s1 notshort False by (auto simp: gs_read_frame_def Let_def)
  qed
qed

end

text \<open>C27: over every stream, messages of at most 65536 bytes that were sent with the writers come out of the
  three readers unchanged and in order. What follows decides the next read of \<^verbatim>\<open>read_frame\<close>: a
  stream that ends inside a length prefix counts as a clean close, one that ends inside a payload is an
  error, and an announced length above 65536 is refused.\<close>
theorem length_framing_roundtrip:
  assumes "exact_reader rx avail fault"
    and "avail s = concat (map encode_message ms) @ tail" "\<forall>m \<in> set ms. length m \<le> 65536"
  shows "\<exists>s1 s2. read_many (gs_read_frame rx) (length ms) s = (map (\<lambda>m. Inr (Some m)) ms, s1) \<and>
    read_many (part1_read_frame rx) (length ms) s = (map (\<lambda>m. Inr (Some m)) ms, s1) \<and>
    read_many (m1_read_frame rx) (length ms) s = (map Inr ms, s2) \<and> avail s1 = tail \<and> avail s2 = tail \<and>
    fst (gs_read_frame rx s1) =
      (if length tail < 4 then (if fault s = UnexpectedEof then Inr None else Inl (ReadIo (fault s)))
       else (let len = unat (u32_from_be (take 4 tail))
             in if len > 65536 then Inl (FrameTooLarge len)
                else if length tail < 4 + len then Inl (ReadIo (fault s))
                else Inr (Some (take len (drop 4 tail)))))"
proof -
  have gs: "\<exists>s'. gs_read_frame rx s = (Inr (Some m), s') \<and> avail s' = r \<and> fault s' = fault s"
    if "avail s = encode_message m @ r" "m \<in> set ms" for s m r
    using exact_reader.gs_read_one [OF assms(1) that(1)] assms(3) that(2) by blast
  have m1: "\<exists>s'. m1_read_frame rx s = (Inr m, s') \<and> avail s' = r \<and> fault s' = fault s"
    if "avail s = encode_message m @ r" "m \<in> set ms" for s m r
  proof -
    have "length m < 2 ^ 32" using assms(3) that(2) by fastforce
    then show ?thesis using exact_reader.m1_read_one [OF assms(1) that(1)] by blast
  qed
  obtain s1 where s1: "read_many (gs_read_frame rx) (length ms) s = (map (\<lambda>m. Inr (Some m)) ms, s1)"
    "avail s1 = tail" "fault s1 = fault s"
    using exact_reader.read_many_messages [OF assms(1) _ assms(2), where rd = "gs_read_frame rx" and
        val = "\<lambda>m. Inr (Some m)"] gs by blast
  obtain s2 where s2: "read_many (m1_read_frame rx) (length ms) s = (map Inr ms, s2)" "avail s2 = tail"
    using exact_reader.read_many_messages [OF assms(1) _ assms(2), where rd = "m1_read_frame rx" and val = Inr]
      m1 by blast
  have "part1_read_frame rx = gs_read_frame rx" by (rule ext) (rule part1_read_frame_eq)
  then show ?thesis using s1 s2 exact_reader.gs_read_tail [OF assms(1), of s1, unfolded s1(2,3)] by auto
qed

theorem length_framing_roundtrip_witness:
  "\<exists>s1. read_many (gs_read_frame tcp_read_exact) 2
      \<lparr>tcp_bytes = encode_message [104, 105] @ encode_message [] @ [0, 0], tcp_end = UnexpectedEof\<rparr>
     = ([Inr (Some [104, 105]), Inr (Some [])], s1) \<and> fst (gs_read_frame tcp_read_exact s1) = Inr None"
  using length_framing_roundtrip [OF tcp.exact_reader_axioms,
      of "\<lparr>tcp_bytes = encode_message [104, 105] @ encode_message [] @ [0, 0], tcp_end = UnexpectedEof\<rparr>"
        "[[104, 105], []]" "[0, 0]"]
  by (auto simp: numeral_2_eq_2)

section \<open>The buffered parser of the server\<close>

definition message_parser :: "bytes \<Rightarrow> (bytes \<times> nat) option" where
  "message_parser b =
     (let n = unat (u32_from_be (take 4 b))
      in if 4 \<le> length b \<and> 4 + n \<le> length b then Some (take n (drop 4 b), 4 + n) else None)"

interpretation messages: stream_parser message_parser
  by unfold_locales (auto simp: message_parser_def Let_def split: if_splits)

lemma drain_messages_eq: "drain_messages b = parse_all message_parser b"
proof (induction b rule: drain_messages.induct)
  case (1 b)
  let ?n = "unat (u32_from_be (take 4 b))"
  show ?case
  proof (cases "4 \<le> length b \<and> 4 + ?n \<le> length b")
    case True
    then have p: "message_parser b = Some (take ?n (drop 4 b), 4 + ?n)" by (simp add: message_parser_def Let_def)
    have "drain_messages b = (take ?n (drop 4 b) # fst (drain_messages (drop ?n (drop 4 b))),
        snd (drain_messages (drop ?n (drop 4 b))))"
      using True by (subst drain_messages.simps) (simp add: Let_def case_prod_unfold)
    moreover have "drain_messages (drop ?n (drop 4 b)) = parse_all message_parser (drop (4 + ?n) b)"
      using 1 True by (simp add: add.commute)
    ultimately show ?thesis using messages.parse_all_Some [OF p] by simp
  next
    case False
    then have "message_parser b = None" by (simp add: message_parser_def Let_def)
    moreover have "drain_messages b = ([], b)"
      using False by (subst drain_messages.simps) (auto simp: Let_def)
    ultimately show ?thesis by (simp add: messages.parse_all_None)
  qed
qed

lemma message_parser_encode:
  "length m < 2 ^ 32 \<Longrightarrow> message_parser (encode_message m @ r) = Some (m, length (encode_message m))"
  using unat_length_u32 [of "length m"]
  by (simp add: message_parser_def Let_def take_encode drop_encode length_encode)

fun read_bytes :: "gs_event list \<Rightarrow> bytes" where
  "read_bytes [] = []"
| "read_bytes (GsRead b # evs) = b @ read_bytes evs"
| "read_bytes (_ # evs) = read_bytes evs"

fun tick_bytes :: "gs_event list \<Rightarrow> bytes" where
  "tick_bytes [] = []"
| "tick_bytes (GsTick b # evs) = b @ tick_bytes evs"
| "tick_bytes (_ # evs) = tick_bytes evs"

fun quiet :: "gs_event \<Rightarrow> bool" where
  "quiet (GsRead b) = (b \<noteq> [])"
| "quiet (GsTick b) = True"
| "quiet (GsShutdown change) = (change = Some False)"
| "quiet (GsReadErr e) = False"

lemma run_connection_quiet:
  assumes "\<forall>ev \<in> set evs. quiet ev" "results (gc_out c) = []" "message_parser (gc_buf c) = None"
  shows "\<exists>c'. run_connection utf8 evs c = (GsRunning, c') \<and>
    gc_log c' = gc_log c @ map (log_message utf8) (fst (parse_all message_parser (gc_buf c @ read_bytes evs))) \<and>
    gc_buf c' = snd (parse_all message_parser (gc_buf c @ read_bytes evs)) \<and>
    handed (gc_out c') = handed (gc_out c) @ tick_bytes evs"
  using assms
proof (induction evs arbitrary: c)
  case Nil
  then show ?case by (simp add: messages.parse_all_None)
next
  case (Cons ev evs)
  show ?case
  proof (cases ev)
    case (GsRead b)
    let ?pr = "parse_all message_parser (gc_buf c @ b)"
    let ?c = "c\<lparr>gc_buf := snd ?pr, gc_log := gc_log c @ map (log_message utf8) (fst ?pr)\<rparr>"
    have "message_parser (gc_buf ?c) = None" by (simp add: messages.parse_rest)
    moreover have "\<forall>ev \<in> set evs. quiet ev" "results (gc_out ?c) = []" using Cons.prems by auto
    ultimately obtain c' where "run_connection utf8 evs ?c = (GsRunning, c')"
      "gc_log c' = gc_log ?c @ map (log_message utf8) (fst (parse_all message_parser (gc_buf ?c @ read_bytes evs)))"
      "gc_buf c' = snd (parse_all message_parser (gc_buf ?c @ read_bytes evs))"
      "handed (gc_out c') = handed (gc_out ?c) @ tick_bytes evs"
      using Cons.IH by blast
    then show ?thesis using Cons.prems(1) GsRead messages.parse_all_append [of "gc_buf c @ b" "read_bytes evs"]
      by (auto simp: drain_messages_eq Let_def case_prod_unfold)
  next
    case (GsTick b)
    have "\<forall>ev \<in> set evs. quiet ev" using Cons.prems(1) by simp
    then obtain c' where "run_connection utf8 evs (c\<lparr>gc_out := (gc_out c)\<lparr>handed := handed (gc_out c) @ b\<rparr>\<rparr>) = (GsRunning, c')"
      "gc_log c' = gc_log c @ map (log_message utf8) (fst (parse_all message_parser (gc_buf c @ read_bytes evs)))"
      "gc_buf c' = snd (parse_all message_parser (gc_buf c @ read_bytes evs))"
      "handed (gc_out c') = handed (gc_out c) @ b @ tick_bytes evs"
      using Cons.IH [of "c\<lparr>gc_out := (gc_out c)\<lparr>handed := handed (gc_out c) @ b\<rparr>\<rparr>"] Cons.prems by auto
    then show ?thesis using GsTick Cons.prems(2) by (simp add: write_all_def next_result_def)
  next
    case (GsShutdown change)
    then show ?thesis using Cons by simp
  next
    case (GsReadErr e)
    then show ?thesis using Cons.prems by simp
  qed
qed

text \<open>On the server side, messages reach the log complete and in order however their bytes are cut into
  reads and whatever ticks and shutdown updates come between the reads; the bytes of an unfinished message wait in
  the buffer, and a close of the peer then drops them without an error.\<close>
lemma server_messages_in_order:
  assumes "\<forall>ev \<in> set evs. quiet ev" "results w = []"
    and "read_bytes evs = concat (map encode_message ms) @ tail" "\<forall>m \<in> set ms. length m < 2 ^ 32"
    and "message_parser tail = None"
  shows "\<exists>c. run_connection utf8 evs \<lparr>gc_buf = [], gc_log = [], gc_out = w\<rparr> = (GsRunning, c) \<and>
    gc_log c = map (log_message utf8) ms \<and> gc_buf c = tail \<and> handed (gc_out c) = handed w @ tick_bytes evs \<and>
    run_connection utf8 [GsRead []] c = (GsPeerClosed, c)"
proof -
  have nil: "message_parser [] = None" by (simp add: message_parser_def)
  have "parse_all message_parser (concat (map encode_message ms)) = (map (\<lambda>m. m) ms, [])"
    by (rule messages.parse_all_messages) (use assms(4) message_parser_encode nil in auto)
  then have "parse_all message_parser (read_bytes evs) = (ms, tail)"
    using messages.parse_all_append [of "concat (map encode_message ms)" tail]
      messages.parse_all_None [OF assms(5)] assms(3) by simp
  then show ?thesis
    using run_connection_quiet [of evs "\<lparr>gc_buf = [], gc_log = [], gc_out = w\<rparr>" utf8] assms(1,2) nil
    by auto
qed

end
