(* ===== verification/Connection_Tasks.thy ===== *)
theory Connection_Tasks imports Length_Framing_Correct begin

text \<open>
  The connection tasks around the readers of \<^verbatim>\<open>Length_Framing\<close>: \<^verbatim>\<open>handle_connection\<close> and \<^verbatim>\<open>spawn_handler\<close> of
  \<^verbatim>\<open>module1/project1.rs\<close>, \<^verbatim>\<open>connection_handler\<close> and the accept loop of \<^verbatim>\<open>module4/part1/connection_processing.rs\<close>, and
  the accept loops of \<^verbatim>\<open>module4/project4/gs_server.rs\<close>. What a branch of a \<^verbatim>\<open>select!\<close> delivers is one event.
\<close>

section \<open>Module 1\<close>

record station_frame =
  sf_station_id :: string
  sf_payload :: bytes

definition station_frame_new :: "string \<Rightarrow> bytes \<Rightarrow> station_frame" where
  "station_frame_new station_id payload = \<lparr>sf_station_id = station_id, sf_payload = payload\<rparr>"

text \<open>A read with whether the broadcast still has a receiver; a change of the shutdown channel with its value, which
  a dropped sender delivers again and again.\<close>

datatype hc_event = HcRead "io_error + bytes" bool | HcShutdown bool

datatype hc_end = HcRunning | HcNoReceivers | HcClosed io_error | HcShutdownSeen

fun handle_connection :: "string \<Rightarrow> hc_event list \<Rightarrow> hc_end \<times> station_frame list" where
  "handle_connection station_id [] = (HcRunning, [])"
| "handle_connection station_id (HcRead (Inr payload) receivers # evs) =
     (if receivers
      then (let (e, frames) = handle_connection station_id evs in (e, station_frame_new station_id payload # frames))
      else (HcNoReceivers, []))"
| "handle_connection station_id (HcRead (Inl err) receivers # evs) = (HcClosed err, [])"
| "handle_connection station_id (HcShutdown b # evs) =
     (if b then (HcShutdownSeen, []) else handle_connection station_id evs)"

text \<open>The handler of the broadcast: frames received and the sum of the lags.\<close>

datatype bc_event = BcFrame station_frame | BcLagged nat | BcClosed

fun spawn_handler :: "bc_event list \<Rightarrow> station_frame list \<times> nat \<times> bool" where
  "spawn_handler [] = ([], 0, False)"
| "spawn_handler (BcFrame f # evs) = (let (fs, n, e) = spawn_handler evs in (f # fs, n, e))"
| "spawn_handler (BcLagged m # evs) = (let (fs, n, e) = spawn_handler evs in (fs, m + n, e))"
| "spawn_handler (BcClosed # evs) = ([], 0, True)"

section \<open>Module 4, part 1\<close>

datatype ch_event = ChRead "read_error + bytes option" bool | ChTimeout | ChShutdown bool

datatype ch_end = ChRunning | ChTimedOut | ChAggregatorGone | ChPeerClosed | ChReadError read_error | ChShutdownSeen

fun connection_handler :: "string \<Rightarrow> ch_event list \<Rightarrow> ch_end \<times> station_frame list" where
  "connection_handler station_id [] = (ChRunning, [])"
| "connection_handler station_id (ChTimeout # evs) = (ChTimedOut, [])"
| "connection_handler station_id (ChRead (Inr (Some payload)) open # evs) =
     (if open
      then (let (e, frames) = connection_handler station_id evs
            in (e, \<lparr>sf_station_id = station_id, sf_payload = payload\<rparr> # frames))
      else (ChAggregatorGone, []))"
| "connection_handler station_id (ChRead (Inr None) open # evs) = (ChPeerClosed, [])"
| "connection_handler station_id (ChRead (Inl e) open # evs) = (ChReadError e, [])"
| "connection_handler station_id (ChShutdown b # evs) =
     (if b then (ChShutdownSeen, []) else connection_handler station_id evs)"

text \<open>The accept loops. In part 1 a failed accept is skipped and every connection gets a number; in project 4 it
  ends the task. \<open>show_nat\<close> is the decimal form of a number.\<close>

datatype 'a accept_event = Accepted 'a | AcceptFailed string | AcceptShutdown bool

fun run_tcp_server :: "(nat \<Rightarrow> string) \<Rightarrow> nat \<Rightarrow> string accept_event list \<Rightarrow> string list \<times> bool" where
  "run_tcp_server show_nat conn_id [] = ([], False)"
| "run_tcp_server show_nat conn_id (Accepted addr # evs) =
     (let conn_id = conn_id + 1; station_id = ''gs-'' @ show_nat conn_id @ ''@'' @ addr;
          (stations, stopped) = run_tcp_server show_nat conn_id evs
      in (station_id # stations, stopped))"
| "run_tcp_server show_nat conn_id (AcceptFailed e # evs) = run_tcp_server show_nat conn_id evs"
| "run_tcp_server show_nat conn_id (AcceptShutdown b # evs) =
     (if b then ([], True) else run_tcp_server show_nat conn_id evs)"

datatype task_end = TaskRunning | TaskFailed string | TaskOk

fun tcp_task :: "'a accept_event list \<Rightarrow> 'a list \<times> task_end" where
  "tcp_task [] = ([], TaskRunning)"
| "tcp_task (Accepted stream # evs) = (let (spawned, e) = tcp_task evs in (stream # spawned, e))"
| "tcp_task (AcceptFailed e # evs) = ([], TaskFailed e)"
| "tcp_task (AcceptShutdown b # evs) = (if b then ([], TaskOk) else tcp_task evs)"

fun http_task :: "'a accept_event list \<Rightarrow> 'a list \<times> task_end" where
  "http_task [] = ([], TaskRunning)"
| "http_task (Accepted io # evs) = (let (spawned, e) = http_task evs in (io # spawned, e))"
| "http_task (AcceptFailed e # evs) = ([], TaskFailed e)"
| "http_task (AcceptShutdown b # evs) = (if b then ([], TaskOk) else http_task evs)"

section \<open>Frames of a connection\<close>

text \<open>The reads of a connection task on a stream, when every frame finds a receiver and no shutdown comes.\<close>

definition hc_reads :: "(io_error + bytes) list \<Rightarrow> hc_event list" where
  "hc_reads = map (\<lambda>r. HcRead r True)"

lemma handle_connection_reads:
  "handle_connection station_id (hc_reads (map Inr ms) @ evs) =
     (fst (handle_connection station_id evs), map (station_frame_new station_id) ms @ snd (handle_connection station_id evs))"
  by (induction ms) (auto simp: hc_reads_def split: prod.splits)

text \<open>What the task of module 1 sends on is what the peer encoded, in order, and the end of the stream ends it.\<close>

lemma handle_connection_stream:
  assumes "exact_reader rx avail fault" "avail s = concat (map encode_message ms)" "\<forall>m \<in> set ms. length m \<le> 65536"
  shows "\<exists>s'. read_many (m1_read_frame rx) (length ms) s = (map Inr ms, s') \<and>
    handle_connection station_id (hc_reads (map Inr ms @ [fst (m1_read_frame rx s')])) =
      (HcClosed (fault s'), map (station_frame_new station_id) ms)"
proof -
  have m1: "\<exists>s'. m1_read_frame rx s = (Inr m, s') \<and> avail s' = r \<and> fault s' = fault s"
    if "avail s = encode_message m @ r" "m \<in> set ms" for s m r
  proof -
    have "length m < 2 ^ 32" using assms(3) that(2) by fastforce
    then show ?thesis using exact_reader.m1_read_one [OF assms(1) that(1)] by blast
  qed
  obtain s' where s': "read_many (m1_read_frame rx) (length ms) s = (map Inr ms, s')" "avail s' = []"
    using exact_reader.read_many_messages [OF assms(1), where rd = "m1_read_frame rx" and val = Inr and
        s = s and ms = ms and tail = "[]"] m1 assms(2) by auto
  moreover have "fst (m1_read_frame rx s') = Inl (fault s')"
    using exact_reader.short [OF assms(1), of s' 4] s'(2) by (auto simp: m1_read_frame_def)
  ultimately show ?thesis using handle_connection_reads [of station_id ms "[HcRead (Inl (fault s')) True]"]
    by (auto simp: hc_reads_def)
qed

lemma accept_loops_equal: "http_task evs = tcp_task evs"
  by (induction evs rule: tcp_task.induct) auto

lemma run_tcp_server_stations:
  "length (fst (run_tcp_server show_nat n evs)) = length (fst (tcp_task (filter (\<lambda>ev. \<forall>e. ev \<noteq> AcceptFailed e) evs)))"
  by (induction show_nat n evs rule: run_tcp_server.induct) (auto split: prod.splits)

end
