(* ===== verification/Command_Queue.thy ===== *)
theory Command_Queue imports Prelude begin

text \<open>
  The command queues of module 2. \<^verbatim>\<open>project2/command.rs\<close>: commands, their priorities and their order;
  \<^verbatim>\<open>project2/metrics.rs\<close>: the counters; \<^verbatim>\<open>project2/cmd_queue.rs\<close>: the bounded queue with shutdown, whose
  calls block on two condition variables; \<^verbatim>\<open>part2/command_queue.rs\<close>: the unbounded queue. A
  \<^verbatim>\<open>BinaryHeap\<close> is the list of its elements; which of several maximal elements \<^verbatim>\<open>pop\<close> takes is open, so the
  index is the parameter \<open>pick\<close> with the contract \<open>heap_pick\<close>. Instants are natural numbers, an \<^verbatim>\<open>f32\<close>
  is its bit pattern.
\<close>

unbundle bit_operations_syntax

section \<open>Commands\<close>

type_synonym f32 = "32 word"

definition f32_is_nan :: "f32 \<Rightarrow> bool" where
  "f32_is_nan x \<longleftrightarrow> x AND 0x7F800000 = 0x7F800000 \<and> x AND 0x007FFFFF \<noteq> 0"

definition f32_eq :: "f32 \<Rightarrow> f32 \<Rightarrow> bool" where
  "f32_eq x y \<longleftrightarrow> \<not> f32_is_nan x \<and> \<not> f32_is_nan y \<and> (x = y \<or> x AND 0x7FFFFFFF = 0 \<and> y AND 0x7FFFFFFF = 0)"

definition eq_f32 :: "f32 \<Rightarrow> f32 \<Rightarrow> bool" where
  "eq_f32 x y \<longleftrightarrow> f32_is_nan x \<and> f32_is_nan y \<or> f32_eq x y"

datatype command_kind = SafeMode | AbortPass | Repoint f32 f32 | StatusRequest | Housekeeping

fun command_kind_eq :: "command_kind \<Rightarrow> command_kind \<Rightarrow> bool" where
  "command_kind_eq (Repoint a e) (Repoint a' e') \<longleftrightarrow> eq_f32 a a' \<and> eq_f32 e e'"
| "command_kind_eq k k' \<longleftrightarrow> k = k'"

record command =
  cmd_priority :: u8
  cmd_kind :: command_kind
  cmd_issued_at :: nat

fun kind_priority :: "command_kind \<Rightarrow> u8" where
  "kind_priority SafeMode = 255"
| "kind_priority AbortPass = 150"
| "kind_priority (Repoint a e) = 100"
| "kind_priority StatusRequest = 50"
| "kind_priority Housekeeping = 10"

definition command_new :: "nat \<Rightarrow> command_kind \<Rightarrow> command" where
  "command_new now kind = \<lparr>cmd_priority = kind_priority kind, cmd_kind = kind, cmd_issued_at = now\<rparr>"

definition command_eq :: "command \<Rightarrow> command \<Rightarrow> bool" where
  "command_eq a b \<longleftrightarrow> cmd_priority a = cmd_priority b \<and> cmd_issued_at a = cmd_issued_at b"

text \<open>\<^verbatim>\<open>Ord\<close>: the priority first, then the older command is the greater one.\<close>

datatype ordering = Less | Equal | Greater

definition cmp_of :: "'a::linorder \<Rightarrow> 'a \<Rightarrow> ordering" where
  "cmp_of a b = (if a < b then Less else if a = b then Equal else Greater)"

definition command_cmp :: "command \<Rightarrow> command \<Rightarrow> ordering" where
  "command_cmp a b = (case cmp_of (cmd_priority a) (cmd_priority b) of
      Equal \<Rightarrow> cmp_of (cmd_issued_at b) (cmd_issued_at a) | c \<Rightarrow> c)"

text \<open>The order of \<^verbatim>\<open>cmp\<close> as the class of the library; two commands of one priority and instant are equivalent.\<close>

instantiation command_ext :: (type) preorder
begin

definition less_eq_command_ext :: "'a command_scheme \<Rightarrow> 'a command_scheme \<Rightarrow> bool" where
  "less_eq_command_ext a b \<longleftrightarrow> command_cmp (command.truncate a) (command.truncate b) \<noteq> Greater"

definition less_command_ext :: "'a command_scheme \<Rightarrow> 'a command_scheme \<Rightarrow> bool" where
  "less_command_ext a b \<longleftrightarrow> a \<le> b \<and> \<not> b \<le> a"

instance
  by standard (auto simp: less_eq_command_ext_def less_command_ext_def command_cmp_def cmp_of_def command.truncate_def split: if_splits)

end

lemma command_le:
  "a \<le> b \<longleftrightarrow> cmd_priority a < cmd_priority b \<or> cmd_priority a = cmd_priority b \<and> cmd_issued_at b \<le> cmd_issued_at a"
  by (auto simp: less_eq_command_ext_def command_cmp_def cmp_of_def command.truncate_def)

section \<open>Metrics\<close>

record metrics =
  commands_pushed :: u64
  commands_dispatched :: u64
  safe_mode_count :: u64

definition metrics_new :: metrics where
  "metrics_new = \<lparr>commands_pushed = 0, commands_dispatched = 0, safe_mode_count = 0\<rparr>"

definition increment_push :: "metrics \<Rightarrow> metrics" where
  "increment_push m = m\<lparr>commands_pushed := commands_pushed m + 1\<rparr>"

definition increment_dispatch :: "metrics \<Rightarrow> metrics" where
  "increment_dispatch m = m\<lparr>commands_dispatched := commands_dispatched m + 1\<rparr>"

definition increment_safe_mode_count :: "metrics \<Rightarrow> metrics" where
  "increment_safe_mode_count m = m\<lparr>safe_mode_count := safe_mode_count m + 1\<rparr>"

section \<open>The bounded queue\<close>

record queue =
  q_heap :: "command list"
  q_capacity :: nat
  q_shutdown :: bool
  q_metrics :: metrics

definition queue_new :: "nat \<Rightarrow> queue" where
  "queue_new capacity = \<lparr>q_heap = [], q_capacity = capacity, q_shutdown = False, q_metrics = metrics_new\<rparr>"

datatype queue_shutdown_error = QueueShutdown

definition is_not_full :: "queue \<Rightarrow> bool" where
  "is_not_full q \<longleftrightarrow> length (q_heap q) < q_capacity q"

definition heap_pop :: "(('c::preorder) list \<Rightarrow> nat) \<Rightarrow> 'c list \<Rightarrow> ('c \<times> 'c list) option" where
  "heap_pop pick h =
     (if h = [] then None else Some (h ! pick h, take (pick h) h @ drop (Suc (pick h)) h))"

text \<open>One turn of the loop of \<^verbatim>\<open>push\<close> under the lock; \<open>None\<close> is the wait on \<^verbatim>\<open>not_full\<close>.\<close>

definition queue_push :: "command \<Rightarrow> queue \<Rightarrow> ((queue_shutdown_error + unit) \<times> queue) option" where
  "queue_push cmd q =
     (if q_shutdown q then Some (Inl QueueShutdown, q)
      else if is_not_full q then
        (let safe = (cmd_kind cmd = SafeMode);
             m = increment_push (q_metrics q);
             m = (if safe then increment_safe_mode_count m else m)
         in Some (Inr (), q\<lparr>q_heap := q_heap q @ [cmd], q_metrics := m\<rparr>))
      else None)"

text \<open>One turn of the loop of \<^verbatim>\<open>pop\<close>; \<open>None\<close> is the wait on \<^verbatim>\<open>not_empty\<close>.\<close>

definition queue_pop ::
    "(command list \<Rightarrow> nat) \<Rightarrow> queue \<Rightarrow> ((queue_shutdown_error + command) \<times> queue) option" where
  "queue_pop pick q = (case heap_pop pick (q_heap q) of
      Some (cmd, h) \<Rightarrow> Some (Inr cmd, q\<lparr>q_heap := h, q_metrics := increment_dispatch (q_metrics q)\<rparr>)
    | None \<Rightarrow> if q_shutdown q then Some (Inl QueueShutdown, q) else None)"

definition queue_shutdown :: "queue \<Rightarrow> queue" where
  "queue_shutdown q = q\<lparr>q_shutdown := True\<rparr>"

section \<open>Threads on the condition variables\<close>

text \<open>Producers wait with the command they push, consumers are only counted. A thread that was woken is
  ready: it takes the lock again and runs its loop once more. The logs record the commands accepted, taken
  and refused.\<close>

record qsys =
  qs_queue :: queue
  qs_waiting_push :: "command list"
  qs_ready_push :: "command list"
  qs_waiting_pop :: nat
  qs_ready_pop :: nat
  qs_accepted :: "command list"
  qs_taken :: "command list"
  qs_refused :: "command list"
  qs_pop_errors :: nat

definition qsys_new :: "nat \<Rightarrow> qsys" where
  "qsys_new capacity = \<lparr>qs_queue = queue_new capacity, qs_waiting_push = [], qs_ready_push = [],
     qs_waiting_pop = 0, qs_ready_pop = 0, qs_accepted = [], qs_taken = [], qs_refused = [], qs_pop_errors = 0\<rparr>"

text \<open>\<^verbatim>\<open>notify_one\<close> wakes one waiter if there is one; the scheduler's choice \<open>i\<close> says which producer.\<close>

definition notify_consumer :: "qsys \<Rightarrow> qsys" where
  "notify_consumer s =
     (if 0 < qs_waiting_pop s
      then s\<lparr>qs_waiting_pop := qs_waiting_pop s - 1, qs_ready_pop := qs_ready_pop s + 1\<rparr> else s)"

definition notify_producer :: "nat \<Rightarrow> qsys \<Rightarrow> qsys" where
  "notify_producer i s =
     (let w = qs_waiting_push s; i = (if i < length w then i else 0)
      in if w = [] then s
         else s\<lparr>qs_waiting_push := take i w @ drop (Suc i) w, qs_ready_push := qs_ready_push s @ [w ! i]\<rparr>)"

definition push_turn :: "command \<Rightarrow> qsys \<Rightarrow> qsys" where
  "push_turn cmd s = (case queue_push cmd (qs_queue s) of
      None \<Rightarrow> s\<lparr>qs_waiting_push := qs_waiting_push s @ [cmd]\<rparr>
    | Some (Inl _, q) \<Rightarrow> s\<lparr>qs_queue := q, qs_refused := qs_refused s @ [cmd]\<rparr>
    | Some (Inr _, q) \<Rightarrow> notify_consumer (s\<lparr>qs_queue := q, qs_accepted := qs_accepted s @ [cmd]\<rparr>))"

definition pop_turn :: "(command list \<Rightarrow> nat) \<Rightarrow> nat \<Rightarrow> qsys \<Rightarrow> qsys" where
  "pop_turn pick i s = (case queue_pop pick (qs_queue s) of
      None \<Rightarrow> s\<lparr>qs_waiting_pop := qs_waiting_pop s + 1\<rparr>
    | Some (Inl _, q) \<Rightarrow> s\<lparr>qs_queue := q, qs_pop_errors := qs_pop_errors s + 1\<rparr>
    | Some (Inr cmd, q) \<Rightarrow> notify_producer i (s\<lparr>qs_queue := q, qs_taken := qs_taken s @ [cmd]\<rparr>))"

definition shutdown_turn :: "qsys \<Rightarrow> qsys" where
  "shutdown_turn s =
     s\<lparr>qs_queue := queue_shutdown (qs_queue s),
       qs_ready_push := qs_ready_push s @ qs_waiting_push s, qs_waiting_push := [],
       qs_ready_pop := qs_ready_pop s + qs_waiting_pop s, qs_waiting_pop := 0\<rparr>"

text \<open>A call, a turn of a woken thread, a spurious wake-up, a shutdown. A turn that names no woken thread does
  nothing.\<close>

datatype queue_event =
    Push command | PushAgain nat | SpuriousPush nat
  | Pop nat | PopAgain nat | SpuriousPop
  | Shutdown

fun queue_event_step :: "(command list \<Rightarrow> nat) \<Rightarrow> queue_event \<Rightarrow> qsys \<Rightarrow> qsys" where
  "queue_event_step pick (Push cmd) s = push_turn cmd s"
| "queue_event_step pick (PushAgain i) s =
     (if i < length (qs_ready_push s)
      then push_turn (qs_ready_push s ! i)
        (s\<lparr>qs_ready_push := take i (qs_ready_push s) @ drop (Suc i) (qs_ready_push s)\<rparr>)
      else s)"
| "queue_event_step pick (SpuriousPush i) s = notify_producer i s"
| "queue_event_step pick (Pop i) s = pop_turn pick i s"
| "queue_event_step pick (PopAgain i) s =
     (if 0 < qs_ready_pop s then pop_turn pick i (s\<lparr>qs_ready_pop := qs_ready_pop s - 1\<rparr>) else s)"
| "queue_event_step pick SpuriousPop s = notify_consumer s"
| "queue_event_step pick Shutdown s = shutdown_turn s"

fun queue_run :: "(command list \<Rightarrow> nat) \<Rightarrow> queue_event list \<Rightarrow> qsys \<Rightarrow> qsys" where
  "queue_run pick [] s = s"
| "queue_run pick (ev # evs) s = queue_run pick evs (queue_event_step pick ev s)"

section \<open>The unbounded queue of part2\<close>

record command1 =
  c1_priority :: u8
  c1_payload :: string

definition command1_cmp :: "command1 \<Rightarrow> command1 \<Rightarrow> ordering" where
  "command1_cmp a b = cmp_of (c1_priority a) (c1_priority b)"

instantiation command1_ext :: (type) preorder
begin

definition less_eq_command1_ext :: "'a command1_scheme \<Rightarrow> 'a command1_scheme \<Rightarrow> bool" where
  "less_eq_command1_ext a b \<longleftrightarrow> command1_cmp (command1.truncate a) (command1.truncate b) \<noteq> Greater"

definition less_command1_ext :: "'a command1_scheme \<Rightarrow> 'a command1_scheme \<Rightarrow> bool" where
  "less_command1_ext a b \<longleftrightarrow> a \<le> b \<and> \<not> b \<le> a"

instance
  by standard (auto simp: less_eq_command1_ext_def less_command1_ext_def command1_cmp_def cmp_of_def command1.truncate_def split: if_splits)

end

lemma command1_le: "a \<le> b \<longleftrightarrow> c1_priority a \<le> c1_priority b"
  by (auto simp: less_eq_command1_ext_def command1_cmp_def cmp_of_def command1.truncate_def)

definition queue1_push :: "command1 \<Rightarrow> command1 list \<Rightarrow> command1 list" where
  "queue1_push cmd h = h @ [cmd]"

text \<open>One turn of \<^verbatim>\<open>pop_blocking\<close>; \<open>None\<close> is the wait.\<close>

definition queue1_pop :: "(command1 list \<Rightarrow> nat) \<Rightarrow> command1 list \<Rightarrow> (command1 \<times> command1 list) option" where
  "queue1_pop pick h = heap_pop pick h"

end
