(* ===== verification/Command_Queue_Correct.thy ===== *)
theory Command_Queue_Correct imports Command_Queue begin

text \<open>
  The bounded queue under every schedule of producers, consumers, spurious wake-ups and shutdowns:
  capacity, conservation of commands, counters, no lost wake-up; the order in which commands leave it, and
  what shutdown does. The locale \<open>heap_pick\<close> is the contract of \<^verbatim>\<open>BinaryHeap::pop\<close>.
\<close>

section \<open>The contract of the heap\<close>

locale heap_pick =
  fixes pick :: "('c::preorder) list \<Rightarrow> nat"
  assumes inside: "h \<noteq> [] \<Longrightarrow> pick h < length h"
    and maximal: "h \<noteq> [] \<Longrightarrow> d \<in> set h \<Longrightarrow> \<not> h ! pick h < d"
begin

lemma pop_Some:
  assumes "heap_pop pick h = Some (c, h')"
  shows "mset h = add_mset c (mset h')" "d \<in> set h \<Longrightarrow> \<not> c < d" "length h = Suc (length h')"
proof -
  have c: "h \<noteq> []" "c = h ! pick h" "h' = take (pick h) h @ drop (Suc (pick h)) h"
    using assms by (auto simp: heap_pop_def split: if_splits)
  have "h = take (pick h) h @ h ! pick h # drop (Suc (pick h)) h"
    using id_take_nth_drop [OF inside [OF c(1)]] .
  from arg_cong [OF this, of mset] show m: "mset h = add_mset c (mset h')"
    using c by simp
  show "length h = Suc (length h')" using arg_cong [OF m, of size] by simp
  show "d \<in> set h \<Longrightarrow> \<not> c < d" using maximal c by simp
qed

lemma pop_None: "heap_pop pick h = None \<longleftrightarrow> h = []"
  by (simp add: heap_pop_def)

end

fun max_index :: "('c::preorder) list \<Rightarrow> nat" where
  "max_index [] = 0"
| "max_index [x] = 0"
| "max_index (x # y # xs) = (if x < (y # xs) ! max_index (y # xs) then Suc (max_index (y # xs)) else 0)"

lemma max_index_inside: "h \<noteq> [] \<Longrightarrow> max_index h < length h"
  by (induction h rule: max_index.induct) auto

lemma max_index_maximal:
  assumes tot: "\<And>a b :: 'c::preorder. a \<le> b \<or> b \<le> a"
  shows "d \<in> set h \<Longrightarrow> \<not> h ! max_index h < (d :: 'c)"
proof (induction h arbitrary: d rule: max_index.induct)
  case (3 x y xs)
  have less: "a < b \<longleftrightarrow> \<not> b \<le> a" for a b :: 'c
    using tot [of a b] by (auto simp: less_le_not_le)
  let ?m = "(y # xs) ! max_index (y # xs)"
  have m: "d \<in> set (y # xs) \<Longrightarrow> d \<le> ?m" for d using "3.IH" [of d] by (simp add: less)
  have "y \<in> set (y # xs)" by simp
  show ?case
  proof (cases "x < ?m")
    case True
    then have "x \<le> ?m" by (rule less_imp_le)
    then show ?thesis using True m "3.prems" by (auto simp: less)
  next
    case False
    then have "?m \<le> x" by (simp add: less)
    then show ?thesis using False m "3.prems" by (auto simp: less intro: order_trans)
  qed
qed auto

lemma command_total: "(a :: command) \<le> b \<or> b \<le> a"
  by (auto simp: command_le)

lemma command1_total: "(a :: command1) \<le> b \<or> b \<le> a"
  by (auto simp: command1_le)

interpretation heap: heap_pick "max_index :: command list \<Rightarrow> nat"
  by unfold_locales (simp_all add: max_index_inside max_index_maximal command_total)

interpretation heap1: heap_pick "max_index :: command1 list \<Rightarrow> nat"
  by unfold_locales (simp_all add: max_index_inside max_index_maximal command1_total)

section \<open>The order of commands\<close>

lemma command_cmp_order:
  "command_cmp a b = Less \<longleftrightarrow> a < b" "command_cmp a b = Greater \<longleftrightarrow> b < a"
  "command_cmp a b = Equal \<longleftrightarrow> command_eq a b"
  by (auto simp: command_cmp_def cmp_of_def command_eq_def less_command_ext_def command_le
      split: if_splits)

lemma less_command_iff:
  "(a :: command) < b \<longleftrightarrow> cmd_priority a < cmd_priority b \<or>
     cmd_priority a = cmd_priority b \<and> cmd_issued_at b < cmd_issued_at a"
  by (auto simp: less_command_ext_def command_le)

lemma eq_f32_equivalence:
  "eq_f32 x x" "eq_f32 x y \<Longrightarrow> eq_f32 y x" "eq_f32 x y \<Longrightarrow> eq_f32 y z \<Longrightarrow> eq_f32 x z"
  by (auto simp: eq_f32_def f32_eq_def)

text \<open>In part2 the order looks at the priority alone while equality compares the payload too.\<close>

lemma command1_order_coarser:
  "\<exists>a b. command1_cmp a b = Equal \<and> a \<noteq> b"
  by (intro exI [of _ "\<lparr>c1_priority = 1, c1_payload = ''a''\<rparr>"] exI [of _ "\<lparr>c1_priority = 1, c1_payload = ''b''\<rparr>"])
     (simp add: command1_cmp_def cmp_of_def)

section \<open>One turn\<close>

lemma queue_push_cases:
  obtains "q_shutdown q" "queue_push cmd q = Some (Inl QueueShutdown, q)"
  | q' where "\<not> q_shutdown q" "length (q_heap q) < q_capacity q" "queue_push cmd q = Some (Inr (), q')"
      "q_heap q' = q_heap q @ [cmd]" "q_capacity q' = q_capacity q" "\<not> q_shutdown q'"
      "commands_pushed (q_metrics q') = commands_pushed (q_metrics q) + 1"
      "commands_dispatched (q_metrics q') = commands_dispatched (q_metrics q)"
      "safe_mode_count (q_metrics q') = safe_mode_count (q_metrics q) + (if cmd_kind cmd = SafeMode then 1 else 0)"
  | "\<not> q_shutdown q" "q_capacity q \<le> length (q_heap q)" "queue_push cmd q = None"
proof (cases "q_shutdown q")
  case True
  then show thesis using that(1) by (simp add: queue_push_def)
next
  case False
  let ?m = "increment_push (q_metrics q)"
  let ?q = "q\<lparr>q_heap := q_heap q @ [cmd],
    q_metrics := (if cmd_kind cmd = SafeMode then increment_safe_mode_count ?m else ?m)\<rparr>"
  show thesis
  proof (cases "is_not_full q")
    case True
    show thesis
      by (rule that(2) [of ?q])
         (use True False in \<open>simp_all add: queue_push_def is_not_full_def increment_push_def increment_safe_mode_count_def\<close>)
  next
    case notroom: False
    show thesis by (rule that(3)) (use False notroom in \<open>simp_all add: queue_push_def is_not_full_def\<close>)
  qed
qed

lemma queue_pop_cases:
  assumes "heap_pick pick"
  obtains c q' where "queue_pop pick q = Some (Inr c, q')" "mset (q_heap q) = add_mset c (mset (q_heap q'))"
      "length (q_heap q) = Suc (length (q_heap q'))" "\<And>d. d \<in> set (q_heap q) \<Longrightarrow> \<not> c < d"
      "q_capacity q' = q_capacity q" "q_shutdown q' = q_shutdown q"
      "q_metrics q' = increment_dispatch (q_metrics q)"
  | "q_heap q = []" "q_shutdown q" "queue_pop pick q = Some (Inl QueueShutdown, q)"
  | "q_heap q = []" "\<not> q_shutdown q" "queue_pop pick q = None"
proof (cases "heap_pop pick (q_heap q)")
  case None
  then have "q_heap q = []" by (simp add: heap_pick.pop_None [OF assms])
  then show thesis using that(2,3) None by (cases "q_shutdown q") (simp_all add: queue_pop_def)
next
  case (Some r)
  then obtain c h where h: "heap_pop pick (q_heap q) = Some (c, h)" by (cases r) auto
  show thesis
  proof (rule that(1) [of c "q\<lparr>q_heap := h, q_metrics := increment_dispatch (q_metrics q)\<rparr>"])
    show "\<not> c < d" if "d \<in> set (q_heap q)" for d using heap_pick.pop_Some(2) [OF assms h that] .
  qed (use h heap_pick.pop_Some(1,3) [OF assms h] in \<open>simp_all add: queue_pop_def\<close>)
qed

section \<open>The system invariant\<close>

definition qs_inv :: "nat \<Rightarrow> qsys \<Rightarrow> bool" where
  "qs_inv capacity s \<longleftrightarrow> (let q = qs_queue s in
     q_capacity q = capacity \<and> length (q_heap q) \<le> capacity \<and>
     mset (qs_accepted s) = mset (qs_taken s) + mset (q_heap q) \<and>
     commands_pushed (q_metrics q) = of_nat (length (qs_accepted s)) \<and>
     commands_dispatched (q_metrics q) = of_nat (length (qs_taken s)) \<and>
     safe_mode_count (q_metrics q) = of_nat (length (filter (\<lambda>c. cmd_kind c = SafeMode) (qs_accepted s))) \<and>
     (qs_waiting_push s \<noteq> [] \<longrightarrow> \<not> q_shutdown q \<and> capacity \<le> length (q_heap q) + length (qs_ready_push s)) \<and>
     (0 < qs_waiting_pop s \<longrightarrow> \<not> q_shutdown q \<and> length (q_heap q) \<le> qs_ready_pop s))"

lemma notify_consumer_inv:
  assumes "qs_inv capacity (s\<lparr>qs_ready_pop := qs_ready_pop s + 1\<rparr>)"
  shows "qs_inv capacity (notify_consumer s)"
  using assms by (auto simp: qs_inv_def notify_consumer_def Let_def)

lemma notify_producer_inv:
  assumes "qs_inv capacity (s\<lparr>qs_ready_push := qs_ready_push s @ [c]\<rparr>)"
  shows "qs_inv capacity (notify_producer i s)"
  using assms by (auto simp: qs_inv_def notify_producer_def Let_def)

lemma push_turn_inv: "qs_inv capacity s \<Longrightarrow> qs_inv capacity (push_turn cmd s)"
proof (cases rule: queue_push_cases [of "qs_queue s" cmd])
  case 1
  assume "qs_inv capacity s"
  then show ?thesis using 1 by (simp add: push_turn_def qs_inv_def Let_def)
next
  case (2 q')
  assume inv: "qs_inv capacity s"
  let ?s = "s\<lparr>qs_queue := q', qs_accepted := qs_accepted s @ [cmd]\<rparr>"
  have "qs_inv capacity (?s\<lparr>qs_ready_pop := qs_ready_pop ?s + 1\<rparr>)"
    using inv 2 by (auto simp: qs_inv_def Let_def)
  then show ?thesis using 2(3) by (simp add: push_turn_def notify_consumer_inv)
next
  case 3
  assume "qs_inv capacity s"
  then show ?thesis using 3 by (auto simp: push_turn_def qs_inv_def Let_def)
qed

lemma pop_turn_inv:
  assumes "heap_pick pick"
  shows "qs_inv capacity s \<Longrightarrow> qs_inv capacity (pop_turn pick i s)"
proof (cases rule: queue_pop_cases [OF assms, of "qs_queue s"])
  case (1 c q')
  assume inv: "qs_inv capacity s"
  let ?s = "s\<lparr>qs_queue := q', qs_taken := qs_taken s @ [c]\<rparr>"
  have "qs_inv capacity (?s\<lparr>qs_ready_push := qs_ready_push ?s @ [c]\<rparr>)"
    using inv 1(2,3,5,6,7) by (auto simp: qs_inv_def Let_def increment_dispatch_def)
  then show ?thesis using 1(1) by (simp add: pop_turn_def notify_producer_inv)
next
  case 2
  assume "qs_inv capacity s"
  then show ?thesis using 2 by (simp add: pop_turn_def qs_inv_def Let_def)
next
  case 3
  assume "qs_inv capacity s"
  then show ?thesis using 3 by (auto simp: pop_turn_def qs_inv_def Let_def)
qed

text \<open>A woken thread that leaves the ready list runs its turn at once: it meets room, or finds none and waits
  again. The invariant is stated for the state without it, where only its own condition is weaker.\<close>

lemma push_again_inv:
  assumes inv: "qs_inv capacity s" and l: "length (qs_ready_push s) = Suc (length rest)"
  shows "qs_inv capacity (push_turn cmd (s\<lparr>qs_ready_push := rest\<rparr>))"
proof (cases rule: queue_push_cases [of "qs_queue s" cmd])
  case 1
  then show ?thesis using inv by (simp add: push_turn_def qs_inv_def Let_def)
next
  case (2 q')
  let ?t = "s\<lparr>qs_ready_push := rest, qs_queue := q', qs_accepted := qs_accepted s @ [cmd]\<rparr>"
  have "qs_inv capacity (?t\<lparr>qs_ready_pop := qs_ready_pop ?t + 1\<rparr>)"
    using inv 2 l by (auto simp: qs_inv_def Let_def)
  then show ?thesis using 2(3) by (simp add: push_turn_def notify_consumer_inv)
next
  case 3
  then show ?thesis using inv by (auto simp: push_turn_def qs_inv_def Let_def)
qed

lemma pop_again_inv:
  assumes pick: "heap_pick pick" and inv: "qs_inv capacity s" and r: "0 < qs_ready_pop s"
  shows "qs_inv capacity (pop_turn pick i (s\<lparr>qs_ready_pop := qs_ready_pop s - 1\<rparr>))"
proof -
  let ?s = "s\<lparr>qs_ready_pop := qs_ready_pop s - 1\<rparr>"
  show ?thesis
  proof (cases rule: queue_pop_cases [OF pick, of "qs_queue s"])
    case (1 c q')
    let ?t = "?s\<lparr>qs_queue := q', qs_taken := qs_taken s @ [c]\<rparr>"
    have "qs_inv capacity (?t\<lparr>qs_ready_push := qs_ready_push ?t @ [c]\<rparr>)"
      using inv 1(2,3,5,6,7) r by (auto simp: qs_inv_def Let_def increment_dispatch_def)
    then show ?thesis using 1(1) by (simp add: pop_turn_def notify_producer_inv)
  next
    case 2
    then show ?thesis using inv by (simp add: pop_turn_def qs_inv_def Let_def)
  next
    case 3
    then show ?thesis using inv by (auto simp: pop_turn_def qs_inv_def Let_def)
  qed
qed

lemma queue_event_step_inv:
  assumes "heap_pick pick" "qs_inv capacity s"
  shows "qs_inv capacity (queue_event_step pick ev s)"
proof (cases ev)
  case (Push cmd)
  then show ?thesis using push_turn_inv assms(2) by simp
next
  case (PushAgain i)
  show ?thesis
  proof (cases "i < length (qs_ready_push s)")
    case True
    then have "length (qs_ready_push s) = Suc (length (take i (qs_ready_push s) @ drop (Suc i) (qs_ready_push s)))"
      by simp
    from push_again_inv [OF assms(2) this] show ?thesis using PushAgain True by simp
  next
    case False
    then show ?thesis using PushAgain assms(2) by simp
  qed
next
  case (SpuriousPush i)
  have "qs_inv capacity (s\<lparr>qs_ready_push := qs_ready_push s @ [undefined]\<rparr>)"
    using assms(2) by (auto simp: qs_inv_def Let_def)
  then show ?thesis using SpuriousPush by (simp add: notify_producer_inv)
next
  case (Pop i)
  then show ?thesis using pop_turn_inv assms by simp
next
  case (PopAgain i)
  then show ?thesis using pop_again_inv assms by simp
next
  case SpuriousPop
  have "qs_inv capacity (s\<lparr>qs_ready_pop := qs_ready_pop s + 1\<rparr>)"
    using assms(2) by (auto simp: qs_inv_def Let_def)
  then show ?thesis using SpuriousPop by (simp add: notify_consumer_inv)
next
  case Shutdown
  then show ?thesis using assms(2)
    by (simp add: shutdown_turn_def queue_shutdown_def qs_inv_def Let_def)
qed

lemma queue_run_inv:
  "heap_pick pick \<Longrightarrow> qs_inv capacity s \<Longrightarrow> qs_inv capacity (queue_run pick evs s)"
  by (induction evs arbitrary: s) (simp_all add: queue_event_step_inv)

lemma qs_inv_new: "qs_inv capacity (qsys_new capacity)"
  by (simp add: qs_inv_def qsys_new_def queue_new_def metrics_new_def)

text \<open>C28: under every schedule of callers, spurious wake-ups and shutdowns, and whichever maximal element the
  heap returns, the queue never holds more than its capacity, every accepted command is taken once or still
  queued, and the counters are exact modulo 2^64. No wake-up is lost: a producer that still waits while there
  is room, or a consumer that still waits while there is a command, has a woken one ahead of it that will
  run; after a shutdown nobody waits.\<close>
theorem command_queue_safe:
  fixes pick :: "command list \<Rightarrow> nat" and capacity :: nat and evs :: "queue_event list"
  assumes "heap_pick pick"
  defines "s \<equiv> queue_run pick evs (qsys_new capacity)"
  shows "length (q_heap (qs_queue s)) \<le> capacity \<and>
    mset (qs_accepted s) = mset (qs_taken s) + mset (q_heap (qs_queue s)) \<and>
    commands_pushed (q_metrics (qs_queue s)) = of_nat (length (qs_accepted s)) \<and>
    commands_dispatched (q_metrics (qs_queue s)) = of_nat (length (qs_taken s)) \<and>
    safe_mode_count (q_metrics (qs_queue s)) = of_nat (length (filter (\<lambda>c. cmd_kind c = SafeMode) (qs_accepted s))) \<and>
    (qs_waiting_push s \<noteq> [] \<and> is_not_full (qs_queue s) \<longrightarrow> qs_ready_push s \<noteq> []) \<and>
    (0 < qs_waiting_pop s \<and> q_heap (qs_queue s) \<noteq> [] \<longrightarrow> 0 < qs_ready_pop s) \<and>
    (q_shutdown (qs_queue s) \<longrightarrow> qs_waiting_push s = [] \<and> qs_waiting_pop s = 0)"
proof -
  have "qs_inv capacity s" unfolding s_def using queue_run_inv [OF assms(1) qs_inv_new] .
  moreover have "q_heap (qs_queue s) \<noteq> [] \<Longrightarrow> length (q_heap (qs_queue s)) \<le> n \<Longrightarrow> 0 < n" for n
    by (cases "q_heap (qs_queue s)") auto
  ultimately show ?thesis by (auto simp: qs_inv_def Let_def is_not_full_def)
qed

text \<open>The witness: a queue of one slot, a blocked producer, and a pop that wakes it.\<close>

theorem command_queue_safe_witness:
  "let s = queue_run max_index [Push (command_new 1 AbortPass), Push (command_new 2 SafeMode), Pop 0] (qsys_new 1)
   in qs_ready_push s = [command_new 2 SafeMode] \<and> length (q_heap (qs_queue s)) \<le> 1"
  using command_queue_safe [OF heap.heap_pick_axioms,
      of "[Push (command_new 1 AbortPass), Push (command_new 2 SafeMode), Pop 0]" 1]
  by (simp add: Let_def qsys_new_def queue_new_def push_turn_def pop_turn_def queue_push_def queue_pop_def heap_pop_def
      is_not_full_def notify_consumer_def notify_producer_def)

section \<open>The order of departure\<close>

fun pop_n :: "(command list \<Rightarrow> nat) \<Rightarrow> nat \<Rightarrow> queue \<Rightarrow> (command list \<times> queue) option" where
  "pop_n pick 0 q = Some ([], q)"
| "pop_n pick (Suc n) q = (case queue_pop pick q of
      Some (Inr c, q) \<Rightarrow> map_option (\<lambda>(cs, q). (c # cs, q)) (pop_n pick n q)
    | _ \<Rightarrow> None)"

lemma pop_n_ordered:
  assumes pick: "heap_pick pick"
  shows "length (q_heap q) = n \<Longrightarrow> \<exists>cs q'. pop_n pick n q = Some (cs, q') \<and> mset cs = mset (q_heap q) \<and>
    sorted_wrt (\<lambda>a b. \<not> a < b) cs \<and> q_heap q' = [] \<and> q_shutdown q' = q_shutdown q"
proof (induction n arbitrary: q)
  case 0
  then show ?case by simp
next
  case (Suc n)
  show ?case
  proof (cases rule: queue_pop_cases [OF pick, of q])
    case (1 c q1)
    have "length (q_heap q1) = n" using 1(3) Suc.prems by simp
    from Suc.IH [OF this] obtain cs q' where cs: "pop_n pick n q1 = Some (cs, q')"
      "mset cs = mset (q_heap q1)" "sorted_wrt (\<lambda>a b. \<not> a < b) cs" "q_heap q' = []"
      "q_shutdown q' = q_shutdown q1" by blast
    have "set cs \<subseteq> set (q_heap q)" using cs(2) 1(2) by (metis insert_subset set_mset_add_mset_insert set_mset_mset subset_insertI)
    then have "\<forall>d \<in> set cs. \<not> c < d" using 1(4) by blast
    then show ?thesis using 1(1,2,6) cs by (intro exI [of _ "c # cs"] exI [of _ q']) simp
  qed (use Suc.prems in simp_all)
qed

lemma kind_priority_safe: "kind_priority k = 255 \<longleftrightarrow> k = SafeMode"
  by (cases k) simp_all

text \<open>C29: popping a queue until it is empty returns all its commands, those of higher priority first and the
  older first within a priority; commands made by \<^verbatim>\<open>Command::new\<close> leave with every \<^verbatim>\<open>SafeMode\<close> before all
  others. Then \<^verbatim>\<open>pop\<close> reports the shutdown if there was one and waits otherwise. A queue that was shut down
  refuses every push but can be emptied.\<close>
theorem queue_drains_in_order:
  assumes "heap_pick pick"
  shows "\<exists>cs q'. pop_n pick (length (q_heap q)) q = Some (cs, q') \<and> mset cs = mset (q_heap q) \<and>
    sorted_wrt (\<lambda>a b. cmd_priority b < cmd_priority a \<or>
      cmd_priority b = cmd_priority a \<and> cmd_issued_at a \<le> cmd_issued_at b) cs \<and>
    ((\<forall>c \<in> set (q_heap q). cmd_priority c = kind_priority (cmd_kind c)) \<longrightarrow>
      sorted_wrt (\<lambda>a b. cmd_kind b = SafeMode \<longrightarrow> cmd_kind a = SafeMode) cs) \<and>
    queue_pop pick q' = (if q_shutdown q then Some (Inl QueueShutdown, q') else None) \<and>
    (q_shutdown q \<longrightarrow> queue_push cmd q = Some (Inl QueueShutdown, q))"
proof -
  obtain cs q' where cs: "pop_n pick (length (q_heap q)) q = Some (cs, q')" "mset cs = mset (q_heap q)"
    "sorted_wrt (\<lambda>a b. \<not> a < b) cs" "q_heap q' = []" "q_shutdown q' = q_shutdown q"
    using pop_n_ordered [OF assms refl] by blast
  have eq: "\<not> a < b \<longleftrightarrow> cmd_priority b < cmd_priority a \<or>
      cmd_priority b = cmd_priority a \<and> cmd_issued_at a \<le> cmd_issued_at b" for a b :: command
    by (auto simp: less_command_iff not_less)
  have "sorted_wrt (\<lambda>a b. cmd_kind b = SafeMode \<longrightarrow> cmd_kind a = SafeMode) cs"
    if k: "\<forall>c \<in> set (q_heap q). cmd_priority c = kind_priority (cmd_kind c)"
  proof (rule sorted_wrt_mono_rel [OF _ cs(3)])
    fix a b
    assume ab: "a \<in> set cs" "b \<in> set cs" "\<not> a < b"
    have "cmd_priority c = kind_priority (cmd_kind c)" if "c \<in> set cs" for c
      using k cs(2) that by (metis set_mset_mset)
    then have p: "cmd_priority a = kind_priority (cmd_kind a)" "cmd_priority b = kind_priority (cmd_kind b)"
      using ab by auto
    have "w = 255" if "(255 :: u8) \<le> w" for w
      using that unat_u8_less [of w] by (simp add: word_le_nat_alt word_unat_eq_iff del: unat_u8_less)
    then show "cmd_kind b = SafeMode \<longrightarrow> cmd_kind a = SafeMode"
      using ab(3) p by (auto simp: eq kind_priority_safe [symmetric])
  qed
  moreover have "queue_pop pick q' = (if q_shutdown q then Some (Inl QueueShutdown, q') else None)"
    using cs(4,5) by (simp add: queue_pop_def heap_pop_def)
  moreover have "q_shutdown q \<longrightarrow> queue_push cmd q = Some (Inl QueueShutdown, q)" by (simp add: queue_push_def)
  ultimately show ?thesis using cs(1,2,3) unfolding eq by blast
qed

theorem queue_drains_in_order_witness:
  "\<exists>cs q'. pop_n max_index 2 (\<lparr>q_heap = [command_new 1 Housekeeping, command_new 2 SafeMode], q_capacity = 4,
     q_shutdown = True, q_metrics = metrics_new\<rparr>) = Some (cs, q') \<and> queue_pop max_index q' = Some (Inl QueueShutdown, q')"
proof -
  let ?q = "\<lparr>q_heap = [command_new 1 Housekeeping, command_new 2 SafeMode], q_capacity = 4, q_shutdown = True,
    q_metrics = metrics_new\<rparr>"
  obtain cs q' where "pop_n max_index (length (q_heap ?q)) ?q = Some (cs, q')"
    "queue_pop max_index q' = (if q_shutdown ?q then Some (Inl QueueShutdown, q') else None)"
    using queue_drains_in_order [OF heap.heap_pick_axioms, of ?q] by blast
  moreover have "length (q_heap ?q) = 2" "q_shutdown ?q" by simp_all
  ultimately show ?thesis by metis
qed

end
