(* ===== verification/Expiring_Db.thy ===== *)
theory Expiring_Db imports Prelude "HOL-Library.Product_Lexorder" "HOL-Library.List_Lexorder" "HOL-Library.Char_ord" begin

text \<open>
  \<^verbatim>\<open>module3/db.rs\<close>: the key-value store with expiring entries and its background purge task. A
  \<^verbatim>\<open>BTreeSet\<close> is the ordered list of its elements, an \<^verbatim>\<open>Instant\<close> a natural number. The part under the mutex
  is one step; the notification a \<^verbatim>\<open>set\<close> or a shutdown sends comes later, as its own step. \<^verbatim>\<open>Notify\<close> of the
  crate \<^verbatim>\<open>tokio\<close> keeps at most one permit, which the next \<^verbatim>\<open>notified\<close> consumes.
\<close>

section \<open>State\<close>

record entry =
  en_data :: bytes
  en_expires_at :: "nat option"

record db =
  db_entries :: "string \<Rightarrow> entry option"
  db_expirations :: "(nat \<times> string) list"
  db_shutdown :: bool

definition db_new :: db where
  "db_new = \<lparr>db_entries = (\<lambda>_. None), db_expirations = [], db_shutdown = False\<rparr>"

definition db_get :: "string \<Rightarrow> db \<Rightarrow> bytes option" where
  "db_get key d = map_option en_data (db_entries d key)"

definition next_expiration :: "db \<Rightarrow> nat option" where
  "next_expiration d = (case db_expirations d of [] \<Rightarrow> None | x # _ \<Rightarrow> Some (fst x))"

text \<open>The result of \<^verbatim>\<open>set\<close> says whether it notifies the task after it released the mutex.\<close>

definition db_set :: "nat \<Rightarrow> string \<Rightarrow> bytes \<Rightarrow> nat option \<Rightarrow> db \<Rightarrow> bool \<times> db" where
  "db_set now key val expire d =
     (let expires_at = map_option (\<lambda>dur. now + dur) expire;
          notify = (case expires_at of
              None \<Rightarrow> False
            | Some when \<Rightarrow> (case next_expiration d of None \<Rightarrow> True | Some e \<Rightarrow> e > when));
          prev = db_entries d key;
          d = d\<lparr>db_entries := (db_entries d)(key \<mapsto> \<lparr>en_data = val, en_expires_at = expires_at\<rparr>)\<rparr>;
          d = (case prev of
              Some p \<Rightarrow> (case en_expires_at p of
                  Some when \<Rightarrow> d\<lparr>db_expirations := remove1 (when, key) (db_expirations d)\<rparr> | None \<Rightarrow> d)
            | None \<Rightarrow> d);
          d = (case expires_at of
              Some when \<Rightarrow> d\<lparr>db_expirations := List.insort_insert (when, key) (db_expirations d)\<rparr> | None \<Rightarrow> d)
      in (notify, d))"

section \<open>Purging\<close>

fun purge_loop ::
    "nat \<Rightarrow> (nat \<times> string) list \<Rightarrow> (string \<Rightarrow> entry option) \<Rightarrow>
     nat option \<times> (nat \<times> string) list \<times> (string \<Rightarrow> entry option)" where
  "purge_loop now [] entries = (None, [], entries)"
| "purge_loop now ((when, key) # rest) entries =
     (if when > now then (Some when, (when, key) # rest, entries)
      else purge_loop now rest (entries(key := None)))"

definition purge_expired_keys :: "nat \<Rightarrow> db \<Rightarrow> nat option \<times> db" where
  "purge_expired_keys now d =
     (if db_shutdown d then (None, d)
      else (let (r, ex, en) = purge_loop now (db_expirations d) (db_entries d)
            in (r, d\<lparr>db_expirations := ex, db_entries := en\<rparr>)))"

section \<open>The background task\<close>

datatype purge_task = Checking | Purging | Sleeping nat | Waiting | Ended

text \<open>\<open>pending\<close> counts the calls of \<^verbatim>\<open>notify_one\<close> still to be made.\<close>

record db_sys =
  sys_db :: db
  sys_clock :: nat
  sys_task :: purge_task
  sys_permit :: bool
  sys_pending :: nat

definition db_sys_new :: db_sys where
  "db_sys_new = \<lparr>sys_db = db_new, sys_clock = 0, sys_task = Checking, sys_permit = False, sys_pending = 0\<rparr>"

datatype db_event =
    Set string bytes "nat option"
  | NotifyOne
  | Elapse nat
  | TaskTurn bool
  | ShutdownFlag

text \<open>A turn of the task: the test of the loop, the purge, or the end of a wait. A sleep ends with its
  deadline or with a permit, a wait only with a permit. When both are ready, \<^verbatim>\<open>select!\<close> takes either: the
  argument says whether it looks at the permit first.\<close>

definition task_turn :: "bool \<Rightarrow> db_sys \<Rightarrow> db_sys" where
  "task_turn permit_first s = (case sys_task s of
      Checking \<Rightarrow> s\<lparr>sys_task := (if db_shutdown (sys_db s) then Ended else Purging)\<rparr>
    | Purging \<Rightarrow>
        (let (r, d) = purge_expired_keys (sys_clock s) (sys_db s)
         in s\<lparr>sys_db := d, sys_task := (case r of Some when \<Rightarrow> Sleeping when | None \<Rightarrow> Waiting)\<rparr>)
    | Sleeping when \<Rightarrow>
        (if when \<le> sys_clock s \<and> \<not> (permit_first \<and> sys_permit s) then s\<lparr>sys_task := Checking\<rparr>
         else if sys_permit s then s\<lparr>sys_task := Checking, sys_permit := False\<rparr> else s)
    | Waiting \<Rightarrow> (if sys_permit s then s\<lparr>sys_task := Checking, sys_permit := False\<rparr> else s)
    | Ended \<Rightarrow> s)"

fun db_step :: "db_event \<Rightarrow> db_sys \<Rightarrow> db_sys" where
  "db_step (Set key val expire) s =
     (let (notify, d) = db_set (sys_clock s) key val expire (sys_db s)
      in s\<lparr>sys_db := d, sys_pending := (if notify then sys_pending s + 1 else sys_pending s)\<rparr>)"
| "db_step NotifyOne s =
     (if 0 < sys_pending s then s\<lparr>sys_pending := sys_pending s - 1, sys_permit := True\<rparr> else s)"
| "db_step (Elapse n) s = s\<lparr>sys_clock := sys_clock s + n\<rparr>"
| "db_step (TaskTurn b) s = task_turn b s"
| "db_step ShutdownFlag s =
     s\<lparr>sys_db := (sys_db s)\<lparr>db_shutdown := True\<rparr>, sys_pending := sys_pending s + 1\<rparr>"

fun db_run :: "db_event list \<Rightarrow> db_sys \<Rightarrow> db_sys" where
  "db_run [] s = s"
| "db_run (ev # evs) s = db_run evs (db_step ev s)"

section \<open>The index of expirations\<close>

definition db_inv :: "db \<Rightarrow> bool" where
  "db_inv d \<longleftrightarrow> sorted (db_expirations d) \<and> distinct (db_expirations d) \<and>
     set (db_expirations d) = {(t, k). \<exists>e. db_entries d k = Some e \<and> en_expires_at e = Some t}"

lemma db_inv_iff:
  "db_inv d \<Longrightarrow> (t, k) \<in> set (db_expirations d) \<longleftrightarrow> (\<exists>e. db_entries d k = Some e \<and> en_expires_at e = Some t)"
  by (simp add: db_inv_def)

lemma db_set_inv:
  assumes "db_inv d" "db_set now key val expire d = (notify, d')"
  shows "db_inv d'"
proof -
  let ?ex = "case db_entries d key of Some p \<Rightarrow> (case en_expires_at p of
      Some when \<Rightarrow> remove1 (when, key) (db_expirations d) | None \<Rightarrow> db_expirations d) | None \<Rightarrow> db_expirations d"
  let ?ex' = "case expire of Some dur \<Rightarrow> List.insort_insert (now + dur, key) ?ex | None \<Rightarrow> ?ex"
  have d': "db_expirations d' = ?ex'"
    "db_entries d' = (db_entries d)(key \<mapsto> \<lparr>en_data = val, en_expires_at = map_option (\<lambda>dur. now + dur) expire\<rparr>)"
    using assms(2) by (auto simp: db_set_def Let_def split: option.splits)
  have s: "sorted (db_expirations d)" "distinct (db_expirations d)" using assms(1) by (simp_all add: db_inv_def)
  have ex: "sorted ?ex" "distinct ?ex" using s by (auto split: option.splits intro: sorted_remove1)
  have "set ?ex = {(t, k). k \<noteq> key \<and> (\<exists>e. db_entries d k = Some e \<and> en_expires_at e = Some t)}"
    using db_inv_iff [OF assms(1)] s by (auto split: option.splits)
  then have "set ?ex' = {(t, k). \<exists>e. db_entries d' k = Some e \<and> en_expires_at e = Some t}"
    unfolding d' by (auto simp: set_insort_insert split: option.splits if_splits)
  moreover have "sorted ?ex'" "distinct ?ex'" using ex
    by (auto simp: sorted_insort_insert distinct_insort_insert split: option.splits)
  ultimately show ?thesis by (simp add: db_inv_def d'(1))
qed

end
