(* ===== verification/Expiring_Db_Correct.thy ===== *)
theory Expiring_Db_Correct imports Expiring_Db begin

text \<open>
  What the background task of \<^verbatim>\<open>Expiring_Db\<close> achieves: a purge removes exactly the expired entries, and no
  interleaving of \<^verbatim>\<open>set\<close>, notifications and shutdown leaves the task asleep past an expiration.
\<close>

section \<open>One purge\<close>

definition expired :: "nat \<Rightarrow> entry \<Rightarrow> bool" where
  "expired now e \<longleftrightarrow> (\<exists>t. en_expires_at e = Some t \<and> t \<le> now)"

text \<open>The entries that are left when everything expired is gone.\<close>

definition live :: "nat \<Rightarrow> (string \<Rightarrow> entry option) \<Rightarrow> string \<Rightarrow> entry option" where
  "live now entries k = (case entries k of Some e \<Rightarrow> if expired now e then None else Some e | None \<Rightarrow> None)"

lemma live_live [simp]: "live now (live now en) = live now en"
  by (auto simp: live_def split: option.splits)

lemma purge_loop_spec:
  assumes "purge_loop now ex en = (r, ex', en')" "sorted ex"
  shows "ex' = filter (\<lambda>x. now < fst x) ex \<and>
    r = (case ex' of [] \<Rightarrow> None | x # _ \<Rightarrow> Some (fst x)) \<and>
    (\<forall>k. en' k = (if \<exists>t. (t, k) \<in> set ex \<and> t \<le> now then None else en k))"
  using assms
proof (induction now ex en rule: purge_loop.induct)
  case (2 now w key rest entries)
  show ?case
  proof (cases "now < w")
    case True
    have later: "now < t" if "(t, k) \<in> set rest" for t k
      using that "2.prems"(2) True by (fastforce simp: less_eq_prod_def)
    then have "filter (\<lambda>x. now < fst x) rest = rest" by (auto simp: filter_id_conv)
    with True later "2.prems"(1) show ?thesis by (auto simp: not_le dest!: leD)
  next
    case False
    with "2.prems" have "purge_loop now rest (entries(key := None)) = (r, ex', en')" "sorted rest" by simp_all
    from "2.IH" [OF False this] False show ?thesis by (auto simp: not_less)
  qed
qed auto

lemma purge_expired_keys_spec:
  assumes "db_inv d" "purge_expired_keys now d = (r, d')" "\<not> db_shutdown d"
  shows "db_inv d' \<and> db_entries d' = live now (db_entries d) \<and> \<not> db_shutdown d' \<and>
    r = next_expiration d' \<and> (\<forall>x\<in>set (db_expirations d'). now < fst x)"
proof -
  obtain ex en where p: "purge_loop now (db_expirations d) (db_entries d) = (r, ex, en)"
    and d': "d' = d\<lparr>db_expirations := ex, db_entries := en\<rparr>"
    using assms(2,3) by (auto simp: purge_expired_keys_def split: prod.splits)
  have s: "sorted (db_expirations d)" "distinct (db_expirations d)" using assms(1) by (simp_all add: db_inv_def)
  note spec = purge_loop_spec [OF p s(1)]
  have only: "t' = t" if "(t, k) \<in> set (db_expirations d)" "(t', k) \<in> set (db_expirations d)" for t t' k
    using that by (auto simp: db_inv_iff [OF assms(1)])
  have en: "en = live now (db_entries d)"
    using spec by (auto simp: fun_eq_iff live_def expired_def db_inv_iff [OF assms(1)] split: option.splits)
  have "(t, k) \<in> set ex \<longleftrightarrow> (\<exists>e. en k = Some e \<and> en_expires_at e = Some t)" for t k
    using conjunct1 [OF spec] db_inv_iff [OF assms(1), of t k]
    by (auto simp: en live_def expired_def split: option.splits if_splits)
  then have "set ex = {(t, k). \<exists>e. en k = Some e \<and> en_expires_at e = Some t}" by auto
  moreover have "sorted ex" "distinct ex" using spec s by (simp_all add: sorted_wrt_filter)
  moreover have "\<forall>x\<in>set ex. now < fst x" using spec by simp
  moreover have "r = (case ex of [] \<Rightarrow> None | x # _ \<Rightarrow> Some (fst x))" using spec by blast
  ultimately show ?thesis using en assms(3) by (simp add: d' db_inv_def next_expiration_def)
qed

section \<open>Reachable states\<close>

text \<open>\<open>woken\<close>: a permit is there, or a call of \<^verbatim>\<open>notify_one\<close> is still to come.\<close>

definition woken :: "db_sys \<Rightarrow> bool" where
  "woken s \<longleftrightarrow> sys_permit s \<or> 0 < sys_pending s"

definition sys_inv :: "db_sys \<Rightarrow> bool" where
  "sys_inv s \<longleftrightarrow> db_inv (sys_db s) \<and>
     (\<forall>w. sys_task s = Sleeping w \<longrightarrow> woken s \<or> (\<forall>x\<in>set (db_expirations (sys_db s)). w \<le> fst x)) \<and>
     (sys_task s = Waiting \<longrightarrow> woken s \<or> db_expirations (sys_db s) = []) \<and>
     (db_shutdown (sys_db s) \<longrightarrow> woken s \<or> sys_task s = Checking \<or> sys_task s = Ended) \<and>
     (sys_task s = Ended \<longrightarrow> db_shutdown (sys_db s))"

lemma sys_new_inv: "sys_inv db_sys_new"
  by (simp add: sys_inv_def db_sys_new_def db_new_def db_inv_def)

lemma db_set_expirations:
  assumes "db_set now key val expire d = (notify, d')" "db_inv d" "\<not> notify" "\<forall>x\<in>set (db_expirations d). w \<le> fst x"
  shows "\<forall>x\<in>set (db_expirations d'). w \<le> fst x"
proof
  fix x assume x: "x \<in> set (db_expirations d')"
  have new: "x \<in> set (db_expirations d) \<or> (\<exists>dur. expire = Some dur \<and> x = (now + dur, key))"
    using assms(1) x by (auto simp: db_set_def Let_def set_insort_insert split: option.splits if_splits
        dest: notin_set_remove1 set_remove1_subset [THEN subsetD])
  have "w \<le> now + dur" if "expire = Some dur" for dur
    using assms(1,3,4) that
    by (auto simp: db_set_def Let_def next_expiration_def split: option.splits list.splits)
  with new assms(4) show "w \<le> fst x" by auto
qed

lemma db_set_no_expirations:
  assumes "db_set now key val expire d = (notify, d')" "\<not> notify" "db_expirations d = []"
  shows "db_expirations d' = []"
  using assms by (auto simp: db_set_def Let_def next_expiration_def split: option.splits)

lemma db_set_shutdown: "db_set now key val expire d = (notify, d') \<Longrightarrow> db_shutdown d' = db_shutdown d"
  by (auto simp: db_set_def Let_def split: option.splits)

lemma set_step_inv:
  assumes "sys_inv s" shows "sys_inv (db_step (Set key val expire) s)"
proof -
  obtain notify d where d: "db_set (sys_clock s) key val expire (sys_db s) = (notify, d)" by fastforce
  have inv: "db_inv (sys_db s)" using assms by (simp add: sys_inv_def)
  show ?thesis
  proof (cases notify)
    case True
    with assms show ?thesis
      by (simp add: sys_inv_def d woken_def db_set_inv [OF inv d] db_set_shutdown [OF d])
  next
    case False
    note keeps = db_set_expirations [OF d inv False] db_set_no_expirations [OF d False]
    from assms False show ?thesis
      by (simp add: sys_inv_def d woken_def db_set_inv [OF inv d] db_set_shutdown [OF d]) (metis keeps)
  qed
qed

lemma first_least:
  assumes "sorted (db_expirations d)" "x \<in> set (db_expirations d)" shows "fst (hd (db_expirations d)) \<le> fst x"
  using assms by (cases "db_expirations d") (auto simp: less_eq_prod_def)

lemma purge_turn_inv:
  assumes "sys_inv s" "sys_task s = Purging" shows "sys_inv (task_turn b s)"
proof -
  obtain r d where p: "purge_expired_keys (sys_clock s) (sys_db s) = (r, d)" by fastforce
  have inv: "db_inv (sys_db s)" using assms by (simp add: sys_inv_def)
  show ?thesis
  proof (cases "db_shutdown (sys_db s)")
    case True
    then have "r = None" "d = sys_db s" using p by (simp_all add: purge_expired_keys_def)
    moreover have "woken s" using assms True by (simp add: sys_inv_def)
    ultimately show ?thesis using inv assms(2) by (simp add: sys_inv_def task_turn_def p woken_def)
  next
    case False
    note spec = purge_expired_keys_spec [OF inv p False]
    have "\<forall>x\<in>set (db_expirations d). w \<le> fst x" if "r = Some w" for w
    proof
    fix x assume x: "x \<in> set (db_expirations d)"
    have "w = fst (hd (db_expirations d))"
      using spec that x by (auto simp: next_expiration_def split: list.splits)
    then show "w \<le> fst x" using first_least [OF _ x] spec by (simp add: db_inv_def)
  qed
    moreover have "db_expirations d = []" if "r = None"
      using spec that by (simp add: next_expiration_def split: list.splits)
    ultimately show ?thesis using spec assms(2)
      by (simp add: sys_inv_def task_turn_def p woken_def split: option.splits)
  qed
qed

lemma db_step_inv:
  assumes "sys_inv s" shows "sys_inv (db_step ev s)"
proof (cases ev)
  case (Set key val expire) with set_step_inv assms show ?thesis by blast
next
  case (TaskTurn b)
  show ?thesis
  proof (cases "sys_task s = Purging")
    case True with purge_turn_inv assms TaskTurn show ?thesis by simp
  next
    case False
    then show ?thesis using assms TaskTurn
      by (cases "sys_task s") (auto simp: sys_inv_def task_turn_def woken_def)
  qed
next
  case ShutdownFlag with assms show ?thesis by (simp add: sys_inv_def woken_def db_inv_def)
qed (use assms in \<open>auto simp: sys_inv_def woken_def\<close>)

lemma db_run_inv: "sys_inv s \<Longrightarrow> sys_inv (db_run evs s)"
  by (induction evs s rule: db_run.induct) (simp_all add: db_step_inv)

section \<open>Expired entries disappear\<close>

lemmas turn_simps = task_turn_def purge_expired_keys_def

lemma turn_purges:
  assumes "sys_inv s" "sys_task s = Purging" "\<not> db_shutdown (sys_db s)"
  shows "db_entries (sys_db (task_turn b s)) = live (sys_clock s) (db_entries (sys_db s)) \<and>
    sys_clock (task_turn b s) = sys_clock s \<and> \<not> db_shutdown (sys_db (task_turn b s))"
proof -
  obtain r d where p: "purge_expired_keys (sys_clock s) (sys_db s) = (r, d)" by fastforce
  have "db_inv (sys_db s)" using assms by (simp add: sys_inv_def)
  from purge_expired_keys_spec [OF this p assms(3)] assms(2) show ?thesis
    by (simp add: task_turn_def p)
qed

lemma turn_other:
  assumes "sys_task s \<noteq> Purging"
  shows "db_entries (sys_db (task_turn b s)) = db_entries (sys_db s) \<and>
    sys_clock (task_turn b s) = sys_clock s \<and> db_shutdown (sys_db (task_turn b s)) = db_shutdown (sys_db s)"
  using assms by (cases "sys_task s") (simp_all add: task_turn_def)

lemma live_none:
  assumes "db_inv d" "\<forall>x\<in>set (db_expirations d). now < fst x" shows "live now (db_entries d) = db_entries d"
proof
  fix k
  have "\<not> expired now e" if "db_entries d k = Some e" for e
    using that assms(2) db_inv_iff [OF assms(1), of _ k] by (force simp: expired_def)
  then show "live now (db_entries d) k = db_entries d k" by (simp add: live_def split: option.splits)
qed

lemma turn_live:
  assumes "sys_inv s" "\<not> db_shutdown (sys_db s)"
  shows "live (sys_clock s) (db_entries (sys_db (task_turn b s))) = live (sys_clock s) (db_entries (sys_db s)) \<and>
    sys_clock (task_turn b s) = sys_clock s \<and> \<not> db_shutdown (sys_db (task_turn b s)) \<and> sys_inv (task_turn b s)"
  using turn_purges [of s b] turn_other [of s b] db_step_inv [of s "TaskTurn b"] assms
  by (cases "sys_task s = Purging") simp_all

text \<open>No expired entry is left at the time of the state.\<close>

definition clean :: "db_sys \<Rightarrow> bool" where
  "clean s \<longleftrightarrow> db_entries (sys_db s) = live (sys_clock s) (db_entries (sys_db s))"

lemma turn_clean:
  assumes "sys_inv s" "\<not> db_shutdown (sys_db s)" "sys_task s = Purging \<or> clean s"
  shows "clean (task_turn b s)"
  using turn_purges [of s b] turn_other [of s b] assms by (cases "sys_task s = Purging") (simp_all add: clean_def)

lemma turn_progress:
  assumes "sys_inv s" "\<not> db_shutdown (sys_db s)" "sys_pending s = 0" "\<not> clean s"
  shows "sys_pending (task_turn b s) = 0 \<and>
    (sys_task s = Checking \<longrightarrow> sys_task (task_turn b s) = Purging) \<and>
    (sys_task s \<noteq> Checking \<longrightarrow> sys_task s \<noteq> Purging \<longrightarrow> sys_task (task_turn b s) = Checking)"
proof -
  have "clean s" if "\<forall>x\<in>set (db_expirations (sys_db s)). sys_clock s < fst x"
    using live_none [OF _ that] assms(1) by (simp add: clean_def sys_inv_def)
  with assms(4) have late: "\<exists>x\<in>set (db_expirations (sys_db s)). fst x \<le> sys_clock s" by (meson not_le)
  show ?thesis
  proof (cases "sys_task s")
    case (Sleeping w)
    then have "sys_permit s \<or> w \<le> sys_clock s"
      using late assms(1,3) by (fastforce simp: sys_inv_def woken_def)
    with Sleeping assms(3) show ?thesis by (auto simp: task_turn_def)
  next
    case Waiting
    then have "sys_permit s" using late assms(1,3) by (auto simp: sys_inv_def woken_def)
    with Waiting assms(3) show ?thesis by (simp add: task_turn_def)
  next
    case Ended
    with assms show ?thesis by (simp add: sys_inv_def)
  next
    case Purging
    with assms show ?thesis by (simp add: task_turn_def split: prod.splits)
  qed (use assms in \<open>simp_all add: task_turn_def\<close>)
qed

lemma three_turns_purge:
  assumes inv: "sys_inv s" and up: "\<not> db_shutdown (sys_db s)" and idle: "sys_pending s = 0"
  shows "db_entries (sys_db (db_run [TaskTurn a, TaskTurn b, TaskTurn c] s)) =
    live (sys_clock s) (db_entries (sys_db s))"
proof -
  define s1 where "s1 = task_turn a s"
  define s2 where "s2 = task_turn b s1"
  define s3 where "s3 = task_turn c s2"
  note t1 = turn_live [OF inv up, of a, folded s1_def]
  have t2: "live (sys_clock s1) (db_entries (sys_db s2)) = live (sys_clock s1) (db_entries (sys_db s1)) \<and>
    sys_clock s2 = sys_clock s1 \<and> \<not> db_shutdown (sys_db s2) \<and> sys_inv s2"
    using turn_live [of s1 b] t1 by (simp add: s2_def)
  have t3: "live (sys_clock s2) (db_entries (sys_db s3)) = live (sys_clock s2) (db_entries (sys_db s2)) \<and>
    sys_clock s3 = sys_clock s2"
    using turn_live [of s2 c] t2 by (simp add: s3_def)
  have "clean s1 \<or> sys_task s1 = Purging \<or> sys_task s1 = Checking" "clean s1 \<or> sys_pending s1 = 0"
    using turn_progress [OF inv up idle, of a] turn_clean [OF inv up, of a] unfolding s1_def by metis+
  then have "clean s2 \<or> sys_task s2 = Purging"
    using turn_progress [of s1 b] turn_clean [of s1 b] t1 by (auto simp: s2_def)
  then have "clean s3" using turn_clean [of s2 c] t2 by (auto simp: s3_def)
  then show ?thesis using t1 t2 t3 by (simp add: clean_def s1_def s2_def s3_def)
qed

lemma three_turns_end:
  assumes "sys_inv s" "db_shutdown (sys_db s)" "sys_pending s = 0"
  shows "sys_task (db_run [TaskTurn a, TaskTurn b, TaskTurn c] s) = Ended"
  using assms
  by (cases "sys_task s") (auto simp: sys_inv_def woken_def turn_simps)

text \<open>C30: an entry with an expiration never outlives it for want of a wake-up. Whatever sequence of \<^verbatim>\<open>set\<close>,
  notifications, time and turns of the task led here, once the pending calls of \<^verbatim>\<open>notify_one\<close> are made, three
  turns of the task remove every entry whose time has come and no other; and after a shutdown three turns end the
  task.\<close>

theorem db_no_missed_expiration:
  assumes "s = db_run evs db_sys_new" "sys_pending s = 0"
    and "s' = db_run [TaskTurn a, TaskTurn b, TaskTurn c] s"
  shows "if db_shutdown (sys_db s) then sys_task s' = Ended
    else (\<forall>k. db_get k (sys_db s') =
      (case db_entries (sys_db s) k of
        Some e \<Rightarrow> (case en_expires_at e of
            Some t \<Rightarrow> if t \<le> sys_clock s then None else Some (en_data e)
          | None \<Rightarrow> Some (en_data e))
      | None \<Rightarrow> None))"
proof -
  have inv: "sys_inv s" using db_run_inv sys_new_inv assms(1) by simp
  show ?thesis
  proof (cases "db_shutdown (sys_db s)")
    case True
    from three_turns_end [OF inv True assms(2)] True show ?thesis by (simp only: assms(3) if_True)
  next
    case False
    have "db_entries (sys_db s') = live (sys_clock s) (db_entries (sys_db s))"
      using three_turns_purge [OF inv False assms(2)] by (simp only: assms(3))
    with False show ?thesis by (auto simp: db_get_def live_def expired_def split: option.splits)
  qed
qed

definition sample_db_events :: "db_event list" where
  "sample_db_events = [TaskTurn False, TaskTurn False, Set ''a'' [1] (Some 10), Set ''b'' [2] (Some 5), NotifyOne,
     NotifyOne, Set ''c'' [3] None, TaskTurn True, Set ''a'' [4] (Some 7), TaskTurn True, TaskTurn True, Elapse 6]"

theorem db_no_missed_expiration_witness:
  "let s = db_run sample_db_events db_sys_new;
       s' = db_run [TaskTurn False, TaskTurn False, TaskTurn False] s
   in sys_pending s = 0 \<and> db_get ''b'' (sys_db s) = Some [2] \<and> db_get ''b'' (sys_db s') = None \<and>
     db_get ''a'' (sys_db s') = Some [4] \<and> db_get ''c'' (sys_db s') = Some [3]"
proof -
  let ?s = "db_run sample_db_events db_sys_new"
  have e: "db_entries (sys_db ?s) = [''c'' \<mapsto> \<lparr>en_data = [3], en_expires_at = None\<rparr>,
      ''b'' \<mapsto> \<lparr>en_data = [2], en_expires_at = Some 5\<rparr>, ''a'' \<mapsto> \<lparr>en_data = [4], en_expires_at = Some 7\<rparr>]"
    "sys_pending ?s = 0" "sys_clock ?s = 6" "\<not> db_shutdown (sys_db ?s)"
    by (simp_all add: sample_db_events_def db_sys_new_def db_new_def db_set_def next_expiration_def turn_simps
        fun_eq_iff insort_insert_key_def)
  have "\<forall>k. db_get k (sys_db (db_run [TaskTurn False, TaskTurn False, TaskTurn False] ?s)) =
      (case db_entries (sys_db ?s) k of
        Some e \<Rightarrow> (case en_expires_at e of
            Some t \<Rightarrow> if t \<le> sys_clock ?s then None else Some (en_data e)
          | None \<Rightarrow> Some (en_data e))
      | None \<Rightarrow> None)"
    using db_no_missed_expiration [OF refl e(2) refl, of False False False] e(4) by (simp only: if_False simp_thms)
  then have g: "db_get k (sys_db (db_run [TaskTurn False, TaskTurn False, TaskTurn False] ?s)) =
      (case db_entries (sys_db ?s) k of
        Some e \<Rightarrow> (case en_expires_at e of
            Some t \<Rightarrow> if t \<le> 6 then None else Some (en_data e)
          | None \<Rightarrow> Some (en_data e))
      | None \<Rightarrow> None)" for k unfolding e(3) ..
  show ?thesis unfolding Let_def g using e(1,2) by (simp add: db_get_def)
qed

end
