(* ===== verification/Telemetry_System.thy ===== *)
theory Telemetry_System imports Prelude "HOL-Library.AList" begin

text \<open>
  \<^verbatim>\<open>module3/project3\<close>: frames (\<^verbatim>\<open>frame.rs\<close>), sources (\<^verbatim>\<open>source.rs\<close>) and the registry of sources
  (\<^verbatim>\<open>telemetry_system.rs\<close>). A \<^verbatim>\<open>HashMap\<close> is an association list without duplicate keys, a channel is the list of
  its items with its capacity and whether its receiver still exists; the two ends of a feed channel are its
  number.
\<close>

section \<open>Channels\<close>

record 'a mpsc =
  mp_items :: "'a list"
  mp_capacity :: nat
  mp_receiver :: bool

definition channel :: "nat \<Rightarrow> 'a mpsc" where
  "channel capacity = \<lparr>mp_items = [], mp_capacity = capacity, mp_receiver = True\<rparr>"

definition try_send :: "'a \<Rightarrow> 'a mpsc \<Rightarrow> 'a mpsc option" where
  "try_send x c =
     (if mp_receiver c \<and> length (mp_items c) < mp_capacity c then Some (c\<lparr>mp_items := mp_items c @ [x]\<rparr>) else None)"

section \<open>Frames\<close>

datatype source_kind = LiveUplink | ArchivedReplay

datatype frame_priority = Emergency | Routine

record tm_frame =
  tm_source_id :: u32
  tm_source_kind :: source_kind
  tm_priority :: frame_priority
  tm_sequence :: u64
  tm_payload :: bytes

fun kind_as_u8 :: "source_kind \<Rightarrow> u8" where
  "kind_as_u8 LiveUplink = 0"
| "kind_as_u8 ArchivedReplay = 1"

fun priority_as_u8 :: "frame_priority \<Rightarrow> u8" where
  "priority_as_u8 Emergency = 0"
| "priority_as_u8 Routine = 1"

definition tm_frame_new :: "u32 \<Rightarrow> source_kind \<Rightarrow> frame_priority \<Rightarrow> bytes \<Rightarrow> tm_frame" where
  "tm_frame_new source_id source_kind prio payload =
     (let sid = ucast source_id :: u64; prop = ucast (kind_as_u8 source_kind + priority_as_u8 prio)
      in \<lparr>tm_source_id = source_id, tm_source_kind = source_kind, tm_priority = prio,
           tm_sequence = sid + prop, tm_payload = payload\<rparr>)"

section \<open>Sources\<close>

record source =
  src_id :: u32
  src_kind :: source_kind
  src_feed :: "nat option"

definition source_new :: "u32 \<Rightarrow> source_kind \<Rightarrow> nat \<Rightarrow> source" where
  "source_new source_id source_kind feed_tx = \<lparr>src_id = source_id, src_kind = source_kind, src_feed = Some feed_tx\<rparr>"

definition take_feed :: "source \<Rightarrow> nat option \<times> source" where
  "take_feed s = (src_feed s, s\<lparr>src_feed := None\<rparr>)"

text \<open>\<^verbatim>\<open>feeding\<close>: the frame and the channel it is sent to; a source without a channel panics.\<close>

definition feeding :: "frame_priority \<Rightarrow> bytes \<Rightarrow> source \<Rightarrow> (nat \<times> tm_frame) option" where
  "feeding prio payload s =
     map_option (\<lambda>feed. (feed, tm_frame_new (src_id s) (src_kind s) prio payload)) (src_feed s)"

datatype source_msg = AddSource u32 source_kind nat | RemoveSource u32 source_kind

section \<open>The registry\<close>

text \<open>\<open>ts_next_feed\<close> is the number of the next feed channel.\<close>

record telemetry_state =
  ts_uplink :: "(u32 \<times> source) list"
  ts_replay :: "(u32 \<times> source) list"
  ts_next_feed :: nat

definition system_new :: telemetry_state where
  "system_new = \<lparr>ts_uplink = [], ts_replay = [], ts_next_feed = 0\<rparr>"

definition system_len :: "telemetry_state \<Rightarrow> nat" where
  "system_len s = length (ts_uplink s) + length (ts_replay s)"

definition system_is_empty :: "telemetry_state \<Rightarrow> bool" where
  "system_is_empty s \<longleftrightarrow> ts_uplink s = [] \<and> ts_replay s = []"

definition add_source ::
    "u32 \<Rightarrow> source_kind \<Rightarrow> source_msg mpsc \<Rightarrow> telemetry_state \<Rightarrow>
     source option \<times> source_msg mpsc \<times> telemetry_state" where
  "add_source source_id source_kind ctrl_tx s =
     (if map_of (ts_uplink s) source_id = None \<and> length (ts_uplink s) \<ge> 48 then (None, ctrl_tx, s)
      else if map_of (ts_replay s) source_id = None \<and> length (ts_replay s) \<ge> 2 then (None, ctrl_tx, s)
      else
        (let feed = ts_next_feed s; s = s\<lparr>ts_next_feed := feed + 1\<rparr>
         in case try_send (AddSource source_id source_kind feed) ctrl_tx of
              None \<Rightarrow> (None, ctrl_tx, s)
            | Some ctrl_tx \<Rightarrow>
                (let src = source_new source_id source_kind feed
                 in (Some src, ctrl_tx, (case source_kind of
                      LiveUplink \<Rightarrow> s\<lparr>ts_uplink := AList.update source_id src (ts_uplink s)\<rparr>
                    | ArchivedReplay \<Rightarrow> s\<lparr>ts_replay := AList.update source_id src (ts_replay s)\<rparr>)))))"

definition remove_source ::
    "u32 \<Rightarrow> source_kind \<Rightarrow> source_msg mpsc \<Rightarrow> telemetry_state \<Rightarrow> source_msg mpsc \<times> telemetry_state" where
  "remove_source source_id source_kind ctrl_tx s =
     (let (src, s) = (case source_kind of
          LiveUplink \<Rightarrow> (map_of (ts_uplink s) source_id, s\<lparr>ts_uplink := AList.delete source_id (ts_uplink s)\<rparr>)
        | ArchivedReplay \<Rightarrow> (map_of (ts_replay s) source_id, s\<lparr>ts_replay := AList.delete source_id (ts_replay s)\<rparr>))
      in case src of
           None \<Rightarrow> (ctrl_tx, s)
         | Some _ \<Rightarrow> (case try_send (RemoveSource source_id source_kind) ctrl_tx of
               None \<Rightarrow> (ctrl_tx, s) | Some ctrl_tx \<Rightarrow> (ctrl_tx, s)))"

definition shutdown_all_sources_feeds :: "telemetry_state \<Rightarrow> telemetry_state" where
  "shutdown_all_sources_feeds s = s\<lparr>ts_uplink := [], ts_replay := []\<rparr>"

end
