(* ===== verification/Telemetry_Pipeline.thy ===== *)
theory Telemetry_Pipeline imports Telemetry_System "HOL-Library.Sublist" begin

text \<open>
  \<^verbatim>\<open>module3/project3/pipeline.rs\<close> and \<^verbatim>\<open>TelemetrySystem::run\<close>: the tasks of the pipeline as a system of
  steps. One event is one turn of one task, between two of its waits: the router with the tasks that forward
  the feeds, the fan-in that prefers emergencies, the processor and the archive. An event of a task that has to
  wait changes nothing. The number of its feed travels with each frame; the code does not carry it, nor the
  fields \<open>pp_sent\<close>, \<open>pp_processed\<close> and \<open>pp_aborted\<close>, which record the history. An abort ends its task at once, where the
  runtime lets the task finish the poll it is in; \<open>Router_Actor\<close> has the abort as a flag and its effect as an event of its own.
\<close>

section \<open>Statistics\<close>

record pipeline_stats =
  frames_processed :: u64
  emergency_count :: u64

definition pipeline_stats_new :: pipeline_stats where
  "pipeline_stats_new = \<lparr>frames_processed = 0, emergency_count = 0\<rparr>"

definition increment_frames_processed :: "pipeline_stats \<Rightarrow> pipeline_stats" where
  "increment_frames_processed st = st\<lparr>frames_processed := frames_processed st + 1\<rparr>"

definition increment_emergency_count :: "pipeline_stats \<Rightarrow> pipeline_stats" where
  "increment_emergency_count st = st\<lparr>emergency_count := emergency_count st + 1\<rparr>"

section \<open>The archive\<close>

text \<open>A receiver of the broadcast channel: how many values are ahead of it, of which the channel keeps the last
  128. \<open>ac_missed\<close> records the sum of the lags it was told.\<close>

record archive =
  ac_count :: u64
  ac_pending :: nat
  ac_missed :: nat
  ac_done :: bool

definition archive_new :: archive where
  "archive_new = \<lparr>ac_count = 0, ac_pending = 0, ac_missed = 0, ac_done = False\<rparr>"

definition archive_consumer_turn :: "bool \<Rightarrow> archive \<Rightarrow> archive" where
  "archive_consumer_turn closed a =
     (if ac_done a then a
      else if ac_pending a > 128
        then a\<lparr>ac_missed := ac_missed a + (ac_pending a - 128), ac_pending := 128\<rparr>
      else if ac_pending a > 0 then a\<lparr>ac_count := ac_count a + 1, ac_pending := ac_pending a - 1\<rparr>
      else if closed then a\<lparr>ac_done := True\<rparr>
      else a)"

section \<open>The state\<close>

type_synonym tagged = "nat \<times> tm_frame"

datatype forwarder = NoTask | Receiving | Forwarding tm_frame | TaskDone

datatype router = Routing | RouterSend tagged | JoiningFeeds | RouterDone

datatype fan_in = FanIdle | FanSend tagged | FanDone

text \<open>\<open>pp_feeds\<close> holds the frames waiting in each feed channel, \<open>pp_closed\<close> the feeds whose senders are all gone.\<close>

record pipeline =
  pp_system :: telemetry_state
  pp_sources :: "source list"
  pp_ctrl :: "source_msg mpsc"
  pp_feeds :: "nat \<Rightarrow> tm_frame list"
  pp_closed :: "nat set"
  pp_forward :: "nat \<Rightarrow> forwarder"
  pp_handles :: "((u32 \<times> source_kind) \<times> nat) list"
  pp_internal :: "tagged list"
  pp_router :: router
  pp_emerg :: "tagged list"
  pp_routine :: "tagged list"
  pp_fan :: fan_in
  pp_process :: "tagged list"
  pp_processing :: bool
  pp_stats :: pipeline_stats
  pp_archive :: archive
  pp_sent :: "nat \<Rightarrow> tm_frame list"
  pp_processed :: "tagged list"
  pp_aborted :: "nat set"

definition pipeline_run_new :: "nat \<Rightarrow> pipeline" where
  "pipeline_run_new ctrl_capacity =
     \<lparr>pp_system = system_new, pp_sources = [], pp_ctrl = channel ctrl_capacity, pp_feeds = (\<lambda>_. []), pp_closed = {},
      pp_forward = (\<lambda>_. NoTask), pp_handles = [], pp_internal = [], pp_router = Routing, pp_emerg = [],
      pp_routine = [], pp_fan = FanIdle, pp_process = [], pp_processing = True, pp_stats = pipeline_stats_new,
      pp_archive = archive_new, pp_sent = (\<lambda>_. []), pp_processed = [], pp_aborted = {}\<rparr>"

section \<open>Clients\<close>

definition client_add :: "u32 \<Rightarrow> source_kind \<Rightarrow> pipeline \<Rightarrow> pipeline" where
  "client_add source_id source_kind s =
     (let (src, ctrl, sys) = add_source source_id source_kind (pp_ctrl s) (pp_system s)
      in s\<lparr>pp_ctrl := ctrl, pp_system := sys,
           pp_sources := (case src of Some src \<Rightarrow> pp_sources s @ [src] | None \<Rightarrow> pp_sources s)\<rparr>)"

definition client_remove :: "u32 \<Rightarrow> source_kind \<Rightarrow> pipeline \<Rightarrow> pipeline" where
  "client_remove source_id source_kind s =
     (let (ctrl, sys) = remove_source source_id source_kind (pp_ctrl s) (pp_system s)
      in s\<lparr>pp_ctrl := ctrl, pp_system := sys\<rparr>)"

text \<open>A frame for a feed without receiver is dropped by \<^verbatim>\<open>feeding\<close>; a full feed makes it wait.\<close>

definition client_feed :: "nat \<Rightarrow> frame_priority \<Rightarrow> bytes \<Rightarrow> pipeline \<Rightarrow> pipeline" where
  "client_feed i prio payload s =
     (if i < length (pp_sources s) then
        (case feeding prio payload (pp_sources s ! i) of
           None \<Rightarrow> s
         | Some (feed, frame) \<Rightarrow>
             if feed \<in> pp_closed s \<or> pp_forward s feed = TaskDone \<or> length (pp_feeds s feed) \<ge> 16 then s
             else s\<lparr>pp_feeds := (pp_feeds s)(feed := pp_feeds s feed @ [frame]),
                    pp_sent := (pp_sent s)(feed := pp_sent s feed @ [frame])\<rparr>)
      else s)"

text \<open>The last sender of a feed goes away: none is left in the registry.\<close>

definition registered :: "nat \<Rightarrow> telemetry_state \<Rightarrow> bool" where
  "registered feed s \<longleftrightarrow>
     (\<exists>x \<in> set (ts_uplink s). src_feed (snd x) = Some feed) \<or> (\<exists>x \<in> set (ts_replay s). src_feed (snd x) = Some feed)"

definition drop_senders :: "nat \<Rightarrow> pipeline \<Rightarrow> pipeline" where
  "drop_senders feed s = (if registered feed (pp_system s) then s else s\<lparr>pp_closed := insert feed (pp_closed s)\<rparr>)"

section \<open>The router\<close>

definition router_ctrl :: "pipeline \<Rightarrow> pipeline" where
  "router_ctrl s =
     (if pp_router s \<noteq> Routing then s
      else case mp_items (pp_ctrl s) of
        [] \<Rightarrow> s
      | rtr_msg # msgs \<Rightarrow>
          (let s = s\<lparr>pp_ctrl := (pp_ctrl s)\<lparr>mp_items := msgs\<rparr>\<rparr>
           in case rtr_msg of
                AddSource source_id source_kind feed \<Rightarrow>
                  s\<lparr>pp_forward := (pp_forward s)(feed := Receiving),
                    pp_handles := AList.update (source_id, source_kind) feed (pp_handles s)\<rparr>
              | RemoveSource source_id source_kind \<Rightarrow>
                  (case map_of (pp_handles s) (source_id, source_kind) of
                     None \<Rightarrow> s
                   | Some feed \<Rightarrow>
                       s\<lparr>pp_handles := AList.delete (source_id, source_kind) (pp_handles s),
                         pp_forward := (pp_forward s)(feed := TaskDone),
                         pp_feeds := (pp_feeds s)(feed := []),
                         pp_aborted := insert feed (pp_aborted s)\<rparr>)))"

text \<open>The task of a feed: it takes the next frame, ends when the feed is closed and empty, and hands the frame
  to the internal channel of 512 places.\<close>

definition forward_recv :: "nat \<Rightarrow> pipeline \<Rightarrow> pipeline" where
  "forward_recv feed s =
     (if pp_forward s feed \<noteq> Receiving then s
      else case pp_feeds s feed of
        [] \<Rightarrow> if feed \<in> pp_closed s then s\<lparr>pp_forward := (pp_forward s)(feed := TaskDone)\<rparr> else s
      | frame # rest \<Rightarrow> s\<lparr>pp_feeds := (pp_feeds s)(feed := rest), pp_forward := (pp_forward s)(feed := Forwarding frame)\<rparr>)"

definition forward_send :: "nat \<Rightarrow> pipeline \<Rightarrow> pipeline" where
  "forward_send feed s =
     (case pp_forward s feed of
        Forwarding frame \<Rightarrow>
          if pp_router s = RouterDone
          then s\<lparr>pp_forward := (pp_forward s)(feed := TaskDone), pp_feeds := (pp_feeds s)(feed := [])\<rparr>
          else if length (pp_internal s) < 512
          then s\<lparr>pp_internal := pp_internal s @ [(feed, frame)], pp_forward := (pp_forward s)(feed := Receiving)\<rparr>
          else s
      | _ \<Rightarrow> s)"

definition router_take :: "pipeline \<Rightarrow> pipeline" where
  "router_take s =
     (if pp_router s \<noteq> Routing then s
      else case pp_internal s of
        [] \<Rightarrow> s
      | x # xs \<Rightarrow> s\<lparr>pp_internal := xs, pp_router := RouterSend x\<rparr>)"

text \<open>The send to the channel of the frame's priority: 32 places for emergencies, 128 for routine frames. The
  receivers are gone when the fan-in has ended.\<close>

definition router_push :: "pipeline \<Rightarrow> pipeline" where
  "router_push s =
     (case pp_router s of
        RouterSend x \<Rightarrow>
          if pp_fan s = FanDone then s\<lparr>pp_router := JoiningFeeds\<rparr>
          else (case tm_priority (snd x) of
              Emergency \<Rightarrow>
                if length (pp_emerg s) < 32 then s\<lparr>pp_emerg := pp_emerg s @ [x], pp_router := Routing\<rparr> else s
            | Routine \<Rightarrow>
                if length (pp_routine s) < 128 then s\<lparr>pp_routine := pp_routine s @ [x], pp_router := Routing\<rparr> else s)
      | _ \<Rightarrow> s)"

definition router_shutdown :: "pipeline \<Rightarrow> pipeline" where
  "router_shutdown s = (if pp_router s = Routing then s\<lparr>pp_router := JoiningFeeds\<rparr> else s)"

text \<open>The router waits for every task it still has a handle of; when it returns, its receivers are dropped and
  with them the messages and frames they hold.\<close>

definition router_join :: "pipeline \<Rightarrow> pipeline" where
  "router_join s =
     (if pp_router s = JoiningFeeds \<and> (\<forall>h \<in> set (pp_handles s). pp_forward s (snd h) = TaskDone)
      then s\<lparr>pp_router := RouterDone, pp_handles := [], pp_internal := [],
             pp_ctrl := (pp_ctrl s)\<lparr>mp_items := [], mp_receiver := False\<rparr>,
             pp_feeds := (\<lambda>feed. if pp_forward s feed = NoTask then [] else pp_feeds s feed),
             pp_forward := (\<lambda>feed. if pp_forward s feed = NoTask then TaskDone else pp_forward s feed)\<rparr>
      else s)"

section \<open>Fan-in and processor\<close>

definition priority_fan_in_take :: "pipeline \<Rightarrow> pipeline" where
  "priority_fan_in_take s =
     (if pp_fan s \<noteq> FanIdle then s
      else case pp_emerg s of
        x # xs \<Rightarrow> s\<lparr>pp_emerg := xs, pp_fan := FanSend x\<rparr>
      | [] \<Rightarrow> (case pp_routine s of
            x # xs \<Rightarrow> s\<lparr>pp_routine := xs, pp_fan := FanSend x\<rparr>
          | [] \<Rightarrow> if pp_router s = RouterDone then s\<lparr>pp_fan := FanDone\<rparr> else s))"

definition priority_fan_in_push :: "pipeline \<Rightarrow> pipeline" where
  "priority_fan_in_push s =
     (case pp_fan s of
        FanSend x \<Rightarrow>
          if \<not> pp_processing s then s\<lparr>pp_fan := FanDone\<rparr>
          else if length (pp_process s) < 64 then s\<lparr>pp_process := pp_process s @ [x], pp_fan := FanIdle\<rparr>
          else s
      | _ \<Rightarrow> s)"

definition processer_fan_out_turn :: "pipeline \<Rightarrow> pipeline" where
  "processer_fan_out_turn s =
     (if \<not> pp_processing s then s
      else case pp_process s of
        [] \<Rightarrow> if pp_fan s = FanDone then s\<lparr>pp_processing := False\<rparr> else s
      | x # xs \<Rightarrow>
          (let st = increment_frames_processed (pp_stats s);
               st = (if tm_priority (snd x) = Emergency then increment_emergency_count st else st)
           in s\<lparr>pp_process := xs, pp_stats := st, pp_processed := pp_processed s @ [x],
                pp_archive := (pp_archive s)\<lparr>ac_pending := ac_pending (pp_archive s) + 1\<rparr>\<rparr>))"

section \<open>Runs\<close>

datatype pipeline_event =
    Add u32 source_kind | Remove u32 source_kind | ShutdownFeeds | Feed nat frame_priority bytes | DropSenders nat
  | RouterCtrl | ForwardRecv nat | ForwardSend nat | RouterTake | RouterPush | RouterShutdown | RouterJoin
  | FanTake | FanPush | Process | Archive

fun pipeline_step :: "pipeline_event \<Rightarrow> pipeline \<Rightarrow> pipeline" where
  "pipeline_step (Add source_id source_kind) s = client_add source_id source_kind s"
| "pipeline_step (Remove source_id source_kind) s = client_remove source_id source_kind s"
| "pipeline_step ShutdownFeeds s = s\<lparr>pp_system := shutdown_all_sources_feeds (pp_system s)\<rparr>"
| "pipeline_step (Feed i prio payload) s = client_feed i prio payload s"
| "pipeline_step (DropSenders feed) s = drop_senders feed s"
| "pipeline_step RouterCtrl s = router_ctrl s"
| "pipeline_step (ForwardRecv feed) s = forward_recv feed s"
| "pipeline_step (ForwardSend feed) s = forward_send feed s"
| "pipeline_step RouterTake s = router_take s"
| "pipeline_step RouterPush s = router_push s"
| "pipeline_step RouterShutdown s = router_shutdown s"
| "pipeline_step RouterJoin s = router_join s"
| "pipeline_step FanTake s = priority_fan_in_take s"
| "pipeline_step FanPush s = priority_fan_in_push s"
| "pipeline_step Process s = processer_fan_out_turn s"
| "pipeline_step Archive s = s\<lparr>pp_archive := archive_consumer_turn (\<not> pp_processing s) (pp_archive s)\<rparr>"

fun pipeline_run :: "pipeline_event list \<Rightarrow> pipeline \<Rightarrow> pipeline" where
  "pipeline_run [] s = s"
| "pipeline_run (ev # evs) s = pipeline_run evs (pipeline_step ev s)"

text \<open>One turn of \<^verbatim>\<open>adding_source\<close>: the random id, the dice below 100 that chooses the kind, and the random
  payload of the first frame.\<close>

definition adding_source_turn :: "u32 \<Rightarrow> nat \<Rightarrow> bytes \<Rightarrow> pipeline \<Rightarrow> pipeline option" where
  "adding_source_turn idx dice payload s =
     map_option
       (\<lambda>kind. let t = client_add idx kind s
               in if length (pp_sources s) < length (pp_sources t)
                  then client_feed (length (pp_sources s)) Routine payload t else t)
       (if dice < 96 then Some LiveUplink else if dice < 100 then Some ArchivedReplay else None)"

lemma adding_source_turn_run:
  "dice < 100 \<Longrightarrow> \<exists>kind. adding_source_turn idx dice payload s =
     Some (pipeline_run [Add idx kind, Feed (length (pp_sources s)) Routine payload] s)"
  by (auto simp: adding_source_turn_def Let_def client_feed_def)

end
