(* ===== verification/Telemetry_Pipeline_Correct.thy ===== *)
theory Telemetry_Pipeline_Correct imports Telemetry_Pipeline begin

text \<open>
  What the pipeline of \<^verbatim>\<open>Telemetry_Pipeline\<close> guarantees on every interleaving: the frames of a feed with one
  priority reach the processor in the order they were fed, each once, and none is lost while the feed stays
  registered and the router runs; a waiting emergency is overtaken by nothing; the counters and the registry.
\<close>

section \<open>The journey of a frame\<close>

definition fan_held :: "pipeline \<Rightarrow> tagged list" where
  "fan_held s = (case pp_fan s of FanSend x \<Rightarrow> [x] | _ \<Rightarrow> [])"

definition router_held :: "pipeline \<Rightarrow> tagged list" where
  "router_held s = (case pp_router s of RouterSend x \<Rightarrow> [x] | _ \<Rightarrow> [])"

definition task_held :: "nat \<Rightarrow> pipeline \<Rightarrow> tm_frame list" where
  "task_held f s = (case pp_forward s f of Forwarding x \<Rightarrow> [x] | _ \<Rightarrow> [])"

text \<open>Everything that was, or will next be, handed to the processor; and all tagged frames, in order.\<close>

definition handed_on :: "pipeline \<Rightarrow> tagged list" where
  "handed_on s = pp_processed s @ pp_process s @ fan_held s @ pp_emerg s"

definition routed :: "pipeline \<Rightarrow> tagged list" where
  "routed s = handed_on s @ pp_routine s @ router_held s @ pp_internal s"

definition of_feed :: "nat \<Rightarrow> frame_priority \<Rightarrow> tagged list \<Rightarrow> tm_frame list" where
  "of_feed f p xs = map snd (filter (\<lambda>x. fst x = f \<and> tm_priority (snd x) = p) xs)"

definition of_priority :: "frame_priority \<Rightarrow> tm_frame list \<Rightarrow> tm_frame list" where
  "of_priority p = filter (\<lambda>x. tm_priority x = p)"

definition journey :: "nat \<Rightarrow> frame_priority \<Rightarrow> pipeline \<Rightarrow> tm_frame list" where
  "journey f p s = of_feed f p (routed s) @ of_priority p (task_held f s @ pp_feeds s f)"

lemma of_feed_simps [simp]:
  "of_feed f p [] = []" "of_feed f p (xs @ ys) = of_feed f p xs @ of_feed f p ys"
  "of_feed f p (x # xs) = (if fst x = f \<and> tm_priority (snd x) = p then [snd x] else []) @ of_feed f p xs"
  by (simp_all add: of_feed_def)

lemma of_priority_simps [simp]:
  "of_priority p [] = []" "of_priority p (xs @ ys) = of_priority p xs @ of_priority p ys"
  "of_priority p (x # xs) = (if tm_priority x = p then [x] else []) @ of_priority p xs"
  by (simp_all add: of_priority_def)

lemmas journey_defs = journey_def routed_def handed_on_def fan_held_def router_held_def task_held_def

section \<open>The invariant\<close>

definition added :: "source_msg list \<Rightarrow> nat list" where
  "added = List.map_filter (\<lambda>m. case m of AddSource _ _ f \<Rightarrow> Some f | RemoveSource _ _ \<Rightarrow> None)"

lemma added_simps [simp]:
  "added [] = []" "added (xs @ ys) = added xs @ added ys"
  "added (AddSource i k f # ms) = f # added ms" "added (RemoveSource i k # ms) = added ms"
  by (simp_all add: added_def List.map_filter_def)

definition routing :: "pipeline \<Rightarrow> bool" where
  "routing s \<longleftrightarrow> pp_router s = Routing \<or> (\<exists>x. pp_router s = RouterSend x)"

text \<open>A feed whose number is still in the queue of the router, or not given out yet, has no task.\<close>

definition ctrl_inv :: "pipeline \<Rightarrow> bool" where
  "ctrl_inv s \<longleftrightarrow> distinct (added (mp_items (pp_ctrl s))) \<and>
     (\<forall>f \<in> set (added (mp_items (pp_ctrl s))). f < ts_next_feed (pp_system s) \<and> pp_forward s f = NoTask) \<and>
     (pp_router s \<noteq> RouterDone \<longrightarrow> (\<forall>f \<ge> ts_next_feed (pp_system s). pp_forward s f = NoTask)) \<and>
     (\<forall>h f. map_of (pp_handles s) h = Some f \<longrightarrow> pp_forward s f \<noteq> NoTask) \<and>
     (pp_router s = RouterDone \<longrightarrow> \<not> mp_receiver (pp_ctrl s))"

definition stage_inv :: "pipeline \<Rightarrow> bool" where
  "stage_inv s \<longleftrightarrow> (\<forall>x \<in> set (pp_emerg s). tm_priority (snd x) = Emergency) \<and>
     (\<forall>x \<in> set (pp_routine s). tm_priority (snd x) = Routine) \<and>
     (pp_fan s = FanDone \<longrightarrow> pp_router s = RouterDone) \<and> (\<not> pp_processing s \<longrightarrow> pp_fan s = FanDone)"

definition order_inv :: "pipeline \<Rightarrow> bool" where
  "order_inv s \<longleftrightarrow> (\<forall>f p. if routing s \<and> f \<notin> pp_aborted s then journey f p s = of_priority p (pp_sent s f)
     else subseq (journey f p s) (of_priority p (pp_sent s f)))"

definition bounds_inv :: "pipeline \<Rightarrow> bool" where
  "bounds_inv s \<longleftrightarrow> (\<forall>f. length (pp_feeds s f) \<le> 16) \<and> length (pp_internal s) \<le> 512 \<and>
     length (pp_emerg s) \<le> 32 \<and> length (pp_routine s) \<le> 128 \<and> length (pp_process s) \<le> 64"

definition stats_inv :: "pipeline \<Rightarrow> bool" where
  "stats_inv s \<longleftrightarrow> frames_processed (pp_stats s) = of_nat (length (pp_processed s)) \<and>
     emergency_count (pp_stats s) =
       of_nat (length (filter (\<lambda>x. tm_priority (snd x) = Emergency) (pp_processed s))) \<and>
     (\<exists>n. ac_count (pp_archive s) = of_nat n \<and>
       n + ac_pending (pp_archive s) + ac_missed (pp_archive s) = length (pp_processed s)) \<and>
     (ac_done (pp_archive s) \<longrightarrow> ac_pending (pp_archive s) = 0 \<and> \<not> pp_processing s)"

text \<open>The steps of the tasks; the names of the bundle unfold an event.\<close>

lemmas task_steps = router_ctrl_def forward_recv_def forward_send_def router_take_def router_push_def
  router_shutdown_def router_join_def priority_fan_in_take_def priority_fan_in_push_def processer_fan_out_turn_def
  client_feed_def drop_senders_def

lemma try_send_some: "try_send x c = Some c' \<longleftrightarrow>
    mp_receiver c \<and> length (mp_items c) < mp_capacity c \<and> c' = c\<lparr>mp_items := mp_items c @ [x]\<rparr>"
  by (auto simp: try_send_def)

lemma client_add_cases:
  obtains (refused) n where "client_add i k s = s\<lparr>pp_system := (pp_system s)\<lparr>ts_next_feed := n\<rparr>\<rparr>"
      "ts_next_feed (pp_system s) \<le> n"
  | (accepted) sys where "mp_receiver (pp_ctrl s)" "ts_next_feed sys = ts_next_feed (pp_system s) + 1"
      "client_add i k s = s\<lparr>pp_ctrl := (pp_ctrl s)\<lparr>mp_items := mp_items (pp_ctrl s) @
          [AddSource i k (ts_next_feed (pp_system s))]\<rparr>,
        pp_system := sys, pp_sources := pp_sources s @ [source_new i k (ts_next_feed (pp_system s))]\<rparr>"
proof -
  let ?feed = "ts_next_feed (pp_system s)"
  obtain src c sys where r: "add_source i k (pp_ctrl s) (pp_system s) = (src, c, sys)" by (metis prod_cases3)
  show ?thesis
  proof (cases src)
    case None
    then have c: "c = pp_ctrl s" and "sys = pp_system s \<or> sys = (pp_system s)\<lparr>ts_next_feed := ?feed + 1\<rparr>"
      using r by (auto simp: add_source_def Let_def split: option.splits if_splits)
    then have "sys = (pp_system s)\<lparr>ts_next_feed := ?feed\<rparr> \<or> sys = (pp_system s)\<lparr>ts_next_feed := ?feed + 1\<rparr>"
      by simp
    then obtain n where "?feed \<le> n" "sys = (pp_system s)\<lparr>ts_next_feed := n\<rparr>"
      by (metis le_add1 order_refl)
    then show ?thesis using refused [of n] by (simp add: client_add_def r None c)
  next
    case (Some x)
    then have "x = source_new i k ?feed" "mp_receiver (pp_ctrl s)" "ts_next_feed sys = ?feed + 1"
      "c = (pp_ctrl s)\<lparr>mp_items := mp_items (pp_ctrl s) @ [AddSource i k ?feed]\<rparr>"
      using r by (auto simp: add_source_def Let_def try_send_some split: option.splits if_splits source_kind.splits)
    then show ?thesis using accepted [of sys] by (simp add: client_add_def r Some)
  qed
qed

lemma remove_source_cases:
  assumes "remove_source i k c sys = (c', sys')"
  shows "ts_next_feed sys' = ts_next_feed sys \<and>
    (\<exists>ms. added ms = [] \<and> (ms = [] \<or> mp_receiver c) \<and> c' = c\<lparr>mp_items := mp_items c @ ms\<rparr>)"
proof -
  have "c' = c\<lparr>mp_items := mp_items c @ []\<rparr> \<or> mp_receiver c \<and> c' = c\<lparr>mp_items := mp_items c @ [RemoveSource i k]\<rparr>"
    using assms
    by (cases k) (auto simp: remove_source_def Let_def try_send_some split: option.splits)
  moreover have "ts_next_feed sys' = ts_next_feed sys"
    using assms by (cases k) (auto simp: remove_source_def Let_def split: option.splits)
  ultimately show ?thesis using added_simps(1,4) by metis
qed

lemma client_remove_cases:
  obtains ms sys where "added ms = []" "ms = [] \<or> mp_receiver (pp_ctrl s)" "ts_next_feed sys = ts_next_feed (pp_system s)"
    "client_remove i k s = s\<lparr>pp_ctrl := (pp_ctrl s)\<lparr>mp_items := mp_items (pp_ctrl s) @ ms\<rparr>, pp_system := sys\<rparr>"
proof -
  obtain c sys where r: "remove_source i k (pp_ctrl s) (pp_system s) = (c, sys)" by fastforce
  from remove_source_cases [OF this] that [of _ sys] show ?thesis by (auto simp: client_remove_def r)
qed

section \<open>Every step keeps the invariant\<close>

lemma ctrl_inv_step:
  assumes "ctrl_inv s" shows "ctrl_inv (pipeline_step ev s)"
proof (cases ev)
  case (Add i k)
  show ?thesis
  proof (cases rule: client_add_cases [of i k s])
    case (refused n)
    with assms show ?thesis by (auto simp: ctrl_inv_def Add)
  next
    case (accepted sys)
    then have "pp_router s \<noteq> RouterDone" using assms by (auto simp: ctrl_inv_def)
    with accepted assms show ?thesis by (auto simp: ctrl_inv_def Add)
  qed
next
  case (Remove i k)
  show ?thesis
    by (rule client_remove_cases [of s i k]) (use assms in \<open>auto simp: ctrl_inv_def Remove\<close>)
next
  case RouterCtrl
  show ?thesis
  proof (cases "pp_router s = Routing \<and> mp_items (pp_ctrl s) \<noteq> []")
    case True
    then obtain m ms where m: "mp_items (pp_ctrl s) = m # ms" by (cases "mp_items (pp_ctrl s)") auto
    then show ?thesis using assms True
      by (cases m) (auto simp: ctrl_inv_def RouterCtrl router_ctrl_def Let_def update_conv' delete_conv'
          restrict_map_def split: option.splits if_splits)
  next
    case False
    then show ?thesis using assms by (auto simp: RouterCtrl router_ctrl_def split: list.splits)
  qed
next
  case (ForwardRecv f)
  then show ?thesis using assms by (force simp: ctrl_inv_def forward_recv_def split: list.splits)
next
  case (ForwardSend f)
  then show ?thesis using assms by (force simp: ctrl_inv_def forward_send_def split: forwarder.splits)
next
  case RouterJoin
  then show ?thesis using assms by (auto simp: ctrl_inv_def router_join_def)
qed (use assms in \<open>auto simp: ctrl_inv_def task_steps Let_def shutdown_all_sources_feeds_def
    split: list.splits option.splits router.splits fan_in.splits frame_priority.splits\<close>)

lemma clients_keep_stages:
  "\<exists>c sys src. client_add i k s = s\<lparr>pp_ctrl := c, pp_system := sys, pp_sources := src\<rparr>"
  "\<exists>c sys. client_remove i k s = s\<lparr>pp_ctrl := c, pp_system := sys\<rparr>"
  unfolding client_add_def client_remove_def by (auto split: prod.splits)

lemma stage_inv_step:
  assumes "stage_inv s" shows "stage_inv (pipeline_step ev s)"
proof (cases ev)
  case (Add i k)
  then show ?thesis using assms clients_keep_stages(1) [of i k s] by (auto simp: stage_inv_def)
next
  case (Remove i k)
  then show ?thesis using assms clients_keep_stages(2) [of i k s] by (auto simp: stage_inv_def)
qed (use assms in \<open>auto simp: stage_inv_def task_steps Let_def
    split: list.splits option.splits router.splits fan_in.splits frame_priority.splits source_msg.splits forwarder.splits\<close>)

lemma bounds_inv_step:
  assumes "bounds_inv s" shows "bounds_inv (pipeline_step ev s)"
proof (cases ev)
  case (Add i k)
  then show ?thesis using assms clients_keep_stages(1) [of i k s] by (auto simp: bounds_inv_def)
next
  case (Remove i k)
  then show ?thesis using assms clients_keep_stages(2) [of i k s] by (auto simp: bounds_inv_def)
next
  case (ForwardRecv f)
  then show ?thesis using assms
    by (auto simp: bounds_inv_def forward_recv_def split: list.splits) (metis Suc_leD length_Cons)
qed (use assms in \<open>auto simp: bounds_inv_def task_steps Let_def
    split: list.splits option.splits router.splits fan_in.splits frame_priority.splits source_msg.splits forwarder.splits\<close>)

lemma stats_inv_step:
  assumes "stats_inv s" shows "stats_inv (pipeline_step ev s)"
proof (cases ev)
  case (Add i k)
  then show ?thesis using assms clients_keep_stages(1) [of i k s] by (auto simp: stats_inv_def)
next
  case (Remove i k)
  then show ?thesis using assms clients_keep_stages(2) [of i k s] by (auto simp: stats_inv_def)
next
  case Process
  then show ?thesis using assms
    by (auto simp: stats_inv_def processer_fan_out_turn_def Let_def increment_frames_processed_def
        increment_emergency_count_def split: list.splits)
next
  case Archive
  obtain n where n: "ac_count (pp_archive s) = of_nat n"
    "n + ac_pending (pp_archive s) + ac_missed (pp_archive s) = length (pp_processed s)"
    using assms by (auto simp: stats_inv_def)
  let ?a = "archive_consumer_turn (\<not> pp_processing s) (pp_archive s)"
  have "\<exists>m. ac_count ?a = of_nat m \<and> m + ac_pending ?a + ac_missed ?a = length (pp_processed s)"
    using n by (cases "ac_pending (pp_archive s) > 0 \<and> ac_pending (pp_archive s) \<le> 128 \<and> \<not> ac_done (pp_archive s)")
      (auto simp: archive_consumer_turn_def intro: exI [of _ n] exI [of _ "Suc n"])
  moreover have "ac_done ?a \<longrightarrow> ac_pending ?a = 0 \<and> \<not> pp_processing s"
    using assms by (auto simp: archive_consumer_turn_def stats_inv_def)
  ultimately show ?thesis using assms by (auto simp: stats_inv_def Archive)
qed (use assms in \<open>auto simp: stats_inv_def task_steps Let_def
    split: list.splits option.splits router.splits fan_in.splits frame_priority.splits source_msg.splits forwarder.splits\<close>)

section \<open>Order\<close>

lemma order_mono:
  assumes "order_inv s" "pp_sent t = pp_sent s"
    and "\<And>f p. subseq (journey f p t) (journey f p s)"
    and "\<And>f p. routing t \<Longrightarrow> f \<notin> pp_aborted t \<Longrightarrow> routing s \<and> f \<notin> pp_aborted s \<and> journey f p t = journey f p s"
  shows "order_inv t"
proof -
  have "subseq (journey f p s) (of_priority p (pp_sent s f))" for f p
    using assms(1) unfolding order_inv_def by (cases "routing s \<and> f \<notin> pp_aborted s") auto
  then have "subseq (journey f p t) (of_priority p (pp_sent t f))" for f p
    using subseq_order.trans [OF assms(3) [of f p]] assms(2) by simp
  moreover have "journey f p t = of_priority p (pp_sent t f)" if "routing t" "f \<notin> pp_aborted t" for f p
    using assms(1,2) assms(4) [OF that, of p] by (auto simp: order_inv_def)
  ultimately show ?thesis unfolding order_inv_def by auto
qed

lemma order_same:
  assumes "order_inv s" "pp_sent t = pp_sent s" "\<And>f p. journey f p t = journey f p s"
    and "pp_aborted t = pp_aborted s" "routing t \<Longrightarrow> routing s"
  shows "order_inv t"
  by (rule order_mono [OF assms(1,2)]) (use assms(3-5) in auto)

lemma order_client_feed:
  assumes "order_inv s" shows "order_inv (client_feed i prio payload s)"
proof (cases "client_feed i prio payload s = s")
  case False
  then obtain feed frame where t: "client_feed i prio payload s =
      s\<lparr>pp_feeds := (pp_feeds s)(feed := pp_feeds s feed @ [frame]),
        pp_sent := (pp_sent s)(feed := pp_sent s feed @ [frame])\<rparr>"
    by (auto simp: client_feed_def split: option.splits if_splits)
  let ?t = "client_feed i prio payload s"
  have "journey f p ?t = journey f p s @ (if f = feed then of_priority p [frame] else [])"
    "of_priority p (pp_sent ?t f) = of_priority p (pp_sent s f) @ (if f = feed then of_priority p [frame] else [])" for f p
    unfolding t by (simp_all add: journey_defs)
  moreover have "routing ?t = routing s" "pp_aborted ?t = pp_aborted s" unfolding t by (simp_all add: routing_def)
  ultimately show ?thesis using assms by (auto simp: order_inv_def subseq_append)
qed (use assms in simp)

lemma order_router_ctrl:
  assumes "order_inv s" "ctrl_inv s" shows "order_inv (router_ctrl s)"
proof (cases "pp_router s = Routing \<and> mp_items (pp_ctrl s) \<noteq> []")
  case True
  then obtain m ms where m: "mp_items (pp_ctrl s) = m # ms" by (cases "mp_items (pp_ctrl s)") auto
  show ?thesis
  proof (cases m)
    case (AddSource i k feed)
    then have "pp_forward s feed = NoTask" using assms(2) m by (simp add: ctrl_inv_def)
    then show ?thesis using True m AddSource
      by (intro order_same [OF assms(1)]) (auto simp: router_ctrl_def journey_defs routing_def split: if_splits)
  next
    case (RemoveSource i k)
    show ?thesis
    proof (rule order_mono [OF assms(1)])
      show "subseq (journey f p (router_ctrl s)) (journey f p s)" for f p
        using True m RemoveSource
        by (auto simp: router_ctrl_def journey_defs Let_def subseq_append' intro: subseq_rev_drop_many subseq_drop_many split: option.splits if_splits)
    qed (use True m RemoveSource in
      \<open>auto simp: router_ctrl_def journey_defs routing_def Let_def split: option.splits if_splits\<close>)
  qed
next
  case False
  then show ?thesis using assms by (auto simp: router_ctrl_def split: list.splits if_splits)
qed

lemma order_forward:
  assumes "order_inv s" shows "order_inv (forward_recv f s)" "order_inv (forward_send f s)"
proof -
  show "order_inv (forward_recv f s)"
    by (rule order_same [OF assms])
      (auto simp: forward_recv_def journey_defs routing_def split: list.splits if_splits)
  show "order_inv (forward_send f s)"
  proof (cases "pp_router s = RouterDone")
    case True
    show ?thesis
      by (rule order_mono [OF assms])
        (use True in \<open>auto simp: forward_send_def journey_defs routing_def split: forwarder.splits if_splits\<close>)
  next
    case False
    show ?thesis
      by (rule order_same [OF assms])
        (use False in \<open>auto simp: forward_send_def journey_defs routing_def split: forwarder.splits if_splits\<close>)
  qed
qed

lemma of_feed_none: "\<forall>x \<in> set xs. tm_priority (snd x) = q \<Longrightarrow> q \<noteq> p \<Longrightarrow> of_feed f p xs = []"
  by (auto simp: of_feed_def filter_empty_conv)

lemma order_router:
  assumes "order_inv s" "stage_inv s"
  shows "order_inv (router_take s)" "order_inv (router_push s)" "order_inv (router_shutdown s)" "order_inv (router_join s)"
proof -
  show "order_inv (router_take s)"
    by (rule order_same [OF assms(1)]) (auto simp: router_take_def journey_defs routing_def split: list.splits if_splits)
  show "order_inv (router_push s)"
  proof (cases "router_push s = s")
    case False
    then obtain x where r: "pp_router s = RouterSend x" by (auto simp: router_push_def split: router.splits)
    then have "pp_fan s \<noteq> FanDone" using assms(2) by (auto simp: stage_inv_def)
    with r False have t: "router_push s =
        (case tm_priority (snd x) of
           Emergency \<Rightarrow> s\<lparr>pp_emerg := pp_emerg s @ [x], pp_router := Routing\<rparr>
         | Routine \<Rightarrow> s\<lparr>pp_routine := pp_routine s @ [x], pp_router := Routing\<rparr>)"
      by (simp add: router_push_def split: frame_priority.splits if_splits)
    have none: "of_feed f Emergency (pp_routine s) = []" for f
      using assms(2) by (intro of_feed_none [of _ Routine]) (auto simp: stage_inv_def)
    have "journey f p (router_push s) = journey f p s" for f p
      using r none by (cases "tm_priority (snd x)"; cases p) (simp_all add: t journey_defs)
    then show ?thesis
      by (rule order_same [OF assms(1), rotated]) (simp_all add: t routing_def r split: frame_priority.splits)
  qed (use assms in simp)
  show "order_inv (router_shutdown s)"
    by (rule order_mono [OF assms(1)]) (auto simp: router_shutdown_def journey_defs routing_def split: if_splits)
  show "order_inv (router_join s)"
  proof (cases "router_join s = s")
    case False
    then have r: "pp_router s = JoiningFeeds" by (auto simp: router_join_def split: if_splits)
    have t: "routed (router_join s) = handed_on s @ pp_routine s" "routed s = handed_on s @ pp_routine s @ pp_internal s"
      "task_held f (router_join s) = task_held f s" "pp_router (router_join s) = RouterDone"
      "pp_sent (router_join s) = pp_sent s"
      "pp_feeds (router_join s) f = pp_feeds s f \<or> pp_feeds (router_join s) f = []" for f
      using False r
      by (simp_all add: router_join_def routed_def handed_on_def fan_held_def router_held_def task_held_def split: if_splits)
    have "subseq (journey f p (router_join s)) (journey f p s)" for f p
      using t(6) [of f] unfolding journey_def t(1-3)
      by (auto simp: subseq_append' intro: subseq_rev_drop_many subseq_drop_many)
    then show ?thesis using t(4,5) by (intro order_mono [OF assms(1)]) (simp_all add: routing_def)
  qed (use assms in simp)
qed

lemma order_fan_in:
  assumes "order_inv s" "stage_inv s"
  shows "order_inv (priority_fan_in_take s)" "order_inv (priority_fan_in_push s)" "order_inv (processer_fan_out_turn s)"
proof -
  show "order_inv (priority_fan_in_take s)"
    by (rule order_same [OF assms(1)])
      (auto simp: priority_fan_in_take_def journey_defs routing_def split: list.splits if_splits)
  show "order_inv (priority_fan_in_push s)"
    by (rule order_same [OF assms(1)])
      (use assms(2) in \<open>auto simp: priority_fan_in_push_def journey_defs routing_def stage_inv_def split: fan_in.splits if_splits\<close>)
  show "order_inv (processer_fan_out_turn s)"
    by (rule order_same [OF assms(1)])
      (auto simp: processer_fan_out_turn_def journey_defs routing_def Let_def split: list.splits if_splits)
qed

lemma order_inv_step:
  assumes "order_inv s" "stage_inv s" "ctrl_inv s" shows "order_inv (pipeline_step ev s)"
proof (cases ev)
  case (Add i k)
  obtain c sys src where "client_add i k s = s\<lparr>pp_ctrl := c, pp_system := sys, pp_sources := src\<rparr>"
    using clients_keep_stages(1) by blast
  then show ?thesis using Add by (intro order_same [OF assms(1)]) (auto simp: journey_defs routing_def split: if_splits)
next
  case (Remove i k)
  obtain c sys where "client_remove i k s = s\<lparr>pp_ctrl := c, pp_system := sys\<rparr>"
    using clients_keep_stages(2) by blast
  then show ?thesis using Remove by (intro order_same [OF assms(1)]) (auto simp: journey_defs routing_def split: if_splits)
next
  case ShutdownFeeds
  then show ?thesis by (intro order_same [OF assms(1)]) (auto simp: journey_defs routing_def split: if_splits)
next
  case (DropSenders f)
  then show ?thesis by (intro order_same [OF assms(1)]) (auto simp: drop_senders_def journey_defs routing_def split: if_splits)
next
  case Archive
  then show ?thesis by (intro order_same [OF assms(1)]) (auto simp: journey_defs routing_def split: if_splits)
qed (simp_all add: assms order_client_feed order_router_ctrl order_forward order_router order_fan_in)

section \<open>Reachable states\<close>

definition pipe_inv :: "pipeline \<Rightarrow> bool" where
  "pipe_inv s \<longleftrightarrow> ctrl_inv s \<and> stage_inv s \<and> bounds_inv s \<and> stats_inv s \<and> order_inv s"

lemma pipe_inv_new: "pipe_inv (pipeline_run_new n)"
  by (simp add: pipe_inv_def ctrl_inv_def stage_inv_def bounds_inv_def stats_inv_def order_inv_def journey_defs
      pipeline_run_new_def channel_def pipeline_stats_new_def archive_new_def)

lemma pipe_inv_step: "pipe_inv s \<Longrightarrow> pipe_inv (pipeline_step ev s)"
  by (simp add: pipe_inv_def ctrl_inv_step stage_inv_step bounds_inv_step stats_inv_step order_inv_step)

lemma pipe_inv_run: "pipe_inv s \<Longrightarrow> pipe_inv (pipeline_run evs s)"
  by (induction evs s rule: pipeline_run.induct) (simp_all add: pipe_inv_step)

lemmas pipe_inv_reachable = pipe_inv_run [OF pipe_inv_new]




section \<open>The registry\<close>

lemma length_update_known: "map_of al k = Some v \<Longrightarrow> length (AList.update k w al) = length al"
  by (induction al) (auto split: if_splits)

lemma length_update_new: "map_of al k = None \<Longrightarrow> length (AList.update k w al) = length al + 1"
  by (induction al) (auto split: if_splits)

lemma length_update_less: "map_of al k \<noteq> None \<or> length al < n \<Longrightarrow> length al \<le> n \<Longrightarrow> length (AList.update k w al) \<le> n"
  by (cases "map_of al k") (auto simp: length_update_known length_update_new)

definition registry_inv :: "telemetry_state \<Rightarrow> bool" where
  "registry_inv s \<longleftrightarrow> distinct (map fst (ts_uplink s)) \<and> distinct (map fst (ts_replay s)) \<and>
     length (ts_uplink s) \<le> 48 \<and> length (ts_replay s) \<le> 2"

lemma registry_inv_add:
  assumes "registry_inv s" "add_source i k c s = (r, c', s')" shows "registry_inv s'"
proof -
  have ts: "ts_uplink s' = ts_uplink s \<and> ts_replay s' = ts_replay s \<or>
    (map_of (ts_uplink s) i \<noteq> None \<or> length (ts_uplink s) < 48) \<and>
      (\<exists>x. ts_uplink s' = AList.update i x (ts_uplink s)) \<and> ts_replay s' = ts_replay s \<or>
    (map_of (ts_replay s) i \<noteq> None \<or> length (ts_replay s) < 2) \<and>
      (\<exists>x. ts_replay s' = AList.update i x (ts_replay s)) \<and> ts_uplink s' = ts_uplink s"
    using assms(2) by (auto simp: add_source_def Let_def split: if_splits option.splits source_kind.splits)
  then show ?thesis using assms(1)
    by (elim disjE conjE exE) (simp_all add: registry_inv_def distinct_update length_update_less)
qed

lemma length_delete_le: "length (AList.delete k al) \<le> length al"
  by (induction al) auto

lemma registry_inv_remove:
  assumes "registry_inv s" "remove_source i k c s = (c', s')" shows "registry_inv s'"
proof -
  have "ts_uplink s' = AList.delete i (ts_uplink s) \<and> ts_replay s' = ts_replay s \<or>
    ts_replay s' = AList.delete i (ts_replay s) \<and> ts_uplink s' = ts_uplink s"
    using assms(2) by (cases k) (auto simp: remove_source_def Let_def split: option.splits)
  then show ?thesis using assms(1) length_delete_le [of i "ts_uplink s"] length_delete_le [of i "ts_replay s"]
    by (elim disjE conjE) (auto simp: registry_inv_def distinct_delete)
qed

lemma registry_inv_step: "registry_inv (pp_system s) \<Longrightarrow> registry_inv (pp_system (pipeline_step ev s))"
proof (cases ev)
  case (Add i k)
  assume "registry_inv (pp_system s)"
  then show ?thesis using Add registry_inv_add [of "pp_system s" i k "pp_ctrl s"]
    by (auto simp: client_add_def split: prod.splits option.splits)
next
  case (Remove i k)
  assume "registry_inv (pp_system s)"
  then show ?thesis using Remove registry_inv_remove [of "pp_system s" i k "pp_ctrl s"]
    by (auto simp: client_remove_def split: prod.splits)
qed (auto simp: task_steps Let_def shutdown_all_sources_feeds_def registry_inv_def
    split: list.splits option.splits router.splits fan_in.splits frame_priority.splits source_msg.splits forwarder.splits)

lemma registry_inv_run: "registry_inv (pp_system s) \<Longrightarrow> registry_inv (pp_system (pipeline_run evs s))"
  by (induction evs s rule: pipeline_run.induct) (simp_all add: registry_inv_step)

lemma registry_inv_reachable: "registry_inv (pp_system (pipeline_run evs (pipeline_run_new n)))"
  by (rule registry_inv_run) (simp add: pipeline_run_new_def system_new_def registry_inv_def)

section \<open>The guarantees\<close>

text \<open>C31: on every interleaving of clients, router, forwarding tasks, fan-in and processor, the frames of one feed
  and one priority are processed in the order they were fed and each at most once. While the feed is not removed
  and the router runs none is missing: those processed and those still on their way are exactly those fed.\<close>

theorem pipeline_frames_in_order:
  assumes "s = pipeline_run evs (pipeline_run_new n)"
  shows "subseq (of_feed f p (pp_processed s)) (of_priority p (pp_sent s f)) \<and>
    (routing s \<and> f \<notin> pp_aborted s \<longrightarrow> journey f p s = of_priority p (pp_sent s f))"
proof -
  have inv: "order_inv s" using pipe_inv_reachable by (simp add: pipe_inv_def assms)
  have "subseq (journey f p s) (of_priority p (pp_sent s f))"
    using inv unfolding order_inv_def by (cases "routing s \<and> f \<notin> pp_aborted s") auto
  moreover have "subseq (of_feed f p (pp_processed s)) (journey f p s)"
    by (simp add: journey_defs subseq_rev_drop_many)
  ultimately show ?thesis using inv by (auto simp: order_inv_def intro: subseq_order.trans)
qed

text \<open>The witness feeds two frames to one source and follows the first to the processor.\<close>

definition sample_pipeline_events :: "pipeline_event list" where
  "sample_pipeline_events = [Add 7 LiveUplink, RouterCtrl, Feed 0 Routine [1], Feed 0 Routine [2], ForwardRecv 0,
     ForwardSend 0, RouterTake, RouterPush, FanTake, FanPush, Process, ForwardRecv 0]"

theorem pipeline_frames_in_order_witness:
  "let s = pipeline_run sample_pipeline_events (pipeline_run_new 4)
   in map tm_payload (of_feed 0 Routine (pp_processed s)) = [[1]] \<and>
     map tm_payload (journey 0 Routine s) = [[1], [2]]"
proof -
  let ?s = "pipeline_run sample_pipeline_events (pipeline_run_new 4)"
  have s: "pp_router ?s = Routing" "pp_aborted ?s = {}" "map tm_payload (of_priority Routine (pp_sent ?s 0)) = [[1], [2]]"
    "map tm_payload (of_feed 0 Routine (pp_processed ?s)) = [[1]]"
    by code_simp+
  then show ?thesis
    using pipeline_frames_in_order [OF refl, where evs = sample_pipeline_events and n = 4 and f = 0 and p = Routine]
    by (simp add: Let_def routing_def del: pipeline_run.simps)
qed




text \<open>no channel exceeds its capacity on any interleaving, the counters agree with what was processed, and
  every processed frame is counted by the archive, was reported to it as missed, or still waits for it.\<close>

lemma pipeline_accounts:
  "let s = pipeline_run evs (pipeline_run_new n); a = pp_archive s
   in length (pp_feeds s f) \<le> 16 \<and> length (pp_internal s) \<le> 512 \<and> length (pp_emerg s) \<le> 32 \<and>
     length (pp_routine s) \<le> 128 \<and> length (pp_process s) \<le> 64 \<and>
     frames_processed (pp_stats s) = of_nat (length (pp_processed s)) \<and>
     emergency_count (pp_stats s) =
       of_nat (length (filter (\<lambda>x. tm_priority (snd x) = Emergency) (pp_processed s))) \<and>
     ac_count a + of_nat (ac_pending a + ac_missed a) = of_nat (length (pp_processed s))"
proof -
  let ?s = "pipeline_run evs (pipeline_run_new n)"
  have inv: "bounds_inv ?s" "stats_inv ?s" using pipe_inv_reachable by (simp_all add: pipe_inv_def)
  then obtain m where "ac_count (pp_archive ?s) = of_nat m"
    "m + (ac_pending (pp_archive ?s) + ac_missed (pp_archive ?s)) = length (pp_processed ?s)"
    by (auto simp: stats_inv_def add.assoc)
  then have "ac_count (pp_archive ?s) + of_nat (ac_pending (pp_archive ?s) + ac_missed (pp_archive ?s)) =
      of_nat (length (pp_processed ?s))"
    by (metis of_nat_add)
  with inv show ?thesis by (simp add: Let_def bounds_inv_def stats_inv_def)
qed

text \<open>The registry never holds more than 48 uplinks and 2 replays, one source for an id of each kind. A
  source is refused exactly when the control channel does not take its message or when either table is full
  and does not know the id, whatever the kind of the new source: 48 uplinks shut out every new replay, and
  2 replays every new uplink.\<close>

lemma telemetry_sources_bounded:
  "let s = pp_system (pipeline_run evs (pipeline_run_new n))
   in system_len s \<le> 50 \<and> length (ts_uplink s) \<le> 48 \<and> length (ts_replay s) \<le> 2 \<and>
     distinct (map fst (ts_uplink s)) \<and> distinct (map fst (ts_replay s)) \<and>
     (fst (add_source i k c s) = None \<longleftrightarrow>
       map_of (ts_uplink s) i = None \<and> length (ts_uplink s) = 48 \<or>
       map_of (ts_replay s) i = None \<and> length (ts_replay s) = 2 \<or>
       try_send (AddSource i k (ts_next_feed s)) c = None)"
proof -
  let ?s = "pp_system (pipeline_run evs (pipeline_run_new n))"
  have inv: "registry_inv ?s" by (rule registry_inv_reachable)
  have "fst (add_source i k c ?s) = None \<longleftrightarrow>
      map_of (ts_uplink ?s) i = None \<and> 48 \<le> length (ts_uplink ?s) \<or>
      map_of (ts_replay ?s) i = None \<and> 2 \<le> length (ts_replay ?s) \<or>
      try_send (AddSource i k (ts_next_feed ?s)) c = None"
    by (auto simp: add_source_def Let_def split: source_kind.splits option.splits)
  with inv show ?thesis by (simp add: Let_def registry_inv_def system_len_def antisym_conv)
qed

end
