(* ===== verification/Ground_Station_Client.thy ===== *)
theory Ground_Station_Client imports Length_Framing begin

text \<open>
  The clients of module 4: \<^verbatim>\<open>project4/gs_client.rs\<close> with its session, its reconnection loop and the fetch of
  orbital elements, and the HTTP client of \<^verbatim>\<open>part3/reqwest_client.rs\<close>. What the network answers is an argument: the
  result of each request, of each connection attempt and of each read. Times are in milliseconds; \<open>millis\<close> is
  the millisecond part of the clock, from which the jitter is taken.
\<close>

section \<open>Requests with retries\<close>

datatype net_error = ConnectError | TimeoutError | OtherError string

text \<open>A response carries its status, its \<^verbatim>\<open>Retry-After\<close> header if it parses, and what decoding the body gives.\<close>

datatype 'r http_result = Response nat "nat option" "string + 'r" | RequestFailed net_error

datatype 'r fetch_end =
  Fetched 'r | DecodeFailed string | HttpError nat | RateLimited | ServerErrors nat | NetworkError net_error

definition is_success :: "nat \<Rightarrow> bool" where
  "is_success status \<longleftrightarrow> 200 \<le> status \<and> status < 300"

definition is_server_error :: "nat \<Rightarrow> bool" where
  "is_server_error status \<longleftrightarrow> 500 \<le> status \<and> status < 600"

definition is_connect_or_timeout :: "net_error \<Rightarrow> bool" where
  "is_connect_or_timeout e \<longleftrightarrow> e = ConnectError \<or> e = TimeoutError"

definition decode :: "string + 'r \<Rightarrow> 'r fetch_end" where
  "decode body = (case body of Inl e \<Rightarrow> DecodeFailed e | Inr r \<Rightarrow> Fetched r)"

definition gs_backoff_delay :: "nat \<Rightarrow> nat \<Rightarrow> nat" where
  "gs_backoff_delay attempt millis = 2 ^ (min attempt 5) * 1000 + millis mod 1000"

definition http_backoff_delay :: "nat \<Rightarrow> nat \<Rightarrow> nat" where
  "http_backoff_delay attempt millis = 2 ^ (min attempt 3) * 1000 + millis mod 1000"

text \<open>\<open>fetch_tle\<close> and \<open>get_tle\<close>: the answer to the \<open>k\<close>-th request is \<open>resp k\<close>. The result comes with the delays
  slept.\<close>

definition slept :: "nat \<Rightarrow> 'r fetch_end \<times> nat list \<Rightarrow> 'r fetch_end \<times> nat list" where
  "slept delay x = (fst x, delay # snd x)"

function fetch_tle :: "(nat \<Rightarrow> 'r http_result) \<Rightarrow> (nat \<Rightarrow> nat) \<Rightarrow> nat \<Rightarrow> 'r fetch_end \<times> nat list" where
  "fetch_tle resp millis attempt =
     (let attempt = attempt + 1; delay = gs_backoff_delay attempt (millis attempt)
      in case resp attempt of
           Response status _ body \<Rightarrow>
             if is_success status then (decode body, [])
             else if is_server_error status \<and> attempt < 3 then slept delay (fetch_tle resp millis attempt)
             else (HttpError status, [])
         | RequestFailed e \<Rightarrow>
             if is_connect_or_timeout e \<and> attempt < 3 then slept delay (fetch_tle resp millis attempt)
             else (NetworkError e, []))"
  by pat_completeness auto
termination by (relation "measure (\<lambda>(_, _, attempt). 3 - attempt)") auto

declare fetch_tle.simps [simp del]

function get_tle :: "(nat \<Rightarrow> 'r http_result) \<Rightarrow> (nat \<Rightarrow> nat) \<Rightarrow> nat \<Rightarrow> 'r fetch_end \<times> nat list" where
  "get_tle resp millis attempt =
     (let attempt = attempt + 1; delay = http_backoff_delay attempt (millis attempt)
      in case resp attempt of
           Response status _ body \<Rightarrow>
             if is_success status then (decode body, [])
             else if is_server_error status \<and> attempt < 3 then slept delay (get_tle resp millis attempt)
             else (HttpError status, [])
         | RequestFailed e \<Rightarrow>
             if is_connect_or_timeout e \<and> attempt < 3 then slept delay (get_tle resp millis attempt)
             else (NetworkError e, []))"
  by pat_completeness auto
termination by (relation "measure (\<lambda>(_, _, attempt). 3 - attempt)") auto

declare get_tle.simps [simp del]

function fetch_with_retry ::
    "nat \<Rightarrow> (nat \<Rightarrow> 'r http_result) \<Rightarrow> (nat \<Rightarrow> nat) \<Rightarrow> nat \<Rightarrow> 'r fetch_end \<times> nat list" where
  "fetch_with_retry max_attempts resp millis attempt =
     (let attempt = attempt + 1; backoff = http_backoff_delay attempt (millis attempt)
      in case resp attempt of
           Response status header body \<Rightarrow>
             if is_success status then (decode body, [])
             else if status = 429 then
               (let retry_after = (case header of Some n \<Rightarrow> n | None \<Rightarrow> 0);
                    delay = (if retry_after > 0 then retry_after * 1000 else backoff)
                in if attempt \<ge> max_attempts then (RateLimited, [])
                   else slept delay (fetch_with_retry max_attempts resp millis attempt))
             else if is_server_error status then
               (if attempt \<ge> max_attempts then (ServerErrors max_attempts, [])
                else slept backoff (fetch_with_retry max_attempts resp millis attempt))
             else (HttpError status, [])
         | RequestFailed e \<Rightarrow>
             if is_connect_or_timeout e then
               (if attempt \<ge> max_attempts then (NetworkError e, [])
                else slept backoff (fetch_with_retry max_attempts resp millis attempt))
             else (NetworkError e, []))"
  by pat_completeness auto
termination by (relation "measure (\<lambda>(max_attempts, _, _, attempt). max_attempts - attempt)") auto

declare fetch_with_retry.simps [simp del]

text \<open>The single requests: \<^verbatim>\<open>error_for_status\<close> refuses the statuses from 400 to 599.\<close>

definition error_for_status :: "'r http_result \<Rightarrow> ('r fetch_end) + (string + 'r)" where
  "error_for_status r = (case r of
      Response status _ body \<Rightarrow> if 400 \<le> status \<and> status < 600 then Inl (HttpError status) else Inr body
    | RequestFailed e \<Rightarrow> Inl (NetworkError e))"

definition http_fetch_tle :: "'r http_result \<Rightarrow> 'r fetch_end" where
  "http_fetch_tle r = (case error_for_status r of Inl e \<Rightarrow> e | Inr body \<Rightarrow> decode body)"

definition get_tle_batch :: "('r list) http_result \<Rightarrow> ('r list) fetch_end" where
  "get_tle_batch r = (case error_for_status r of Inl e \<Rightarrow> e | Inr body \<Rightarrow> decode body)"

definition post_conjunction :: "unit http_result \<Rightarrow> unit fetch_end" where
  "post_conjunction r = (case error_for_status r of Inl e \<Rightarrow> e | Inr _ \<Rightarrow> Fetched ())"

definition post_alert :: "unit http_result \<Rightarrow> unit fetch_end" where
  "post_alert r = (case error_for_status r of Inl e \<Rightarrow> e | Inr _ \<Rightarrow> Fetched ())"

section \<open>The session\<close>

record tle_record =
  tle_norad_id :: u32
  tle_name :: string
  tle_line1 :: string
  tle_line2 :: string

record client_config =
  cc_station_id :: string
  cc_norad_id :: u32

record gs_frame =
  gf_station_id :: string
  gf_tle :: "tle_record option"
  gf_payload :: bytes

datatype session_state =
  Connecting nat | SessionConnected nat | Reconnecting nat | Disconnecting | Failed string | SessionStopped

definition session_state_init :: session_state where
  "session_state_init = SessionStopped"

text \<open>What the session shares: the latest elements (a watch channel, which refuses values when the monitor is
  gone), the frame channel of 256 places and what its receiver took from it; \<open>ss_dropped\<close> records the frames
  the full channel refused.\<close>

record session =
  ss_tle :: "tle_record option"
  ss_monitored :: bool
  ss_queue :: "gs_frame list"
  ss_received :: "gs_frame list"
  ss_dropped :: "gs_frame list"
  ss_out :: out_stream

datatype session_event =
    SessionRead "read_error + bytes option" | SessionTimeout | SessionShutdown bool
  | TleTick "tle_record fetch_end" | FrameReceived

datatype session_end = SessionOpen | SessionTimedOut | SessionPeerClosed | SessionReadError read_error | SessionGoodbye

definition tle_refresh :: "tle_record fetch_end \<Rightarrow> session \<Rightarrow> session" where
  "tle_refresh r s = (case r of Fetched tle \<Rightarrow> if ss_monitored s then s\<lparr>ss_tle := Some tle\<rparr> else s | _ \<Rightarrow> s)"

definition send_frame :: "string \<Rightarrow> bytes \<Rightarrow> session \<Rightarrow> session" where
  "send_frame station_id payload s =
     (let frame = \<lparr>gf_station_id = station_id, gf_tle = ss_tle s, gf_payload = payload\<rparr>
      in if length (ss_queue s) < 256 then s\<lparr>ss_queue := ss_queue s @ [frame]\<rparr>
         else s\<lparr>ss_dropped := ss_dropped s @ [frame]\<rparr>)"

definition frame_receiver_turn :: "session \<Rightarrow> session" where
  "frame_receiver_turn s = (case ss_queue s of
      [] \<Rightarrow> s | frame # rest \<Rightarrow> s\<lparr>ss_queue := rest, ss_received := ss_received s @ [frame]\<rparr>)"

definition ascii :: "string \<Rightarrow> bytes" where
  "ascii = map (\<lambda>c. of_nat (of_char c))"

text \<open>After the end of the loop the refresh task is told to stop and awaited: fetches under way still finish.\<close>

fun run_session :: "string \<Rightarrow> session_event list \<Rightarrow> session \<Rightarrow> session_end \<times> session" where
  "run_session station_id [] s = (SessionOpen, s)"
| "run_session station_id (SessionTimeout # evs) s = (SessionTimedOut, s)"
| "run_session station_id (SessionRead (Inr (Some payload)) # evs) s =
     run_session station_id evs (send_frame station_id payload s)"
| "run_session station_id (SessionRead (Inr None) # evs) s = (SessionPeerClosed, s)"
| "run_session station_id (SessionRead (Inl e) # evs) s = (SessionReadError e, s)"
| "run_session station_id (SessionShutdown b # evs) s =
     (if b then (SessionGoodbye, s\<lparr>ss_out := snd (write_frame (ascii ''GOODBYE'') (ss_out s))\<rparr>)
      else run_session station_id evs s)"
| "run_session station_id (TleTick r # evs) s = run_session station_id evs (tle_refresh r s)"
| "run_session station_id (FrameReceived # evs) s = run_session station_id evs (frame_receiver_turn s)"

definition stop_refresh :: "tle_record fetch_end list \<Rightarrow> session \<Rightarrow> session" where
  "stop_refresh fetches s = fold tle_refresh fetches s"

section \<open>Reconnection\<close>

text \<open>One iteration of the loop of \<^verbatim>\<open>run_client\<close>: the shutdown flag and the clock at its start; a connection with
  what happens in its session, the fetches that finish after it, the stream, the clock and the flag at its end.\<close>

record connected_session =
  cs_events :: "session_event list"
  cs_fetches :: "tle_record fetch_end list"
  cs_ended_at :: nat
  cs_shutdown_after :: bool

record client_turn =
  ct_shutdown :: bool
  ct_now :: nat
  ct_connect :: "connected_session option"
  ct_millis :: nat

datatype client_end = ClientRunning | ClientShutdown | WindowExceeded

datatype client_act = SentState session_state | SessionRan session_end | SleptFor nat

fun run_client ::
    "string \<Rightarrow> client_turn list \<Rightarrow> nat \<Rightarrow> nat \<Rightarrow> session \<Rightarrow> client_end \<times> client_act list \<times> session" where
  "run_client station_id [] attempt start_at s = (ClientRunning, [], s)"
| "run_client station_id (t # ts) attempt start_at s =
     (if ct_shutdown t then (ClientShutdown, [], s)
      else if ct_now t - start_at > 300 * 1000
      then (WindowExceeded, [SentState (Failed ''5-minute reconnect window exceeded'')], s)
      else
        (case ct_connect t of
           None \<Rightarrow>
             (let attempt' = attempt + 1;
                  (r, acts, s) = run_client station_id ts attempt' start_at s
              in (r, [SentState (Connecting attempt), SentState (Reconnecting attempt'),
                      SleptFor (gs_backoff_delay attempt' (ct_millis t))] @ acts, s))
         | Some c \<Rightarrow>
             (let (e, s) = run_session station_id (cs_events c) s;
                  s = stop_refresh (cs_fetches c) s;
                  before = [SentState (Connecting attempt), SentState (SessionConnected start_at), SessionRan e]
              in if cs_shutdown_after c then (ClientShutdown, before, s)
                 else
                   (let (r, acts, s) = run_client station_id ts 1 (cs_ended_at c) s
                    in (r, before @ [SentState (Reconnecting 1), SleptFor (gs_backoff_delay 1 (ct_millis t))] @ acts, s)))))"

end
