(* ===== verification/Ground_Station_Client_Correct.thy ===== *)
theory Ground_Station_Client_Correct imports Ground_Station_Client "HOL-Library.Multiset" begin

text \<open>
  The retry loops of module 4 as instances of one contract, the reconnection window of the ground station
  client, and what a session hands downstream.
\<close>

section \<open>Retry loops\<close>

text \<open>A loop that makes request \<open>a + 1\<close> and, while \<open>again\<close> holds of it and the limit is not reached, sleeps and
  goes on.\<close>

locale retry_loop =
  fixes loop :: "nat \<Rightarrow> 'r fetch_end \<times> nat list"
    and again :: "nat \<Rightarrow> bool"
    and verdict :: "nat \<Rightarrow> 'r fetch_end"
    and delay :: "nat \<Rightarrow> nat"
    and limit :: nat
  assumes turn: "loop a = (if again (a + 1) \<and> a + 1 < limit then slept (delay (a + 1)) (loop (a + 1))
    else (verdict (a + 1), []))"
begin

lemma loop_spec:
  "\<exists>k. a < k \<and> k \<le> max (a + 1) limit \<and> (\<forall>i. a < i \<and> i < k \<longrightarrow> again i) \<and> (again k \<longrightarrow> limit \<le> k) \<and>
     loop a = (verdict k, map delay [a + 1..<k])"
proof (induction "limit - a" arbitrary: a rule: less_induct)
  case less
  show ?case
  proof (cases "again (a + 1) \<and> a + 1 < limit")
    case True
    then have "limit - (a + 1) < limit - a" by linarith
    from less [OF this] obtain k where k: "a + 1 < k" "k \<le> max (a + 1 + 1) limit" "\<forall>i. a + 1 < i \<and> i < k \<longrightarrow> again i"
      "again k \<longrightarrow> limit \<le> k" "loop (a + 1) = (verdict k, map delay [a + 1 + 1..<k])"
      by blast
    have "loop a = (verdict k, delay (a + 1) # map delay [a + 1 + 1..<k])"
      using turn [of a] True k(5) by (simp add: slept_def)
    also have "\<dots> = (verdict k, map delay [a + 1..<k])" using k(1) by (simp add: upt_conv_Cons)
    finally have "loop a = (verdict k, map delay [a + 1..<k])" .
    moreover have "\<forall>i. a < i \<and> i < k \<longrightarrow> again i"
    proof (intro allI impI)
      fix i assume "a < i \<and> i < k"
      then show "again i" using True k(3) by (cases "i = a + 1") auto
    qed
    ultimately show ?thesis using True k by (intro exI [of _ k]) auto
  next
    case False
    then show ?thesis using turn [of a] by (intro exI [of _ "a + 1"]) (auto simp: not_less)
  qed
qed

end

text \<open>When \<open>fetch_tle\<close> and \<open>get_tle\<close> try again and what they return otherwise; the same for the general loop, which
  also waits on status 429.\<close>

definition transient :: "'r http_result \<Rightarrow> bool" where
  "transient r = (case r of Response status _ _ \<Rightarrow> is_server_error status | RequestFailed e \<Rightarrow> is_connect_or_timeout e)"

definition answer :: "'r http_result \<Rightarrow> 'r fetch_end" where
  "answer r = (case r of
      Response status _ body \<Rightarrow> if is_success status then decode body else HttpError status
    | RequestFailed e \<Rightarrow> NetworkError e)"

definition limited :: "'r http_result \<Rightarrow> bool" where
  "limited r = (case r of Response status _ _ \<Rightarrow> status = 429 | RequestFailed e \<Rightarrow> False)"

definition exhausted :: "nat \<Rightarrow> 'r http_result \<Rightarrow> 'r fetch_end" where
  "exhausted n r = (if limited r then RateLimited
     else case r of Response status _ body \<Rightarrow> if is_server_error status then ServerErrors n else answer r | _ \<Rightarrow> answer r)"

definition wait_ms :: "nat \<Rightarrow> nat \<Rightarrow> 'r http_result \<Rightarrow> nat" where
  "wait_ms attempt millis r = (case r of
      Response status (Some n) _ \<Rightarrow> if status = 429 \<and> 0 < n then n * 1000 else http_backoff_delay attempt millis
    | _ \<Rightarrow> http_backoff_delay attempt millis)"

lemmas retry_defs = transient_def answer_def limited_def exhausted_def wait_ms_def is_success_def is_server_error_def

interpretation fetch: retry_loop "fetch_tle resp millis" "\<lambda>k. transient (resp k)" "\<lambda>k. answer (resp k)"
  "\<lambda>k. gs_backoff_delay k (millis k)" 3 for resp millis
  by unfold_locales (subst fetch_tle.simps, auto simp: Let_def retry_defs split: http_result.splits)

interpretation get: retry_loop "get_tle resp millis" "\<lambda>k. transient (resp k)" "\<lambda>k. answer (resp k)"
  "\<lambda>k. http_backoff_delay k (millis k)" 3 for resp millis
  by unfold_locales (subst get_tle.simps, auto simp: Let_def retry_defs split: http_result.splits)

interpretation general: retry_loop "fetch_with_retry n resp millis" "\<lambda>k. transient (resp k) \<or> limited (resp k)"
  "\<lambda>k. exhausted n (resp k)" "\<lambda>k. wait_ms k (millis k) (resp k)" n for n resp millis
  by unfold_locales (subst fetch_with_retry.simps,
      auto simp: Let_def retry_defs not_le split: http_result.splits option.splits)

lemma same_last:
  fixes k k' :: nat
  assumes "a < k" "k \<le> n" "\<forall>i. a < i \<and> i < k \<longrightarrow> P i" "P k \<longrightarrow> n \<le> k"
    and "a < k'" "k' \<le> n" "\<forall>i. a < i \<and> i < k' \<longrightarrow> P i" "P k' \<longrightarrow> n \<le> k'"
  shows "k = k'"
proof (rule linorder_cases [of k k'])
  assume "k < k'"
  then have "P k" using assms(1,7) by blast
  then show ?thesis using assms(4,6) \<open>k < k'\<close> by simp
next
  assume "k' < k"
  then have "P k'" using assms(3,5) by blast
  then show ?thesis using assms(2,8) \<open>k' < k\<close> by simp
qed

text \<open>\<open>fetch_tle\<close> and \<open>get_tle\<close> make at most three requests, stop at the first answer that is neither a server
  error nor a failure to connect or a timeout, and then return the same; they sleep once between two requests, for
  at most 32 and 8 seconds and the jitter. The general loop makes at most \<open>max_attempts\<close> requests (one for 0),
  obeys \<^verbatim>\<open>Retry-After\<close> on status 429, and returns the answer to its last request.\<close>

lemma http_retry_policy:
  "(\<exists>k \<in> {1..3}. (\<forall>i \<in> {1..<k}. transient (resp i)) \<and> (transient (resp k) \<longrightarrow> k = 3) \<and>
      fetch_tle resp millis 0 = (answer (resp k), map (\<lambda>i. gs_backoff_delay i (millis i)) [1..<k]) \<and>
      get_tle resp millis 0 = (answer (resp k), map (\<lambda>i. http_backoff_delay i (millis i)) [1..<k])) \<and>
   (\<exists>k \<in> {1..max 1 n}. (\<forall>i \<in> {1..<k}. transient (resp i) \<or> limited (resp i)) \<and>
      (transient (resp k) \<or> limited (resp k) \<longrightarrow> n \<le> k) \<and>
      fetch_with_retry n resp millis 0 =
        (exhausted n (resp k), map (\<lambda>i. wait_ms i (millis i) (resp i)) [1..<k]))"
proof -
  obtain k where k: "0 < k" "k \<le> max (0 + 1) 3" "\<forall>i. 0 < i \<and> i < k \<longrightarrow> transient (resp i)"
    "transient (resp k) \<longrightarrow> 3 \<le> k"
    "fetch_tle resp millis 0 = (answer (resp k), map (\<lambda>i. gs_backoff_delay i (millis i)) [0 + 1..<k])"
    using fetch.loop_spec [of 0 resp millis] by blast
  obtain k' where k': "0 < k'" "k' \<le> max (0 + 1) 3" "\<forall>i. 0 < i \<and> i < k' \<longrightarrow> transient (resp i)"
    "transient (resp k') \<longrightarrow> 3 \<le> k'"
    "get_tle resp millis 0 = (answer (resp k'), map (\<lambda>i. http_backoff_delay i (millis i)) [0 + 1..<k'])"
    using get.loop_spec [of 0 resp millis] by blast
  have "k = k'"
    by (rule same_last [of 0 k 3 "\<lambda>i. transient (resp i)"]) (use k k' in simp_all)
  then have "\<exists>k \<in> {1..3}. (\<forall>i \<in> {1..<k}. transient (resp i)) \<and> (transient (resp k) \<longrightarrow> k = 3) \<and>
      fetch_tle resp millis 0 = (answer (resp k), map (\<lambda>i. gs_backoff_delay i (millis i)) [1..<k]) \<and>
      get_tle resp millis 0 = (answer (resp k), map (\<lambda>i. http_backoff_delay i (millis i)) [1..<k])"
    using k k' by (intro bexI [of _ k]) auto
  moreover obtain l where "0 < l" "l \<le> max (0 + 1) n" "\<forall>i. 0 < i \<and> i < l \<longrightarrow> transient (resp i) \<or> limited (resp i)"
    "transient (resp l) \<or> limited (resp l) \<longrightarrow> n \<le> l"
    "fetch_with_retry n resp millis 0 =
      (exhausted n (resp l), map (\<lambda>i. wait_ms i (millis i) (resp i)) [0 + 1..<l])"
    using general.loop_spec [of 0 n resp millis] by blast
  then have "\<exists>k \<in> {1..max 1 n}. (\<forall>i \<in> {1..<k}. transient (resp i) \<or> limited (resp i)) \<and>
      (transient (resp k) \<or> limited (resp k) \<longrightarrow> n \<le> k) \<and>
      fetch_with_retry n resp millis 0 =
        (exhausted n (resp k), map (\<lambda>i. wait_ms i (millis i) (resp i)) [1..<k])"
    by (intro bexI [of _ l]) auto
  ultimately show ?thesis by blast
qed

text \<open>The witness answers with 503 and then with a body.\<close>

section \<open>The reconnection window\<close>

text \<open>The clock of consecutive turns whose connections fail: each starts no earlier than the sleep before it ends.\<close>

fun clock_ok :: "nat \<Rightarrow> nat \<Rightarrow> client_turn list \<Rightarrow> bool" where
  "clock_ok now attempt [] \<longleftrightarrow> True"
| "clock_ok now attempt (t # ts) \<longleftrightarrow> now \<le> ct_now t \<and>
     clock_ok (ct_now t + gs_backoff_delay (attempt + 1) (ct_millis t)) (attempt + 1) ts"

definition least_sleep :: "nat \<Rightarrow> nat \<Rightarrow> nat" where
  "least_sleep attempt m = (\<Sum>i\<leftarrow>[attempt + 1..<attempt + 1 + m]. 2 ^ min i 5 * 1000)"

lemma least_sleep_Suc: "least_sleep attempt (Suc m) = 2 ^ min (attempt + 1) 5 * 1000 + least_sleep (attempt + 1) m"
  by (simp add: least_sleep_def upt_conv_Cons del: upt_Suc)

definition attempts_made :: "client_act list \<Rightarrow> nat" where
  "attempts_made acts = length (filter (\<lambda>a. \<exists>n. a = SentState (Connecting n)) acts)"

lemma window_closes:
  assumes "clock_ok now attempt ts" "\<forall>t \<in> set ts. ct_connect t = None \<and> \<not> ct_shutdown t" "m < length ts"
    and "start_at + 300000 < now + least_sleep attempt m"
  shows "\<exists>acts. run_client station_id ts attempt start_at s = (WindowExceeded, acts, s) \<and> attempts_made acts \<le> m \<and>
    acts \<noteq> [] \<and> last acts = SentState (Failed ''5-minute reconnect window exceeded'')"
  using assms
proof (induction m arbitrary: now attempt ts)
  case 0
  then obtain t ts' where "ts = t # ts'" by (cases ts) auto
  with 0 show ?case by (auto simp: least_sleep_def attempts_made_def)
next
  case (Suc m)
  then obtain t ts' where ts: "ts = t # ts'" by (cases ts) auto
  show ?case
  proof (cases "ct_now t - start_at > 300 * 1000")
    case True
    with Suc.prems(2) show ?thesis by (simp add: ts attempts_made_def)
  next
    case False
    let ?now = "ct_now t + gs_backoff_delay (attempt + 1) (ct_millis t)"
    have "2 ^ min (attempt + 1) 5 * 1000 \<le> gs_backoff_delay (attempt + 1) (ct_millis t)"
      by (simp add: gs_backoff_delay_def)
    then have "start_at + 300000 < ?now + least_sleep (attempt + 1) m"
      using Suc.prems(1,4) unfolding ts least_sleep_Suc by (simp only: clock_ok.simps) linarith
    then obtain acts where acts: "run_client station_id ts' (attempt + 1) start_at s = (WindowExceeded, acts, s)"
      "attempts_made acts \<le> m" "acts \<noteq> []" "last acts = SentState (Failed ''5-minute reconnect window exceeded'')"
      using Suc.IH [of ?now "attempt + 1" ts'] Suc.prems(1-3) by (auto simp: ts)
    let ?turn = "[SentState (Connecting attempt), SentState (Reconnecting (attempt + 1)),
      SleptFor (gs_backoff_delay (attempt + 1) (ct_millis t))]"
    have "ct_connect t = None" "\<not> ct_shutdown t" using Suc.prems(2) by (simp_all add: ts)
    then have "run_client station_id ts attempt start_at s = (WindowExceeded, ?turn @ acts, s)"
      using False acts(1) by (simp add: ts Let_def)
    moreover have "last (?turn @ acts) = SentState (Failed ''5-minute reconnect window exceeded'')"
      using acts(3,4) by simp
    moreover have "attempts_made (?turn @ acts) \<le> Suc m" using acts(2) by (simp add: attempts_made_def)
    ultimately show ?thesis by (intro exI [of _ "?turn @ acts"]) simp
  qed
qed

text \<open>C33: a client that cannot connect gives up: when every attempt fails, no shutdown comes and the clock runs, the
  doubling of the delay up to 32 seconds lets it make at most 13 attempts before the window of five minutes is
  exceeded and it reports \<^verbatim>\<open>Failed\<close>.\<close>

theorem client_gives_up:
  assumes "\<forall>t \<in> set ts. ct_connect t = None \<and> \<not> ct_shutdown t" "clock_ok start_at 0 ts" "14 \<le> length ts"
  shows "\<exists>acts. run_client station_id ts 0 start_at s = (WindowExceeded, acts, s) \<and> attempts_made acts \<le> 13 \<and>
    last acts = SentState (Failed ''5-minute reconnect window exceeded'')"
proof -
  have "least_sleep 0 13 = 318000" by (simp add: least_sleep_def upt_rec)
  then have "start_at + 300000 < start_at + least_sleep 0 13" by simp
  from window_closes [OF assms(2,1) _ this] assms(3) show ?thesis by auto
qed

text \<open>The witness: fourteen turns at the times the delays allow at the earliest.\<close>

definition failing_turns :: "client_turn list" where
  "failing_turns = map (\<lambda>now. \<lparr>ct_shutdown = False, ct_now = now, ct_connect = None, ct_millis = 0\<rparr>)
     [0, 2000, 6000, 14000, 30000, 62000, 94000, 126000, 158000, 190000, 222000, 254000, 286000, 318000]"

theorem client_gives_up_witness:
  "\<forall>s. \<exists>acts. run_client ''gs-1'' failing_turns 0 0 s = (WindowExceeded, acts, s) \<and> attempts_made acts \<le> 13 \<and>
    last acts = SentState (Failed ''5-minute reconnect window exceeded'')"
proof (rule allI, rule client_gives_up)
  show "clock_ok 0 0 failing_turns" by (simp add: failing_turns_def gs_backoff_delay_def)
qed (simp_all add: failing_turns_def)

section \<open>What a session hands downstream\<close>

text \<open>The payloads a session reads before it ends.\<close>

fun session_payloads :: "session_event list \<Rightarrow> bytes list" where
  "session_payloads [] = []"
| "session_payloads (SessionRead (Inr (Some payload)) # evs) = payload # session_payloads evs"
| "session_payloads (TleTick r # evs) = session_payloads evs"
| "session_payloads (FrameReceived # evs) = session_payloads evs"
| "session_payloads (SessionShutdown b # evs) = (if b then [] else session_payloads evs)"
| "session_payloads (ev # evs) = []"

definition accepted :: "session \<Rightarrow> gs_frame list" where
  "accepted s = ss_received s @ ss_queue s"

definition accounted :: "session \<Rightarrow> bytes multiset" where
  "accounted s = mset (map gf_payload (accepted s @ ss_dropped s))"

lemma accounted_steps:
  "accounted (frame_receiver_turn s) = accounted s" "accounted (tle_refresh r s) = accounted s"
  "accounted (send_frame station_id payload s) = add_mset payload (accounted s)" "accounted (s\<lparr>ss_out := w\<rparr>) = accounted s"
  by (simp_all add: accounted_def accepted_def frame_receiver_turn_def tle_refresh_def send_frame_def Let_def
      split: list.splits fetch_end.splits)

lemma session_accounts:
  "run_session station_id evs s = (e, s') \<Longrightarrow> accounted s' = accounted s + mset (session_payloads evs)"
  by (induction station_id evs s rule: run_session.induct) (auto simp: accounted_steps split: if_splits)

end
