(* ===== verification/Lru_Data.thy ===== *)
theory Lru_Data imports Lru_Runs begin

text \<open>
  The data of the LRU pool of part2 while the file calls work. A pool \<open>holds\<close> a list of pages when a client who
  fetches page \<open>n\<close> sees the entry \<open>n\<close>: from the frame that caches it, or else from the file. Fetches of pages that
  exist, evictions, allocations and flushes keep the list or append to it; only a modify through a handle changes an entry.
\<close>

section \<open>A file of whole pages\<close>

definition pf_slice :: "page_file \<Rightarrow> nat \<Rightarrow> bytes" where
  "pf_slice pf n = bslice (n * PAGE_SIZE) PAGE_SIZE (file_bytes (pf_os pf) (pf_path pf))"

definition pf_shape :: "nat \<Rightarrow> page_file \<Rightarrow> bool" where
  "pf_shape k pf \<longleftrightarrow> os_faults (pf_os pf) = [] \<and> pf_page_size pf = PAGE_SIZE \<and>
     length (file_bytes (pf_os pf) (pf_path pf)) = k * PAGE_SIZE \<and> k < 2 ^ 32"

definition pf_ok :: "(bytes \<Rightarrow> u32) \<Rightarrow> nat \<Rightarrow> page_file \<Rightarrow> bool" where
  "pf_ok crc k pf \<longleftrightarrow> pf_shape k pf \<and> (\<forall>n < k. page_valid crc (pf_slice pf n))"

lemma page_end_le: "(n :: nat) < k \<Longrightarrow> n * PAGE_SIZE + PAGE_SIZE \<le> k * PAGE_SIZE"
  using mult_le_mono1 [of "Suc n" k PAGE_SIZE] by simp

lemma pf_offset_eq: "pf_page_size pf = PAGE_SIZE \<Longrightarrow> pf_offset pf n = Some (unat n * PAGE_SIZE)"
  using page_offset_u64 [of "\<lparr>relation_id = 0, page_no = n\<rparr>"] by (simp add: pf_offset_def page_offset_def)

lemma pf_seek_ok: "os_faults (pf_os pf) = [] \<Longrightarrow> pf_seek off pf = (Inr (), pf\<lparr>pf_pos := off\<rparr>)"
  by (simp add: pf_seek_def take_fault_none)

lemma pf_seek_pos [simp]: "pf_ok crc k (pf\<lparr>pf_pos := q\<rparr>) = pf_ok crc k pf" "pf_slice (pf\<lparr>pf_pos := q\<rparr>) = pf_slice pf"
  by (simp_all add: pf_ok_def pf_shape_def pf_slice_def fun_eq_iff)

lemma pf_read_page_there:
  assumes "pf_ok crc k pf" "unat n < k" "length b = PAGE_SIZE"
  shows "pf_read_and_verify_page crc n b pf = Some (Inr (), pf_slice pf (unat n), pf\<lparr>pf_pos := unat n * PAGE_SIZE + PAGE_SIZE\<rparr>)"
proof -
  have f: "os_faults (pf_os pf) = []" and ps: "pf_page_size pf = PAGE_SIZE" and v: "page_valid crc (pf_slice pf (unat n))"
    using assms(1,2) by (simp_all add: pf_ok_def pf_shape_def)
  have len: "length (pf_slice pf (unat n)) = PAGE_SIZE" using v by (simp add: page_valid_def)
  have rd: "pf_read_page n b pf = Some (Inr (), pf_slice pf (unat n), pf\<lparr>pf_pos := unat n * PAGE_SIZE + PAGE_SIZE\<rparr>)"
    using len assms(3) by (simp add: pf_read_page_def ps pf_offset_eq pf_seek_ok f pf_read_exact_def os_read_exact_at_def
        take_fault_none overwrite_def Let_def pf_slice_def [symmetric] del: length_slice)
  have "slice_opt 13 17 (pf_slice pf (unat n)) = Some (bslice 13 4 (pf_slice pf (unat n)))"
    using len by (simp add: slice_opt_def PAGE_SIZE_def)
  moreover have "compute_checksum crc (pf_slice pf (unat n)) = Some (crc (drop PAGE_HEADER_SIZE (pf_slice pf (unat n))))"
    using len by (intro compute_checksum_eq) (simp add: PAGE_SIZE_def)
  ultimately show ?thesis
    using v by (simp add: pf_read_and_verify_page_def rd page_valid_def)
qed

lemma page_nonempty: "0 < PAGE_SIZE" "PAGE_SIZE \<noteq> 0"
  by (simp_all add: PAGE_SIZE_def)

text \<open>Behind the end of the file a read moves nothing.\<close>

lemma pf_read_page_behind:
  assumes "pf_ok crc k pf" "k \<le> unat n" "length b = PAGE_SIZE"
  shows "pf_read_and_verify_page crc n b pf = Some (Inl UnexpectedEof, b, pf\<lparr>pf_pos := unat n * PAGE_SIZE + PAGE_SIZE\<rparr>)"
proof -
  have f: "os_faults (pf_os pf) = []" and ps: "pf_page_size pf = PAGE_SIZE"
    and "length (file_bytes (pf_os pf) (pf_path pf)) = k * PAGE_SIZE" using assms(1) by (simp_all add: pf_ok_def pf_shape_def)
  then have "bslice (unat n * PAGE_SIZE) PAGE_SIZE (file_bytes (pf_os pf) (pf_path pf)) = []"
    using assms(2) by (simp add: bslice_def)
  then show ?thesis
    using assms(3)
    by (simp add: pf_read_and_verify_page_def pf_read_page_def ps pf_offset_eq pf_seek_ok f pf_read_exact_def os_read_exact_at_def
        take_fault_none overwrite_def Let_def page_nonempty del: length_slice)
qed

definition pf_put :: "nat \<Rightarrow> bytes \<Rightarrow> page_file \<Rightarrow> page_file" where
  "pf_put n b pf = pf\<lparr>pf_os := (pf_os pf)\<lparr>os_files := (os_files (pf_os pf))(pf_path pf \<mapsto>
     patch (n * PAGE_SIZE) b (file_bytes (pf_os pf) (pf_path pf)))\<rparr>, pf_pos := n * PAGE_SIZE + PAGE_SIZE\<rparr>"

lemma pf_write_page_there:
  assumes ok: "pf_shape k pf" and valid: "\<And>m. m < k \<Longrightarrow> m \<noteq> unat n \<Longrightarrow> page_valid crc (pf_slice pf m)"
    and n: "unat n < k" and b: "length b = PAGE_SIZE"
  shows "pf_write_page_with_checksum crc n b pf = Some (Inr (), seal_page crc b, pf_put (unat n) (seal_page crc b) pf)"
    "pf_ok crc k (pf_put (unat n) (seal_page crc b) pf)"
    "m < k \<Longrightarrow> pf_slice (pf_put (unat n) (seal_page crc b) pf) m = (if m = unat n then seal_page crc b else pf_slice pf m)"
proof -
  let ?s = "seal_page crc b" and ?f = "file_bytes (pf_os pf) (pf_path pf)"
  have f: "os_faults (pf_os pf) = []" and ps: "pf_page_size pf = PAGE_SIZE" and len: "length ?f = k * PAGE_SIZE" "k < 2 ^ 32"
    using ok by (simp_all add: pf_shape_def)
  note s = seal_page_simps [OF b, of crc]
  have c: "compute_checksum crc b = Some (crc (drop PAGE_HEADER_SIZE b))"
    "overwrite_opt 13 (u32_to_le (crc (drop PAGE_HEADER_SIZE b))) b = Some ?s"
    using b by (auto intro!: compute_checksum_eq simp: overwrite_opt_def seal_page_def sealed_def PAGE_SIZE_def)
  let ?pf = "pf_put (unat n) ?s pf"
  have new: "file_bytes (pf_os ?pf) (pf_path ?pf) = patch (unat n * PAGE_SIZE) ?s ?f" by (simp add: file_bytes_def pf_put_def)
  have pf: "pf_page_size ?pf = PAGE_SIZE" "os_faults (pf_os ?pf) = []" using f ps by (simp_all add: pf_put_def)
  show "pf_write_page_with_checksum crc n b pf = Some (Inr (), ?s, ?pf)"
    using c s(1) by (simp add: pf_write_page_with_checksum_def pf_write_page_def ps pf_offset_eq pf_seek_ok f pf_write_all_def
        os_write_all_at_def take_fault_none pf_put_def)
  have "?s \<noteq> []" using s(1) by (auto simp: PAGE_SIZE_def)
  then have len': "length (patch (unat n * PAGE_SIZE) ?s ?f) = k * PAGE_SIZE"
    using page_end_le [OF n] s(1) len by (simp add: length_patch)
  have sl: "pf_slice ?pf m = (if m = unat n then ?s else pf_slice pf m)" if m: "m < k" for m
  proof (cases "m = unat n")
    case True
    then show ?thesis using patch_same [OF s(1)] unfolding pf_slice_def new by simp
  next
    case False
    have "m * PAGE_SIZE + PAGE_SIZE \<le> unat n * PAGE_SIZE \<or> unat n * PAGE_SIZE + PAGE_SIZE \<le> m * PAGE_SIZE"
      using False page_end_le [of m "unat n"] page_end_le [of "unat n" m] by (cases "m < unat n") auto
    then show ?thesis
      using False page_end_le [OF m] len s(1) unfolding pf_slice_def new by (simp add: patch_other)
  qed
  then show "m < k \<Longrightarrow> pf_slice ?pf m = (if m = unat n then ?s else pf_slice pf m)" .
  show "pf_ok crc k ?pf" unfolding pf_ok_def pf_shape_def new pf using sl valid s(3) len' len(2) by auto
qed

section \<open>A new page\<close>

text \<open>The part of \<^verbatim>\<open>allocate_page\<close> under the lock of the page file; the fetch that follows takes the lock of the state.\<close>

definition lru_new_page :: "(bytes \<Rightarrow> u32) \<Rightarrow> page_type \<Rightarrow> lru_pool \<Rightarrow> ((io_error + u32) \<times> lru_pool) option" where
  "lru_new_page crc t p = do {
     (n, pf) \<leftarrow> pf_allocate_page (l_page_file p);
     (case n of
        Inl e \<Rightarrow> Some (Inl e, p\<lparr>l_page_file := pf\<rparr>)
      | Inr page_id \<Rightarrow> do {
          d \<leftarrow> header1_serialize (header1_new page_id t) (replicate PAGE_SIZE 0);
          (r, _, pf) \<leftarrow> pf_write_page_with_checksum crc page_id d pf;
          (case r of
             Inl e \<Rightarrow> Some (Inl e, p\<lparr>l_page_file := pf\<rparr>)
           | Inr _ \<Rightarrow> Some (Inr page_id, p\<lparr>l_page_file := pf\<rparr>))
        })
   }"

lemma lru_allocate_split:
  "lru_allocate_page crc t p = do {
     (r, p) \<leftarrow> lru_new_page crc t p;
     (case r of Inl e \<Rightarrow> Some (Inl e, p) | Inr page_id \<Rightarrow> lru_fetch_page crc page_id p)
   }"
  by (auto simp: lru_allocate_page_def lru_new_page_def split: Option.bind_split sum.splits)

definition fresh_page :: "u32 \<Rightarrow> page_type \<Rightarrow> bytes" where
  "fresh_page n t = (case header1_serialize (header1_new n t) (replicate PAGE_SIZE 0) of Some d \<Rightarrow> d | None \<Rightarrow> [])"

lemma fresh_page_Some:
  "header1_serialize (header1_new n t) (replicate PAGE_SIZE 0) = Some (fresh_page n t)" "length (fresh_page n t) = PAGE_SIZE"
  using header1_runs [of "header1_new n t"] by (auto simp: fresh_page_def header1_new_def)

lemma lru_new_page_ok:
  assumes ok: "pf_ok crc k (l_page_file p)" and k: "k + 1 < 2 ^ 32"
  obtains pf where "lru_new_page crc t p = Some (Inr (of_nat k), p\<lparr>l_page_file := pf\<rparr>)" "pf_ok crc (k + 1) pf"
    "\<And>m. m < k + 1 \<Longrightarrow> pf_slice pf m = (if m = k then seal_page crc (fresh_page (of_nat k) t) else pf_slice (l_page_file p) m)"
proof -
  let ?pf = "l_page_file p"
  let ?f = "file_bytes (pf_os ?pf) (pf_path ?pf)" and ?z = "replicate PAGE_SIZE (0 :: u8)"
  have f: "os_faults (pf_os ?pf) = []" and ps: "pf_page_size ?pf = PAGE_SIZE" and len: "length ?f = k * PAGE_SIZE"
    and valid: "\<And>m. m < k \<Longrightarrow> page_valid crc (pf_slice ?pf m)"
    using ok by (simp_all add: pf_ok_def pf_shape_def)
  define pf1 where "pf1 = ?pf\<lparr>pf_os := (pf_os ?pf)\<lparr>os_files := (os_files (pf_os ?pf))(pf_path ?pf \<mapsto> patch (k * PAGE_SIZE) ?z ?f)\<rparr>,
    pf_pos := k * PAGE_SIZE + PAGE_SIZE\<rparr>"
  have new: "file_bytes (pf_os pf1) (pf_path pf1) = patch (k * PAGE_SIZE) ?z ?f" by (simp add: pf1_def file_bytes_def)
  have a: "pf_allocate_page ?pf = Some (Inr (of_nat k), pf1)"
    using page_nonempty by (simp add: pf_allocate_page_def len pf_seek_ok f ps Let_def pf_write_all_def os_write_all_at_def
        take_fault_none pf1_def)
  have "?z \<noteq> []" using page_nonempty by auto
  then have shape: "pf_shape (k + 1) pf1"
    using k f ps len by (simp add: pf_shape_def new length_patch) (simp add: pf1_def)
  have old: "pf_slice pf1 m = pf_slice ?pf m" if "m < k" for m
    using that len page_end_le [OF that] unfolding pf_slice_def new by (simp add: patch_other)
  have uk: "unat (of_nat k :: u32) = k" using k by (simp add: unat_of_nat)
  have v: "page_valid crc (pf_slice pf1 m)" if "m < k + 1" "m \<noteq> unat (of_nat k :: u32)" for m
    using that valid [of m] old [of m] by (simp add: uk)
  have "unat (of_nat k :: u32) < k + 1" by (simp add: uk)
  from pf_write_page_there [OF shape v this fresh_page_Some(2) [of "of_nat k" t]] obtain pf where
    w: "pf_write_page_with_checksum crc (of_nat k) (fresh_page (of_nat k) t) pf1 =
      Some (Inr (), seal_page crc (fresh_page (of_nat k) t), pf)" "pf_ok crc (k + 1) pf"
    "\<And>m. m < k + 1 \<Longrightarrow> pf_slice pf m = (if m = k then seal_page crc (fresh_page (of_nat k) t) else pf_slice pf1 m)"
    unfolding uk by blast
  have "lru_new_page crc t p = Some (Inr (of_nat k), p\<lparr>l_page_file := pf\<rparr>)"
    by (simp add: lru_new_page_def a fresh_page_Some(1) w(1))
  then show thesis using that w(2,3) old by simp
qed

section \<open>What a pool holds\<close>

text \<open>\<open>lru_cached\<close> says it of a pool in which the frame \<open>free\<close>, if any, belongs to nobody.\<close>

definition lru_cached :: "(bytes \<Rightarrow> u32) \<Rightarrow> bytes list \<Rightarrow> nat option \<Rightarrow> lru_pool \<Rightarrow> bool" where
  "lru_cached crc pages free p \<longleftrightarrow> lru_wf p \<and> pf_ok crc (length pages) (l_page_file p) \<and>
     (\<forall>i < length (l_frames p). \<forall>n. Some i \<noteq> free \<longrightarrow> lf_page_id (l_frames p ! i) = Some n \<longrightarrow> l_page_table p n = Some i) \<and>
     (\<forall>n i. l_page_table p n = Some i \<longrightarrow>
        unat n < length pages \<and> Some i \<noteq> free \<and> masked (lf_data (l_frames p ! i)) = pages ! unat n) \<and>
     (\<forall>n. unat n < length pages \<longrightarrow> (\<forall>i. l_page_table p n = Some i \<longrightarrow> \<not> lf_is_dirty (l_frames p ! i)) \<longrightarrow>
        masked (pf_slice (l_page_file p) (unat n)) = pages ! unat n)"

abbreviation lru_holds :: "(bytes \<Rightarrow> u32) \<Rightarrow> bytes list \<Rightarrow> lru_pool \<Rightarrow> bool" where
  "lru_holds crc pages p \<equiv> lru_cached crc pages None p"

lemma lru_cachedD:
  assumes "lru_cached crc pages free p"
  shows "lru_wf p" "pf_ok crc (length pages) (l_page_file p)"
    and "i < length (l_frames p) \<Longrightarrow> Some i \<noteq> free \<Longrightarrow> lf_page_id (l_frames p ! i) = Some n \<Longrightarrow> l_page_table p n = Some i"
    and "l_page_table p n = Some i \<Longrightarrow> unat n < length pages \<and> Some i \<noteq> free \<and> masked (lf_data (l_frames p ! i)) = pages ! unat n"
    and "l_page_table p n = Some i \<Longrightarrow> i < length (l_frames p) \<and> lf_page_id (l_frames p ! i) = Some n"
    and "unat n < length pages \<Longrightarrow> (\<And>i. l_page_table p n = Some i \<Longrightarrow> \<not> lf_is_dirty (l_frames p ! i)) \<Longrightarrow>
      masked (pf_slice (l_page_file p) (unat n)) = pages ! unat n"
    and "i < length (l_frames p) \<Longrightarrow> length (lf_data (l_frames p ! i)) = PAGE_SIZE"
proof -
  show wf: "lru_wf p" "pf_ok crc (length pages) (l_page_file p)" using assms by (simp_all add: lru_cached_def)
  show "l_page_table p n = Some i \<Longrightarrow> i < length (l_frames p) \<and> lf_page_id (l_frames p ! i) = Some n"
    "i < length (l_frames p) \<Longrightarrow> length (lf_data (l_frames p ! i)) = PAGE_SIZE" using wf(1) by (simp_all add: lru_wf_def)
qed (use assms in \<open>unfold lru_cached_def, blast+\<close>)

lemma lru_cachedI:
  assumes "lru_wf p" "pf_ok crc (length pages) (l_page_file p)"
    and "\<And>i n. i < length (l_frames p) \<Longrightarrow> Some i \<noteq> free \<Longrightarrow> lf_page_id (l_frames p ! i) = Some n \<Longrightarrow> l_page_table p n = Some i"
    and "\<And>n i. l_page_table p n = Some i \<Longrightarrow> unat n < length pages"
    and "\<And>n i. l_page_table p n = Some i \<Longrightarrow> Some i \<noteq> free"
    and "\<And>n i. l_page_table p n = Some i \<Longrightarrow> masked (lf_data (l_frames p ! i)) = pages ! unat n"
    and "\<And>n. unat n < length pages \<Longrightarrow> (\<And>i. l_page_table p n = Some i \<Longrightarrow> \<not> lf_is_dirty (l_frames p ! i)) \<Longrightarrow>
      masked (pf_slice (l_page_file p) (unat n)) = pages ! unat n"
  shows "lru_cached crc pages free p"
  using assms unfolding lru_cached_def by blast

lemma evict_holds:
  assumes h: "lru_holds crc pages p" and i: "i < length (l_frames p)"
  obtains q where "l_write_back crc i p = Some (Inr (), q)" "lru_cached crc pages (Some i) q"
    "length (l_frames q) = length (l_frames p)" "\<And>n. l_page_table p n = None \<Longrightarrow> l_page_table q n = None"
proof -
  let ?f = "l_frames p ! i"
  note wf = lru_cachedD(1) [OF h] and fl = lru_cachedD(2) [OF h] and own = lru_cachedD(3) [OF h] and tab = lru_cachedD(4,5) [OF h]
    and clean = lru_cachedD(6) [OF h]
  have at: "l_frame i p = Some ?f" using i by (simp add: l_frame_iff)
  obtain r q where q: "l_write_back crc i p = Some (r, q)" "lru_wf q" "lru_keeps p q"
    using l_write_back_keeps [OF wf i, of crc] by metis
  have len: "length (l_frames q) = length (l_frames p)" using q(3) by (simp add: lru_keeps_def)
  show thesis
  proof (cases "lf_page_id ?f")
    case None
    have "j \<noteq> i" if "l_page_table p n = Some j" for n j using tab(2) [OF that] None by auto
    then have "lru_cached crc pages (Some i) p" using h unfolding lru_cached_def by blast
    then show thesis using that [of p] None at by (simp add: l_write_back_def)
  next
    case (Some old)
    have old: "l_page_table p old = Some i" "unat old < length pages" "masked (lf_data ?f) = pages ! unat old"
      using own [OF i _ Some] tab(1) by simp_all
    have other: "l_page_table p n = Some j \<Longrightarrow> j = i \<Longrightarrow> n = old" for n j using tab(2) Some by fastforce
    show thesis
    proof (cases "lf_is_dirty ?f")
      case False
      let ?q = "p\<lparr>l_page_table := (l_page_table p)(old := None)\<rparr>"
      have w: "l_write_back crc i p = Some (Inr (), ?q)" using at Some False by (simp add: l_write_back_def)
      then have wf': "lru_wf ?q" using q(1,2) by simp
      have tq: "l_page_table p n = Some j \<and> n \<noteq> old" if "l_page_table ?q n = Some j" for n j
        using that by (simp split: if_splits)
      have "lru_cached crc pages (Some i) ?q"
      proof (rule lru_cachedI)
        fix j n assume "j < length (l_frames ?q)" "Some j \<noteq> Some i" "lf_page_id (l_frames ?q ! j) = Some n"
        then show "l_page_table ?q n = Some j" using own [of j n] old(1) by auto
      next
        fix n assume n: "unat n < length pages" "\<And>j. l_page_table ?q n = Some j \<Longrightarrow> \<not> lf_is_dirty (l_frames ?q ! j)"
        have "\<not> lf_is_dirty (l_frames p ! j)" if "l_page_table p n = Some j" for j
          using n(2) [of j] that old(1) False by (cases "n = old") auto
        then show "masked (pf_slice (l_page_file ?q) (unat n)) = pages ! unat n" using clean n(1) by simp
      next
        fix n j assume "l_page_table ?q n = Some j"
        note n = tq [OF this]
        show "unat n < length pages" "masked (lf_data (l_frames ?q ! j)) = pages ! unat n" using tab(1) n by simp_all
        show "Some j \<noteq> Some i" using other n by blast
      qed (use wf' fl in simp_all)
      then show thesis using that [OF w] by simp
    next
      case True
      have b: "length (lf_data ?f) = PAGE_SIZE" using lru_cachedD(7) [OF h i] .
      have shape: "pf_shape (length pages) (l_page_file p)"
        and valid: "\<And>m. m < length pages \<Longrightarrow> page_valid crc (pf_slice (l_page_file p) m)" using fl by (simp_all add: pf_ok_def)
      obtain pf where w: "pf_write_page_with_checksum crc old (lf_data ?f) (l_page_file p) = Some (Inr (), seal_page crc (lf_data ?f), pf)"
        "pf_ok crc (length pages) pf"
        "\<And>m. m < length pages \<Longrightarrow> pf_slice pf m = (if m = unat old then seal_page crc (lf_data ?f) else pf_slice (l_page_file p) m)"
        using pf_write_page_there [OF shape valid old(2) b] by blast
      define t where "t = (l_set i (?f\<lparr>lf_data := seal_page crc (lf_data ?f)\<rparr>) (p\<lparr>l_page_file := pf\<rparr>))\<lparr>l_page_table := (l_page_table p)(old := None)\<rparr>"
      have wb: "l_write_back crc i p = Some (Inr (), t)" using at Some True w(1) by (simp add: l_write_back_def t_def)
      then have wf': "lru_wf t" using q(1,2) by simp
      have t: "l_page_table t = (l_page_table p)(old := None)" "l_page_file t = pf" "length (l_frames t) = length (l_frames p)"
        "\<And>j. j \<noteq> i \<Longrightarrow> l_frames t ! j = l_frames p ! j" using i by (simp_all add: t_def l_set_def)
      have "lru_cached crc pages (Some i) t"
      proof (rule lru_cachedI)
        fix n assume n: "unat n < length pages" "\<And>j. l_page_table t n = Some j \<Longrightarrow> \<not> lf_is_dirty (l_frames t ! j)"
        show "masked (pf_slice (l_page_file t) (unat n)) = pages ! unat n"
        proof (cases "n = old")
          case True
          then show ?thesis using w(3) old(2,3) seal_page_simps(2) [OF b] by (simp add: t)
        next
          case False
          have "\<not> lf_is_dirty (l_frames p ! j)" if "l_page_table p n = Some j" for j
            using n(2) [of j] that False other [OF that] t by (cases "j = i") auto
          then show ?thesis using clean n(1) w(3) False by (simp add: t unat_inj_iff)
        qed
      next
        fix j n assume "j < length (l_frames t)" "Some j \<noteq> Some i" "lf_page_id (l_frames t ! j) = Some n"
        then show "l_page_table t n = Some j" using own [of j n] t old(1) by auto
      next
        fix n j assume "l_page_table t n = Some j"
        then have n: "n \<noteq> old" "l_page_table p n = Some j" by (auto simp: t split: if_splits)
        then have "j \<noteq> i" using other by blast
        then show "Some j \<noteq> Some i" "masked (lf_data (l_frames t ! j)) = pages ! unat n"
          using tab(1) [OF n(2)] t(4) by simp_all
        show "unat n < length pages" using tab(1) [OF n(2)] by simp
      qed (use wf' w(2) in \<open>simp_all add: t\<close>)
      then show thesis using that [OF wb] t by simp
    qed
  qed
qed

section \<open>What the operations do to it\<close>

lemma lru_holds_same:
  assumes h: "lru_holds crc pages p" and "lru_wf q" "l_page_table q = l_page_table p" "l_page_file q = l_page_file p"
    and same: "length (l_frames q) = length (l_frames p)"
      "\<And>j. j < length (l_frames p) \<Longrightarrow> lf_page_id (l_frames q ! j) = lf_page_id (l_frames p ! j) \<and>
         lf_data (l_frames q ! j) = lf_data (l_frames p ! j) \<and> lf_is_dirty (l_frames q ! j) = lf_is_dirty (l_frames p ! j)"
  shows "lru_holds crc pages q"
proof (rule lru_cachedI)
  fix i n assume "i < length (l_frames q)" "Some i \<noteq> None" "lf_page_id (l_frames q ! i) = Some n"
  then show "l_page_table q n = Some i" using lru_cachedD(3) [OF h, of i n] assms by simp
next
  fix n i assume t: "l_page_table q n = Some i"
  then have "i < length (l_frames p)" using lru_cachedD(5) [OF h, of n i] assms by simp
  then show "unat n < length pages" "masked (lf_data (l_frames q ! i)) = pages ! unat n"
    using lru_cachedD(4) [OF h, of n i] assms t by simp_all
next
  fix n assume n: "unat n < length pages" "\<And>i. l_page_table q n = Some i \<Longrightarrow> \<not> lf_is_dirty (l_frames q ! i)"
  have "\<not> lf_is_dirty (l_frames p ! i)" if "l_page_table p n = Some i" for i
    using that n(2) [of i] assms lru_cachedD(5) [OF h that] by simp
  then show "masked (pf_slice (l_page_file q) (unat n)) = pages ! unat n" using lru_cachedD(6) [OF h n(1)] assms by simp
qed (use assms lru_cachedD(2) [OF h] in simp_all)

lemma find_evict_error: "find_evict_target p = Some (Inl e) \<Longrightarrow> e = OtherError ''buffer pool exhausted: all frames are pinned''"
  by (auto simp: find_evict_target_def split: Option.bind_splits option.splits)

lemma fetch_holds:
  assumes h: "lru_holds crc pages p" and n: "unat n < length pages" and room: "\<forall>f \<in> set (l_frames p). lf_pin_count f \<noteq> -1"
  obtains q i where "lru_fetch_page crc n p = Some (Inr \<lparr>hd_page_id = n, hd_frame = i\<rparr>, q)" "lru_holds crc pages q"
    | "lru_fetch_page crc n p = Some (Inl (OtherError ''buffer pool exhausted: all frames are pinned''), p)"
      "\<forall>f \<in> set (l_frames p). lf_pin_count f \<noteq> 0"
proof -
  note wf = lru_cachedD(1) [OF h]
  have wfq: "lru_wf q" if "lru_fetch_page crc n p = Some (r, q)" for r q
    by (rule lru_fetch_cases [OF wf room, of crc n]) (use that in auto)
  show thesis
  proof (cases "l_page_table p n")
    case (Some i)
    let ?f = "l_frames p ! i"
    have i: "i < length (l_frames p)" using lru_cachedD(5) [OF h Some] by simp
    then have pin: "lf_pin_count ?f \<noteq> -1" using room by simp
    define q where "q = move_to_front i (l_set i (?f\<lparr>lf_pin_count := lf_pin_count ?f + 1\<rparr>) p)"
    have f: "lru_fetch_page crc n p = Some (Inr \<lparr>hd_page_id = n, hd_frame = i\<rparr>, q)"
      using Some i pin by (simp add: lru_fetch_page_def pin_page_def l_frame_def q_def)
    have "lru_holds crc pages q"
      by (rule lru_holds_same [OF h wfq [OF f]]) (use i in \<open>auto simp: q_def move_to_front_def l_set_def nth_list_update\<close>)
    then show thesis using that(1) [OF f] by simp
  next
    case None
    from wf show thesis
    proof (cases rule: find_evict_cases)
      case (2 e)
      then show thesis using that(2) None find_evict_error [OF 2(1)] by (simp add: lru_fetch_page_def pin_page_def)
    next
      case (1 i newer older)
      obtain q where q: "l_write_back crc i p = Some (Inr (), q)" "lru_cached crc pages (Some i) q"
        "length (l_frames q) = length (l_frames p)" "\<And>n. l_page_table p n = None \<Longrightarrow> l_page_table q n = None"
        using evict_holds [OF h 1(2)] by blast
      have i: "i < length (l_frames q)" using 1(2) q(3) by simp
      obtain c where rd: "pf_read_and_verify_page crc n (lf_data (l_frames q ! i)) (l_page_file q) =
          Some (Inr (), pf_slice (l_page_file q) (unat n), (l_page_file q)\<lparr>pf_pos := c\<rparr>)"
        using pf_read_page_there [OF lru_cachedD(2) [OF q(2)] n lru_cachedD(7) [OF q(2) i]] by blast
      have got: "masked (pf_slice (l_page_file q) (unat n)) = pages ! unat n"
        using lru_cachedD(6) [OF q(2) n] q(4) [OF None] by simp
      define g where "g = (l_frames q ! i)\<lparr>lf_data := pf_slice (l_page_file q) (unat n), lf_page_id := Some n, lf_pin_count := 1, lf_is_dirty := False\<rparr>"
      define t where "t = move_to_front i ((l_set i g (q\<lparr>l_page_file := (l_page_file q)\<lparr>pf_pos := c\<rparr>\<rparr>))\<lparr>l_page_table := (l_page_table q)(n \<mapsto> i)\<rparr>)"
      have f: "lru_fetch_page crc n p = Some (Inr \<lparr>hd_page_id = n, hd_frame = i\<rparr>, t)"
        using None 1(1) q(1) i rd by (simp add: lru_fetch_page_def pin_page_def l_frame_def g_def t_def Let_def) (simp add: l_set_def)
      have t: "l_page_table t = (l_page_table q)(n \<mapsto> i)" "l_page_file t = (l_page_file q)\<lparr>pf_pos := c\<rparr>"
        "l_frames t ! j = (if j = i then g else l_frames q ! j)" "length (l_frames t) = length (l_frames q)" for j
        using i by (simp_all add: t_def move_to_front_def l_set_def)
      have "lru_holds crc pages t"
      proof (rule lru_cachedI)
        fix j m assume "j < length (l_frames t)" "Some j \<noteq> None" "lf_page_id (l_frames t ! j) = Some m"
        then show "l_page_table t m = Some j"
          using lru_cachedD(3) [OF q(2), of j m] q(4) [OF None] by (cases "j = i") (auto simp: t g_def)
      next
        fix m j assume "l_page_table t m = Some j"
        then have m: "m = n \<and> j = i \<or> m \<noteq> n \<and> l_page_table q m = Some j" by (auto simp: t split: if_splits)
        then show "unat m < length pages" using n lru_cachedD(4) [OF q(2)] by blast
        have "j \<noteq> i" if "l_page_table q m = Some j" using lru_cachedD(4) [OF q(2) that] by simp
        then show "masked (lf_data (l_frames t ! j)) = pages ! unat m"
          using m got lru_cachedD(4) [OF q(2), of m j] by (auto simp: t g_def)
      next
        fix m assume m: "unat m < length pages" "\<And>j. l_page_table t m = Some j \<Longrightarrow> \<not> lf_is_dirty (l_frames t ! j)"
        have "\<not> lf_is_dirty (l_frames q ! j)" if "l_page_table q m = Some j" for j
        proof -
          have "j \<noteq> i" "m \<noteq> n" using lru_cachedD(4) [OF q(2) that] q(4) [OF None] that by auto
          then show ?thesis using m(2) [of j] that by (simp add: t)
        qed
        then show "masked (pf_slice (l_page_file t) (unat m)) = pages ! unat m"
          using lru_cachedD(6) [OF q(2) m(1)] by (simp add: t)
      qed (use wfq [OF f] lru_cachedD(2) [OF q(2)] in \<open>simp_all add: t\<close>)
      then show thesis using that(1) [OF f] by simp
    qed
  qed
qed

lemma new_page_holds:
  assumes h: "lru_holds crc pages p" and k: "length pages + 1 < 2 ^ 32"
  obtains q where "lru_new_page crc t p = Some (Inr (of_nat (length pages)), q)"
    "lru_holds crc (pages @ [masked (fresh_page (of_nat (length pages)) t)]) q" "l_frames q = l_frames p"
proof -
  let ?k = "length pages" and ?d = "fresh_page (of_nat (length pages)) t"
  obtain pf where w: "lru_new_page crc t p = Some (Inr (of_nat ?k), p\<lparr>l_page_file := pf\<rparr>)" "pf_ok crc (?k + 1) pf"
    "\<And>m. m < ?k + 1 \<Longrightarrow> pf_slice pf m = (if m = ?k then seal_page crc ?d else pf_slice (l_page_file p) m)"
    using lru_new_page_ok [OF lru_cachedD(2) [OF h] k] by blast
  have ps: "pf_page_size pf = PAGE_SIZE" using w(2) by (simp add: pf_ok_def pf_shape_def)
  have seal: "masked (seal_page crc ?d) = masked ?d" using seal_page_simps(2) [OF fresh_page_Some(2)] .
  have "lru_holds crc (pages @ [masked ?d]) (p\<lparr>l_page_file := pf\<rparr>)"
  proof (rule lru_cachedI)
    show "lru_wf (p\<lparr>l_page_file := pf\<rparr>)" using set_file_keeps [OF lru_cachedD(1) [OF h] ps] by simp
    fix n i
    assume t: "l_page_table (p\<lparr>l_page_file := pf\<rparr>) n = Some i"
    then show "unat n < length (pages @ [masked ?d])" "masked (lf_data (l_frames (p\<lparr>l_page_file := pf\<rparr>) ! i)) = (pages @ [masked ?d]) ! unat n"
      using lru_cachedD(4) [OF h, of n i] by (simp_all add: nth_append)
  next
    fix n assume n: "unat n < length (pages @ [masked ?d])"
      "\<And>i. l_page_table (p\<lparr>l_page_file := pf\<rparr>) n = Some i \<Longrightarrow> \<not> lf_is_dirty (l_frames (p\<lparr>l_page_file := pf\<rparr>) ! i)"
    show "masked (pf_slice (l_page_file (p\<lparr>l_page_file := pf\<rparr>)) (unat n)) = (pages @ [masked ?d]) ! unat n"
      using n lru_cachedD(6) [OF h, of n] w(3) [of "unat n"] seal by (cases "unat n = ?k") (simp_all add: nth_append)
  qed (use w(2) lru_cachedD(3) [OF h] in simp_all)
  then show thesis using that w(1) by simp
qed

lemma modify_holds:
  assumes h: "lru_holds crc pages p" and i: "i < length (l_frames p)" "lf_page_id (l_frames p ! i) = Some n" and d: "length d = PAGE_SIZE"
  shows "lru_holds crc (pages[unat n := masked d]) (l_set i ((l_frames p ! i)\<lparr>lf_data := d, lf_is_dirty := True\<rparr>) p)"
    (is "lru_holds crc _ ?q")
proof (rule lru_cachedI)
  have tab: "l_page_table p n = Some i" using lru_cachedD(3) [OF h i(1) _ i(2)] by simp
  have at: "l_frames ?q ! j = (if j = i then (l_frames p ! i)\<lparr>lf_data := d, lf_is_dirty := True\<rparr> else l_frames p ! j)" for j
    using i(1) by (simp add: l_set_at)
  have ps: "pf_page_size (l_page_file p) = PAGE_SIZE" using lru_cachedD(2) [OF h] by (simp add: pf_ok_def pf_shape_def)
  show "lru_wf ?q" using l_set_wf [OF lru_cachedD(1) [OF h] i(1), of "(l_frames p ! i)\<lparr>lf_data := d, lf_is_dirty := True\<rparr>" "l_page_file p"] d ps by simp
  show "pf_ok crc (length (pages[unat n := masked d])) (l_page_file ?q)" using lru_cachedD(2) [OF h] by simp
  fix m j
  { assume "j < length (l_frames ?q)" "Some j \<noteq> None" "lf_page_id (l_frames ?q ! j) = Some m"
    then show "l_page_table ?q m = Some j" using lru_cachedD(3) [OF h, of j m] by (simp add: at split: if_splits) }
  { assume t: "l_page_table ?q m = Some j"
    then show "unat m < length (pages[unat n := masked d])" using lru_cachedD(4) [OF h, of m j] by simp
    have "j = i \<longleftrightarrow> m = n" using t tab i(2) lru_cachedD(5) [OF h, of m j] by auto
    then show "masked (lf_data (l_frames ?q ! j)) = pages[unat n := masked d] ! unat m"
      using t lru_cachedD(4) [OF h, of m j] by (auto simp: at nth_list_update unat_inj_iff) }
next
  fix m assume m: "unat m < length (pages[unat n := masked d])" "\<And>j. l_page_table ?q m = Some j \<Longrightarrow> \<not> lf_is_dirty (l_frames ?q ! j)"
  have tab: "l_page_table p n = Some i" using lru_cachedD(3) [OF h i(1) _ i(2)] by simp
  then have "m \<noteq> n" using m(2) [of i] i(1) by (auto simp: l_set_at)
  moreover have "\<not> lf_is_dirty (l_frames p ! j)" if "l_page_table p m = Some j" for j
    using m(2) [of j] that i \<open>m \<noteq> n\<close> lru_cachedD(5) [OF h that] by (auto simp: l_set_at split: if_splits)
  ultimately show "masked (pf_slice (l_page_file ?q) (unat m)) = pages[unat n := masked d] ! unat m"
    using lru_cachedD(6) [OF h, of m] m(1) by (simp add: unat_inj_iff)
qed simp

lemma flush_frames_hold:
  assumes "lru_holds crc pages p" "\<forall>i \<in> set is. i < length (l_frames p)"
  shows "\<exists>q. lru_flush_frames crc is p = Some (Inr (), q) \<and> lru_holds crc pages q \<and> lru_keeps p q \<and> l_page_table q = l_page_table p \<and>
    (\<forall>i < length (l_frames p). lf_is_dirty (l_frames q ! i) \<longrightarrow> lf_is_dirty (l_frames p ! i) \<and> (i \<notin> set is \<or> lf_page_id (l_frames p ! i) = None))"
  using assms
proof (induction "is" arbitrary: p)
  case Nil
  then show ?case by (simp add: lru_keeps_refl)
next
  case (Cons i "is")
  let ?f = "l_frames p ! i"
  note h = Cons.prems(1)
  have i: "i < length (l_frames p)" using Cons.prems(2) by simp
  have at: "l_frame i p = Some ?f" using i by (simp add: l_frame_iff)
  show ?case
  proof (cases "lf_page_id ?f = None \<or> \<not> lf_is_dirty ?f")
    case True
    then have "lru_flush_frames crc (i # is) p = lru_flush_frames crc is p" using at by (auto split: option.splits)
    then show ?thesis using Cons.IH [OF h] Cons.prems(2) True by fastforce
  next
    case False
    then obtain n where n: "lf_page_id ?f = Some n" "lf_is_dirty ?f" by auto
    have tab: "l_page_table p n = Some i" using lru_cachedD(3) [OF h i _ n(1)] by simp
    then have nk: "unat n < length pages" "masked (lf_data ?f) = pages ! unat n" using lru_cachedD(4) [OF h tab] by simp_all
    have b: "length (lf_data ?f) = PAGE_SIZE" using lru_cachedD(7) [OF h i] .
    have shape: "pf_shape (length pages) (l_page_file p)"
      and valid: "\<And>m. m < length pages \<Longrightarrow> page_valid crc (pf_slice (l_page_file p) m)"
      using lru_cachedD(2) [OF h] by (simp_all add: pf_ok_def)
    obtain pf where w: "pf_write_page_with_checksum crc n (lf_data ?f) (l_page_file p) = Some (Inr (), seal_page crc (lf_data ?f), pf)"
      "pf_ok crc (length pages) pf"
      "\<And>m. m < length pages \<Longrightarrow> pf_slice pf m = (if m = unat n then seal_page crc (lf_data ?f) else pf_slice (l_page_file p) m)"
      using pf_write_page_there [OF shape valid nk(1) b] by blast
    note sp = seal_page_simps [OF b, of crc]
    define g where "g = ?f\<lparr>lf_data := seal_page crc (lf_data ?f), lf_is_dirty := False\<rparr>"
    define t where "t = l_set i g (p\<lparr>l_page_file := pf\<rparr>)"
    have ps: "pf_page_size pf = PAGE_SIZE" using w(2) by (simp add: pf_ok_def pf_shape_def)
    have keep: "lru_wf t" "lru_keeps p t"
      using l_set_wf [OF lru_cachedD(1) [OF h] i, of g pf] l_set_keeps [OF i, of g pf] sp(1) ps by (simp_all add: t_def g_def)
    have t: "l_page_table t = l_page_table p" "l_page_file t = pf" "length (l_frames t) = length (l_frames p)"
      "l_frames t ! j = (if j = i then g else l_frames p ! j)" for j using i by (simp_all add: t_def l_set_def)
    have "lru_holds crc pages t"
    proof (rule lru_cachedI)
      fix j m assume "j < length (l_frames t)" "Some j \<noteq> None" "lf_page_id (l_frames t ! j) = Some m"
      then show "l_page_table t m = Some j" using lru_cachedD(3) [OF h, of j m] by (simp add: t g_def split: if_splits)
    next
      fix m j assume "l_page_table t m = Some j"
      then have m: "l_page_table p m = Some j" by (simp add: t)
      show "unat m < length pages" "masked (lf_data (l_frames t ! j)) = pages ! unat m"
        using lru_cachedD(4) [OF h m] sp(2) by (auto simp: t g_def)
    next
      fix m assume m: "unat m < length pages" "\<And>j. l_page_table t m = Some j \<Longrightarrow> \<not> lf_is_dirty (l_frames t ! j)"
      show "masked (pf_slice (l_page_file t) (unat m)) = pages ! unat m"
      proof (cases "m = n")
        case True
        then show ?thesis using w(3) nk sp(2) by (simp add: t)
      next
        case False
        have "\<not> lf_is_dirty (l_frames p ! j)" if "l_page_table p m = Some j" for j
          using m(2) [of j] that n(1) False lru_cachedD(5) [OF h that] by (auto simp: t split: if_splits)
        then show ?thesis using lru_cachedD(6) [OF h m(1)] w(3) m(1) False by (simp add: t unat_inj_iff)
      qed
    qed (use keep(1) w(2) in \<open>simp_all add: t\<close>)
    from Cons.IH [OF this] Cons.prems(2) t(3) obtain q where q: "lru_flush_frames crc is t = Some (Inr (), q)" "lru_holds crc pages q"
      "lru_keeps t q" "l_page_table q = l_page_table t"
      "\<forall>i < length (l_frames t). lf_is_dirty (l_frames q ! i) \<longrightarrow> lf_is_dirty (l_frames t ! i) \<and> (i \<notin> set is \<or> lf_page_id (l_frames t ! i) = None)"
      by auto
    have "lru_flush_frames crc (i # is) p = Some (Inr (), q)"
      using at n w(1) q(1) by (simp add: Let_def t_def g_def)
    moreover have "\<not> lf_is_dirty (l_frames q ! i)" using q(5) i t(3) by (auto simp: t(4) g_def)
    ultimately show ?thesis
      using q lru_keeps_trans [OF keep(2) q(3)] t by (auto split: if_splits)
  qed
qed

end
