(* ===== verification/Lru_Memory.thy ===== *)
theory Lru_Memory imports Lru_Data begin

text \<open>
  The abstract memory the LRU pool of part2 implements while the file calls work, the refinement, and the history that
  breaks it: a fetch of a page that does not exist.
\<close>

section \<open>The memory\<close>

text \<open>A list of pages, without their checksums, and for every handle its page.\<close>

record lru_mem =
  lm_pages :: "bytes list"
  lm_handles :: "u32 option list"

definition all_pinned :: io_error where
  "all_pinned = OtherError ''buffer pool exhausted: all frames are pinned''"

definition mem_live :: "nat \<Rightarrow> lru_mem \<Rightarrow> u32 option" where
  "mem_live h m = (if h < length (lm_handles m) then lm_handles m ! h else None)"

text \<open>Whether the memory allows the answer, and the memory after it. The only failure left is that of a fetch while no frame is
  free of handles.\<close>

definition mem_got :: "nat \<Rightarrow> u32 \<Rightarrow> lru_out \<Rightarrow> lru_mem \<Rightarrow> lru_mem option" where
  "mem_got frames n out m =
     (if out = LGot then Some (m\<lparr>lm_handles := lm_handles m @ [Some n]\<rparr>)
      else if out = LFailed all_pinned \<and> frames \<le> length (filter (\<lambda>h. h \<noteq> None) (lm_handles m)) then Some m
      else None)"

fun mem_step :: "nat \<Rightarrow> lru_op \<Rightarrow> lru_out \<Rightarrow> lru_mem \<Rightarrow> lru_mem option" where
  "mem_step frames (LFetch n) out m = mem_got frames n out m"
| "mem_step frames (LAllocate t) out m =
     (let n = of_nat (length (lm_pages m)) in mem_got frames n out (m\<lparr>lm_pages := lm_pages m @ [masked (fresh_page n t)]\<rparr>))"
| "mem_step frames (LRead h) out m = (case mem_live h m of
      None \<Rightarrow> if out = LNoHandle then Some m else None
    | Some n \<Rightarrow> (case out of LBytes d \<Rightarrow> if masked d = lm_pages m ! unat n then Some m else None | _ \<Rightarrow> None))"
| "mem_step frames (LModify h d) out m = (case mem_live h m of
      None \<Rightarrow> if out = LNoHandle then Some m else None
    | Some n \<Rightarrow> if out = LDone then Some (m\<lparr>lm_pages := (lm_pages m)[unat n := masked d]\<rparr>) else None)"
| "mem_step frames (LDrop h) out m = (case mem_live h m of
      None \<Rightarrow> if out = LNoHandle then Some m else None
    | Some n \<Rightarrow> if out = LDone then Some (m\<lparr>lm_handles := (lm_handles m)[h := None]\<rparr>) else None)"
| "mem_step frames LFlush out m = (if out = LDone then Some m else None)"
| "mem_step frames LCount out m = (if out = LCountIs (of_nat (length (lm_pages m))) then Some m else None)"

fun mem_run :: "nat \<Rightarrow> lru_op list \<Rightarrow> lru_out list \<Rightarrow> lru_mem \<Rightarrow> lru_mem option" where
  "mem_run frames [] [] m = Some m"
| "mem_run frames (x # xs) (out # outs) m = do { m \<leftarrow> mem_step frames x out m; mem_run frames xs outs m }"
| "mem_run frames _ _ m = None"

text \<open>Every fetch names a page that exists by then.\<close>

fun fetches_exist :: "nat \<Rightarrow> lru_op list \<Rightarrow> bool" where
  "fetches_exist k [] = True"
| "fetches_exist k (LFetch n # xs) = (unat n < k \<and> fetches_exist k xs)"
| "fetches_exist k (LAllocate t # xs) = fetches_exist (k + 1) xs"
| "fetches_exist k (_ # xs) = fetches_exist k xs"

section \<open>The refinement\<close>

definition mem_rel :: "(bytes \<Rightarrow> u32) \<Rightarrow> lru_world \<Rightarrow> lru_mem \<Rightarrow> bool" where
  "mem_rel crc w m \<longleftrightarrow> lru_inv w \<and> lru_holds crc (lm_pages m) (lw_pool w) \<and>
     lm_handles m = map (map_option hd_page_id) (lw_handles w)"

lemma mem_live_eq: "mem_rel crc w m \<Longrightarrow> mem_live h m = map_option hd_page_id (lru_live h w)"
  by (simp add: mem_rel_def mem_live_def lru_live_def)

lemma pinned_handles:
  assumes inv: "lru_inv w" and "\<forall>f \<in> set (l_frames (lw_pool w)). lf_pin_count f \<noteq> 0"
  shows "length (l_frames (lw_pool w)) \<le> length (filter (\<lambda>h. h \<noteq> None) (lw_handles w))"
proof -
  let ?n = "length (l_frames (lw_pool w))" and ?hs = "filter (\<lambda>h. h \<noteq> None) (lw_handles w)"
  have "{..<?n} \<subseteq> (\<lambda>h. hd_frame (the h)) ` set ?hs"
  proof
    fix i assume "i \<in> {..<?n}"
    then have i: "i < ?n" by simp
    then have "unat (lf_pin_count (l_frames (lw_pool w) ! i)) \<noteq> 0"
      using assms(2) nth_mem [OF i] by (auto simp: unat_eq_zero)
    then have "handles_on i (lw_handles w) \<noteq> 0" using inv i by (simp add: lru_inv_def)
    then obtain h where "Some h \<in> set (lw_handles w)" "hd_frame h = i"
      by (auto simp: handles_on_def filter_empty_conv split: option.splits)
    then show "i \<in> (\<lambda>h. hd_frame (the h)) ` set ?hs" by (intro image_eqI [of _ _ "Some h"]) simp_all
  qed
  then have "card {..<?n} \<le> card ((\<lambda>h. hd_frame (the h)) ` set ?hs)" by (intro card_mono) simp_all
  also have "\<dots> \<le> card (set ?hs)" by (rule card_image_le) simp
  also have "\<dots> \<le> length ?hs" by (rule card_length)
  finally show ?thesis by simp
qed

lemma live_count: "length (filter (\<lambda>h. h \<noteq> None) (map (map_option f) hs)) = length (filter (\<lambda>h. h \<noteq> None) hs)"
  by (induction hs) auto

lemma pins_room:
  assumes "lru_inv w" "length (lw_handles w) + 1 < 2 ^ 32"
  shows "\<forall>f \<in> set (l_frames (lw_pool w)). lf_pin_count f \<noteq> -1"
proof
  fix f assume "f \<in> set (l_frames (lw_pool w))"
  then obtain i where i: "i < length (l_frames (lw_pool w))" "f = l_frames (lw_pool w) ! i" by (metis in_set_conv_nth)
  then have "unat (lf_pin_count f) = handles_on i (lw_handles w)" using assms(1) by (simp add: lru_inv_def)
  then have "unat (lf_pin_count f) + 1 < 2 ^ 32" using handles_on_le [of i "lw_handles w"] assms(2) by linarith
  moreover have "unat (- 1 :: u32) = 2 ^ 32 - 1" by (simp add: unsigned_minus_1_eq_mask mask_eq_exp_minus_1)
  ultimately show "lf_pin_count f \<noteq> -1" by auto
qed

text \<open>Fetching a page the pool holds.\<close>

lemma fetch_rel:
  assumes rel: "mem_rel crc w m" and room: "length (lw_handles w) + 1 < 2 ^ 32" and n: "unat n < length (lm_pages m)"
  shows "\<exists>out w' m'. lru_step crc (LFetch n) w = Some (out, w') \<and> mem_got (length (l_frames (lw_pool w))) n out m = Some m' \<and>
    mem_rel crc w' m' \<and> length (l_frames (lw_pool w')) = length (l_frames (lw_pool w)) \<and> lm_pages m' = lm_pages m"
proof -
  have inv: "lru_inv w" and h: "lru_holds crc (lm_pages m) (lw_pool w)"
    and hs: "lm_handles m = map (map_option hd_page_id) (lw_handles w)" using rel by (simp_all add: mem_rel_def)
  have "lru_op_ok (LFetch n)" by (simp add: lru_op_ok_def)
  from lru_step_inv [OF inv room this, of crc] obtain out w' where
    s: "lru_step crc (LFetch n) w = Some (out, w')" "lru_inv w'" by blast
  from h n pins_room [OF inv room] show ?thesis
  proof (cases rule: fetch_holds)
    case (1 q i)
    have "length (l_frames q) = length (l_frames (lw_pool w))"
      by (rule lru_fetch_cases [OF lru_cachedD(1) [OF h] pins_room [OF inv room], of crc n]) (use 1(1) in \<open>auto simp: lru_keeps_def\<close>)
    then show ?thesis using 1 s hs by (auto simp: lru_fetched_def mem_rel_def mem_got_def)
  next
    case 2
    have "length (l_frames (lw_pool w)) \<le> length (filter (\<lambda>h. h \<noteq> None) (lm_handles m))"
      using pinned_handles [OF inv 2(2)] unfolding hs live_count .
    then show ?thesis using 2 s hs h by (auto simp: lru_fetched_def mem_rel_def mem_got_def all_pinned_def)
  qed
qed

lemma new_page_rel:
  assumes rel: "mem_rel crc w m" and k: "length (lm_pages m) + 1 < 2 ^ 32"
  obtains q where "lru_new_page crc t (lw_pool w) = Some (Inr (of_nat (length (lm_pages m))), q)"
    "mem_rel crc (w\<lparr>lw_pool := q\<rparr>) (m\<lparr>lm_pages := lm_pages m @ [masked (fresh_page (of_nat (length (lm_pages m))) t)]\<rparr>)"
    "length (l_frames q) = length (l_frames (lw_pool w))"
proof -
  have h: "lru_holds crc (lm_pages m) (lw_pool w)" using rel by (simp add: mem_rel_def)
  obtain q where q: "lru_new_page crc t (lw_pool w) = Some (Inr (of_nat (length (lm_pages m))), q)"
    "lru_holds crc (lm_pages m @ [masked (fresh_page (of_nat (length (lm_pages m))) t)]) q" "l_frames q = l_frames (lw_pool w)"
    using new_page_holds [OF h k] by blast
  have "lru_keeps (lw_pool w) q" by (simp add: lru_keeps_def q(3))
  then have "lru_inv (w\<lparr>lw_pool := q\<rparr>)" using lru_keeps_inv lru_cachedD(1) [OF q(2)] rel by (simp add: mem_rel_def)
  then show thesis using that [OF q(1)] q(2,3) rel by (simp add: mem_rel_def)
qed

lemma live_at:
  assumes "mem_rel crc w m" "lru_live k w = Some h"
  shows "hd_frame h < length (l_frames (lw_pool w))" "lf_page_id (l_frames (lw_pool w) ! hd_frame h) = Some (hd_page_id h)"
    "l_page_table (lw_pool w) (hd_page_id h) = Some (hd_frame h)" "unat (hd_page_id h) < length (lm_pages m)"
proof -
  have inv: "lru_inv w" and h: "lru_holds crc (lm_pages m) (lw_pool w)" using assms(1) by (simp_all add: mem_rel_def)
  note l = lru_live_ok(1,2) [OF inv assms(2)]
  show "hd_frame h < length (l_frames (lw_pool w))" "lf_page_id (l_frames (lw_pool w) ! hd_frame h) = Some (hd_page_id h)" by (rule l)+
  show t: "l_page_table (lw_pool w) (hd_page_id h) = Some (hd_frame h)" using lru_cachedD(3) [OF h l(1) _ l(2)] by simp
  show "unat (hd_page_id h) < length (lm_pages m)" using lru_cachedD(4) [OF h t] by simp
qed

lemma page_count_rel:
  assumes "mem_rel crc w m" shows "lru_page_count (lw_pool w) = Some (Inr (of_nat (length (lm_pages m))), lw_pool w)"
proof -
  let ?pf = "l_page_file (lw_pool w)"
  have "os_faults (pf_os ?pf) = []" "pf_page_size ?pf = PAGE_SIZE" "length (lm_pages m) < 2 ^ 32"
    "length (file_bytes (pf_os ?pf) (pf_path ?pf)) = length (lm_pages m) * PAGE_SIZE"
    using assms lru_cachedD(2) [of crc "lm_pages m" None "lw_pool w"] by (simp_all add: mem_rel_def pf_ok_def pf_shape_def)
  then show ?thesis using page_nonempty by (simp add: lru_page_count_def pf_page_count_def os_len_def take_fault_none Let_def)
qed

text \<open>Every other call.\<close>

lemma plain_rel:
  assumes rel: "mem_rel crc w m" and room: "length (lw_handles w) + 1 < 2 ^ 32" and op: "lru_op_ok x"
    and plain: "\<And>n. x \<noteq> LFetch n" "\<And>t. x \<noteq> LAllocate t"
  shows "\<exists>out w' m'. lru_step crc x w = Some (out, w') \<and> mem_step f x out m = Some m' \<and> mem_rel crc w' m' \<and>
    length (l_frames (lw_pool w')) = length (l_frames (lw_pool w)) \<and> length (lm_pages m') = length (lm_pages m)"
proof -
  let ?p = "lw_pool w"
  have inv: "lru_inv w" and h: "lru_holds crc (lm_pages m) ?p"
    and hs: "lm_handles m = map (map_option hd_page_id) (lw_handles w)" using rel by (simp_all add: mem_rel_def)
  from lru_step_inv [OF inv room op, of crc] obtain out w' where s: "lru_step crc x w = Some (out, w')" "lru_inv w'" by blast
  show ?thesis
  proof (cases x)
    case (LRead k)
    show ?thesis
    proof (cases "lru_live k w")
      case None
      then show ?thesis using LRead rel mem_live_eq [OF rel, of k] by simp
    next
      case (Some g)
      note l = live_at [OF rel Some]
      show ?thesis using LRead Some rel l(1,2) mem_live_eq [OF rel, of k] lru_cachedD(4) [OF h l(3)]
        by (simp add: handle_read_def l_frame_def ensure_current_def)
    qed
  next
    case (LModify k d)
    show ?thesis
    proof (cases "lru_live k w")
      case None
      then show ?thesis using LModify rel mem_live_eq [OF rel, of k] by simp
    next
      case (Some g)
      note l = live_at [OF rel Some]
      have "length d = PAGE_SIZE" using op LModify by (simp add: lru_op_ok_def)
      from modify_holds [OF h l(1,2) this] show ?thesis
        using LModify Some s l(1,2) mem_live_eq [OF rel, of k] hs
        by (auto simp: handle_modify_def l_frame_def ensure_current_def mem_rel_def)
    qed
  next
    case (LDrop k)
    show ?thesis
    proof (cases "lru_live k w")
      case None
      then show ?thesis using LDrop rel mem_live_eq [OF rel, of k] by simp
    next
      case (Some g)
      note l = live_at [OF rel Some]
      obtain q where q: "handle_drop g ?p = Some q" using LDrop Some s(1) by (auto split: Option.bind_splits)
      have w': "out = LDone" "w' = w\<lparr>lw_pool := q, lw_handles := (lw_handles w)[k := None]\<rparr>" using s(1) LDrop Some q by simp_all
      have frames: "length (l_frames q) = length (l_frames ?p)" "l_page_table q = l_page_table ?p" "l_page_file q = l_page_file ?p"
        "\<And>j. lf_page_id (l_frames q ! j) = lf_page_id (l_frames ?p ! j) \<and> lf_data (l_frames q ! j) = lf_data (l_frames ?p ! j) \<and>
           lf_is_dirty (l_frames q ! j) = lf_is_dirty (l_frames ?p ! j)"
        using q l(1) by (auto simp: handle_drop_def l_frame_def l_set_def nth_list_update split: if_splits)
      have "lru_wf q" using s(2) w' by (simp add: lru_inv_def)
      from lru_holds_same [OF h this frames(2,3,1) frames(4)] have "mem_rel crc w' (m\<lparr>lm_handles := (lm_handles m)[k := None]\<rparr>)"
        using s(2) w' hs by (simp add: mem_rel_def map_update)
      then show ?thesis using LDrop Some s(1) w' frames(1) mem_live_eq [OF rel, of k] by simp
    qed
  next
    case LFlush
    have "\<forall>i \<in> set [0..<length (l_frames ?p)]. i < length (l_frames ?p)" by simp
    from flush_frames_hold [OF h this] show ?thesis
      using LFlush s hs by (auto simp: lru_flush_all_def mem_rel_def lru_keeps_def)
  next
    case LCount
    have "lru_page_count ?p = Some (Inr (of_nat (length (lm_pages m))), ?p)" by (rule page_count_rel [OF rel])
    then show ?thesis using LCount rel by simp
  qed (use plain in simp_all)
qed

lemma step_rel:
  assumes rel: "mem_rel crc w m" and room: "length (lw_handles w) + 1 < 2 ^ 32" and op: "lru_op_ok x"
    and k: "length (lm_pages m) + 1 < 2 ^ 32" and ex: "fetches_exist (length (lm_pages m)) (x # xs)"
  shows "\<exists>out w' m'. lru_step crc x w = Some (out, w') \<and> mem_step (length (l_frames (lw_pool w))) x out m = Some m' \<and>
    mem_rel crc w' m' \<and> length (l_frames (lw_pool w')) = length (l_frames (lw_pool w)) \<and>
    fetches_exist (length (lm_pages m')) xs \<and> length (lm_pages m') \<le> length (lm_pages m) + 1 \<and>
    length (lw_handles w') \<le> length (lw_handles w) + 1"
proof -
  have inv: "lru_inv w" using rel by (simp add: mem_rel_def)
  have bound: "length (lw_handles w') \<le> length (lw_handles w) + 1" if "lru_step crc x w = Some (out, w')" for out w'
    using lru_step_inv [OF inv room op, of crc] that by auto
  show ?thesis
  proof (cases "\<exists>n t. x = LFetch n \<or> x = LAllocate t")
    case False
    then have "fetches_exist (length (lm_pages m)) xs" using ex by (cases x) auto
    then show ?thesis using plain_rel [OF rel room op, of "length (l_frames (lw_pool w))"] False bound by fastforce
  next
    case True
    then consider n where "x = LFetch n" | t where "x = LAllocate t" by blast
    then show ?thesis
    proof cases
      case 1
      have "unat n < length (lm_pages m)" "fetches_exist (length (lm_pages m)) xs" using ex 1 by simp_all
      then show ?thesis using fetch_rel [OF rel room, of n] 1 bound by fastforce
    next
      case 2
      let ?n = "of_nat (length (lm_pages m)) :: u32" and ?m = "\<lambda>t. m\<lparr>lm_pages := lm_pages m @ [masked (fresh_page (of_nat (length (lm_pages m))) t)]\<rparr>"
      obtain q where q: "lru_new_page crc t (lw_pool w) = Some (Inr ?n, q)" "mem_rel crc (w\<lparr>lw_pool := q\<rparr>) (?m t)"
        "length (l_frames q) = length (l_frames (lw_pool w))" using new_page_rel [OF rel k] by blast
      have "unat ?n < length (lm_pages (?m t))" using k by (simp add: unat_of_nat)
      moreover have "length (lw_handles (w\<lparr>lw_pool := q\<rparr>)) + 1 < 2 ^ 32" using room by simp
      ultimately obtain out w' m' where f: "lru_step crc (LFetch ?n) (w\<lparr>lw_pool := q\<rparr>) = Some (out, w')"
        "mem_got (length (l_frames q)) ?n out (?m t) = Some m'" "mem_rel crc w' m'" "length (l_frames (lw_pool w')) = length (l_frames q)"
        "lm_pages m' = lm_pages (?m t)" using fetch_rel [OF q(2), of ?n] by auto
      have "lru_step crc (LAllocate t) w = Some (out, w')"
        using f(1) q(1) by (auto simp: lru_allocate_split lru_fetched_def split: Option.bind_splits sum.splits)
      then show ?thesis using 2 f(2-5) q(3) ex bound by (simp add: Let_def)
    qed
  qed
qed

lemma run_rel:
  assumes "mem_rel crc w m" "\<forall>x \<in> set xs. lru_op_ok x" "fetches_exist (length (lm_pages m)) xs"
    and "length (lw_handles w) + length xs < 2 ^ 32" "length (lm_pages m) + length xs < 2 ^ 32"
  shows "\<exists>outs w' m'. lru_run crc xs w = Some (outs, w') \<and> mem_run (length (l_frames (lw_pool w))) xs outs m = Some m' \<and> mem_rel crc w' m'"
  using assms
proof (induction xs arbitrary: w m)
  case Nil
  then show ?case by simp
next
  case (Cons x xs)
  have "length (lw_handles w) + 1 < 2 ^ 32" "lru_op_ok x" "length (lm_pages m) + 1 < 2 ^ 32" using Cons.prems by auto
  from step_rel [OF Cons.prems(1) this Cons.prems(3)] obtain out w1 m1 where
    s: "lru_step crc x w = Some (out, w1)" "mem_step (length (l_frames (lw_pool w))) x out m = Some m1" "mem_rel crc w1 m1"
      "length (l_frames (lw_pool w1)) = length (l_frames (lw_pool w))" "fetches_exist (length (lm_pages m1)) xs"
      "length (lm_pages m1) \<le> length (lm_pages m) + 1" "length (lw_handles w1) \<le> length (lw_handles w) + 1" by blast
  have "length (lw_handles w1) + length xs < 2 ^ 32" "length (lm_pages m1) + length xs < 2 ^ 32" using s(6,7) Cons.prems by auto
  from Cons.IH [OF s(3) _ s(5) this] Cons.prems(2) show ?case using s(1,2,4) by fastforce
qed

lemma new_rel:
  assumes "0 < n" "pf_ok crc k pf"
  obtains p where "lru_new n pf = Some p" "length (l_frames p) = n"
    "mem_rel crc \<lparr>lw_pool = p, lw_handles = []\<rparr> \<lparr>lm_pages = map (\<lambda>i. masked (pf_slice pf i)) [0..<k], lm_handles = []\<rparr>"
proof -
  have ps: "pf_page_size pf = PAGE_SIZE" using assms(2) by (simp add: pf_ok_def pf_shape_def)
  obtain p where p: "lru_new n pf = Some p" "lru_inv \<lparr>lw_pool = p, lw_handles = []\<rparr>" using lru_new_inv [OF assms(1) ps] by blast
  then have q: "l_frames p = replicate n lru_frame_new" "l_page_table p = (\<lambda>_. None)" "l_page_file p = pf" "lru_wf p"
    using assms(1) by (auto simp: lru_new_def lru_inv_def)
  have "lru_holds crc (map (\<lambda>i. masked (pf_slice pf i)) [0..<k]) p"
    by (rule lru_cachedI) (use q assms(2) in \<open>auto simp: lru_frame_new_def\<close>)
  then show thesis using that p q(1) by (simp add: mem_rel_def)
qed

lemma flush_file:
  assumes h: "lru_holds crc pages p"
  shows "\<exists>q. lru_flush_all crc p = Some (Inr (), q) \<and>
    map (\<lambda>i. masked (pf_slice (l_page_file q) i)) [0..<length pages] = pages \<and> pf_ok crc (length pages) (l_page_file q)"
proof -
  have "\<forall>i \<in> set [0..<length (l_frames p)]. i < length (l_frames p)" by simp
  from flush_frames_hold [OF h this] obtain q where q: "lru_flush_all crc p = Some (Inr (), q)" "lru_holds crc pages q" "lru_keeps p q"
    "\<And>i. i < length (l_frames p) \<Longrightarrow> lf_is_dirty (l_frames q ! i) \<Longrightarrow> lf_page_id (l_frames p ! i) = None"
    by (auto simp: lru_flush_all_def)
  have "masked (pf_slice (l_page_file q) i) = pages ! i" if "i < length pages" for i
  proof -
    have "length pages < 2 ^ 32" using lru_cachedD(2) [OF q(2)] by (simp add: pf_ok_def pf_shape_def)
    then have u: "unat (of_nat i :: u32) = i" using that by (simp add: unat_of_nat)
    have "\<not> lf_is_dirty (l_frames q ! j)" if "l_page_table q (of_nat i) = Some j" for j
      using q(3,4) lru_cachedD(5) [OF q(2) that] by (auto simp: lru_keeps_def)
    then show ?thesis using lru_cachedD(6) [OF q(2), of "of_nat i"] that by (simp add: u)
  qed
  then show ?thesis using q(1) lru_cachedD(2) [OF q(2)] by (auto intro!: nth_equalityI)
qed

text \<open>C12: while the file calls work and every fetch names a page that exists, the LRU pool of part2 implements a memory of
  pages: whatever the number of frames and the order of fetches, allocations, reads, modifications, drops and flushes, no call
  panics, every read returns what was last written to the page through any handle, a new page is an empty page at the next
  number, and a call fails only when every frame is held by a handle. A flush then leaves the memory in the file.\<close>

theorem lru_no_lost_update:
  assumes "0 < n" "pf_ok crc k pf" "\<forall>x \<in> set xs. lru_op_ok x" "fetches_exist k xs" "k + length xs < 2 ^ 32"
  shows "\<exists>outs w m. run_lru crc n pf xs = Some (outs, w) \<and>
    mem_run n xs outs \<lparr>lm_pages = map (\<lambda>i. masked (pf_slice pf i)) [0..<k], lm_handles = []\<rparr> = Some m \<and>
    (\<exists>q. lru_flush_all crc (lw_pool w) = Some (Inr (), q) \<and>
       map (\<lambda>i. masked (pf_slice (l_page_file q) i)) [0..<length (lm_pages m)] = lm_pages m)"
proof -
  let ?m = "\<lparr>lm_pages = map (\<lambda>i. masked (pf_slice pf i)) [0..<k], lm_handles = []\<rparr>"
  obtain p where p: "lru_new n pf = Some p" "length (l_frames p) = n" "mem_rel crc \<lparr>lw_pool = p, lw_handles = []\<rparr> ?m"
    using new_rel [OF assms(1,2)] by blast
  obtain outs w m where r: "lru_run crc xs \<lparr>lw_pool = p, lw_handles = []\<rparr> = Some (outs, w)" "mem_run n xs outs ?m = Some m" "mem_rel crc w m"
    using run_rel [OF p(3) assms(3)] assms(4,5) p(2) by auto
  have "\<exists>q. lru_flush_all crc (lw_pool w) = Some (Inr (), q) \<and>
      map (\<lambda>i. masked (pf_slice (l_page_file q) i)) [0..<length (lm_pages m)] = lm_pages m"
    using flush_file [of crc "lm_pages m" "lw_pool w"] r(3) by (auto simp: mem_rel_def)
  then show ?thesis using p(1) r(1,2) by (auto simp: run_lru_def)
qed

section \<open>A fetch of a page that does not exist\<close>

definition lost_ops :: "u32 \<Rightarrow> bytes \<Rightarrow> bytes \<Rightarrow> lru_op list" where
  "lost_ops n v1 v2 = [LFetch 0, LFetch 1, LModify 0 v1, LFetch 0, LDrop 0, LDrop 2, LFetch n, LDrop 1,
     LFetch 0, LModify 3 v2, LFlush, LDrop 3, LFetch 1, LFetch 0, LRead 5]"

lemma put_page_0:
  assumes "pf_ok crc 2 pf" "length b = PAGE_SIZE"
  shows "pf_write_page_with_checksum crc 0 b pf = Some (Inr (), seal_page crc b, pf_put 0 (seal_page crc b) pf)"
    "pf_ok crc 2 (pf_put 0 (seal_page crc b) pf)" "pf_slice (pf_put 0 (seal_page crc b) pf) 0 = seal_page crc b"
    "pf_slice (pf_put 0 (seal_page crc b) pf) 1 = pf_slice pf 1"
proof -
  have sh: "pf_shape 2 pf" and v: "page_valid crc (pf_slice pf m)" if "m < 2" for m
    using assms(1) that by (simp_all add: pf_ok_def)
  have u: "unat (0 :: u32) < 2" by simp
  note w = pf_write_page_there [OF sh v u assms(2), of 0]
  show "pf_write_page_with_checksum crc 0 b pf = Some (Inr (), seal_page crc b, pf_put 0 (seal_page crc b) pf)" using w(1) by simp
  show "pf_ok crc 2 (pf_put 0 (seal_page crc b) pf)" using w(2) by simp
  show "pf_slice (pf_put 0 (seal_page crc b) pf) 0 = seal_page crc b" using w(3) [of 0] by simp
  show "pf_slice (pf_put 0 (seal_page crc b) pf) 1 = pf_slice pf 1" using w(3) [of 1] by simp
qed

lemma seal_page_twice: "length b = PAGE_SIZE \<Longrightarrow> seal_page crc (seal_page crc b) = seal_page crc b"
  by (simp add: seal_page_def sealed_body PAGE_SIZE_def PAGE_HEADER_SIZE_def)

lemma lost_run:
  assumes ok: "pf_ok crc 2 pf" and n: "2 \<le> unat n" and v: "length v1 = PAGE_SIZE" "length v2 = PAGE_SIZE"
  shows "\<exists>w. run_lru crc 2 pf (lost_ops n v1 v2) = Some ([LGot, LGot, LDone, LGot, LDone, LDone, LFailed UnexpectedEof, LDone,
    LGot, LDone, LDone, LDone, LGot, LGot, LBytes (seal_page crc v1)], w)"
    and "\<exists>w. run_lru crc 2 pf (filter (\<lambda>x. x \<noteq> LFetch n) (lost_ops n v1 v2)) = Some ([LGot, LGot, LDone, LGot, LDone, LDone, LDone,
    LGot, LDone, LDone, LDone, LGot, LGot, LBytes (seal_page crc v2)], w)"
proof -
  have rd0: "pf_read_and_verify_page crc 0 b F = Some (Inr (), pf_slice F 0, F\<lparr>pf_pos := PAGE_SIZE\<rparr>)"
    and rd1: "pf_read_and_verify_page crc 1 b F = Some (Inr (), pf_slice F 1, F\<lparr>pf_pos := PAGE_SIZE + PAGE_SIZE\<rparr>)"
    and rdn: "pf_read_and_verify_page crc n b F = Some (Inl UnexpectedEof, b, F\<lparr>pf_pos := unat n * PAGE_SIZE + PAGE_SIZE\<rparr>)"
    if "pf_ok crc 2 F" "length b = PAGE_SIZE" for b F
    using pf_read_page_there [OF that(1), of 0 b] pf_read_page_there [OF that(1), of 1 b] pf_read_page_behind [OF that(1) n that(2)] that(2)
    by simp_all
  have len: "length (pf_slice F i) = PAGE_SIZE" if "pf_ok crc 2 F" "i < 2" for F i
    using that by (simp add: pf_ok_def page_valid_def)
  have ne: "n \<noteq> 0" "n \<noteq> 1" using n by auto
  have two: "replicate 2 x = [x, x]" "[0..<2] = [0, 1]" "[0..<Suc (Suc 0)] = [0, 1]" for x :: lru_frame
    by (simp_all add: numeral_2_eq_2)
  note calls = run_lru_def lost_ops_def lru_new_def lru_fetch_page_def pin_page_def find_evict_target_def l_frame_def l_set_def
    move_to_front_def l_write_back_def lru_fetched_def lru_live_def handle_modify_def handle_read_def handle_drop_def ensure_current_def
    lru_flush_all_def Let_def two lru_frame_new_def
  note io = rd0 rd1 rdn len put_page_0 [unfolded One_nat_def] ok v ne seal_page_simps(1) seal_page_twice
  show "\<exists>w. run_lru crc 2 pf (lost_ops n v1 v2) = Some ([LGot, LGot, LDone, LGot, LDone, LDone, LFailed UnexpectedEof, LDone,
    LGot, LDone, LDone, LDone, LGot, LGot, LBytes (seal_page crc v1)], w)" by (simp add: calls io)
  show "\<exists>w. run_lru crc 2 pf (filter (\<lambda>x. x \<noteq> LFetch n) (lost_ops n v1 v2)) = Some ([LGot, LGot, LDone, LGot, LDone, LDone, LDone,
    LGot, LDone, LDone, LDone, LGot, LGot, LBytes (seal_page crc v2)], w)" using ne by (simp add: calls io)
qed

text \<open>C13: one fetch of a page that does not exist is enough to make the LRU pool lose an update, with two frames, no failing
  file call and every other call correct. The failed fetch has already taken its victim out of the page table, and leaves it in the
  frame, dirty, under its old number. The page is then loaded a second time and modified; the flush writes both frames, the stale one
  last, and evicting the stale one removes the entry of the good one: the next read returns the old value.\<close>

theorem lru_missing_page_loses_update:
  assumes "pf_ok crc 2 pf" "2 \<le> unat n" "length v1 = PAGE_SIZE" "length v2 = PAGE_SIZE"
  shows "\<exists>w d. run_lru crc 2 pf (lost_ops n v1 v2) = Some ([LGot, LGot, LDone, LGot, LDone, LDone, LFailed UnexpectedEof, LDone,
      LGot, LDone, LDone, LDone, LGot, LGot, LBytes d], w) \<and> masked d = masked v1 \<and>
    (\<exists>w. run_lru crc 2 pf (filter (\<lambda>x. x \<noteq> LFetch n) (lost_ops n v1 v2)) = Some ([LGot, LGot, LDone, LGot, LDone, LDone, LDone,
      LGot, LDone, LDone, LDone, LGot, LGot, LBytes (seal_page crc v2)], w))"
  using lost_run [OF assms] seal_page_simps(2) [OF assms(3), of crc] by blast

definition two_pages :: page_file where
  "two_pages = empty_file\<lparr>pf_os := \<lparr>os_files = (\<lambda>_. Some (concat (replicate 2 (seal_page (\<lambda>_. 5) (replicate PAGE_SIZE 0))))),
     os_faults = []\<rparr>\<rparr>"

lemma two_pages_ok: "pf_ok (\<lambda>_. 5) 2 two_pages"
proof -
  let ?s = "seal_page (\<lambda>_. 5) (replicate PAGE_SIZE 0)"
  have s: "length ?s = PAGE_SIZE" "page_valid (\<lambda>_. 5) ?s" using seal_page_simps [of "replicate PAGE_SIZE 0"] by simp_all
  have "pf_slice two_pages i = ?s" if "i < 2" for i
    using that s(1) by (cases "i = 0") (simp_all add: pf_slice_def two_pages_def empty_file_def file_bytes_def numeral_2_eq_2 bslice_def)
  moreover have "length (concat (replicate 2 ?s)) = 2 * PAGE_SIZE" using s(1) by (simp add: numeral_2_eq_2)
  then have "pf_shape 2 two_pages" by (simp add: pf_shape_def two_pages_def empty_file_def file_bytes_def)
  ultimately show ?thesis using s(2) by (simp add: pf_ok_def)
qed

theorem lru_missing_page_loses_update_witness:
  "\<exists>w d. run_lru (\<lambda>_. 5) 2 two_pages (lost_ops 7 (replicate PAGE_SIZE 1) (replicate PAGE_SIZE 2)) =
     Some ([LGot, LGot, LDone, LGot, LDone, LDone, LFailed UnexpectedEof, LDone,
      LGot, LDone, LDone, LDone, LGot, LGot, LBytes d], w) \<and> masked d = masked (replicate PAGE_SIZE 1)"
  using lru_missing_page_loses_update [OF two_pages_ok, of 7 "replicate PAGE_SIZE 1" "replicate PAGE_SIZE 2"] by auto

theorem lru_no_lost_update_witness:
  "\<exists>outs w. run_lru (\<lambda>_. 5) 2 two_pages [LFetch 0, LModify 0 (replicate PAGE_SIZE 1), LAllocate Data, LDrop 0, LFetch 2, LRead 1] =
     Some (outs, w)"
  using lru_no_lost_update [OF _ two_pages_ok, of 2 "[LFetch 0, LModify 0 (replicate PAGE_SIZE 1), LAllocate Data, LDrop 0, LFetch 2, LRead 1]"]
  by (auto simp: lru_op_ok_def)

end
