(* ===== verification/Demo.thy ===== *)
theory Demo imports Lru_Memory begin

text \<open>
  \<^verbatim>\<open>part2/demo.rs\<close>: the demonstration that allocates pages from several threads, writes a record into each, reopens the
  file and verifies every record. A thread is a program counter; the threads of a scope share the pool and take one
  call of the pool per turn, in the order of a schedule. What the demo prints is its result.
\<close>

section \<open>Configuration and arguments\<close>

record demo_config =
  dc_page_count :: nat
  dc_pool_size :: nat
  dc_worker_count :: nat

definition DEFAULT_PAGE_COUNT :: nat where "DEFAULT_PAGE_COUNT = 1024"
definition DEFAULT_POOL_SIZE :: nat where "DEFAULT_POOL_SIZE = 256"
definition DEFAULT_WORKER_COUNT :: nat where "DEFAULT_WORKER_COUNT = 8"

definition demo_config_default :: demo_config where
  "demo_config_default = \<lparr>dc_page_count = DEFAULT_PAGE_COUNT, dc_pool_size = DEFAULT_POOL_SIZE, dc_worker_count = DEFAULT_WORKER_COUNT\<rparr>"

text \<open>An \<^verbatim>\<open>OsString\<close> that is text, or not. \<open>parse_usize\<close> is \<^verbatim>\<open>str::parse\<close> of the standard library: an optional plus sign
  and digits, without overflow.\<close>

datatype os_string = Utf8 string | NotUtf8 bytes

fun parse_digits :: "nat \<Rightarrow> string \<Rightarrow> nat option" where
  "parse_digits acc [] = Some acc"
| "parse_digits acc (c # cs) =
     (let d = of_char c in
      if 48 \<le> d \<and> d \<le> 57 \<and> acc * 10 + (d - 48) < 2 ^ 64 then parse_digits (acc * 10 + (d - 48)) cs else None)"

definition parse_usize :: "string \<Rightarrow> nat option" where
  "parse_usize s = (case s of
      [] \<Rightarrow> None
    | c # cs \<Rightarrow> if c = CHR ''+'' then (if cs = [] then None else parse_digits 0 cs) else parse_digits 0 s)"

definition parse_number :: "os_string option \<Rightarrow> string \<Rightarrow> nat \<Rightarrow> io_error + nat" where
  "parse_number v name dflt = (case v of
      None \<Rightarrow> Inr dflt
    | Some (Utf8 s) \<Rightarrow> (case parse_usize s of Some n \<Rightarrow> Inr n | None \<Rightarrow> Inl (InvalidInput (''invalid '' @ name)))
    | Some (NotUtf8 s) \<Rightarrow> Inl (InvalidInput (''invalid '' @ name)))"

definition arg :: "nat \<Rightarrow> os_string list \<Rightarrow> os_string option" where
  "arg i args = (if i < length args then Some (args ! i) else None)"

definition demo_args :: "os_string list \<Rightarrow> io_error + os_string \<times> demo_config" where
  "demo_args args =
     (let path = (case arg 0 args of Some p \<Rightarrow> p | None \<Rightarrow> Utf8 ''buffer-pool-demo.db'')
      in case parse_number (arg 1 args) ''page count'' DEFAULT_PAGE_COUNT of Inl e \<Rightarrow> Inl e | Inr pages \<Rightarrow>
         case parse_number (arg 2 args) ''pool size'' DEFAULT_POOL_SIZE of Inl e \<Rightarrow> Inl e | Inr pool \<Rightarrow>
         case parse_number (arg 3 args) ''worker count'' DEFAULT_WORKER_COUNT of Inl e \<Rightarrow> Inl e | Inr workers \<Rightarrow>
         if length args > 4
         then Inl (InvalidInput ''usage: database-track [path] [page-count] [pool-size] [worker-count]'')
         else Inr (path, \<lparr>dc_page_count = pages, dc_pool_size = pool, dc_worker_count = workers\<rparr>))"

definition validate_config :: "demo_config \<Rightarrow> io_error + unit" where
  "validate_config c =
     (if dc_page_count c = 0 \<or> dc_pool_size c = 0 \<or> dc_worker_count c = 0
      then Inl (InvalidInput ''page count, pool size, and worker count must all be greater than zero'') else Inr ())"

definition record_message :: "nat \<Rightarrow> bytes" where
  "record_message sequence = map (\<lambda>c. of_nat (of_char c)) (''buffered record '' @ decimal sequence)"

section \<open>Threads of a scope\<close>

text \<open>\<^verbatim>\<open>(a..b).step_by(k)\<close>\<close>

function step_by :: "nat \<Rightarrow> nat \<Rightarrow> nat \<Rightarrow> nat list" where
  "step_by a b k = (if k = 0 \<or> b \<le> a then [] else a # step_by (a + k) b k)"
  by pat_completeness auto
termination by (relation "measure (\<lambda>(a, b, k). b - a)") auto

declare step_by.simps [simp del]

fun sched_run :: "('a \<Rightarrow> 'w \<Rightarrow> ('a \<times> 'w) option) \<Rightarrow> nat list \<Rightarrow> 'a list \<Rightarrow> 'w \<Rightarrow> ('a list \<times> 'w) option" where
  "sched_run turn [] xs w = Some (xs, w)"
| "sched_run turn (i # is) xs w =
     (if i < length xs
      then do { (x, w) \<leftarrow> turn (xs ! i) w; sched_run turn is (xs[i := x]) w }
      else sched_run turn is xs w)"

text \<open>The scope waits for all its threads; then the first error in the order of the threads counts.\<close>

fun join_errors :: "(io_error + 'b) list \<Rightarrow> io_error + 'b list" where
  "join_errors [] = Inr []"
| "join_errors (Inl e # rs) = Inl e"
| "join_errors (Inr x # rs) = (case join_errors rs of Inl e \<Rightarrow> Inl e | Inr xs \<Rightarrow> Inr (x # xs))"

definition join_workers :: "('a \<Rightarrow> (io_error + 'b) option) \<Rightarrow> 'a list \<Rightarrow> (io_error + 'b list) option" where
  "join_workers result ws = (if None \<in> set (map result ws) then None else Some (join_errors (map (the \<circ> result) ws)))"

section \<open>The threads that write\<close>

datatype writer_at =
    Ready | Fetching u32 | Holding u32 nat | Editing u32 nat bytes | Modified u32 nat | WriterFailed io_error

record demo_writer =
  dw_todo :: "nat list"
  dw_at :: writer_at
  dw_pages :: "(u32 \<times> nat) list"

definition writer_fail :: "(bytes \<Rightarrow> u32) \<Rightarrow> io_error \<Rightarrow> nat \<Rightarrow> demo_writer \<Rightarrow> lru_world \<Rightarrow> (demo_writer \<times> lru_world) option" where
  "writer_fail crc e h wr w = map_option (\<lambda>(_, w). (wr\<lparr>dw_at := WriterFailed e\<rparr>, w)) (lru_step crc (LDrop h) w)"

text \<open>A turn: \<^verbatim>\<open>allocate_page\<close> takes two, one for each lock it holds. \<open>copy_from_slice\<close> out of the page panics.\<close>

definition writer_step :: "(bytes \<Rightarrow> u32) \<Rightarrow> demo_writer \<Rightarrow> lru_world \<Rightarrow> (demo_writer \<times> lru_world) option" where
  "writer_step crc wr w = (case dw_todo wr of
      [] \<Rightarrow> Some (wr, w)
    | sequence # rest \<Rightarrow> (case dw_at wr of
          Ready \<Rightarrow> do {
            (r, p) \<leftarrow> lru_new_page crc Data (lw_pool w);
            Some (wr\<lparr>dw_at := (case r of Inl e \<Rightarrow> WriterFailed e | Inr n \<Rightarrow> Fetching n)\<rparr>, w\<lparr>lw_pool := p\<rparr>)
          }
        | Fetching n \<Rightarrow> do {
            (out, w') \<leftarrow> lru_step crc (LFetch n) w;
            Some (wr\<lparr>dw_at := (case out of LFailed e \<Rightarrow> WriterFailed e | _ \<Rightarrow> Holding n (length (lw_handles w)))\<rparr>, w')
          }
        | Holding n h \<Rightarrow> do {
            (out, w) \<leftarrow> lru_step crc (LRead h) w;
            (case out of
               LBytes data \<Rightarrow> do {
                 data \<leftarrow> overwrite_opt PAGE_HEADER_SIZE (record_message sequence) data;
                 Some (wr\<lparr>dw_at := Editing n h data\<rparr>, w)
               }
             | LStale e \<Rightarrow> writer_fail crc e h wr w
             | _ \<Rightarrow> None)
          }
        | Editing n h data \<Rightarrow> do {
            (out, w) \<leftarrow> lru_step crc (LModify h data) w;
            (case out of
               LDone \<Rightarrow> Some (wr\<lparr>dw_at := Modified n h\<rparr>, w)
             | LStale e \<Rightarrow> writer_fail crc e h wr w
             | _ \<Rightarrow> None)
          }
        | Modified n h \<Rightarrow> do {
            (_, w) \<leftarrow> lru_step crc (LDrop h) w;
            Some (wr\<lparr>dw_todo := rest, dw_at := Ready, dw_pages := dw_pages wr @ [(n, sequence)]\<rparr>, w)
          }
        | WriterFailed e \<Rightarrow> Some (wr, w)))"

definition writer_result :: "demo_writer \<Rightarrow> (io_error + (u32 \<times> nat) list) option" where
  "writer_result wr = (case dw_at wr of
      WriterFailed e \<Rightarrow> Some (Inl e)
    | _ \<Rightarrow> if dw_todo wr = [] then Some (Inr (dw_pages wr)) else None)"

section \<open>The threads that verify\<close>

datatype verifier_at = Seeking | Reading nat | Verified nat | VerifierFailed io_error

record demo_verifier =
  dv_todo :: "nat list"
  dv_at :: verifier_at
  dv_verified :: nat

definition verifier_fail :: "(bytes \<Rightarrow> u32) \<Rightarrow> io_error \<Rightarrow> nat \<Rightarrow> demo_verifier \<Rightarrow> lru_world \<Rightarrow> (demo_verifier \<times> lru_world) option" where
  "verifier_fail crc e h v w = map_option (\<lambda>(_, w). (v\<lparr>dv_at := VerifierFailed e\<rparr>, w)) (lru_step crc (LDrop h) w)"

definition verifier_step ::
    "(bytes \<Rightarrow> u32) \<Rightarrow> (u32 \<times> nat) list \<Rightarrow> demo_verifier \<Rightarrow> lru_world \<Rightarrow> (demo_verifier \<times> lru_world) option" where
  "verifier_step crc written v w = (case dv_todo v of
      [] \<Rightarrow> Some (v, w)
    | position # rest \<Rightarrow>
        if position \<ge> length written then None
        else (let (n, sequence) = written ! position; expected = record_message sequence in
        case dv_at v of
          Seeking \<Rightarrow> do {
            (out, w') \<leftarrow> lru_step crc (LFetch n) w;
            Some (v\<lparr>dv_at := (case out of LFailed e \<Rightarrow> VerifierFailed e | _ \<Rightarrow> Reading (length (lw_handles w)))\<rparr>, w')
          }
        | Reading h \<Rightarrow> do {
            (out, w) \<leftarrow> lru_step crc (LRead h) w;
            (case out of
               LBytes data \<Rightarrow> do {
                 stored \<leftarrow> slice_opt PAGE_HEADER_SIZE (PAGE_HEADER_SIZE + length expected) data;
                 if stored \<noteq> expected then verifier_fail crc (InvalidData ''unexpected record'') h v w
                 else Some (v\<lparr>dv_at := Verified h, dv_verified := dv_verified v + 1\<rparr>, w)
               }
             | LStale e \<Rightarrow> verifier_fail crc e h v w
             | _ \<Rightarrow> None)
          }
        | Verified h \<Rightarrow> do {
            (_, w) \<leftarrow> lru_step crc (LDrop h) w;
            Some (v\<lparr>dv_todo := rest, dv_at := Seeking\<rparr>, w)
          }
        | VerifierFailed e \<Rightarrow> Some (v, w)))"

definition verifier_result :: "demo_verifier \<Rightarrow> (io_error + nat) option" where
  "verifier_result v = (case dv_at v of
      VerifierFailed e \<Rightarrow> Some (Inl e)
    | _ \<Rightarrow> if dv_todo v = [] then Some (Inr (dv_verified v)) else None)"

section \<open>The demonstration\<close>

text \<open>\<open>Running\<close>: the schedule ended before the threads did. The result holds the two numbers that are printed.\<close>

datatype demo_outcome = Running | Returned "io_error + nat \<times> u32"

definition write_phase ::
    "(bytes \<Rightarrow> u32) \<Rightarrow> nat \<Rightarrow> nat \<Rightarrow> nat list \<Rightarrow> lru_pool \<Rightarrow> ((io_error + (u32 \<times> nat) list) option \<times> lru_world) option" where
  "write_phase crc page_count worker_count sched p = do {
     (ws, w) \<leftarrow> sched_run (writer_step crc) sched
       (map (\<lambda>i. \<lparr>dw_todo = step_by i page_count worker_count, dw_at = Ready, dw_pages = []\<rparr>) [0..<worker_count])
       \<lparr>lw_pool = p, lw_handles = []\<rparr>;
     Some (map_option (map_sum id concat) (join_workers writer_result ws), w)
   }"

definition verify_phase ::
    "(bytes \<Rightarrow> u32) \<Rightarrow> (u32 \<times> nat) list \<Rightarrow> nat \<Rightarrow> nat list \<Rightarrow> lru_pool \<Rightarrow> ((io_error + nat) option \<times> lru_world) option" where
  "verify_phase crc written worker_count sched p = do {
     (vs, w) \<leftarrow> sched_run (verifier_step crc written) sched
       (map (\<lambda>i. \<lparr>dv_todo = step_by i (length written) worker_count, dv_at = Seeking, dv_verified = 0\<rparr>) [0..<worker_count])
       \<lparr>lw_pool = p, lw_handles = []\<rparr>;
     Some (map_option (map_sum id sum_list) (join_workers verifier_result vs), w)
   }"

definition run_buffer_pool_demo ::
    "(bytes \<Rightarrow> u32) \<Rightarrow> string \<Rightarrow> demo_config \<Rightarrow> nat list \<Rightarrow> nat list \<Rightarrow> os \<Rightarrow> demo_outcome option" where
  "run_buffer_pool_demo crc path c wsched vsched s = (case validate_config c of
      Inl e \<Rightarrow> Some (Returned (Inl e))
    | Inr _ \<Rightarrow>
        let workers = min (min (dc_worker_count c) (dc_pool_size c)) (dc_page_count c) in
        case pf_open path PAGE_SIZE s of
          (Inl e, s) \<Rightarrow> Some (Returned (Inl e))
        | (Inr pf, s) \<Rightarrow> do {
            p \<leftarrow> lru_new (dc_pool_size c) pf;
            (written, w) \<leftarrow> write_phase crc (dc_page_count c) workers wsched p;
            (case written of
               None \<Rightarrow> Some Running
             | Some (Inl e) \<Rightarrow> Some (Returned (Inl e))
             | Some (Inr written) \<Rightarrow> do {
                 (r, p) \<leftarrow> lru_flush_all crc (lw_pool w);
                 (case r of
                    Inl e \<Rightarrow> Some (Returned (Inl e))
                  | Inr _ \<Rightarrow> (case pf_open path PAGE_SIZE (pf_os (l_page_file p)) of
                        (Inl e, s) \<Rightarrow> Some (Returned (Inl e))
                      | (Inr pf, s) \<Rightarrow> do {
                          p \<leftarrow> lru_new (dc_pool_size c) pf;
                          (verified, w) \<leftarrow> verify_phase crc written workers vsched p;
                          (case verified of
                             None \<Rightarrow> Some Running
                           | Some (Inl e) \<Rightarrow> Some (Returned (Inl e))
                           | Some (Inr n) \<Rightarrow> do {
                               (total, p) \<leftarrow> lru_page_count (lw_pool w);
                               Some (Returned (map_sum id (Pair n) total))
                             })
                        }))
               })
          })"

end
