(* ===== verification/Demo_Correct.thy ===== *)
theory Demo_Correct imports Demo begin

text \<open>
  The demonstration verifies every page it wrote, whatever the order in which its threads take their turns: the pool has
  a frame for every thread, so that no call fails, and each page belongs to the thread that allocated it.
\<close>

section \<open>Numbers and messages\<close>

lemma parse_digits_append: "parse_digits a (xs @ ys) = Option.bind (parse_digits a xs) (\<lambda>b. parse_digits b ys)"
proof (induction xs arbitrary: a)
  case (Cons c xs)
  show ?case
    by (cases "48 \<le> (of_char c :: nat) \<and> (of_char c :: nat) \<le> 57 \<and> a * 10 + (of_char c - 48) < 2 ^ 64")
      (simp_all only: append_Cons parse_digits.simps Let_def if_True if_False simp_thms bind.simps Cons.IH)
qed simp

lemma parse_decimal: "n < 2 ^ 64 \<Longrightarrow> parse_digits 0 (decimal n) = Some n"
proof (induction n rule: less_induct)
  case (less n)
  have "parse_digits 0 (if n < 10 then [] else decimal (n div 10)) = Some (n div 10)"
    using less.IH [of "n div 10"] less.prems by auto
  then show ?case
    using less.prems of_char_digit [of n] by (subst decimal_step) (simp add: parse_digits_append Let_def)
qed

lemma decimal_digits: "c \<in> set (decimal n) \<Longrightarrow> 48 \<le> (of_char c :: nat)"
proof (induction n rule: less_induct)
  case (less n)
  have "set (decimal n) = set (if n < 10 then [] else decimal (n div 10)) \<union> {char_of (48 + n mod 10)}"
    by (subst decimal_step) simp
  then have "c = char_of (48 + n mod 10) \<or> 10 \<le> n \<and> c \<in> set (decimal (n div 10))"
    using less.prems by (auto split: if_splits)
  then show ?case using less.IH [of "n div 10"] of_char_digit [of n] by auto
qed

lemma parse_usize_decimal: "n < 2 ^ 64 \<Longrightarrow> parse_usize (decimal n) = Some n"
proof -
  assume n: "n < 2 ^ 64"
  obtain c cs where c: "decimal n = c # cs" using decimal_not_Nil by (cases "decimal n") auto
  have "c \<noteq> CHR ''+''" using decimal_digits [of c n] c by auto
  then show ?thesis using parse_decimal [OF n] by (simp add: parse_usize_def c)
qed

lemma demo_args_decimal:
  assumes "a < 2 ^ 64" "b < 2 ^ 64" "c < 2 ^ 64"
  shows "demo_args [path, Utf8 (decimal a), Utf8 (decimal b), Utf8 (decimal c)] =
      Inr (path, \<lparr>dc_page_count = a, dc_pool_size = b, dc_worker_count = c\<rparr>)"
    and "demo_args [] = Inr (Utf8 ''buffer-pool-demo.db'', demo_config_default)"
  using assms by (simp_all add: demo_args_def arg_def parse_number_def parse_usize_decimal demo_config_default_def)

lemma decimal_length: "n < 10 ^ Suc k \<Longrightarrow> length (decimal n) \<le> Suc k"
proof (induction k arbitrary: n)
  case 0
  then show ?case by (simp add: decimal.simps)
next
  case (Suc k)
  have "length (decimal (n div 10)) \<le> Suc k" using Suc by (intro Suc.IH) (simp add: div_less_iff_less_mult)
  then show ?case by (subst decimal.simps) auto
qed

lemma message_length: "s < 2 ^ 32 \<Longrightarrow> length (record_message s) \<le> 26"
proof -
  assume "s < 2 ^ 32"
  then have "s < 10 ^ Suc 9" by simp
  then show ?thesis using decimal_length [of s 9] by (simp add: record_message_def)
qed

section \<open>Who takes which number\<close>

lemma step_by_Suc:
  "0 < k \<Longrightarrow> length (step_by a (Suc b) k) = length (step_by a b k) + (if a \<le> b \<and> (b - a) mod k = 0 then 1 else 0)"
proof (induction a b k rule: step_by.induct)
  case (1 a b k)
  show ?case
  proof (cases "b \<le> a")
    case True
    then show ?thesis using 1 step_by.simps [of a "Suc b" k] step_by.simps [of a b k] step_by.simps [of "a + k" "Suc b" k] by auto
  next
    case False
    have "(a + k \<le> b \<and> (b - (a + k)) mod k = 0) = (a \<le> b \<and> (b - a) mod k = 0)"
    proof (cases "a + k \<le> b")
      case True
      then have "b - a = b - (a + k) + k" by simp
      then show ?thesis using True by (metis le_add1 le_trans mod_add_self2)
    next
      case F: False
      then have "b - a < k" "b - a \<noteq> 0" using False by auto
      then show ?thesis using F by simp
    qed
    then show ?thesis using 1 False step_by.simps [of a "Suc b" k] step_by.simps [of a b k] by simp
  qed
qed

lemma step_by_total: "0 < k \<Longrightarrow> sum_list (map (\<lambda>i. length (step_by i n k)) [0..<k]) = n"
proof (induction n)
  case 0
  then show ?case by (simp add: step_by.simps)
next
  case (Suc n)
  have "(\<Sum>i\<leftarrow>[0..<k]. if i \<le> n \<and> (n - i) mod k = 0 then 1 else 0) = (\<Sum>i\<leftarrow>[0..<k]. if i = n mod k then 1 else (0 :: nat))"
  proof -
    have "i \<le> n \<and> (n - i) mod k = 0 \<longleftrightarrow> i = n mod k" if "i < k" for i
    proof
      assume "i \<le> n \<and> (n - i) mod k = 0"
      then show "i = n mod k" using that by (metis le_add_diff_inverse mod_add_right_eq add_0_right mod_less)
    qed (use Suc.prems in \<open>simp add: minus_mod_eq_mult_div\<close>)
    then show ?thesis by (intro arg_cong [where f = sum_list] map_cong) auto
  qed
  also have "\<dots> = 1" using Suc.prems by (simp add: sum_list_distinct_conv_sum_set sum.delta)
  finally show ?case using Suc by (simp add: step_by_Suc sum_list_addf)
qed

lemma step_by_bound: "x \<in> set (step_by a b k) \<Longrightarrow> x < b"
proof (induction a b k rule: step_by.induct)
  case (1 a b k)
  then show ?case by (subst (asm) step_by.simps) (auto split: if_splits)
qed

section \<open>Turns on the memory\<close>

definition live_handles :: "lru_mem \<Rightarrow> nat" where
  "live_handles m = length (filter (\<lambda>h. h \<noteq> None) (lm_handles m))"

lemma live_handles_simps:
  "live_handles (m\<lparr>lm_handles := lm_handles m @ [Some n]\<rparr>) = live_handles m + 1"
  "live_handles (m\<lparr>lm_pages := ps\<rparr>) = live_handles m"
  "mem_live h m = Some n \<Longrightarrow> live_handles m = live_handles (m\<lparr>lm_handles := (lm_handles m)[h := None]\<rparr>) + 1"
proof -
  have drop: "h < length hs \<Longrightarrow> hs ! h = Some n \<Longrightarrow>
      length (filter (\<lambda>h. h \<noteq> None) hs) = length (filter (\<lambda>h. h \<noteq> None) (hs[h := None])) + 1" for h hs and n :: u32
  proof (induction hs arbitrary: h)
    case (Cons x hs)
    then show ?case by (cases h) auto
  qed simp
  show "mem_live h m = Some n \<Longrightarrow> live_handles m = live_handles (m\<lparr>lm_handles := (lm_handles m)[h := None]\<rparr>) + 1"
    using drop [of h "lm_handles m" n] by (simp add: live_handles_def mem_live_def split: if_splits)
qed (simp_all add: live_handles_def)

lemma mem_live_simps:
  "mem_live h m = Some n \<Longrightarrow> mem_live h (m\<lparr>lm_handles := lm_handles m @ [x]\<rparr>) = Some n"
  "mem_live (length (lm_handles m)) (m\<lparr>lm_handles := lm_handles m @ [x]\<rparr>) = x"
  "mem_live h (m\<lparr>lm_pages := ps\<rparr>) = mem_live h m"
  "h \<noteq> k \<Longrightarrow> mem_live h (m\<lparr>lm_handles := (lm_handles m)[k := x]\<rparr>) = mem_live h m"
  by (auto simp: mem_live_def nth_append split: if_splits)

lemma handles_length: "mem_rel crc w m \<Longrightarrow> length (lm_handles m) = length (lw_handles w)"
  by (simp add: mem_rel_def)

lemma fetch_turn:
  assumes rel: "mem_rel crc w m" and room: "length (lm_handles m) + 1 < 2 ^ 32" and n: "unat n < length (lm_pages m)"
    and free: "live_handles m < length (l_frames (lw_pool w))"
  obtains w' where "lru_step crc (LFetch n) w = Some (LGot, w')" "mem_rel crc w' (m\<lparr>lm_handles := lm_handles m @ [Some n]\<rparr>)"
    "length (l_frames (lw_pool w')) = length (l_frames (lw_pool w))"
proof -
  have "length (lw_handles w) + 1 < 2 ^ 32" using room handles_length [OF rel] by simp
  from fetch_rel [OF rel this n] obtain out w' m' where f: "lru_step crc (LFetch n) w = Some (out, w')"
    "mem_got (length (l_frames (lw_pool w))) n out m = Some m'" "mem_rel crc w' m'"
    "length (l_frames (lw_pool w')) = length (l_frames (lw_pool w))" by blast
  then have "out = LGot" "m' = m\<lparr>lm_handles := lm_handles m @ [Some n]\<rparr>"
    using free by (auto simp: mem_got_def live_handles_def split: if_splits)
  then show thesis using that f by simp
qed

lemma read_turn:
  assumes rel: "mem_rel crc w m" and h: "mem_live h m = Some n"
  obtains d where "lru_step crc (LRead h) w = Some (LBytes d, w)" "masked d = lm_pages m ! unat n" "length d = PAGE_SIZE"
    "unat n < length (lm_pages m)"
proof -
  obtain g where g: "lru_live h w = Some g" "hd_page_id g = n" using h mem_live_eq [OF rel, of h] by auto
  note l = live_at [OF rel g(1)]
  have c: "lru_holds crc (lm_pages m) (lw_pool w)" using rel by (simp add: mem_rel_def)
  have "lru_step crc (LRead h) w = Some (LBytes (lf_data (l_frames (lw_pool w) ! hd_frame g)), w)"
    using l(1,2) g by (simp add: handle_read_def l_frame_def ensure_current_def)
  then show thesis using that lru_cachedD(4) [OF c l(3)] lru_cachedD(7) [OF c l(1)] l(4) g(2) by simp
qed

lemma plain_turn:
  assumes rel: "mem_rel crc w m" and h: "mem_live h m = Some n" and room: "length (lm_handles m) + 1 < 2 ^ 32"
  shows "length d = PAGE_SIZE \<Longrightarrow> \<exists>w'. lru_step crc (LModify h d) w = Some (LDone, w') \<and>
      mem_rel crc w' (m\<lparr>lm_pages := (lm_pages m)[unat n := masked d]\<rparr>) \<and> length (l_frames (lw_pool w')) = length (l_frames (lw_pool w))"
    and "\<exists>w'. lru_step crc (LDrop h) w = Some (LDone, w') \<and> mem_rel crc w' (m\<lparr>lm_handles := (lm_handles m)[h := None]\<rparr>) \<and>
      length (l_frames (lw_pool w')) = length (l_frames (lw_pool w))"
proof -
  have r: "length (lw_handles w) + 1 < 2 ^ 32" using room handles_length [OF rel] by simp
  show "\<exists>w'. lru_step crc (LModify h d) w = Some (LDone, w') \<and>
      mem_rel crc w' (m\<lparr>lm_pages := (lm_pages m)[unat n := masked d]\<rparr>) \<and> length (l_frames (lw_pool w')) = length (l_frames (lw_pool w))"
    if "length d = PAGE_SIZE"
    using plain_rel [OF rel r, of "LModify h d" 0] that h by (auto simp: lru_op_ok_def split: if_splits)
  show "\<exists>w'. lru_step crc (LDrop h) w = Some (LDone, w') \<and> mem_rel crc w' (m\<lparr>lm_handles := (lm_handles m)[h := None]\<rparr>) \<and>
      length (l_frames (lw_pool w')) = length (l_frames (lw_pool w))"
    using plain_rel [OF rel r, of "LDrop h" 0] h by (auto simp: lru_op_ok_def split: if_splits)
qed

text \<open>The record of a page; it lies behind the checksum.\<close>

definition page_says :: "nat \<Rightarrow> bytes \<Rightarrow> bool" where
  "page_says sequence b \<longleftrightarrow> bslice PAGE_HEADER_SIZE (length (record_message sequence)) b = record_message sequence"

lemma page_says_masked: "length b = PAGE_SIZE \<Longrightarrow> page_says sequence (masked b) = page_says sequence b"
  by (simp add: page_says_def masked_def sealed_body bslice_def PAGE_SIZE_def PAGE_HEADER_SIZE_def)

lemma message_written:
  assumes "length d = PAGE_SIZE" "sequence < 2 ^ 32"
  shows "\<exists>d'. overwrite_opt PAGE_HEADER_SIZE (record_message sequence) d = Some d' \<and> length d' = PAGE_SIZE \<and> page_says sequence d'"
  using message_length [OF assms(2)] assms(1)
  by (simp add: overwrite_opt_def page_says_def slice_overwrite_same PAGE_SIZE_def PAGE_HEADER_SIZE_def)

section \<open>The threads that write\<close>

definition writer_handle :: "demo_writer \<Rightarrow> (u32 \<times> nat) option" where
  "writer_handle wr = (case dw_at wr of
      Holding n h \<Rightarrow> Some (n, h) | Editing n h d \<Rightarrow> Some (n, h) | Modified n h \<Rightarrow> Some (n, h) | _ \<Rightarrow> None)"

definition writer_page :: "demo_writer \<Rightarrow> u32 option" where
  "writer_page wr = (case dw_at wr of Fetching n \<Rightarrow> Some n | _ \<Rightarrow> map_option fst (writer_handle wr))"

lemma handle_page: "writer_handle wr = Some (n, h) \<Longrightarrow> writer_page wr = Some n"
  by (cases "dw_at wr") (simp_all add: writer_handle_def writer_page_def)

definition writer_ids :: "demo_writer \<Rightarrow> u32 set" where
  "writer_ids wr = fst ` set (dw_pages wr) \<union> set_option (writer_page wr)"

definition held :: "demo_writer \<Rightarrow> nat" where
  "held wr = (if writer_handle wr = None then 0 else 1)"

definition to_allocate :: "demo_writer \<Rightarrow> nat" where
  "to_allocate wr = length (dw_todo wr) - (if dw_at wr = Ready then 0 else 1)"

definition to_fetch :: "demo_writer \<Rightarrow> nat" where
  "to_fetch wr = length (dw_todo wr) - (if writer_handle wr = None then 0 else 1)"

text \<open>The turns a thread still needs.\<close>

definition writer_left :: "demo_writer \<Rightarrow> nat" where
  "writer_left wr = 5 * length (dw_todo wr) -
     (case dw_at wr of Ready \<Rightarrow> 0 | Fetching n \<Rightarrow> 1 | Holding n h \<Rightarrow> 2 | Editing n h d \<Rightarrow> 3 | Modified n h \<Rightarrow> 4 | WriterFailed e \<Rightarrow> 0)"

definition writer_ok :: "lru_mem \<Rightarrow> demo_writer \<Rightarrow> bool" where
  "writer_ok m wr \<longleftrightarrow> (\<forall>s \<in> set (dw_todo wr). s < 2 ^ 32) \<and>
     (\<forall>(n, s) \<in> set (dw_pages wr). unat n < length (lm_pages m) \<and> page_says s (lm_pages m ! unat n)) \<and>
     (\<forall>n. writer_page wr = Some n \<longrightarrow> dw_todo wr \<noteq> [] \<and> unat n < length (lm_pages m) \<and> n \<notin> fst ` set (dw_pages wr)) \<and>
     (\<forall>n h. writer_handle wr = Some (n, h) \<longrightarrow> mem_live h m = Some n) \<and>
     (case dw_at wr of
        Editing n h d \<Rightarrow> length d = PAGE_SIZE \<and> page_says (hd (dw_todo wr)) d
      | Modified n h \<Rightarrow> page_says (hd (dw_todo wr)) (lm_pages m ! unat n)
      | WriterFailed e \<Rightarrow> False
      | _ \<Rightarrow> True)"

definition writers_ok :: "nat \<Rightarrow> nat \<Rightarrow> demo_writer list \<Rightarrow> lru_mem \<Rightarrow> bool" where
  "writers_ok pages handles ws m \<longleftrightarrow> (\<forall>i < length ws. writer_ok m (ws ! i)) \<and>
     (\<forall>i < length ws. \<forall>j < length ws. i \<noteq> j \<longrightarrow> writer_ids (ws ! i) \<inter> writer_ids (ws ! j) = {}) \<and>
     live_handles m = sum_list (map held ws) \<and>
     length (lm_pages m) + sum_list (map to_allocate ws) = pages \<and> length (lm_handles m) + sum_list (map to_fetch ws) = handles"

lemma sum_list_upd: "i < length xs \<Longrightarrow> sum_list (map f (xs[i := x])) + f (xs ! i) = sum_list (map f xs) + (f x :: nat)"
proof (induction xs arbitrary: i)
  case (Cons a xs)
  then show ?case by (cases i) auto
qed simp

lemma sum_below: "i < length xs \<Longrightarrow> f (xs ! i) = 0 \<Longrightarrow> (\<And>x. f x \<le> 1) \<Longrightarrow> sum_list (map f xs) < length (xs :: 'a list)"
  for f :: "'a \<Rightarrow> nat"
proof (induction xs arbitrary: i)
  case (Cons a xs)
  have all: "sum_list (map f xs) \<le> length xs" for xs
    using sum_list_mono [of xs f "\<lambda>_. 1"] Cons.prems(3) by (simp add: sum_list_triv)
  have "f a \<le> 1" by (rule Cons.prems(3))
  show ?case
  proof (cases i)
    case 0
    then show ?thesis using Cons.prems(2) all [of xs] by simp
  next
    case (Suc k)
    have "sum_list (map f xs) < length xs" by (rule Cons.IH [of k]) (use Cons.prems Suc in simp_all)
    then show ?thesis using \<open>f a \<le> 1\<close> by simp
  qed
qed simp

lemma sum_list_at: "i < length xs \<Longrightarrow> f (xs ! i) \<le> sum_list (map f xs :: nat list)"
  by (simp add: member_le_sum_list)

lemma writers_ok_update:
  assumes ok: "writers_ok pages handles ws m" and i: "i < length ws" and wr: "writer_ok m' wr"
    and others: "\<And>j. j < length ws \<Longrightarrow> j \<noteq> i \<Longrightarrow> writer_ok m' (ws ! j)"
    and ids: "\<And>j. j < length ws \<Longrightarrow> j \<noteq> i \<Longrightarrow> writer_ids wr \<inter> writer_ids (ws ! j) = {}"
    and counts: "live_handles m' + held (ws ! i) = live_handles m + held wr"
      "length (lm_pages m') + to_allocate wr = length (lm_pages m) + to_allocate (ws ! i)"
      "length (lm_handles m') + to_fetch wr = length (lm_handles m) + to_fetch (ws ! i)"
  shows "writers_ok pages handles (ws[i := wr]) m'"
proof -
  have "writer_ids (ws[i := wr] ! j) \<inter> writer_ids (ws[i := wr] ! k) = {}" if "j < length ws" "k < length ws" "j \<noteq> k" for j k
    using that ok ids [of j] ids [of k] i unfolding writers_ok_def by (auto simp: nth_list_update)
  moreover have "writer_ok m' (ws[i := wr] ! j)" if "j < length ws" for j
    using that wr others [of j] by (cases "j = i") simp_all
  ultimately show ?thesis
    using ok counts sum_list_upd [OF i, of held wr] sum_list_upd [OF i, of to_allocate wr] sum_list_upd [OF i, of to_fetch wr]
    unfolding writers_ok_def by auto
qed

text \<open>What a thread relies on: its own pages and its own handle.\<close>

lemma writer_ok_frame:
  assumes "writer_ok m wr" "length (lm_pages m) \<le> length (lm_pages m')"
    and "\<And>n. n \<in> writer_ids wr \<Longrightarrow> unat n < length (lm_pages m) \<Longrightarrow> lm_pages m' ! unat n = lm_pages m ! unat n"
    and "\<And>n h. writer_handle wr = Some (n, h) \<Longrightarrow> mem_live h m = Some n \<Longrightarrow> mem_live h m' = Some n"
  shows "writer_ok m' wr"
proof -
  have "page_says s (lm_pages m' ! unat n) \<and> unat n < length (lm_pages m')" if "(n, s) \<in> set (dw_pages wr)" for n s
  proof -
    have "n \<in> writer_ids wr" using that by (force simp: writer_ids_def)
    moreover have "unat n < length (lm_pages m)" "page_says s (lm_pages m ! unat n)" using assms(1) that by (auto simp: writer_ok_def)
    ultimately show ?thesis using assms(2,3) by simp
  qed
  moreover have "page_says s (lm_pages m' ! unat n)" if "dw_at wr = Modified n h" "page_says s (lm_pages m ! unat n)" for n h s
  proof -
    have "writer_page wr = Some n" using that(1) by (simp add: writer_page_def writer_handle_def)
    then have "n \<in> writer_ids wr" "unat n < length (lm_pages m)" using assms(1) by (auto simp: writer_ids_def writer_ok_def)
    then show ?thesis using assms(3) that(2) by simp
  qed
  ultimately show ?thesis
    using assms(1,2,4) unfolding writer_ok_def by (auto split: writer_at.splits)
qed

text \<open>What the turn of one thread does to the memory, as the others see it.\<close>

lemma others_undisturbed:
  assumes ok: "writers_ok pages handles ws m" and ij: "i < length ws" "j < length ws" "j \<noteq> i"
  shows "writer_ok (m\<lparr>lm_pages := lm_pages m @ [x]\<rparr>) (ws ! j)"
    and "writer_ok (m\<lparr>lm_handles := lm_handles m @ [y]\<rparr>) (ws ! j)"
    and "n \<in> writer_ids (ws ! i) \<Longrightarrow> writer_ok (m\<lparr>lm_pages := (lm_pages m)[unat n := x]\<rparr>) (ws ! j)"
    and "writer_handle (ws ! i) = Some (n, h) \<Longrightarrow> writer_ok (m\<lparr>lm_handles := (lm_handles m)[h := None]\<rparr>) (ws ! j)"
proof -
  have okj: "writer_ok m (ws ! j)" and oki: "writer_ok m (ws ! i)" and apart: "writer_ids (ws ! i) \<inter> writer_ids (ws ! j) = {}"
    using ok ij unfolding writers_ok_def by auto
  show "writer_ok (m\<lparr>lm_pages := lm_pages m @ [x]\<rparr>) (ws ! j)"
    by (rule writer_ok_frame [OF okj]) (auto simp: nth_append mem_live_simps)
  show "writer_ok (m\<lparr>lm_handles := lm_handles m @ [y]\<rparr>) (ws ! j)"
    by (rule writer_ok_frame [OF okj]) (auto simp: mem_live_simps)
  show "writer_ok (m\<lparr>lm_pages := (lm_pages m)[unat n := x]\<rparr>) (ws ! j)" if n: "n \<in> writer_ids (ws ! i)"
  proof (rule writer_ok_frame [OF okj])
    fix k assume "k \<in> writer_ids (ws ! j)"
    then have "k \<noteq> n" using n apart by auto
    then show "lm_pages (m\<lparr>lm_pages := (lm_pages m)[unat n := x]\<rparr>) ! unat k = lm_pages m ! unat k" by (simp add: unat_inj_iff)
  qed (simp_all add: mem_live_simps)
  show "writer_ok (m\<lparr>lm_handles := (lm_handles m)[h := None]\<rparr>) (ws ! j)" if h: "writer_handle (ws ! i) = Some (n, h)"
  proof (rule writer_ok_frame [OF okj])
    have n: "n \<in> writer_ids (ws ! i)" "mem_live h m = Some n"
      using h oki handle_page [OF h] by (auto simp: writer_ids_def writer_ok_def)
    fix k g assume k: "writer_handle (ws ! j) = Some (k, g)" "mem_live g m = Some k"
    then have "k \<in> writer_ids (ws ! j)" using handle_page [OF k(1)] by (simp add: writer_ids_def)
    then have "g \<noteq> h" using k(2) n apart by auto
    then show "mem_live g (m\<lparr>lm_handles := (lm_handles m)[h := None]\<rparr>) = Some k" using k(2) by (simp add: mem_live_simps)
  qed simp_all
qed

lemma held_room:
  assumes "writers_ok pages handles ws m" "i < length ws" "writer_handle (ws ! i) = None"
  shows "live_handles m < length ws"
  using assms sum_below [of i ws held] by (simp add: writers_ok_def held_def)

lemma writer_okD:
  assumes "writer_ok m wr"
  shows "s \<in> set (dw_todo wr) \<Longrightarrow> s < 2 ^ 32"
    and "writer_page wr = Some n \<Longrightarrow> dw_todo wr \<noteq> [] \<and> unat n < length (lm_pages m) \<and> n \<notin> fst ` set (dw_pages wr)"
    and "writer_handle wr = Some (n, h) \<Longrightarrow> mem_live h m = Some n"
  using assms by (auto simp: writer_ok_def)

text \<open>What a turn of the thread \<open>i\<close> needs and does.\<close>

definition turn_ready :: "(bytes \<Rightarrow> u32) \<Rightarrow> nat \<Rightarrow> nat \<Rightarrow> demo_writer list \<Rightarrow> nat \<Rightarrow> lru_world \<Rightarrow> lru_mem \<Rightarrow> bool" where
  "turn_ready crc pages handles ws i w m \<longleftrightarrow> mem_rel crc w m \<and> writers_ok pages handles ws m \<and> i < length ws \<and>
     length ws \<le> length (l_frames (lw_pool w)) \<and> pages < 2 ^ 32 \<and> handles + 1 < 2 ^ 32"

definition turn_done :: "(bytes \<Rightarrow> u32) \<Rightarrow> nat \<Rightarrow> nat \<Rightarrow> demo_writer list \<Rightarrow> nat \<Rightarrow> lru_world \<Rightarrow> bool" where
  "turn_done crc pages handles ws i w \<longleftrightarrow> (\<exists>wr w' m'. writer_step crc (ws ! i) w = Some (wr, w') \<and> mem_rel crc w' m' \<and>
     writers_ok pages handles (ws[i := wr]) m' \<and> length (l_frames (lw_pool w')) = length (l_frames (lw_pool w)) \<and>
     writer_left wr = writer_left (ws ! i) - 1 \<and>
     length (dw_pages wr) + length (dw_todo wr) = length (dw_pages (ws ! i)) + length (dw_todo (ws ! i)))"

lemma turn_readyD:
  assumes "turn_ready crc pages handles ws i w m"
  shows "mem_rel crc w m" "writers_ok pages handles ws m" "i < length ws" "length ws \<le> length (l_frames (lw_pool w))"
    "pages < 2 ^ 32" "length (lm_handles m) + 1 < 2 ^ 32" "writer_ok m (ws ! i)"
    "j < length ws \<Longrightarrow> j \<noteq> i \<Longrightarrow> writer_ids (ws ! i) \<inter> writer_ids (ws ! j) = {}"
  using assms unfolding turn_ready_def writers_ok_def by auto

lemmas writer_simps = writer_handle_def writer_page_def held_def to_allocate_def to_fetch_def writer_left_def writer_ids_def

lemma turn_Ready:
  assumes t: "turn_ready crc pages handles ws i w m" and todo: "dw_todo (ws ! i) = sequence # rest" and Ready: "dw_at (ws ! i) = Ready"
  shows "turn_done crc pages handles ws i w"
proof -
  let ?wr = "ws ! i"
  note [simp] = writer_simps
  note rel = turn_readyD(1) [OF t] and ok = turn_readyD(2) [OF t] and i = turn_readyD(3) [OF t] and frames = turn_readyD(4) [OF t]
    and bound = turn_readyD(5) [OF t] and room = turn_readyD(6) [OF t] and wr = turn_readyD(7) [OF t] and apart = turn_readyD(8) [OF t]
  note others = others_undisturbed [OF ok i] and update = writers_ok_update [OF ok i]
  have "to_allocate ?wr \<le> sum_list (map to_allocate ws)" using sum_list_at [OF i] .
  then have "length (lm_pages m) + 1 \<le> pages" using ok Ready todo by (simp add: writers_ok_def)
  then have k: "length (lm_pages m) + 1 < 2 ^ 32" using bound by simp
  let ?n = "of_nat (length (lm_pages m)) :: u32"
  let ?m = "m\<lparr>lm_pages := lm_pages m @ [masked (fresh_page ?n Data)]\<rparr>" and ?wr' = "?wr\<lparr>dw_at := Fetching ?n\<rparr>"
  obtain q where q: "lru_new_page crc Data (lw_pool w) = Some (Inr ?n, q)" "mem_rel crc (w\<lparr>lw_pool := q\<rparr>) ?m"
    "length (l_frames q) = length (l_frames (lw_pool w))" using new_page_rel [OF rel k, of Data] by blast
  have un: "unat ?n = length (lm_pages m)" using k by (simp add: unat_of_nat)
  have fresh: "?n \<notin> writer_ids (ws ! j)" if "j < length ws" for j
  proof
    assume "?n \<in> writer_ids (ws ! j)"
    moreover have "writer_ok m (ws ! j)" using ok that by (simp add: writers_ok_def)
    ultimately have "unat ?n < length (lm_pages m)" unfolding writer_ok_def writer_ids_def by fastforce
    then show False using un by simp
  qed
  have "writer_ok ?m ?wr'"
  proof -
    have "writer_ok ?m ?wr" by (rule writer_ok_frame [OF wr]) (auto simp: nth_append mem_live_simps)
    then show ?thesis unfolding turn_done_def using Ready todo un fresh [OF i] by (simp add: writer_ok_def)
  qed
  then have "writers_ok pages handles (ws[i := ?wr']) ?m"
    using others(1) apart fresh Ready todo by (intro update) (auto simp: live_handles_simps)
  then show ?thesis unfolding turn_done_def using q todo Ready by (intro exI [of _ ?wr'] exI [of _ "w\<lparr>lw_pool := q\<rparr>"] exI [of _ ?m]) (simp add: writer_step_def)
qed

lemma turn_Fetching:
  assumes t: "turn_ready crc pages handles ws i w m" and todo: "dw_todo (ws ! i) = sequence # rest" and Fetching: "dw_at (ws ! i) = Fetching n"
  shows "turn_done crc pages handles ws i w"
proof -
  let ?wr = "ws ! i"
  note [simp] = writer_simps
  note rel = turn_readyD(1) [OF t] and ok = turn_readyD(2) [OF t] and i = turn_readyD(3) [OF t] and frames = turn_readyD(4) [OF t]
    and bound = turn_readyD(5) [OF t] and room = turn_readyD(6) [OF t] and wr = turn_readyD(7) [OF t] and apart = turn_readyD(8) [OF t]
  note others = others_undisturbed [OF ok i] and update = writers_ok_update [OF ok i]
  have "live_handles m < length ws" using held_room [OF ok i] Fetching by simp
  then have free: "live_handles m < length (l_frames (lw_pool w))" using frames by simp
  have n: "unat n < length (lm_pages m)" "n \<notin> fst ` set (dw_pages ?wr)" using writer_okD(2) [OF wr, of n] Fetching by simp_all
  let ?m = "m\<lparr>lm_handles := lm_handles m @ [Some n]\<rparr>" and ?wr' = "?wr\<lparr>dw_at := Holding n (length (lw_handles w))\<rparr>"
  obtain w' where f: "lru_step crc (LFetch n) w = Some (LGot, w')" "mem_rel crc w' ?m"
    "length (l_frames (lw_pool w')) = length (l_frames (lw_pool w))" using fetch_turn [OF rel room n(1) free] by blast
  have "writer_ok ?m ?wr'"
  proof -
    have "writer_ok ?m ?wr" by (rule writer_ok_frame [OF wr]) (auto simp: mem_live_simps)
    moreover have "mem_live (length (lw_handles w)) ?m = Some n" using mem_live_simps(2) [of m "Some n"] handles_length [OF rel] by simp
    ultimately show ?thesis using Fetching n todo by (simp add: writer_ok_def)
  qed
  then have "writers_ok pages handles (ws[i := ?wr']) ?m"
    using others(2) apart Fetching todo by (intro update) (auto simp: live_handles_simps)
  then show ?thesis unfolding turn_done_def using f todo Fetching by (intro exI [of _ ?wr'] exI [of _ w'] exI [of _ ?m]) (simp add: writer_step_def)
qed

lemma turn_Holding:
  assumes t: "turn_ready crc pages handles ws i w m" and todo: "dw_todo (ws ! i) = sequence # rest" and Holding: "dw_at (ws ! i) = Holding n h"
  shows "turn_done crc pages handles ws i w"
proof -
  let ?wr = "ws ! i"
  note [simp] = writer_simps
  note rel = turn_readyD(1) [OF t] and ok = turn_readyD(2) [OF t] and i = turn_readyD(3) [OF t] and frames = turn_readyD(4) [OF t]
    and bound = turn_readyD(5) [OF t] and room = turn_readyD(6) [OF t] and wr = turn_readyD(7) [OF t] and apart = turn_readyD(8) [OF t]
  note others = others_undisturbed [OF ok i] and update = writers_ok_update [OF ok i]
  have small: "sequence < 2 ^ 32" using writer_okD(1) [OF wr, of sequence] todo by simp
  have n: "mem_live h m = Some n" using writer_okD(3) [OF wr, of n h] Holding by simp
  obtain d where d: "lru_step crc (LRead h) w = Some (LBytes d, w)" "length d = PAGE_SIZE" using read_turn [OF rel n] by blast
  obtain d' where d': "overwrite_opt PAGE_HEADER_SIZE (record_message sequence) d = Some d'" "length d' = PAGE_SIZE" "page_says sequence d'"
    using message_written [OF d(2) small] by blast
  let ?wr' = "?wr\<lparr>dw_at := Editing n h d'\<rparr>"
  have "writer_ok m ?wr'" using wr Holding todo d' by (simp add: writer_ok_def)
  then have "writers_ok pages handles (ws[i := ?wr']) m"
    using ok apart Holding todo by (intro update) (auto simp: writers_ok_def)
  then show ?thesis unfolding turn_done_def using rel d d' todo Holding by (intro exI [of _ ?wr'] exI [of _ w] exI [of _ m]) (simp add: writer_step_def)
qed

lemma turn_Editing:
  assumes t: "turn_ready crc pages handles ws i w m" and todo: "dw_todo (ws ! i) = sequence # rest" and Editing: "dw_at (ws ! i) = Editing n h d"
  shows "turn_done crc pages handles ws i w"
proof -
  let ?wr = "ws ! i"
  note [simp] = writer_simps
  note rel = turn_readyD(1) [OF t] and ok = turn_readyD(2) [OF t] and i = turn_readyD(3) [OF t] and frames = turn_readyD(4) [OF t]
    and bound = turn_readyD(5) [OF t] and room = turn_readyD(6) [OF t] and wr = turn_readyD(7) [OF t] and apart = turn_readyD(8) [OF t]
  note others = others_undisturbed [OF ok i] and update = writers_ok_update [OF ok i]
  have n: "mem_live h m = Some n" "unat n < length (lm_pages m)" "n \<notin> fst ` set (dw_pages ?wr)"
    using writer_okD(2,3) [OF wr, of n] Editing by simp_all
  have d: "length d = PAGE_SIZE" "page_says sequence d" using wr Editing todo by (simp_all add: writer_ok_def)
  let ?m = "m\<lparr>lm_pages := (lm_pages m)[unat n := masked d]\<rparr>" and ?wr' = "?wr\<lparr>dw_at := Modified n h\<rparr>"
  obtain w' where f: "lru_step crc (LModify h d) w = Some (LDone, w')" "mem_rel crc w' ?m"
    "length (l_frames (lw_pool w')) = length (l_frames (lw_pool w))" using plain_turn(1) [OF rel n(1) room d(1)] by blast
  have pages: "page_says s (lm_pages ?m ! unat k)" if "(k, s) \<in> set (dw_pages ?wr)" for k s
  proof -
    have "k \<noteq> n" using that n(3) by force
    then show ?thesis unfolding turn_done_def using wr that by (auto simp: writer_ok_def unat_inj_iff)
  qed
  have "writer_ok ?m ?wr'"
    using wr Editing todo n d pages page_says_masked [OF d(1)] by (auto simp: writer_ok_def mem_live_simps)
  moreover have "n \<in> writer_ids ?wr" using Editing by simp
  ultimately have "writers_ok pages handles (ws[i := ?wr']) ?m"
    using others(3) apart Editing todo by (intro update) (auto simp: live_handles_simps)
  then show ?thesis unfolding turn_done_def using f todo Editing by (intro exI [of _ ?wr'] exI [of _ w'] exI [of _ ?m]) (simp add: writer_step_def)
qed

lemma turn_Modified:
  assumes t: "turn_ready crc pages handles ws i w m" and todo: "dw_todo (ws ! i) = sequence # rest" and Modified: "dw_at (ws ! i) = Modified n h"
  shows "turn_done crc pages handles ws i w"
proof -
  let ?wr = "ws ! i"
  note [simp] = writer_simps
  note rel = turn_readyD(1) [OF t] and ok = turn_readyD(2) [OF t] and i = turn_readyD(3) [OF t] and frames = turn_readyD(4) [OF t]
    and bound = turn_readyD(5) [OF t] and room = turn_readyD(6) [OF t] and wr = turn_readyD(7) [OF t] and apart = turn_readyD(8) [OF t]
  note others = others_undisturbed [OF ok i] and update = writers_ok_update [OF ok i]
  have n: "mem_live h m = Some n" "unat n < length (lm_pages m)" using writer_okD(2,3) [OF wr, of n] Modified by simp_all
  let ?m = "m\<lparr>lm_handles := (lm_handles m)[h := None]\<rparr>" and ?wr' = "?wr\<lparr>dw_todo := rest, dw_at := Ready, dw_pages := dw_pages ?wr @ [(n, sequence)]\<rparr>"
  obtain w' where f: "lru_step crc (LDrop h) w = Some (LDone, w')" "mem_rel crc w' ?m"
    "length (l_frames (lw_pool w')) = length (l_frames (lw_pool w))" using plain_turn(2) [OF rel n(1) room] by blast
  have "writer_ok ?m ?wr'" using wr Modified todo n by (auto simp: writer_ok_def)
  then have "writers_ok pages handles (ws[i := ?wr']) ?m"
    using others(4) apart Modified todo live_handles_simps(3) [OF n(1)] by (intro update) auto
  then show ?thesis unfolding turn_done_def using f todo Modified by (intro exI [of _ ?wr'] exI [of _ w'] exI [of _ ?m]) (simp add: writer_step_def)
qed

lemma writer_turn:
  assumes t: "turn_ready crc pages handles ws i w m"
  shows "turn_done crc pages handles ws i w"
proof (cases "dw_todo (ws ! i)")
  case Nil
  then show ?thesis using turn_readyD(1-3) [OF t] unfolding turn_done_def
    by (intro exI [of _ "ws ! i"] exI [of _ w] exI [of _ m]) (simp add: writer_step_def writer_left_def)
next
  case (Cons sequence rest)
  show ?thesis
  proof (cases "dw_at (ws ! i)")
    case (WriterFailed e)
    then show ?thesis using turn_readyD(7) [OF t] by (simp add: writer_ok_def)
  qed (use t Cons in \<open>auto intro: turn_Ready turn_Fetching turn_Holding turn_Editing turn_Modified\<close>)
qed

section \<open>The writing scope\<close>

lemma writers_run:
  assumes "mem_rel crc w m" "writers_ok pages handles ws m" "length ws \<le> length (l_frames (lw_pool w))" "pages < 2 ^ 32" "handles + 1 < 2 ^ 32"
  shows "\<exists>ws' w' m'. sched_run (writer_step crc) sched ws w = Some (ws', w') \<and> mem_rel crc w' m' \<and> writers_ok pages handles ws' m' \<and>
    length ws' = length ws \<and> (\<forall>i < length ws. writer_left (ws' ! i) = writer_left (ws ! i) - count_list sched i \<and>
      length (dw_pages (ws' ! i)) + length (dw_todo (ws' ! i)) = length (dw_pages (ws ! i)) + length (dw_todo (ws ! i)))"
  using assms
proof (induction sched arbitrary: ws w m)
  case Nil
  then show ?case by auto
next
  case (Cons i sched)
  show ?case
  proof (cases "i < length ws")
    case False
    then have "count_list (i # sched) j = count_list sched j" if "j < length ws" for j using that by auto
    then show ?thesis using Cons.IH [OF Cons.prems] False by auto
  next
    case True
    have "turn_ready crc pages handles ws i w m" using Cons.prems True by (simp add: turn_ready_def)
    then obtain wr w1 m1 where t: "writer_step crc (ws ! i) w = Some (wr, w1)" "mem_rel crc w1 m1" "writers_ok pages handles (ws[i := wr]) m1"
      "length (l_frames (lw_pool w1)) = length (l_frames (lw_pool w))" "writer_left wr = writer_left (ws ! i) - 1"
      "length (dw_pages wr) + length (dw_todo wr) = length (dw_pages (ws ! i)) + length (dw_todo (ws ! i))"
      using writer_turn unfolding turn_done_def by blast
    have "length (ws[i := wr]) \<le> length (l_frames (lw_pool w1))" using Cons.prems(3) t(4) by simp
    from Cons.IH [OF t(2,3) this Cons.prems(4,5)] obtain ws' w' m' where r: "sched_run (writer_step crc) sched (ws[i := wr]) w1 = Some (ws', w')"
      "mem_rel crc w' m'" "writers_ok pages handles ws' m'" "length ws' = length ws"
      "\<And>j. j < length ws \<Longrightarrow> writer_left (ws' ! j) = writer_left (ws[i := wr] ! j) - count_list sched j \<and>
        length (dw_pages (ws' ! j)) + length (dw_todo (ws' ! j)) = length (dw_pages (ws[i := wr] ! j)) + length (dw_todo (ws[i := wr] ! j))"
      by auto
    have "writer_left (ws' ! j) = writer_left (ws ! j) - count_list (i # sched) j \<and>
        length (dw_pages (ws' ! j)) + length (dw_todo (ws' ! j)) = length (dw_pages (ws ! j)) + length (dw_todo (ws ! j))" if "j < length ws" for j
      using r(5) [OF that] t(5,6) True by (cases "j = i") simp_all
    then show ?thesis using t(1) r(1-4) True by auto
  qed
qed

lemma join_workers_all: "(\<And>x. x \<in> set xs \<Longrightarrow> result x = Some (Inr (g x))) \<Longrightarrow> join_workers result xs = Some (Inr (map g xs))"
proof -
  assume all: "\<And>x. x \<in> set xs \<Longrightarrow> result x = Some (Inr (g x))"
  then have "join_errors (map (the \<circ> result) xs) = Inr (map g xs)" by (induction xs) auto
  then show ?thesis using all by (auto simp: join_workers_def)
qed

lemma writer_over: "writer_ok m wr \<Longrightarrow> writer_left wr = 0 \<Longrightarrow> dw_todo wr = [] \<and> dw_at wr = Ready \<and> writer_result wr = Some (Inr (dw_pages wr))"
  by (cases "dw_at wr"; cases "dw_todo wr") (auto simp: writer_ok_def writer_page_def writer_handle_def writer_left_def writer_result_def)

definition fresh_writers :: "nat \<Rightarrow> nat \<Rightarrow> demo_writer list" where
  "fresh_writers page_count workers = map (\<lambda>i. \<lparr>dw_todo = step_by i page_count workers, dw_at = Ready, dw_pages = []\<rparr>) [0..<workers]"

lemma fresh_writers_ok:
  assumes "0 < workers" "page_count < 2 ^ 32" "lm_handles m = []"
  shows "writers_ok (length (lm_pages m) + page_count) page_count (fresh_writers page_count workers) m"
proof -
  have "s < 2 ^ 32" if "s \<in> set (step_by i page_count workers)" for s i
    using step_by_bound [OF that] assms(2) by (rule order.strict_trans)
  then have "writer_ok m (fresh_writers page_count workers ! i)" if "i < workers" for i
    using that unfolding writer_ok_def by (simp add: fresh_writers_def writer_page_def writer_handle_def)
  moreover have "map to_allocate (fresh_writers page_count workers) = map (\<lambda>i. length (step_by i page_count workers)) [0..<workers]"
    "map to_fetch (fresh_writers page_count workers) = map (\<lambda>i. length (step_by i page_count workers)) [0..<workers]"
    "map held (fresh_writers page_count workers) = replicate workers 0"
    by (simp_all add: fresh_writers_def to_allocate_def to_fetch_def held_def writer_handle_def comp_def map_replicate_const)
  moreover have "writer_ids (fresh_writers page_count workers ! i) = {}" if "i < workers" for i
    using that by (simp add: fresh_writers_def writer_ids_def writer_page_def writer_handle_def)
  moreover have "length (fresh_writers page_count workers) = workers" by (simp add: fresh_writers_def)
  ultimately show ?thesis
    using assms(3) step_by_total [OF assms(1), of page_count]
    by (simp add: writers_ok_def live_handles_def sum_list_triv del: map_eq_conv)
qed

text \<open>What the writing scope leaves: the numbers of the pages with their records, and the pages.\<close>

lemma write_phase_ok:
  assumes rel: "mem_rel crc \<lparr>lw_pool = p, lw_handles = []\<rparr> m" and n: "0 < workers" "workers \<le> length (l_frames p)"
    and bound: "length (lm_pages m) + page_count + 1 < 2 ^ 32"
    and turns: "\<And>i. i < workers \<Longrightarrow> 5 * page_count \<le> count_list sched i"
  obtains written w' m' where "write_phase crc page_count workers sched p = Some (Some (Inr written), w')" "mem_rel crc w' m'"
    "length written = page_count" "length (lm_pages m') = length (lm_pages m) + page_count"
    "\<And>n s. (n, s) \<in> set written \<Longrightarrow> unat n < length (lm_pages m') \<and> page_says s (lm_pages m' ! unat n)"
proof -
  let ?ws = "fresh_writers page_count workers"
  have "lm_handles m = []" using rel by (simp add: mem_rel_def)
  then have ok: "writers_ok (length (lm_pages m) + page_count) page_count ?ws m" using bound n(1) by (intro fresh_writers_ok) simp_all
  have len: "length ?ws = workers" by (simp add: fresh_writers_def)
  have small: "length ?ws \<le> length (l_frames (lw_pool \<lparr>lw_pool = p, lw_handles = []\<rparr>))" using n(2) len by simp
  have "length (lm_pages m) + page_count < 2 ^ 32" "page_count + 1 < 2 ^ 32" using bound by simp_all
  from writers_run [OF rel ok small this, of sched] obtain ws w' m' where r: "sched_run (writer_step crc) sched ?ws \<lparr>lw_pool = p, lw_handles = []\<rparr> = Some (ws, w')"
    "mem_rel crc w' m'" "writers_ok (length (lm_pages m) + page_count) page_count ws m'" "length ws = workers"
    "\<And>i. i < workers \<Longrightarrow> writer_left (ws ! i) = writer_left (?ws ! i) - count_list sched i \<and>
      length (dw_pages (ws ! i)) + length (dw_todo (ws ! i)) = length (dw_pages (?ws ! i)) + length (dw_todo (?ws ! i))"
    unfolding len by blast
  have over: "dw_todo (ws ! i) = [] \<and> dw_at (ws ! i) = Ready \<and> writer_result (ws ! i) = Some (Inr (dw_pages (ws ! i)))" if "i < workers" for i
  proof (rule writer_over)
    show "writer_ok m' (ws ! i)" using r(3,4) that by (simp add: writers_ok_def)
    have "length (step_by i page_count workers) \<le> page_count"
      using sum_list_at [of i "[0..<workers]" "\<lambda>i. length (step_by i page_count workers)"] step_by_total [OF n(1), of page_count] that by simp
    then show "writer_left (ws ! i) = 0" using r(5) [OF that] turns [OF that] that by (simp add: fresh_writers_def writer_left_def)
  qed
  have all: "writer_result wr = Some (Inr (dw_pages wr)) \<and> dw_todo wr = []" if "wr \<in> set ws" for wr
    using that over r(4) by (auto simp: in_set_conv_nth)
  have "map (\<lambda>wr. length (dw_pages wr)) ws = map (\<lambda>i. length (step_by i page_count workers)) [0..<workers]"
    using r(4,5) over by (intro nth_equalityI) (auto simp: fresh_writers_def)
  then have "length (concat (map dw_pages ws)) = page_count" using step_by_total [OF n(1), of page_count] by (simp add: length_concat comp_def)
  moreover have "sum_list (map to_allocate ws) = 0" using all by (simp add: to_allocate_def)
  then have "length (lm_pages m') = length (lm_pages m) + page_count" using r(3) unfolding writers_ok_def by linarith
  moreover have "write_phase crc page_count workers sched p = Some (Some (Inr (concat (map dw_pages ws))), w')"
    using r(1) join_workers_all [of ws writer_result dw_pages] all by (simp add: write_phase_def fresh_writers_def)
  moreover have "unat n < length (lm_pages m') \<and> page_says s (lm_pages m' ! unat n)"
    if at: "(n, s) \<in> set (concat (map dw_pages ws))" for n s
  proof -
    obtain wr where "wr \<in> set ws" "(n, s) \<in> set (dw_pages wr)" using at by auto
    then obtain i where "i < length ws" "(n, s) \<in> set (dw_pages (ws ! i))" by (metis in_set_conv_nth)
    then show ?thesis using r(3) unfolding writers_ok_def writer_ok_def by blast
  qed
  ultimately show thesis using that r(2) by blast
qed

end
