(* ===== verification/Demo_Runs.thy ===== *)
theory Demo_Runs imports Demo_Correct begin

text \<open>
  The verifying threads of the demonstration, and the whole of it: write, flush, reopen, verify.
\<close>

section \<open>The threads that verify\<close>

definition verifier_handle :: "demo_verifier \<Rightarrow> nat option" where
  "verifier_handle v = (case dv_at v of Reading h \<Rightarrow> Some h | Verified h \<Rightarrow> Some h | _ \<Rightarrow> None)"

definition v_held :: "demo_verifier \<Rightarrow> nat" where
  "v_held v = (if verifier_handle v = None then 0 else 1)"

definition v_to_fetch :: "demo_verifier \<Rightarrow> nat" where
  "v_to_fetch v = length (dv_todo v) - v_held v"

definition verifier_left :: "demo_verifier \<Rightarrow> nat" where
  "verifier_left v = 3 * length (dv_todo v) - (case dv_at v of Reading h \<Rightarrow> 1 | Verified h \<Rightarrow> 2 | _ \<Rightarrow> 0)"

definition v_sum :: "demo_verifier \<Rightarrow> int" where
  "v_sum v = int (dv_verified v) + int (length (dv_todo v)) - (case dv_at v of Verified h \<Rightarrow> 1 | _ \<Rightarrow> 0)"

lemmas verifier_simps = verifier_handle_def v_held_def v_to_fetch_def verifier_left_def v_sum_def

text \<open>The pages say what was written.\<close>

definition written_ok :: "(u32 \<times> nat) list \<Rightarrow> bytes list \<Rightarrow> bool" where
  "written_ok written pages \<longleftrightarrow> (\<forall>(n, s) \<in> set written. unat n < length pages \<and> page_says s (pages ! unat n))"

definition verifier_ok :: "(u32 \<times> nat) list \<Rightarrow> lru_mem \<Rightarrow> demo_verifier \<Rightarrow> bool" where
  "verifier_ok written m v \<longleftrightarrow> (\<forall>p \<in> set (dv_todo v). p < length written) \<and>
     (\<forall>h. verifier_handle v = Some h \<longrightarrow> dv_todo v \<noteq> [] \<and> mem_live h m = Some (fst (written ! hd (dv_todo v)))) \<and>
     (\<forall>e. dv_at v \<noteq> VerifierFailed e)"

definition verifiers_ok :: "(u32 \<times> nat) list \<Rightarrow> nat \<Rightarrow> demo_verifier list \<Rightarrow> lru_mem \<Rightarrow> bool" where
  "verifiers_ok written handles vs m \<longleftrightarrow> written_ok written (lm_pages m) \<and> (\<forall>i < length vs. verifier_ok written m (vs ! i)) \<and>
     (\<forall>i < length vs. \<forall>j < length vs. i \<noteq> j \<longrightarrow> verifier_handle (vs ! i) \<noteq> None \<longrightarrow> verifier_handle (vs ! j) \<noteq> verifier_handle (vs ! i)) \<and>
     live_handles m = sum_list (map v_held vs) \<and> length (lm_handles m) + sum_list (map v_to_fetch vs) = handles"

lemma verifiers_apart:
  assumes ok: "verifiers_ok written handles vs m" and jk: "j < length vs" "k < length vs" "j \<noteq> k"
    and h: "verifier_handle (vs ! j) = Some h"
  shows "verifier_handle (vs ! k) \<noteq> Some h"
proof -
  have "verifier_handle (vs ! j) \<noteq> None \<longrightarrow> verifier_handle (vs ! k) \<noteq> verifier_handle (vs ! j)"
    using ok jk unfolding verifiers_ok_def by blast
  then show ?thesis using h by simp
qed

lemma verifiers_ok_update:
  assumes ok: "verifiers_ok written handles vs m" and i: "i < length vs" and v: "verifier_ok written m' v"
    and others: "\<And>j. j < length vs \<Longrightarrow> j \<noteq> i \<Longrightarrow> verifier_ok written m' (vs ! j)"
    and apart: "\<And>j h. j < length vs \<Longrightarrow> j \<noteq> i \<Longrightarrow> verifier_handle v = Some h \<Longrightarrow> verifier_handle (vs ! j) \<noteq> Some h"
    and pages: "lm_pages m' = lm_pages m"
    and counts: "live_handles m' + v_held (vs ! i) = live_handles m + v_held v"
      "length (lm_handles m') + v_to_fetch v = length (lm_handles m) + v_to_fetch (vs ! i)"
  shows "verifiers_ok written handles (vs[i := v]) m'"
proof -
  have "verifier_handle (vs[i := v] ! k) \<noteq> verifier_handle (vs[i := v] ! j)"
    if jk: "j < length vs" "k < length vs" "j \<noteq> k" "verifier_handle (vs[i := v] ! j) \<noteq> None" for j k
  proof -
    obtain h where h: "verifier_handle (vs[i := v] ! j) = Some h" using jk(4) by auto
    consider "j = i" | "k = i" "j \<noteq> i" | "j \<noteq> i" "k \<noteq> i" by blast
    then show ?thesis
    proof cases
      case 1
      then show ?thesis using jk i h apart [of k h] by simp
    next
      case 2
      then show ?thesis using jk i h apart [of j h] by auto
    next
      case 3
      then show ?thesis using jk h verifiers_apart [OF ok jk(1-3), of h] by simp
    qed
  qed
  moreover have "verifier_ok written m' (vs[i := v] ! j)" if "j < length vs" for j
    using that v others [of j] by (cases "j = i") simp_all
  ultimately show ?thesis
    using ok counts pages sum_list_upd [OF i, of v_held v] sum_list_upd [OF i, of v_to_fetch v]
    unfolding verifiers_ok_def by auto
qed

lemma verifier_ok_frame:
  "verifier_ok written m v \<Longrightarrow> (\<And>n h. verifier_handle v = Some h \<Longrightarrow> mem_live h m = Some n \<Longrightarrow> mem_live h m' = Some n) \<Longrightarrow>
   verifier_ok written m' v"
  by (auto simp: verifier_ok_def)

text \<open>The comparison of \<^verbatim>\<open>demo.rs\<close> succeeds on a page that says what was written.\<close>

lemma record_found:
  assumes "page_says s d" "length d = PAGE_SIZE"
  shows "slice_opt PAGE_HEADER_SIZE (PAGE_HEADER_SIZE + length (record_message s)) d = Some (record_message s)"
proof -
  have "length (bslice PAGE_HEADER_SIZE (length (record_message s)) d) = length (record_message s)"
    using assms(1) by (simp add: page_says_def)
  moreover have "0 < length (record_message s)" by (simp add: record_message_def)
  ultimately have "PAGE_HEADER_SIZE + length (record_message s) \<le> length d"
    using assms(2) by (simp add: PAGE_SIZE_def PAGE_HEADER_SIZE_def)
  then show ?thesis using assms(1) by (simp add: slice_opt_def page_says_def)
qed

definition v_turn_done :: "(bytes \<Rightarrow> u32) \<Rightarrow> (u32 \<times> nat) list \<Rightarrow> nat \<Rightarrow> demo_verifier list \<Rightarrow> nat \<Rightarrow> lru_world \<Rightarrow> lru_mem \<Rightarrow> bool" where
  "v_turn_done crc written handles vs i w m \<longleftrightarrow> (\<exists>v w' m'. verifier_step crc written (vs ! i) w = Some (v, w') \<and> mem_rel crc w' m' \<and>
     verifiers_ok written handles (vs[i := v]) m' \<and> length (l_frames (lw_pool w')) = length (l_frames (lw_pool w)) \<and>
     lm_pages m' = lm_pages m \<and> verifier_left v = verifier_left (vs ! i) - 1 \<and> v_sum v = v_sum (vs ! i))"

lemma verifier_turn:
  assumes rel: "mem_rel crc w m" and ok: "verifiers_ok written handles vs m" and i: "i < length vs"
    and frames: "length vs \<le> length (l_frames (lw_pool w))" and bound: "handles + 1 < 2 ^ 32"
  shows "v_turn_done crc written handles vs i w m"
proof -
  let ?v = "vs ! i"
  note [simp] = verifier_simps
  note update = verifiers_ok_update [OF ok i]
  have v: "verifier_ok written m ?v" and oks: "\<And>j. j < length vs \<Longrightarrow> verifier_ok written m (vs ! j)" using ok i unfolding verifiers_ok_def by auto
  have room: "length (lm_handles m) + 1 < 2 ^ 32" using ok bound by (simp add: verifiers_ok_def)
  show ?thesis
  proof (cases "dv_todo ?v")
    case Nil
    then show ?thesis using rel ok unfolding v_turn_done_def
      by (intro exI [of _ ?v] exI [of _ w] exI [of _ m]) (simp add: verifier_step_def split: verifier_at.split)
  next
    case todo: (Cons p rest)
    obtain n s where p: "p < length written" "written ! p = (n, s)" using v todo by (cases "written ! p") (simp add: verifier_ok_def)
    have says: "unat n < length (lm_pages m)" "page_says s (lm_pages m ! unat n)"
      using ok nth_mem [OF p(1)] p(2) unfolding verifiers_ok_def written_ok_def by auto
    show ?thesis
    proof (cases "dv_at ?v")
      case Seeking
      have "live_handles m < length vs" using sum_below [OF i, of v_held] ok Seeking by (simp add: verifiers_ok_def)
      then have free: "live_handles m < length (l_frames (lw_pool w))" using frames by simp
      let ?m = "m\<lparr>lm_handles := lm_handles m @ [Some n]\<rparr>" and ?h = "length (lm_handles m)"
      let ?v' = "?v\<lparr>dv_at := Reading ?h\<rparr>"
      obtain w' where f: "lru_step crc (LFetch n) w = Some (LGot, w')" "mem_rel crc w' ?m"
        "length (l_frames (lw_pool w')) = length (l_frames (lw_pool w))" using fetch_turn [OF rel room says(1) free] by blast
      have "verifier_ok written ?m (vs ! j)" if "j < length vs" for j
        by (rule verifier_ok_frame [OF oks [OF that]]) (simp add: mem_live_simps)
      moreover have "verifier_handle (vs ! j) \<noteq> Some ?h" if "j < length vs" for j
        using oks [OF that] by (auto simp: verifier_ok_def mem_live_def simp del: verifier_simps)
      moreover have "verifier_ok written ?m ?v'" using v todo p mem_live_simps(2) [of m "Some n"] by (simp add: verifier_ok_def)
      ultimately have "verifiers_ok written handles (vs[i := ?v']) ?m"
        using Seeking todo by (intro update) (auto simp: live_handles_simps)
      then show ?thesis using f todo p Seeking handles_length [OF rel] unfolding v_turn_done_def
        by (intro exI [of _ ?v'] exI [of _ w'] exI [of _ ?m]) (simp add: verifier_step_def del: lru_step.simps)
    next
      case (Reading h)
      have n: "mem_live h m = Some n" using v Reading todo p by (simp add: verifier_ok_def)
      obtain d where d: "lru_step crc (LRead h) w = Some (LBytes d, w)" "masked d = lm_pages m ! unat n" "length d = PAGE_SIZE"
        using read_turn [OF rel n] by blast
      have "page_says s d" using says(2) d(2) page_says_masked [OF d(3)] by simp
      note found = record_found [OF this d(3)]
      let ?v' = "?v\<lparr>dv_at := Verified h, dv_verified := dv_verified ?v + 1\<rparr>"
      have "verifier_ok written m ?v'" using v Reading todo by (simp add: verifier_ok_def)
      moreover have "verifier_handle (vs ! j) \<noteq> Some h" if "j < length vs" "j \<noteq> i" for j
        by (rule verifiers_apart [OF ok i that(1) that(2) [symmetric]]) (simp add: Reading)
      ultimately have "verifiers_ok written handles (vs[i := ?v']) m"
        using Reading todo oks by (intro update) auto
      then show ?thesis using rel d found todo p Reading unfolding v_turn_done_def
        by (intro exI [of _ ?v'] exI [of _ w] exI [of _ m]) (simp add: verifier_step_def Let_def)
    next
      case (Verified h)
      have n: "mem_live h m = Some n" using v Verified todo p by (simp add: verifier_ok_def)
      let ?m = "m\<lparr>lm_handles := (lm_handles m)[h := None]\<rparr>" and ?v' = "?v\<lparr>dv_todo := rest, dv_at := Seeking\<rparr>"
      obtain w' where f: "lru_step crc (LDrop h) w = Some (LDone, w')" "mem_rel crc w' ?m"
        "length (l_frames (lw_pool w')) = length (l_frames (lw_pool w))" using plain_turn(2) [OF rel n room] by blast
      have other: "verifier_handle (vs ! j) \<noteq> Some h" if "j < length vs" "j \<noteq> i" for j
        by (rule verifiers_apart [OF ok i that(1) that(2) [symmetric]]) (simp add: Verified)
      have "verifier_ok written ?m (vs ! j)" if "j < length vs" "j \<noteq> i" for j
        by (rule verifier_ok_frame [OF oks [OF that(1)]]) (use other [OF that] in \<open>auto simp: mem_live_simps\<close>)
      moreover have "verifier_ok written ?m ?v'" using v todo by (simp add: verifier_ok_def)
      ultimately have "verifiers_ok written handles (vs[i := ?v']) ?m"
        using Verified todo live_handles_simps(3) [OF n] by (intro update) auto
      then show ?thesis using f todo p Verified unfolding v_turn_done_def
        by (intro exI [of _ ?v'] exI [of _ w'] exI [of _ ?m]) (simp add: verifier_step_def del: lru_step.simps)
    next
      case (VerifierFailed e)
      then show ?thesis using v by (simp add: verifier_ok_def)
    qed
  qed
qed

section \<open>The path of the file\<close>

lemma pf_path_calls:
  "pf_seek off pf = (r, pf') \<Longrightarrow> pf_path pf' = pf_path pf"
  "pf_write_all src pf = (r, pf') \<Longrightarrow> pf_path pf' = pf_path pf"
  "pf_read_exact b pf = (r, b', pf') \<Longrightarrow> pf_path pf' = pf_path pf"
  by (auto simp: pf_seek_def pf_write_all_def pf_read_exact_def split: prod.splits option.splits)

lemma pf_path_pages:
  "pf_write_page_with_checksum crc n b pf = Some (w, b', pf') \<Longrightarrow> pf_path pf' = pf_path pf"
  "pf_read_and_verify_page crc n b pf = Some (r, b', pf') \<Longrightarrow> pf_path pf' = pf_path pf"
  "pf_allocate_page pf = Some (a, pf') \<Longrightarrow> pf_path pf' = pf_path pf"
  "pf_page_count pf = Some (a, pf') \<Longrightarrow> pf_path pf' = pf_path pf"
proof -
  show "pf_write_page_with_checksum crc n b pf = Some (w, b', pf') \<Longrightarrow> pf_path pf' = pf_path pf"
    by (auto simp: pf_write_page_with_checksum_def pf_write_page_def dest!: pf_path_calls
        split: Option.bind_splits prod.splits sum.splits if_splits)
  show "pf_read_and_verify_page crc n b pf = Some (r, b', pf') \<Longrightarrow> pf_path pf' = pf_path pf"
    by (auto simp: pf_read_and_verify_page_def pf_read_page_def dest!: pf_path_calls
        split: Option.bind_splits prod.splits sum.splits if_splits)
  show "pf_allocate_page pf = Some (a, pf') \<Longrightarrow> pf_path pf' = pf_path pf"
    by (auto simp: pf_allocate_page_def Let_def dest!: pf_path_calls split: prod.splits sum.splits if_splits)
  show "pf_page_count pf = Some (a, pf') \<Longrightarrow> pf_path pf' = pf_path pf"
    by (auto simp: pf_page_count_def Let_def split: prod.splits sum.splits if_splits)
qed

abbreviation pool_path :: "lru_pool \<Rightarrow> string" where
  "pool_path p \<equiv> pf_path (l_page_file p)"

lemma write_back_path: "l_write_back crc i p = Some (r, q) \<Longrightarrow> pool_path q = pool_path p"
  by (auto simp: l_write_back_def dest!: pf_path_pages split: Option.bind_splits option.splits sum.splits if_splits)

lemma fetch_path: "lru_fetch_page crc n p = Some (r, q) \<Longrightarrow> pool_path q = pool_path p"
  by (auto simp: lru_fetch_page_def pin_page_def Let_def move_to_front_def dest!: pf_path_pages write_back_path
      split: Option.bind_splits option.splits sum.splits if_splits)

lemma flush_frames_path: "lru_flush_frames crc is p = Some (r, q) \<Longrightarrow> pool_path q = pool_path p"
proof (induction "is" arbitrary: p)
  case (Cons i "is")
  then show ?case
    by (fastforce simp: Let_def dest!: pf_path_pages(1) split: Option.bind_splits option.splits sum.splits if_splits)
qed simp

lemma new_page_path: "lru_new_page crc t p = Some (r, q) \<Longrightarrow> pool_path q = pool_path p"
  by (auto simp: lru_new_page_def dest!: pf_path_pages split: Option.bind_splits sum.splits)

lemma lru_step_path:
  assumes "lru_step crc x w = Some (out, w')" shows "pool_path (lw_pool w') = pool_path (lw_pool w)"
proof (cases x)
  case (LFetch n)
  then show ?thesis using assms by (auto simp: lru_fetched_def dest!: fetch_path split: Option.bind_splits sum.splits prod.splits)
next
  case (LAllocate t)
  then show ?thesis using assms
    by (auto simp: lru_allocate_split lru_fetched_def dest!: fetch_path new_page_path split: Option.bind_splits sum.splits prod.splits)
next
  case LFlush
  then show ?thesis using assms by (auto simp: lru_flush_all_def dest!: flush_frames_path split: Option.bind_splits)
next
  case LCount
  then show ?thesis using assms by (auto simp: lru_page_count_def dest!: pf_path_pages(4) split: Option.bind_splits)
qed (use assms in \<open>auto simp: handle_read_def handle_modify_def handle_drop_def split: Option.bind_splits option.splits sum.splits if_splits\<close>)

lemma sched_run_path:
  assumes "\<And>x w y w'. turn x w = Some (y, w') \<Longrightarrow> pool_path (lw_pool w') = pool_path (lw_pool w)"
  shows "sched_run turn sched xs w = Some (ys, w') \<Longrightarrow> pool_path (lw_pool w') = pool_path (lw_pool w)"
proof (induction sched arbitrary: xs w)
  case (Cons i sched)
  then show ?case using assms by (auto split: Option.bind_splits if_splits)
qed simp

lemma writer_step_path: "writer_step crc wr w = Some (wr', w') \<Longrightarrow> pool_path (lw_pool w') = pool_path (lw_pool w)"
  by (auto simp: writer_step_def writer_fail_def dest!: lru_step_path new_page_path simp del: lru_step.simps
      split: Option.bind_splits list.splits writer_at.splits lru_out.splits)

section \<open>The verifying scope\<close>

lemma verifiers_run:
  assumes "mem_rel crc w m" "verifiers_ok written handles vs m" "length vs \<le> length (l_frames (lw_pool w))" "handles + 1 < 2 ^ 32"
  shows "\<exists>vs' w' m'. sched_run (verifier_step crc written) sched vs w = Some (vs', w') \<and> mem_rel crc w' m' \<and>
    verifiers_ok written handles vs' m' \<and> length vs' = length vs \<and> lm_pages m' = lm_pages m \<and>
    (\<forall>i < length vs. verifier_left (vs' ! i) = verifier_left (vs ! i) - count_list sched i \<and> v_sum (vs' ! i) = v_sum (vs ! i))"
  using assms
proof (induction sched arbitrary: vs w m)
  case Nil
  then show ?case by auto
next
  case (Cons i sched)
  show ?case
  proof (cases "i < length vs")
    case False
    then have "count_list (i # sched) j = count_list sched j" if "j < length vs" for j using that by auto
    then show ?thesis using Cons.IH [OF Cons.prems] False by auto
  next
    case True
    obtain v w1 m1 where t: "verifier_step crc written (vs ! i) w = Some (v, w1)" "mem_rel crc w1 m1" "verifiers_ok written handles (vs[i := v]) m1"
      "length (l_frames (lw_pool w1)) = length (l_frames (lw_pool w))" "lm_pages m1 = lm_pages m"
      "verifier_left v = verifier_left (vs ! i) - 1" "v_sum v = v_sum (vs ! i)"
      using verifier_turn [OF Cons.prems(1,2) True Cons.prems(3,4)] unfolding v_turn_done_def by blast
    have "length (vs[i := v]) \<le> length (l_frames (lw_pool w1))" using Cons.prems(3) t(4) by simp
    from Cons.IH [OF t(2,3) this Cons.prems(4)] obtain vs' w' m' where r: "sched_run (verifier_step crc written) sched (vs[i := v]) w1 = Some (vs', w')"
      "mem_rel crc w' m'" "verifiers_ok written handles vs' m'" "length vs' = length vs" "lm_pages m' = lm_pages m1"
      "\<And>j. j < length vs \<Longrightarrow> verifier_left (vs' ! j) = verifier_left (vs[i := v] ! j) - count_list sched j \<and> v_sum (vs' ! j) = v_sum (vs[i := v] ! j)"
      by auto
    have "verifier_left (vs' ! j) = verifier_left (vs ! j) - count_list (i # sched) j \<and> v_sum (vs' ! j) = v_sum (vs ! j)" if "j < length vs" for j
      using r(6) [OF that] t(6,7) True by (cases "j = i") simp_all
    then show ?thesis using t(1,5) r(1-5) True by auto
  qed
qed

lemma verifier_over:
  "verifier_ok written m v \<Longrightarrow> verifier_left v = 0 \<Longrightarrow> verifier_result v = Some (Inr (dv_verified v)) \<and> v_sum v = int (dv_verified v)"
  by (cases "dv_at v"; cases "dv_todo v") (auto simp: verifier_ok_def verifier_result_def verifier_simps)

definition fresh_verifiers :: "nat \<Rightarrow> nat \<Rightarrow> demo_verifier list" where
  "fresh_verifiers pages workers = map (\<lambda>i. \<lparr>dv_todo = step_by i pages workers, dv_at = Seeking, dv_verified = 0\<rparr>) [0..<workers]"

lemma fresh_verifiers_ok:
  assumes "0 < workers" "lm_handles m = []" "written_ok written (lm_pages m)"
  shows "verifiers_ok written (length written) (fresh_verifiers (length written) workers) m"
proof -
  let ?vs = "fresh_verifiers (length written) workers"
  have len: "length ?vs = workers" by (simp add: fresh_verifiers_def)
  have "verifier_ok written m (?vs ! i)" "verifier_handle (?vs ! i) = None" if "i < workers" for i
    using that step_by_bound [of _ i "length written" workers] by (simp_all add: fresh_verifiers_def verifier_ok_def verifier_handle_def)
  moreover have "map v_held ?vs = replicate workers 0" "map v_to_fetch ?vs = map (\<lambda>i. length (step_by i (length written) workers)) [0..<workers]"
    by (simp_all add: fresh_verifiers_def v_held_def v_to_fetch_def verifier_handle_def comp_def map_replicate_const)
  ultimately show ?thesis
    using assms(2,3) len step_by_total [OF assms(1), of "length written"]
    by (simp add: verifiers_ok_def live_handles_def sum_list_triv del: map_eq_conv)
qed

lemma verify_phase_ok:
  assumes rel: "mem_rel crc \<lparr>lw_pool = p, lw_handles = []\<rparr> m" and n: "0 < workers" "workers \<le> length (l_frames p)"
    and written: "written_ok written (lm_pages m)" and bound: "length written + 1 < 2 ^ 32"
    and turns: "\<And>i. i < workers \<Longrightarrow> 3 * length written \<le> count_list sched i"
  obtains w' m' where "verify_phase crc written workers sched p = Some (Some (Inr (length written)), w')" "mem_rel crc w' m'"
    "lm_pages m' = lm_pages m"
proof -
  let ?n = "length written"
  let ?vs = "fresh_verifiers ?n workers"
  have "lm_handles m = []" using rel by (simp add: mem_rel_def)
  then have ok: "verifiers_ok written ?n ?vs m" using n(1) written by (intro fresh_verifiers_ok)
  have len: "length ?vs = workers" by (simp add: fresh_verifiers_def)
  have small: "length ?vs \<le> length (l_frames (lw_pool \<lparr>lw_pool = p, lw_handles = []\<rparr>))" using n(2) len by simp
  from verifiers_run [OF rel ok small bound, of sched] obtain vs w' m' where
    r: "sched_run (verifier_step crc written) sched ?vs \<lparr>lw_pool = p, lw_handles = []\<rparr> = Some (vs, w')"
    "mem_rel crc w' m'" "verifiers_ok written ?n vs m'" "length vs = workers" "lm_pages m' = lm_pages m"
    "\<And>i. i < workers \<Longrightarrow> verifier_left (vs ! i) = verifier_left (?vs ! i) - count_list sched i \<and> v_sum (vs ! i) = v_sum (?vs ! i)"
    unfolding len by blast
  have over: "verifier_result (vs ! i) = Some (Inr (dv_verified (vs ! i))) \<and> dv_verified (vs ! i) = length (step_by i ?n workers)"
    if "i < workers" for i
  proof -
    have "length (step_by i ?n workers) \<le> ?n"
      using sum_list_at [of i "[0..<workers]" "\<lambda>i. length (step_by i ?n workers)"] step_by_total [OF n(1), of ?n] that by simp
    then have "verifier_left (vs ! i) = 0" using r(6) [OF that] turns [OF that] that by (simp add: fresh_verifiers_def verifier_left_def)
    moreover have "verifier_ok written m' (vs ! i)" using r(3,4) that by (simp add: verifiers_ok_def)
    ultimately have "verifier_result (vs ! i) = Some (Inr (dv_verified (vs ! i))) \<and> v_sum (vs ! i) = int (dv_verified (vs ! i))"
      by (intro verifier_over)
    moreover have "v_sum (?vs ! i) = int (length (step_by i ?n workers))" using that by (simp add: fresh_verifiers_def v_sum_def)
    ultimately show ?thesis using r(6) [OF that] by simp
  qed
  have all: "verifier_result v = Some (Inr (dv_verified v))" if "v \<in> set vs" for v
    using that over r(4) by (auto simp: in_set_conv_nth)
  have "map dv_verified vs = map (\<lambda>i. length (step_by i ?n workers)) [0..<workers]"
    using r(4) over by (intro nth_equalityI) simp_all
  then have "sum_list (map dv_verified vs) = ?n" using step_by_total [OF n(1), of ?n] by simp
  then have "verify_phase crc written workers sched p = Some (Some (Inr ?n), w')"
    using r(1) join_workers_all [of vs verifier_result dv_verified] all by (simp add: verify_phase_def fresh_verifiers_def)
  then show thesis using that r(2,5) by blast
qed

section \<open>The demonstration\<close>

definition file_at :: "string \<Rightarrow> os \<Rightarrow> page_file" where
  "file_at path s = \<lparr>pf_path = path, pf_page_size = PAGE_SIZE, pf_pos = 0, pf_os = s\<rparr>"

lemma reopen:
  assumes "pf_ok crc k pf" "pf_path pf = path"
  obtains s where "pf_open path PAGE_SIZE (pf_os pf) = (Inr (file_at path s), s)" "pf_ok crc k (file_at path s)"
    "pf_slice (file_at path s) = pf_slice pf" "pf_path (file_at path s) = path"
proof -
  let ?s = "(pf_os pf)\<lparr>os_files := (os_files (pf_os pf))(path \<mapsto> file_bytes (pf_os pf) path)\<rparr>"
  have same: "file_bytes ?s path = file_bytes (pf_os pf) path" by (simp add: file_bytes_def)
  have sl: "pf_slice (file_at path ?s) = pf_slice pf" using assms(2) same by (simp add: pf_slice_def file_at_def fun_eq_iff)
  have "pf_open path PAGE_SIZE (pf_os pf) = (Inr (file_at path ?s), ?s)"
    using assms(1) by (simp add: pf_open_def os_open_def take_fault_none pf_ok_def pf_shape_def file_at_def)
  moreover have "pf_ok crc k (file_at path ?s)"
    using assms same sl by (simp add: pf_ok_def pf_shape_def) (simp add: file_at_def)
  ultimately show thesis using that sl by (simp add: file_at_def)
qed

text \<open>C14: whatever the order in which its threads take their turns, the demonstration allocates, writes and verifies every page it was
  asked for: on a file of \<open>k\<close> valid pages or none, whose calls do not fail, with any number of frames and threads, no thread panics, no call fails, in particular
  none for want of a frame, and what is printed is the number of pages it wrote and \<open>k\<close> more. It needs no fairness beyond five turns for
  each page a thread writes and three for each it verifies.\<close>

theorem demo_verifies_every_page:
  assumes config: "validate_config c = Inr ()" and fl: "pf_ok crc k (file_at path s)" and bound: "k + dc_page_count c + 1 < 2 ^ 32"
    and turns: "\<And>i. i < min (min (dc_worker_count c) (dc_pool_size c)) (dc_page_count c) \<Longrightarrow>
      5 * dc_page_count c \<le> count_list wsched i \<and> 3 * dc_page_count c \<le> count_list vsched i"
  shows "run_buffer_pool_demo crc path c wsched vsched s =
    Some (Returned (Inr (dc_page_count c, of_nat (k + dc_page_count c))))"
proof -
  let ?n = "dc_page_count c" and ?workers = "min (min (dc_worker_count c) (dc_pool_size c)) (dc_page_count c)"
  have pos: "0 < ?workers" "0 < dc_pool_size c" using config by (auto simp: validate_config_def split: if_splits)
  obtain s1 where o1: "pf_open path PAGE_SIZE s = (Inr (file_at path s1), s1)" "pf_ok crc k (file_at path s1)"
    using reopen [OF fl, of path] by (auto simp: file_at_def)
  obtain p1 where p1: "lru_new (dc_pool_size c) (file_at path s1) = Some p1" "length (l_frames p1) = dc_pool_size c"
    "mem_rel crc \<lparr>lw_pool = p1, lw_handles = []\<rparr> \<lparr>lm_pages = map (\<lambda>i. masked (pf_slice (file_at path s1) i)) [0..<k], lm_handles = []\<rparr>"
    using new_rel [OF pos(2) o1(2)] by blast
  have room: "length (map (\<lambda>i. masked (pf_slice (file_at path s1) i)) [0..<k]) + ?n + 1 < 2 ^ 32" "?workers \<le> length (l_frames p1)"
    using bound p1(2) by simp_all
  obtain written w1 m1 where wr: "write_phase crc ?n ?workers wsched p1 = Some (Some (Inr written), w1)" "mem_rel crc w1 m1"
    "length written = ?n" "length (lm_pages m1) = k + ?n" "written_ok written (lm_pages m1)"
  proof (rule write_phase_ok [OF p1(3) pos(1) room(2), of ?n wsched])
    fix written w1 m1
    assume "write_phase crc ?n ?workers wsched p1 = Some (Some (Inr written), w1)" "mem_rel crc w1 m1" "length written = ?n"
      "length (lm_pages m1) = length (lm_pages \<lparr>lm_pages = map (\<lambda>i. masked (pf_slice (file_at path s1) i)) [0..<k], lm_handles = []\<rparr>) + ?n"
      "\<And>n s. (n, s) \<in> set written \<Longrightarrow> unat n < length (lm_pages m1) \<and> page_says s (lm_pages m1 ! unat n)"
    then show thesis by (intro that [of written w1 m1]) (auto simp: written_ok_def)
  qed (use room(1) turns in simp_all)
  obtain ws where "sched_run (writer_step crc) wsched (fresh_writers ?n ?workers) \<lparr>lw_pool = p1, lw_handles = []\<rparr> = Some (ws, w1)"
    using wr(1) by (auto simp: write_phase_def fresh_writers_def split: Option.bind_splits)
  then have "pool_path (lw_pool w1) = path"
    using sched_run_path [OF writer_step_path] p1(1) pos(2) by (fastforce simp: lru_new_def file_at_def)
  moreover obtain q where q: "lru_flush_all crc (lw_pool w1) = Some (Inr (), q)"
    "map (\<lambda>i. masked (pf_slice (l_page_file q) i)) [0..<k + ?n] = lm_pages m1" "pf_ok crc (k + ?n) (l_page_file q)"
    using flush_file [of crc "lm_pages m1" "lw_pool w1"] wr(2,4) by (auto simp: mem_rel_def)
  ultimately have path: "pool_path q = path" using flush_frames_path by (simp add: lru_flush_all_def)
  obtain s2 where o2: "pf_open path PAGE_SIZE (pf_os (l_page_file q)) = (Inr (file_at path s2), s2)" "pf_ok crc (k + ?n) (file_at path s2)"
    "pf_slice (file_at path s2) = pf_slice (l_page_file q)" using reopen [OF q(3) path] by blast
  let ?m2 = "\<lparr>lm_pages = lm_pages m1, lm_handles = []\<rparr>"
  obtain p2 where p2: "lru_new (dc_pool_size c) (file_at path s2) = Some p2" "length (l_frames p2) = dc_pool_size c"
    "mem_rel crc \<lparr>lw_pool = p2, lw_handles = []\<rparr> ?m2"
    using new_rel [OF pos(2) o2(2)] q(2) o2(3) by metis
  have small: "?workers \<le> length (l_frames p2)" "length written + 1 < 2 ^ 32" using p2(2) wr(3) bound by simp_all
  obtain w2 m2 where v: "verify_phase crc written ?workers vsched p2 = Some (Some (Inr ?n), w2)" "mem_rel crc w2 m2" "lm_pages m2 = lm_pages m1"
    using verify_phase_ok [OF p2(3) pos(1) small(1) _ small(2), of vsched] wr(3,5) turns by auto
  have "lru_page_count (lw_pool w2) = Some (Inr (of_nat (k + ?n)), lw_pool w2)"
    using page_count_rel [OF v(2)] v(3) wr(4) by simp
  then show ?thesis using config o1(1) p1(1) wr(1) q(1) o2(1) p2(1) v(1) by (simp add: run_buffer_pool_demo_def Let_def)
qed

lemma count_rounds: "count_list (concat (replicate n xs)) x = n * count_list xs x"
  by (induction n) simp_all

theorem demo_verifies_every_page_witness:
  "run_buffer_pool_demo (\<lambda>_. 5) ''db'' \<lparr>dc_page_count = 3, dc_pool_size = 2, dc_worker_count = 8\<rparr>
     (concat (replicate 15 [0, 1])) (concat (replicate 9 [1, 0])) (pf_os two_pages) = Some (Returned (Inr (3, 5)))"
proof -
  let ?c = "\<lparr>dc_page_count = 3, dc_pool_size = 2, dc_worker_count = 8\<rparr>"
  have "validate_config ?c = Inr ()" by (simp add: validate_config_def)
  moreover have "pf_ok (\<lambda>_. 5) 2 (file_at ''db'' (pf_os two_pages))"
    using two_pages_ok by (simp add: file_at_def two_pages_def empty_file_def)
  moreover have "2 + dc_page_count ?c + 1 < 2 ^ 32" by simp
  moreover have "5 * dc_page_count ?c \<le> count_list (concat (replicate 15 [0, 1])) i \<and> 3 * dc_page_count ?c \<le> count_list (concat (replicate 9 [1, 0])) i"
    if "i < min (min (dc_worker_count ?c) (dc_pool_size ?c)) (dc_page_count ?c)" for i
  proof -
    have "i = 0 \<or> i = 1" using that by auto
    then show ?thesis by (auto simp: count_rounds)
  qed
  ultimately show ?thesis
    using demo_verifies_every_page [of ?c "\<lambda>_. 5" 2 "''db''" "pf_os two_pages" "concat (replicate 15 [0, 1])" "concat (replicate 9 [1, 0])"]
    by simp
qed

end
