(* ===== verification/Tle.thy ===== *)
theory Tle imports Prelude begin

text \<open>
  \<^verbatim>\<open>project1/tle.rs\<close>: the two-line element record and its binary form of 82 bytes. An \<open>f64\<close> is the word of its
  bits, which is all that \<^verbatim>\<open>to_le_bytes\<close> and \<^verbatim>\<open>from_le_bytes\<close> touch.
\<close>

record tle =
  norad_id :: u32
  intl_designator :: bytes
  epoch :: u64
  mean_motion :: u64
  eccentricity :: u64
  inclination :: u64
  raan :: u64
  arg_perigee :: u64
  mean_anomaly :: u64
  bstar :: u64
  element_set :: u16
  rev_number :: u32

definition TLE_SERIALIZED_SIZE :: nat where
  "TLE_SERIALIZED_SIZE = 82"

definition tle_serialize :: "tle \<Rightarrow> bytes" where
  "tle_serialize r = u32_to_le (norad_id r) @ intl_designator r @ u64_to_le (epoch r) @ u64_to_le (mean_motion r) @
     u64_to_le (eccentricity r) @ u64_to_le (inclination r) @ u64_to_le (raan r) @ u64_to_le (arg_perigee r) @
     u64_to_le (mean_anomaly r) @ u64_to_le (bstar r) @ u16_to_le (element_set r) @ u32_to_le (rev_number r)"

text \<open>\<^verbatim>\<open>take\<close> reads \<open>n\<close> bytes at the cursor and moves it; a slice out of range panics.\<close>

definition take_bytes :: "nat \<Rightarrow> bytes \<Rightarrow> nat \<Rightarrow> (bytes \<times> nat) option" where
  "take_bytes n buf cursor = map_option (\<lambda>bs. (bs, cursor + n)) (slice_opt cursor (cursor + n) buf)"

definition tle_deserialize :: "bytes \<Rightarrow> (io_error + tle) option" where
  "tle_deserialize buf =
     (if length buf \<noteq> TLE_SERIALIZED_SIZE then Some (Inl (InvalidData ''invalid TLE record length''))
      else do {
        (f1, c) \<leftarrow> take_bytes 4 buf 0;
        (f2, c) \<leftarrow> take_bytes 8 buf c;
        (f3, c) \<leftarrow> take_bytes 8 buf c;
        (f4, c) \<leftarrow> take_bytes 8 buf c;
        (f5, c) \<leftarrow> take_bytes 8 buf c;
        (f6, c) \<leftarrow> take_bytes 8 buf c;
        (f7, c) \<leftarrow> take_bytes 8 buf c;
        (f8, c) \<leftarrow> take_bytes 8 buf c;
        (f9, c) \<leftarrow> take_bytes 8 buf c;
        (f10, c) \<leftarrow> take_bytes 8 buf c;
        (f11, c) \<leftarrow> take_bytes 2 buf c;
        (f12, c) \<leftarrow> take_bytes 4 buf c;
        Some (Inr \<lparr>norad_id = u32_from_le f1, intl_designator = f2, epoch = u64_from_le f3, mean_motion = u64_from_le f4,
          eccentricity = u64_from_le f5, inclination = u64_from_le f6, raan = u64_from_le f7, arg_perigee = u64_from_le f8,
          mean_anomaly = u64_from_le f9, bstar = u64_from_le f10, element_set = u16_from_le f11, rev_number = u32_from_le f12\<rparr>)
      })"

section \<open>Both directions\<close>

text \<open>Reading at the cursor behind what was read already.\<close>

lemma take_bytes_at: "length xs = c \<Longrightarrow> length ys = n \<Longrightarrow> take_bytes n (xs @ ys @ zs) c = Some (ys, c + n)"
  by (simp add: take_bytes_def slice_opt_def bslice_def)

lemma length_tle_serialize: "length (intl_designator r) = 8 \<Longrightarrow> length (tle_serialize r) = TLE_SERIALIZED_SIZE"
  by (simp add: tle_serialize_def TLE_SERIALIZED_SIZE_def)

lemma take_bytes_in: "c + n \<le> length buf \<Longrightarrow> take_bytes n buf c = Some (bslice c n buf, c + n)"
  by (simp add: take_bytes_def slice_opt_def)

text \<open>C39: the binary form of a TLE record is 82 bytes long and is read back without loss; every other length is refused
  with \<^verbatim>\<open>InvalidData\<close>, no input of any kind makes the reader panic, and what it accepts it writes back byte by
  byte, so that the two forms correspond one to one.\<close>

theorem tle_roundtrip:
  assumes "length (intl_designator r) = 8"
  shows "length (tle_serialize r) = 82 \<and> tle_deserialize (tle_serialize r) = Some (Inr r) \<and>
    (length buf \<noteq> 82 \<longrightarrow> tle_deserialize buf = Some (Inl (InvalidData ''invalid TLE record length''))) \<and>
    (length buf = 82 \<longrightarrow> (\<exists>q. tle_deserialize buf = Some (Inr q) \<and> length (intl_designator q) = 8 \<and> tle_serialize q = buf))"
proof (intro conjI impI)
  show len: "length (tle_serialize r) = 82" using length_tle_serialize [OF assms] by (simp add: TLE_SERIALIZED_SIZE_def)
  show "tle_deserialize (tle_serialize r) = Some (Inr r)"
  proof -
    have "bslice 0 4 (tle_serialize r) = u32_to_le (norad_id r)" "bslice 4 8 (tle_serialize r) = intl_designator r"
      "bslice 12 8 (tle_serialize r) = u64_to_le (epoch r)" "bslice 20 8 (tle_serialize r) = u64_to_le (mean_motion r)"
      "bslice 28 8 (tle_serialize r) = u64_to_le (eccentricity r)" "bslice 36 8 (tle_serialize r) = u64_to_le (inclination r)"
      "bslice 44 8 (tle_serialize r) = u64_to_le (raan r)" "bslice 52 8 (tle_serialize r) = u64_to_le (arg_perigee r)"
      "bslice 60 8 (tle_serialize r) = u64_to_le (mean_anomaly r)" "bslice 68 8 (tle_serialize r) = u64_to_le (bstar r)"
      "bslice 76 2 (tle_serialize r) = u16_to_le (element_set r)" "bslice 78 4 (tle_serialize r) = u32_to_le (rev_number r)"
      using assms by (simp_all add: tle_serialize_def bslice_def)
    then show ?thesis using len by (simp add: tle_deserialize_def TLE_SERIALIZED_SIZE_def take_bytes_in)
  qed
next
  assume "length buf \<noteq> 82"
  then show "tle_deserialize buf = Some (Inl (InvalidData ''invalid TLE record length''))"
    by (simp add: tle_deserialize_def TLE_SERIALIZED_SIZE_def)
next
  assume len: "length buf = 82"
  have "bslice 0 82 buf = bslice 0 4 buf @ bslice 4 8 buf @ bslice 12 8 buf @ bslice 20 8 buf @ bslice 28 8 buf @
      bslice 36 8 buf @ bslice 44 8 buf @ bslice 52 8 buf @ bslice 60 8 buf @ bslice 68 8 buf @ bslice 76 2 buf @ bslice 78 4 buf"
    using bslice_split [of 4 82 0 buf] bslice_split [of 8 78 4 buf] bslice_split [of 8 70 12 buf] bslice_split [of 8 62 20 buf]
      bslice_split [of 8 54 28 buf] bslice_split [of 8 46 36 buf] bslice_split [of 8 38 44 buf] bslice_split [of 8 30 52 buf]
      bslice_split [of 8 22 60 buf] bslice_split [of 8 14 68 buf] bslice_split [of 2 6 76 buf]
    by simp
  then show "\<exists>q. tle_deserialize buf = Some (Inr q) \<and> length (intl_designator q) = 8 \<and> tle_serialize q = buf"
    using len slice_all [OF len]
    by (simp add: tle_deserialize_def TLE_SERIALIZED_SIZE_def take_bytes_in tle_serialize_def to_from_bytes)
qed

definition sample_tle :: tle where
  "sample_tle = \<lparr>norad_id = 25544, intl_designator = [57, 56, 48, 54, 55, 65, 32, 32], epoch = 4673529, mean_motion = 1, eccentricity = 0,
     inclination = 2, raan = 3, arg_perigee = 4, mean_anomaly = 5, bstar = 6, element_set = 999, rev_number = 48123\<rparr>"

theorem tle_roundtrip_witness:
  "tle_deserialize (tle_serialize sample_tle) = Some (Inr sample_tle)"
  using tle_roundtrip [of sample_tle "[]"] by (simp add: sample_tle_def)

end
