(* ===== verification/Arenas.thy ===== *)
theory Arenas imports Prelude begin

text \<open>
  The arenas of \<^verbatim>\<open>module5/part3\<close>: \<^verbatim>\<open>manual_bumparena.rs\<close> (the bump arena and the arena of a thread) and
  \<^verbatim>\<open>frame_batch.rs\<close> (the payload pool of a batch). A slice handed out is its range of the slab; \<open>usize\<close> is a word of
  64 bits with overflow checks. The locale \<open>slab_allocator\<close> is what both promise; slices do not overlap until a reset. The
  base address of a slab is not modelled, so that alignment is alignment of the offset in it.
\<close>

unbundle bit_operations_syntax

section \<open>Checked \<open>usize\<close> arithmetic\<close>

definition u64_add :: "u64 \<Rightarrow> u64 \<Rightarrow> u64 option" where
  "u64_add a b = (if unat a + unat b < 2 ^ 64 then Some (a + b) else None)"

definition u64_sub :: "u64 \<Rightarrow> u64 \<Rightarrow> u64 option" where
  "u64_sub a b = (if b \<le> a then Some (a - b) else None)"

definition u64_mul :: "u64 \<Rightarrow> u64 \<Rightarrow> u64 option" where
  "u64_mul a b = (if unat a * unat b < 2 ^ 64 then Some (a * b) else None)"

lemma u64_add_Some: "u64_add a b = Some c \<longleftrightarrow> unat a + unat b < 2 ^ 64 \<and> c = a + b"
  by (auto simp: u64_add_def)

lemma u64_add_unat: "u64_add a b = Some c \<Longrightarrow> unat c = unat a + unat b"
  by (auto simp: u64_add_def unat_word_ariths split: if_splits)

lemma u64_sub_unat: "u64_sub a b = Some c \<Longrightarrow> unat c = unat a - unat b \<and> unat b \<le> unat a"
  by (auto simp: u64_sub_def unat_sub word_le_nat_alt split: if_splits)

section \<open>The bump arena\<close>

record bump_arena =
  ba_slab :: bytes
  ba_offset :: u64

definition bump_new :: "u64 \<Rightarrow> bump_arena" where
  "bump_new capacity = \<lparr>ba_slab = replicate (unat capacity) 0, ba_offset = 0\<rparr>"

definition bump_alloc :: "u64 \<Rightarrow> u64 \<Rightarrow> bump_arena \<Rightarrow> ((u64 \<times> u64) option \<times> bump_arena) option" where
  "bump_alloc sz align a = do {
     x \<leftarrow> u64_add (ba_offset a) align;
     x \<leftarrow> u64_sub x 1;
     m \<leftarrow> u64_sub align 1;
     let aligned = x AND NOT m;
     e \<leftarrow> u64_add aligned sz;
     if unat e > length (ba_slab a) then Some (None, a)
     else Some (Some (aligned, e), a\<lparr>ba_offset := e\<rparr>)
   }"

definition bump_reset :: "bump_arena \<Rightarrow> bump_arena" where
  "bump_reset a = a\<lparr>ba_offset := 0\<rparr>"

definition bump_used :: "bump_arena \<Rightarrow> u64" where
  "bump_used a = ba_offset a"

definition bump_capacity :: "bump_arena \<Rightarrow> nat" where
  "bump_capacity a = length (ba_slab a)"

section \<open>The arena of a thread\<close>

definition ARENA_CAPACITY :: u64 where
  "ARENA_CAPACITY = 16 * 1024 * 1024"

text \<open>The state is \<^verbatim>\<open>ARENA_OFFSET\<close>. A pointer is into the bytes of the slab or to the \<^verbatim>\<open>Vec\<close> that owns them: \<^verbatim>\<open>as_ptr\<close> of a
  \<^verbatim>\<open>RefCell\<close> is the address of what the cell holds. \<open>None\<close> is the panic.\<close>

datatype arena_ptr = SlabByte u64 | SlabVec

definition alloc_frame_buffer :: "u64 \<Rightarrow> u64 \<Rightarrow> (arena_ptr \<times> u64) option" where
  "alloc_frame_buffer sz off = do {
     x \<leftarrow> u64_add off 7;
     let aligned = x AND NOT 7;
     e \<leftarrow> u64_add aligned sz;
     if e > ARENA_CAPACITY then None else Some (SlabVec, e)
   }"

definition reset_thread_arena :: "u64 \<Rightarrow> u64" where
  "reset_thread_arena off = 0"

section \<open>The batch processor\<close>

record frame_batch_processor =
  fb_payload_pool :: bytes
  fb_pool_offset :: u64
  fb_batch_size :: u64
  fb_frames_in_batch :: u64

definition batch_processor_new :: "u64 \<Rightarrow> u64 \<Rightarrow> frame_batch_processor option" where
  "batch_processor_new batch_size max_payload = do {
     n \<leftarrow> u64_mul batch_size max_payload;
     Some \<lparr>fb_payload_pool = replicate (unat n) 0, fb_pool_offset = 0, fb_batch_size = batch_size, fb_frames_in_batch = 0\<rparr>
   }"

definition claim_payload_slot ::
    "u64 \<Rightarrow> frame_batch_processor \<Rightarrow> ((u64 \<times> u64) option \<times> frame_batch_processor) option" where
  "claim_payload_slot sz b =
     (if fb_frames_in_batch b \<ge> fb_batch_size b then Some (None, b)
      else do {
        e \<leftarrow> u64_add (fb_pool_offset b) sz;
        if unat e > length (fb_payload_pool b) then Some (None, b)
        else Some (Some (fb_pool_offset b, e),
          b\<lparr>fb_pool_offset := e, fb_frames_in_batch := fb_frames_in_batch b + 1\<rparr>)
      })"

definition flush_and_reset :: "frame_batch_processor \<Rightarrow> u64 \<times> frame_batch_processor" where
  "flush_and_reset b = (fb_frames_in_batch b, b\<lparr>fb_pool_offset := 0, fb_frames_in_batch := 0\<rparr>)"

section \<open>What an allocator of slices promises\<close>

text \<open>The ranges a list of requests gets.\<close>

fun alloc_all :: "('r \<Rightarrow> 's \<Rightarrow> ((u64 \<times> u64) option \<times> 's) option) \<Rightarrow> 'r list \<Rightarrow> 's \<Rightarrow> ((u64 \<times> u64) list \<times> 's) option" where
  "alloc_all alloc [] s = Some ([], s)"
| "alloc_all alloc (r # rs) s = do {
     (range, s) \<leftarrow> alloc r s;
     (ranges, s) \<leftarrow> alloc_all alloc rs s;
     Some ((case range of None \<Rightarrow> ranges | Some x \<Rightarrow> x # ranges), s)
   }"

definition apart :: "(u64 \<times> u64) list \<Rightarrow> bool" where
  "apart ranges \<longleftrightarrow> sorted_wrt (\<lambda>x y. snd x \<le> fst y) ranges"

locale slab_allocator =
  fixes alloc :: "'r \<Rightarrow> 's \<Rightarrow> ((u64 \<times> u64) option \<times> 's) option"
    and used :: "'s \<Rightarrow> u64"
    and size_of :: "'s \<Rightarrow> nat"
  assumes taken: "alloc r s = Some (Some (a, b), s') \<Longrightarrow>
      used s \<le> a \<and> a \<le> b \<and> used s' = b \<and> unat b \<le> size_of s \<and> size_of s' = size_of s"
    and refused: "alloc r s = Some (None, s') \<Longrightarrow> s' = s"
begin

lemma all_apart:
  "alloc_all alloc rs s = Some (ranges, s') \<Longrightarrow>
   apart ranges \<and> size_of s' = size_of s \<and> used s \<le> used s' \<and> (unat (used s) \<le> size_of s \<longrightarrow> unat (used s') \<le> size_of s) \<and>
   (\<forall>(a, b) \<in> set ranges. used s \<le> a \<and> a \<le> b \<and> b \<le> used s' \<and> unat b \<le> size_of s)"
proof (induction rs arbitrary: s ranges)
  case Nil
  then show ?case by (simp add: apart_def)
next
  case (Cons r rs)
  then obtain x s1 ys where x: "alloc r s = Some (x, s1)" "alloc_all alloc rs s1 = Some (ys, s')"
    "ranges = (case x of None \<Rightarrow> ys | Some x \<Rightarrow> x # ys)" by (auto split: Option.bind_splits)
  note IH = Cons.IH [OF x(2)]
  show ?case
  proof (cases x)
    case None
    then have "s1 = s" using refused x(1) by blast
    then show ?thesis using IH x(3) None by simp
  next
    case (Some ab)
    then obtain a b where ab: "x = Some (a, b)" by (cases ab) auto
    have t: "used s \<le> a" "a \<le> b" "used s1 = b" "unat b \<le> size_of s" "size_of s1 = size_of s" using taken x(1) ab by auto
    have "used s \<le> used s1" using t by simp
    then have "used s \<le> used s'" "\<And>c. used s1 \<le> c \<Longrightarrow> used s \<le> c" using IH by auto
    then show ?thesis using IH x(3) ab t by (auto simp: apart_def)
  qed
qed

end

section \<open>Alignment\<close>

lemma and_not_unat: "unat (y AND NOT m) + unat (y AND m) = unat (y :: u64)"
proof -
  have d: "(y AND m) AND (y AND NOT m) = 0" by (rule bit_word_eqI) (simp add: bit_simps)
  have "(y AND m) + (y AND NOT m) = (y AND m) OR (y AND NOT m)" using d by (rule disjunctive_add_eq_or)
  also have "\<dots> = y" by (rule bit_word_eqI) (auto simp: bit_simps)
  finally have y: "(y AND m) + (y AND NOT m) = y" .
  have "y AND m \<le> y" by (rule word_and_le2)
  then have "unat (y - (y AND m)) = unat y - unat (y AND m)" by (rule unat_sub)
  moreover have "y AND NOT m = y - (y AND m)" using y by (metis add_diff_cancel_left')
  ultimately show ?thesis using \<open>y AND m \<le> y\<close> by (simp add: word_le_nat_alt)
qed

text \<open>Aligning never goes back, loses less than the alignment, and hits a multiple of a power of two.\<close>

lemma align_up:
  assumes "u64_add off align = Some x" "u64_sub x 1 = Some y" "u64_sub align 1 = Some m"
  shows "unat off \<le> unat (y AND NOT m)" "unat (y AND NOT m) < unat off + unat align"
    "align = 2 ^ k \<Longrightarrow> k < 64 \<Longrightarrow> 2 ^ k dvd unat (y AND NOT m)"
proof -
  have y: "unat y = unat off + unat align - 1" "unat m = unat align - 1" "0 < unat align"
    using u64_add_unat [OF assms(1)] u64_sub_unat [OF assms(2)] u64_sub_unat [OF assms(3)] by auto
  have "y AND m \<le> m" by (rule word_and_le1)
  then have le: "unat (y AND m) \<le> unat align - 1" using y(2) by (simp add: word_le_nat_alt)
  show "unat off \<le> unat (y AND NOT m)" "unat (y AND NOT m) < unat off + unat align"
    using and_not_unat [of y m] le y(1,3) by linarith+
  assume k: "align = 2 ^ k" "k < 64"
  have "m = mask k" using assms(3) k(1) by (auto simp: u64_sub_def mask_eq_exp_minus_1 split: if_splits)
  moreover have tb: "unat (take_bit k y) = take_bit k (unat y)" by (rule unsigned_take_bit_eq)
  ultimately have "unat (y AND m) = unat y mod 2 ^ k"
    using tb by (simp add: take_bit_nat_def flip: take_bit_eq_mask)
  then have "unat (y AND NOT m) = unat y - unat y mod 2 ^ k" using and_not_unat [of y m] by simp
  then show "2 ^ k dvd unat (y AND NOT m)" by (simp add: minus_mod_eq_mult_div)
qed

section \<open>Both arenas keep the promise\<close>

lemma bump_alloc_Some:
  assumes "bump_alloc sz align s = Some (r, s')"
  obtains "r = None" "s' = s"
    | x y m e where "u64_add (ba_offset s) align = Some x" "u64_sub x 1 = Some y" "u64_sub align 1 = Some m"
      "u64_add (y AND NOT m) sz = Some e" "unat e \<le> length (ba_slab s)" "r = Some (y AND NOT m, e)" "s' = s\<lparr>ba_offset := e\<rparr>"
proof -
  obtain x y m e where e: "u64_add (ba_offset s) align = Some x" "u64_sub x 1 = Some y" "u64_sub align 1 = Some m"
    "u64_add (y AND NOT m) sz = Some e"
    using assms unfolding bump_alloc_def Let_def by (auto split: Option.bind_splits)
  show thesis
  proof (cases "unat e \<le> length (ba_slab s)")
    case True
    then show thesis using assms e that(2) [OF e] by (simp add: bump_alloc_def Let_def)
  next
    case False
    then show thesis using assms e that(1) by (simp add: bump_alloc_def Let_def)
  qed
qed

interpretation bump: slab_allocator "\<lambda>(sz, align). bump_alloc sz align" bump_used bump_capacity
proof
  fix r :: "u64 \<times> u64" and s s' :: bump_arena and a b :: u64
  obtain sz align where r: "r = (sz, align)" by (cases r)
  assume "(\<lambda>(sz, align). bump_alloc sz align) r s = Some (Some (a, b), s')"
  then have "bump_alloc sz align s = Some (Some (a, b), s')" by (simp add: r)
  then obtain x y m where e: "u64_add (ba_offset s) align = Some x" "u64_sub x 1 = Some y" "u64_sub align 1 = Some m"
      "u64_add (y AND NOT m) sz = Some b" "unat b \<le> length (ba_slab s)" "a = y AND NOT m" "s' = s\<lparr>ba_offset := b\<rparr>"
    by (rule bump_alloc_Some) auto
  then show "bump_used s \<le> a \<and> a \<le> b \<and> bump_used s' = b \<and> unat b \<le> bump_capacity s \<and> bump_capacity s' = bump_capacity s"
    using align_up(1) [OF e(1-3)] u64_add_unat [OF e(4)]
    by (simp add: bump_used_def bump_capacity_def word_le_nat_alt)
next
  fix r :: "u64 \<times> u64" and s s' :: bump_arena
  assume "(\<lambda>(sz, align). bump_alloc sz align) r s = Some (None, s')"
  then show "s' = s" by (cases r) (auto elim: bump_alloc_Some)
qed

definition fb_capacity :: "frame_batch_processor \<Rightarrow> nat" where
  "fb_capacity b = length (fb_payload_pool b)"

interpretation batch: slab_allocator claim_payload_slot fb_pool_offset fb_capacity
  by unfold_locales
    (auto simp: claim_payload_slot_def fb_capacity_def word_le_nat_alt dest: u64_add_unat split: if_splits Option.bind_splits)

section \<open>Slices of the bump arena\<close>

lemma bump_total:
  assumes "0 < unat align" "unat (ba_offset a) + unat align + unat sz < 2 ^ 64"
  shows "\<exists>r a'. bump_alloc sz align a = Some (r, a')"
proof -
  have x: "u64_add (ba_offset a) align = Some (ba_offset a + align)" using assms by (simp add: u64_add_def)
  then have "0 < unat (ba_offset a + align)" using u64_add_unat [OF x] assms(1) by simp
  then have y: "u64_sub (ba_offset a + align) 1 = Some (ba_offset a + align - 1)" by (simp add: u64_sub_def word_le_nat_alt Suc_le_eq)
  have m: "u64_sub align 1 = Some (align - 1)" using assms(1) by (simp add: u64_sub_def word_le_nat_alt Suc_le_eq)
  have "u64_add ((ba_offset a + align - 1) AND NOT (align - 1)) sz = Some (((ba_offset a + align - 1) AND NOT (align - 1)) + sz)"
    using align_up(2) [OF x y m] assms by (simp add: u64_add_def)
  then show ?thesis by (simp add: bump_alloc_def x y m Let_def)
qed

text \<open>C37: the slices a bump arena hands out between two resets lie in its slab in the order of the requests and never
  overlap, whatever alignments were asked for; a slice asked for with a power of two starts at an offset of the slab that is aligned to it, and padding costs less than
  the alignment. A request is refused only when it does not fit behind the padding, and it never panics as long as the sums fit in
  \<^verbatim>\<open>usize\<close>.\<close>

theorem bump_slices_apart:
  assumes "alloc_all (\<lambda>(sz, align). bump_alloc sz align) rs a = Some (ranges, a')" "unat (bump_used a) \<le> bump_capacity a"
    and "0 < unat align" "unat (bump_used a') + unat align + unat sz < 2 ^ 64"
  shows "apart ranges \<and> (\<forall>(b, e) \<in> set ranges. bump_used a \<le> b \<and> b \<le> e \<and> unat e \<le> bump_capacity a) \<and>
    unat (bump_used a') \<le> bump_capacity a' \<and> bump_capacity a' = bump_capacity a \<and>
    (\<exists>b. unat (bump_used a') \<le> unat b \<and> unat b < unat (bump_used a') + unat align \<and>
       (\<forall>k < 64. align = 2 ^ k \<longrightarrow> 2 ^ k dvd unat b) \<and>
       bump_alloc sz align a' =
         (if unat b + unat sz \<le> bump_capacity a'
          then Some (Some (b, b + sz), a'\<lparr>ba_offset := b + sz\<rparr>) else Some (None, a')))"
proof -
  note p = bump.all_apart [OF assms(1)]
  have "\<exists>r q. bump_alloc sz align a' = Some (r, q)" using bump_total [OF assms(3)] assms(4) by (simp add: bump_used_def)
  then obtain x y m e where e: "u64_add (ba_offset a') align = Some x" "u64_sub x 1 = Some y" "u64_sub align 1 = Some m"
    "u64_add (y AND NOT m) sz = Some e" unfolding bump_alloc_def Let_def by (auto split: Option.bind_splits)
  note al = align_up [OF e(1-3)]
  have "e = (y AND NOT m) + sz" "unat e = unat (y AND NOT m) + unat sz"
    using e(4) u64_add_unat [OF e(4)] by (simp_all add: u64_add_Some)
  then have "bump_alloc sz align a' = (if unat (y AND NOT m) + unat sz \<le> bump_capacity a'
      then Some (Some (y AND NOT m, (y AND NOT m) + sz), a'\<lparr>ba_offset := (y AND NOT m) + sz\<rparr>) else Some (None, a'))"
    using e by (simp add: bump_alloc_def Let_def bump_capacity_def)
  then have "\<exists>b. unat (bump_used a') \<le> unat b \<and> unat b < unat (bump_used a') + unat align \<and>
       (\<forall>k < 64. align = 2 ^ k \<longrightarrow> 2 ^ k dvd unat b) \<and>
       bump_alloc sz align a' =
         (if unat b + unat sz \<le> bump_capacity a'
          then Some (Some (b, b + sz), a'\<lparr>ba_offset := b + sz\<rparr>) else Some (None, a'))"
    using al by (intro exI [of _ "y AND NOT m"]) (simp add: bump_used_def)
  then show ?thesis using p assms(2) by auto
qed

definition sample_arena :: bump_arena where
  "sample_arena = \<lparr>ba_slab = replicate 32 0, ba_offset = 0\<rparr>"

theorem bump_slices_apart_witness:
  "\<exists>a. alloc_all (\<lambda>(sz, align). bump_alloc sz align) [(3, 1), (8, 8), (20, 4)] sample_arena = Some ([(0, 3), (8, 16)], a) \<and>
     apart [(0, 3), (8, 16)] \<and> unat (bump_used a) \<le> 32"
proof -
  have "alloc_all (\<lambda>(sz, align). bump_alloc sz align) [(3, 1), (8, 8), (20, 4)] sample_arena =
      Some ([(0, 3), (8, 16)], \<lparr>ba_slab = replicate 32 0, ba_offset = 16\<rparr>)"
    by (simp add: bump_alloc_def u64_add_def u64_sub_def sample_arena_def Let_def)
  from bump_slices_apart [OF this, of 1 0] this show ?thesis
    by (simp add: sample_arena_def bump_used_def bump_capacity_def)
qed

section \<open>Slots of a batch\<close>

lemma claim_counts:
  assumes "alloc_all claim_payload_slot szs b = Some (ranges, b')"
    "unat (fb_frames_in_batch b) \<le> unat (fb_batch_size b)"
  shows "unat (fb_frames_in_batch b') = unat (fb_frames_in_batch b) + length ranges \<and> fb_batch_size b' = fb_batch_size b \<and>
    unat (fb_frames_in_batch b') \<le> unat (fb_batch_size b)"
  using assms
proof (induction szs arbitrary: b ranges)
  case (Cons sz szs)
  then obtain x b1 ys where x: "claim_payload_slot sz b = Some (x, b1)" "alloc_all claim_payload_slot szs b1 = Some (ys, b')"
    "ranges = (case x of None \<Rightarrow> ys | Some x \<Rightarrow> x # ys)" by (auto split: Option.bind_splits)
  show ?case
  proof (cases x)
    case None
    then have "b1 = b" using batch.refused x(1) by blast
    then show ?thesis using Cons.IH [OF x(2)] Cons.prems(2) x(3) None by simp
  next
    case (Some r)
    then have c: "unat (fb_frames_in_batch b) < unat (fb_batch_size b)" "fb_frames_in_batch b1 = fb_frames_in_batch b + 1"
      "fb_batch_size b1 = fb_batch_size b"
      using x(1) by (auto simp: claim_payload_slot_def word_le_nat_alt split: if_splits Option.bind_splits)
    have "unat (fb_frames_in_batch b1) = unat (fb_frames_in_batch b) + 1"
    proof -
      have "unat (fb_frames_in_batch b) + 1 < 18446744073709551616" using c(1) unat_u64_less [of "fb_batch_size b"] by linarith
      then show ?thesis using c(2) by (simp add: unat_word_ariths)
    qed
    then show ?thesis using Cons.IH [OF x(2)] c x(3) Some by simp
  qed
qed simp

text \<open>C0: the payload slots of a batch lie in the pool one behind the other and never overlap, there are at most
  \<^verbatim>\<open>batch_size\<close> of them, and \<^verbatim>\<open>flush_and_reset\<close> returns how many were handed out; the next batch starts over with
  the whole pool.\<close>

theorem batch_slots_apart:
  assumes "batch_processor_new n max_payload = Some b" "alloc_all claim_payload_slot szs b = Some (ranges, b')"
  shows "apart ranges \<and> (\<forall>(i, e) \<in> set ranges. i \<le> e \<and> unat e \<le> unat n * unat max_payload) \<and> length ranges \<le> unat n \<and>
    flush_and_reset b' = (of_nat (length ranges), b)"
proof -
  have b: "unat n * unat max_payload < 2 ^ 64" "b = \<lparr>fb_payload_pool = replicate (unat (n * max_payload)) 0, fb_pool_offset = 0,
      fb_batch_size = n, fb_frames_in_batch = 0\<rparr>"
    using assms(1) by (auto simp: batch_processor_new_def u64_mul_def split: if_splits Option.bind_splits)
  then have cap: "fb_capacity b = unat n * unat max_payload" by (simp add: fb_capacity_def unat_word_ariths)
  note p = batch.all_apart [OF assms(2)] and c = claim_counts [OF assms(2)]
  have keep: "claim_payload_slot sz q = Some (x, q') \<Longrightarrow> fb_payload_pool q' = fb_payload_pool q" for sz q x q'
    by (auto simp: claim_payload_slot_def split: if_splits Option.bind_splits)
  have "fb_payload_pool b' = fb_payload_pool b"
    using assms(2)
  proof (induction szs arbitrary: b ranges)
    case (Cons sz szs)
    then show ?case using keep by (fastforce split: Option.bind_splits)
  qed simp
  moreover have "unat (fb_frames_in_batch b') = length ranges" "fb_batch_size b' = n" "length ranges \<le> unat n" using c b(2) by simp_all
  moreover have "fb_frames_in_batch b' = of_nat (unat (fb_frames_in_batch b'))" by (simp add: of_nat_unat)
  ultimately have "flush_and_reset b' = (of_nat (length ranges), b)" using b(2) by (simp add: flush_and_reset_def)
  then show ?thesis using p cap \<open>length ranges \<le> unat n\<close> by auto
qed

definition sample_batch :: frame_batch_processor where
  "sample_batch = \<lparr>fb_payload_pool = replicate 16 0, fb_pool_offset = 0, fb_batch_size = 2, fb_frames_in_batch = 0\<rparr>"

theorem batch_slots_apart_witness:
  "\<exists>b'. batch_processor_new 2 8 = Some sample_batch \<and>
     alloc_all claim_payload_slot [5, 20, 9, 1] sample_batch = Some ([(0, 5), (5, 14)], b') \<and> flush_and_reset b' = (2, sample_batch)"
proof -
  have n: "batch_processor_new 2 8 = Some sample_batch" by (simp add: batch_processor_new_def u64_mul_def sample_batch_def)
  have "alloc_all claim_payload_slot [5, 20, 9, 1] sample_batch =
      Some ([(0, 5), (5, 14)], sample_batch\<lparr>fb_pool_offset := 14, fb_frames_in_batch := 2\<rparr>)"
    by (simp add: claim_payload_slot_def u64_add_def sample_batch_def word_le_nat_alt)
  from this batch_slots_apart [OF n this] n show ?thesis by simp
qed

section \<open>The arena of a thread\<close>

text \<open>C38: \<^verbatim>\<open>alloc_frame_buffer\<close> reserves room for a buffer behind all earlier ones, at a multiple of 8, and panics exactly when the
  slab has no such room. But the pointer it returns is never to that room: it is the address of the \<^verbatim>\<open>Vec\<close> that owns the slab, the
  same for every buffer.\<close>

theorem frame_buffer_is_the_vec:
  assumes "unat off \<le> unat ARENA_CAPACITY" "unat n < 2 ^ 63"
  shows "\<exists>b. 8 dvd b \<and> unat off \<le> b \<and> b < unat off + 8 \<and>
    alloc_frame_buffer n off =
      (if b + unat n \<le> unat ARENA_CAPACITY then Some (SlabVec, of_nat (b + unat n)) else None) \<and>
    (\<forall>i. alloc_frame_buffer n off \<noteq> Some (SlabByte i, of_nat (b + unat n)))"
proof -
  have cap: "unat ARENA_CAPACITY = 16777216" by (simp add: ARENA_CAPACITY_def)
  let ?b = "(off + 7) AND NOT 7"
  have x: "u64_add off 7 = Some (off + 7)" using assms cap by (simp add: u64_add_def)
  have x8: "u64_add off 8 = Some (off + 8)" using assms cap by (simp add: u64_add_def)
  have y: "u64_sub (off + 8) 1 = Some (off + 7)"
    using u64_add_unat [OF x8] by (simp add: u64_sub_def word_le_nat_alt)
  have m: "u64_sub 8 1 = Some 7" by (simp add: u64_sub_def word_le_nat_alt)
  have b: "unat off \<le> unat ?b" "unat ?b < unat off + 8" "2 ^ 3 dvd unat ?b"
    using align_up(1,2) [OF x8 y m] align_up(3) [OF x8 y m, of 3] by simp_all
  have e: "u64_add ?b n = Some (?b + n)" using b(2) assms cap by (simp add: u64_add_def)
  have "?b + n = of_nat (unat ?b + unat n)" by (simp add: of_nat_unat)
  then have "alloc_frame_buffer n off =
      (if unat ?b + unat n \<le> unat ARENA_CAPACITY then Some (SlabVec, of_nat (unat ?b + unat n)) else None)"
    using x e u64_add_unat [OF e] by (simp add: alloc_frame_buffer_def Let_def word_less_nat_alt not_le [symmetric])
  then show ?thesis using b by (intro exI [of _ "unat ?b"]) simp
qed

theorem frame_buffer_is_the_vec_witness:
  "alloc_frame_buffer 100 3 = Some (SlabVec, 108)"
proof -
  have "unat (3 :: u64) \<le> unat ARENA_CAPACITY" "unat (100 :: u64) < 2 ^ 63" by (simp_all add: ARENA_CAPACITY_def)
  from frame_buffer_is_the_vec [OF this] obtain b where b: "8 dvd b" "3 \<le> b" "b < 11"
    "alloc_frame_buffer 100 3 = (if b + 100 \<le> unat ARENA_CAPACITY then Some (SlabVec, of_nat (b + 100)) else None)" by auto
  have "b = 8" using b(1-3) by (auto elim!: dvdE)
  then show ?thesis using b(4) by (simp add: ARENA_CAPACITY_def)
qed

end
