(* ===== verification/Aggregator.thy ===== *)
theory Aggregator imports Telemetry_System begin

text \<open>
  \<^verbatim>\<open>module3/part1/aggregator.rs\<close>: the aggregator actor, which keeps the newest frames in a bounded buffer, and its
  handle. The inbox is the bounded channel, a request carries the number of the oneshot channel of its reply; an event is one turn
  of a caller or of the actor. The refinement says what the callers see without the buffer.
\<close>

section \<open>The actor\<close>

record aggregated_frame =
  tf_satellite_id :: u32
  tf_sequence :: u64
  tf_payload :: bytes

definition aggregated_frame_new :: "u32 \<Rightarrow> u64 \<Rightarrow> bytes \<Rightarrow> aggregated_frame" where
  "aggregated_frame_new satellite_id sequence payload =
     \<lparr>tf_satellite_id = satellite_id, tf_sequence = sequence, tf_payload = payload\<rparr>"

datatype aggregator_msg = Frame aggregated_frame | Depth nat | Drain nat

datatype aggregator_reply = DepthReply nat | DrainReply "aggregated_frame list"

definition MAX_BUFFER :: nat where
  "MAX_BUFFER = 1000"

text \<open>One message: the buffer after it, and the reply with the channel it is sent to.\<close>

fun aggregator_handle ::
    "aggregator_msg \<Rightarrow> aggregated_frame list \<Rightarrow> aggregated_frame list \<times> (nat \<times> aggregator_reply) list" where
  "aggregator_handle (Frame frame) buffer =
     ((if length buffer \<ge> MAX_BUFFER then tl buffer else buffer) @ [frame], [])"
| "aggregator_handle (Depth reply) buffer = (buffer, [(reply, DepthReply (length buffer))])"
| "aggregator_handle (Drain reply) buffer = ([], [(reply, DrainReply buffer)])"

text \<open>\<open>ag_accepted\<close> records the messages in the order in which the channel took them.\<close>

record aggregator =
  ag_inbox :: "aggregator_msg mpsc"
  ag_buffer :: "aggregated_frame list"
  ag_replies :: "(nat \<times> aggregator_reply) list"
  ag_senders :: nat
  ag_ended :: bool
  ag_next :: nat
  ag_accepted :: "aggregator_msg list"

definition aggregator_spawn :: "nat \<Rightarrow> aggregator" where
  "aggregator_spawn capacity = \<lparr>ag_inbox = channel capacity, ag_buffer = [], ag_replies = [], ag_senders = 1,
     ag_ended = False, ag_next = 0, ag_accepted = []\<rparr>"

definition run_aggregator :: "aggregator \<Rightarrow> aggregator" where
  "run_aggregator s =
     (if ag_ended s then s
      else case mp_items (ag_inbox s) of
        [] \<Rightarrow> if ag_senders s = 0 then s\<lparr>ag_ended := True\<rparr> else s
      | msg # rest \<Rightarrow>
          (let (buffer, reply) = aggregator_handle msg (ag_buffer s)
           in s\<lparr>ag_inbox := (ag_inbox s)\<lparr>mp_items := rest\<rparr>, ag_buffer := buffer, ag_replies := ag_replies s @ reply\<rparr>))"

section \<open>The handle\<close>

text \<open>A send waits while the channel is full: then the turn changes nothing.\<close>

definition aggregator_send :: "aggregator_msg \<Rightarrow> aggregator \<Rightarrow> aggregator" where
  "aggregator_send msg s = (case try_send msg (ag_inbox s) of
      None \<Rightarrow> s
    | Some inbox \<Rightarrow> s\<lparr>ag_inbox := inbox, ag_accepted := ag_accepted s @ [msg]\<rparr>)"

definition aggregator_send_frame :: "aggregated_frame \<Rightarrow> aggregator \<Rightarrow> aggregator" where
  "aggregator_send_frame frame s = aggregator_send (Frame frame) s"

definition aggregator_depth :: "aggregator \<Rightarrow> aggregator" where
  "aggregator_depth s = aggregator_send (Depth (ag_next s)) (s\<lparr>ag_next := ag_next s + 1\<rparr>)"

definition aggregator_drain :: "aggregator \<Rightarrow> aggregator" where
  "aggregator_drain s = aggregator_send (Drain (ag_next s)) (s\<lparr>ag_next := ag_next s + 1\<rparr>)"

datatype aggregator_event = SendFrame aggregated_frame | AskDepth | AskDrain | CloneHandle | DropHandle | ActorTurn

text \<open>Callers need a handle.\<close>

fun aggregator_step :: "aggregator_event \<Rightarrow> aggregator \<Rightarrow> aggregator" where
  "aggregator_step (SendFrame frame) s = (if ag_senders s = 0 then s else aggregator_send_frame frame s)"
| "aggregator_step AskDepth s = (if ag_senders s = 0 then s else aggregator_depth s)"
| "aggregator_step AskDrain s = (if ag_senders s = 0 then s else aggregator_drain s)"
| "aggregator_step CloneHandle s = (if ag_senders s = 0 then s else s\<lparr>ag_senders := ag_senders s + 1\<rparr>)"
| "aggregator_step DropHandle s = s\<lparr>ag_senders := ag_senders s - 1\<rparr>"
| "aggregator_step ActorTurn s = run_aggregator s"

section \<open>What the callers see\<close>

definition last_n :: "nat \<Rightarrow> 'a list \<Rightarrow> 'a list" where
  "last_n n xs = drop (length xs - n) xs"

text \<open>\<open>since\<close> is every frame since the last drain.\<close>

fun aggregator_spec ::
    "aggregated_frame list \<Rightarrow> aggregator_msg list \<Rightarrow> (nat \<times> aggregator_reply) list \<times> aggregated_frame list" where
  "aggregator_spec since [] = ([], since)"
| "aggregator_spec since (Frame frame # msgs) = aggregator_spec (since @ [frame]) msgs"
| "aggregator_spec since (Depth reply # msgs) =
     (let (rs, s) = aggregator_spec since msgs in ((reply, DepthReply (min MAX_BUFFER (length since))) # rs, s))"
| "aggregator_spec since (Drain reply # msgs) =
     (let (rs, s) = aggregator_spec [] msgs in ((reply, DrainReply (last_n MAX_BUFFER since)) # rs, s))"

lemma aggregator_spec_snoc:
  "aggregator_spec since (msgs @ [m]) =
     (let (rs, s) = aggregator_spec since msgs; (rs', s') = aggregator_spec s [m] in (rs @ rs', s'))"
  by (induction since msgs rule: aggregator_spec.induct) (auto simp: Let_def split: prod.splits)

lemma handle_spec:
  "aggregator_handle m (last_n MAX_BUFFER since) =
     (last_n MAX_BUFFER (snd (aggregator_spec since [m])), fst (aggregator_spec since [m]))"
proof (cases m)
  case (Frame f)
  have "tl (drop n xs) @ [f] = drop (Suc n) (xs @ [f])" if "n < length xs" for n and xs :: "aggregated_frame list"
    using that by (simp add: tl_drop drop_Suc)
  moreover have "Suc (length since - 1000) = length since - 999" if "1000 \<le> length since" using that by simp
  ultimately show ?thesis using Frame by (cases "length since < 1000") (auto simp: last_n_def MAX_BUFFER_def)
qed (auto simp: last_n_def)

definition aggregator_inv :: "nat \<Rightarrow> aggregator \<Rightarrow> bool" where
  "aggregator_inv capacity s \<longleftrightarrow>
     (\<exists>done. ag_accepted s = done @ mp_items (ag_inbox s) \<and>
       ag_replies s = fst (aggregator_spec [] done) \<and> ag_buffer s = last_n MAX_BUFFER (snd (aggregator_spec [] done))) \<and>
     mp_capacity (ag_inbox s) = capacity \<and> length (mp_items (ag_inbox s)) \<le> capacity \<and> mp_receiver (ag_inbox s) \<and>
     (ag_ended s \<longrightarrow> ag_senders s = 0 \<and> mp_items (ag_inbox s) = [])"

lemma send_inv: "aggregator_inv capacity s \<Longrightarrow> ag_senders s \<noteq> 0 \<Longrightarrow> aggregator_inv capacity (aggregator_send m s)"
  by (auto simp: aggregator_inv_def aggregator_send_def try_send_def split: option.splits)

lemma next_inv: "aggregator_inv capacity (s\<lparr>ag_next := n\<rparr>) = aggregator_inv capacity s"
  by (simp add: aggregator_inv_def)

lemma run_inv:
  assumes "aggregator_inv capacity s" shows "aggregator_inv capacity (run_aggregator s)"
proof (cases "mp_items (ag_inbox s)")
  case (Cons m rest)
  obtain dn where d: "ag_accepted s = dn @ m # rest" "ag_replies s = fst (aggregator_spec [] dn)"
    "ag_buffer s = last_n MAX_BUFFER (snd (aggregator_spec [] dn))"
    using assms Cons by (auto simp: aggregator_inv_def)
  have "ag_accepted s = (dn @ [m]) @ rest" using d(1) by simp
  moreover have "aggregator_spec [] (dn @ [m]) = (fst (aggregator_spec [] dn) @ fst (aggregator_spec (snd (aggregator_spec [] dn)) [m]),
      snd (aggregator_spec (snd (aggregator_spec [] dn)) [m]))"
    by (simp add: aggregator_spec_snoc Let_def split: prod.split)
  ultimately show ?thesis
    using assms d(2,3) Cons unfolding aggregator_inv_def
    by (auto simp: run_aggregator_def handle_spec intro!: exI [of _ "dn @ [m]"])
next
  case Nil
  then show ?thesis using assms by (auto simp: run_aggregator_def aggregator_inv_def)
qed

lemma step_inv: "aggregator_inv capacity s \<Longrightarrow> aggregator_inv capacity (aggregator_step e s)"
  by (cases e) (auto simp: aggregator_send_frame_def aggregator_depth_def aggregator_drain_def send_inv run_inv next_inv,
      auto simp: aggregator_inv_def)

text \<open>C34: whatever its callers do, in whatever order, the aggregator answers as if it kept every frame since the last drain:
  the replies are those of the messages in the order in which its channel took them, a depth is the number of these frames up to
  1000, and a drain returns the newest 1000 of them in order. The inbox never exceeds its capacity, and the actor ends only when all handles are
  gone and every message is answered.\<close>

theorem aggregator_refines:
  shows "let s = fold aggregator_step evs (aggregator_spawn capacity) in
    (\<exists>done. ag_accepted s = done @ mp_items (ag_inbox s) \<and> ag_replies s = fst (aggregator_spec [] done) \<and>
       ag_buffer s = last_n MAX_BUFFER (snd (aggregator_spec [] done))) \<and>
    length (ag_buffer s) \<le> MAX_BUFFER \<and> length (mp_items (ag_inbox s)) \<le> capacity \<and>
    (if ag_ended s then ag_senders s = 0 \<and> mp_items (ag_inbox s) = [] else True)"
proof -
  have "aggregator_inv capacity s \<Longrightarrow> aggregator_inv capacity (fold aggregator_step evs s)" for s
    by (induction evs arbitrary: s) (simp_all add: step_inv)
  moreover have "aggregator_inv capacity (aggregator_spawn capacity)"
    by (simp add: aggregator_inv_def aggregator_spawn_def channel_def last_n_def)
  ultimately have "aggregator_inv capacity (fold aggregator_step evs (aggregator_spawn capacity))" by blast
  then show ?thesis unfolding aggregator_inv_def Let_def by (auto simp: last_n_def)
qed

end
