(* ===== verification/Orbital.thy ===== *)
theory Orbital imports Prelude begin

text \<open>
  \<^verbatim>\<open>module2/part1/orbital_record.rs\<close>: screening a catalog for conjunctions in shards. An \<open>f64\<close> is the word of its bits;
  the absolute difference and the comparison of two of them are the parameters \<open>abs_diff\<close> and \<open>below\<close>. The
  threads of the scope are joined in order, so that the result is the concatenation of theirs.
\<close>

record orbital_record =
  or_norad_id :: u32
  or_altitude_km :: u64

record conjunction_alert =
  ca_object_a :: u32
  ca_object_b :: u32
  ca_closest_approach_km :: u64

definition orbital_record_new :: "u32 \<Rightarrow> u64 \<Rightarrow> orbital_record" where
  "orbital_record_new norad_id altitude_km = \<lparr>or_norad_id = norad_id, or_altitude_km = altitude_km\<rparr>"

text \<open>A pair of neighbours gives an alert or none.\<close>

definition screen_pair ::
    "(u64 \<Rightarrow> u64 \<Rightarrow> u64) \<Rightarrow> (u64 \<Rightarrow> u64 \<Rightarrow> bool) \<Rightarrow> u64 \<Rightarrow> orbital_record \<Rightarrow> orbital_record \<Rightarrow> conjunction_alert list" where
  "screen_pair abs_diff below threshold a b =
     (let d = abs_diff (or_altitude_km a) (or_altitude_km b)
      in if below d threshold
         then [\<lparr>ca_object_a = or_norad_id a, ca_object_b = or_norad_id b, ca_closest_approach_km = d\<rparr>] else [])"

fun screen_shard ::
    "(u64 \<Rightarrow> u64 \<Rightarrow> u64) \<Rightarrow> (u64 \<Rightarrow> u64 \<Rightarrow> bool) \<Rightarrow> orbital_record list \<Rightarrow> u64 \<Rightarrow> conjunction_alert list" where
  "screen_shard abs_diff below (a # b # shard) threshold =
     screen_pair abs_diff below threshold a b @ screen_shard abs_diff below (b # shard) threshold"
| "screen_shard abs_diff below _ threshold = []"

text \<open>\<^verbatim>\<open>chunks\<close> panics on size 0.\<close>

function chunks_of :: "nat \<Rightarrow> 'a list \<Rightarrow> 'a list list" where
  "chunks_of n xs = (if n = 0 \<or> xs = [] then [] else take n xs # chunks_of n (drop n xs))"
  by pat_completeness auto
termination by (relation "measure (\<lambda>(n, xs). length xs)") auto

declare chunks_of.simps [simp del]

definition chunks :: "nat \<Rightarrow> 'a list \<Rightarrow> 'a list list option" where
  "chunks n xs = (if n = 0 then None else Some (chunks_of n xs))"

definition div_ceil :: "nat \<Rightarrow> nat \<Rightarrow> nat" where
  "div_ceil a b = (if a mod b = 0 then a div b else a div b + 1)"

text \<open>\<open>cores\<close> is what \<^verbatim>\<open>available_parallelism\<close> returned.\<close>

definition run_conjunction_screen ::
    "(u64 \<Rightarrow> u64 \<Rightarrow> u64) \<Rightarrow> (u64 \<Rightarrow> u64 \<Rightarrow> bool) \<Rightarrow> nat option \<Rightarrow> orbital_record list \<Rightarrow> u64 \<Rightarrow> conjunction_alert list option" where
  "run_conjunction_screen abs_diff below cores catalog threshold =
     (let num_cores = (case cores of Some n \<Rightarrow> n | None \<Rightarrow> 4); shard_size = div_ceil (length catalog) num_cores
      in map_option (\<lambda>shards. concat (map (\<lambda>shard. screen_shard abs_diff below shard threshold) shards)) (chunks shard_size catalog))"

section \<open>Which pairs are screened\<close>

definition alert_at ::
    "(u64 \<Rightarrow> u64 \<Rightarrow> u64) \<Rightarrow> (u64 \<Rightarrow> u64 \<Rightarrow> bool) \<Rightarrow> u64 \<Rightarrow> orbital_record list \<Rightarrow> nat \<Rightarrow> conjunction_alert list" where
  "alert_at abs_diff below threshold catalog i = screen_pair abs_diff below threshold (catalog ! i) (catalog ! Suc i)"

lemma screen_shard_pairs:
  "screen_shard f l xs t = concat (map (alert_at f l t xs) [0..<length xs - 1])"
proof (induction f l xs t rule: screen_shard.induct)
  case (1 f l a b shard t)
  have "[0..<length (a # b # shard) - 1] = 0 # map Suc [0..<length (b # shard) - 1]"
    by (simp add: upt_conv_Cons map_Suc_upt del: upt_Suc)
  then show ?case using 1 by (simp add: alert_at_def comp_def)
qed simp_all

lemma screen_chunks:
  assumes "0 < n"
  shows "concat (map (\<lambda>shard. screen_shard f l shard t) (chunks_of n xs)) =
    concat (map (\<lambda>i. if Suc i mod n = 0 then [] else alert_at f l t xs i) [0..<length xs - 1])"
proof (induction xs rule: length_induct)
  case (1 xs)
  show ?case
  proof (cases "length xs \<le> n")
    case True
    have nz: "Suc i mod n \<noteq> 0" if "i < length xs - 1" for i using that True by simp
    have "(if Suc i mod n = 0 then [] else alert_at f l t xs i) = alert_at f l t xs i" if "i \<in> set [0..<length xs - 1]" for i
      using nz [of i] that by (simp only: set_upt atLeastLessThan_iff if_False simp_thms)
    then have "map (\<lambda>i. if Suc i mod n = 0 then [] else alert_at f l t xs i) [0..<length xs - 1] = map (alert_at f l t xs) [0..<length xs - 1]"
      by (rule map_cong [OF refl])
    then have "concat (map (\<lambda>i. if Suc i mod n = 0 then [] else alert_at f l t xs i) [0..<length xs - 1]) =
        concat (map (alert_at f l t xs) [0..<length xs - 1])" by (rule arg_cong)
    then show ?thesis using True assms by (cases "xs = []") (simp_all add: chunks_of.simps screen_shard_pairs del: One_nat_def)
  next
    case False
    let ?ys = "drop n xs" and ?g = "\<lambda>xs i. if Suc i mod n = 0 then [] else alert_at f l t xs i"
    have IH: "concat (map (\<lambda>shard. screen_shard f l shard t) (chunks_of n ?ys)) = concat (map (?g ?ys) [0..<length ?ys - 1])"
      using 1 False assms by simp
    have "[0..<length xs - 1] = [0..<n - 1] @ [n - 1] @ map (\<lambda>i. i + n) [0..<length ?ys - 1]"
    proof -
      have "[0..<length xs - 1] = [0..<n] @ [n..<length xs - 1]" using False assms upt_add_eq_append [of 0 n "length xs - 1 - n"] by simp
      moreover have "[0..<n] = [0..<n - 1] @ [n - 1]" using assms upt_Suc_append [of 0 "n - 1"] by simp
      moreover have "[n..<length xs - 1] = map (\<lambda>i. i + n) [0..<length ?ys - 1]"
        using False by (simp add: map_add_upt)
      ultimately show ?thesis by simp
    qed
    moreover have "map (?g xs) [0..<n - 1] = map (alert_at f l t (take n xs)) [0..<n - 1]"
      by (auto simp: alert_at_def)
    moreover have "map (?g xs \<circ> (\<lambda>i. i + n)) [0..<length ?ys - 1] = map (?g ?ys) [0..<length ?ys - 1]"
    proof -
      have "Suc (i + n) mod n = Suc i mod n" for i by (metis add_Suc mod_add_self2)
      then show ?thesis using False by (auto simp: alert_at_def add.commute)
    qed
    ultimately have "concat (map (?g xs) [0..<length xs - 1]) =
        concat (map (alert_at f l t (take n xs)) [0..<n - 1]) @ concat (map (?g ?ys) [0..<length ?ys - 1])"
      using assms by (simp del: map_eq_conv)
    moreover have "screen_shard f l (take n xs) t = concat (map (alert_at f l t (take n xs)) [0..<n - 1])"
      using False by (simp add: screen_shard_pairs)
    ultimately show ?thesis using IH False assms chunks_of.simps [of n xs] by (cases "xs = []") simp_all
  qed
qed

text \<open>C40: \<^verbatim>\<open>run_conjunction_screen\<close> panics on an empty catalog. Otherwise it reports, in the order of the catalog, the
  neighbours that are closer than the threshold except those that a shard boundary separates: these it never compares. On one
  core it is the screening of the whole catalog.\<close>

theorem conjunction_screen_spec:
  assumes "0 < n"
  shows "run_conjunction_screen f l (Some n) [] t = None \<and>
    (catalog \<noteq> [] \<longrightarrow> run_conjunction_screen f l (Some n) catalog t =
      Some (concat (map (\<lambda>i. if Suc i mod div_ceil (length catalog) n = 0 then [] else alert_at f l t catalog i)
        [0..<length catalog - 1]))) \<and>
    (catalog \<noteq> [] \<longrightarrow> run_conjunction_screen f l (Some 1) catalog t = Some (screen_shard f l catalog t))"
proof (intro conjI impI)
  show "run_conjunction_screen f l (Some n) [] t = None"
    by (simp add: run_conjunction_screen_def chunks_def div_ceil_def)
next
  assume c: "catalog \<noteq> []"
  then have "0 < length catalog" by simp
  then have "0 < div_ceil (length catalog) n"
    using assms by (cases "length catalog < n") (auto simp: div_ceil_def div_greater_zero_iff)
  then show "run_conjunction_screen f l (Some n) catalog t =
      Some (concat (map (\<lambda>i. if Suc i mod div_ceil (length catalog) n = 0 then [] else alert_at f l t catalog i)
        [0..<length catalog - 1]))"
    by (simp add: run_conjunction_screen_def Let_def chunks_def screen_chunks)
next
  assume c: "catalog \<noteq> []"
  then have "chunks_of (length catalog) catalog = [catalog]" by (simp add: chunks_of.simps)
  then show "run_conjunction_screen f l (Some 1) catalog t = Some (screen_shard f l catalog t)"
    using c by (simp add: run_conjunction_screen_def Let_def chunks_def div_ceil_def)
qed

theorem conjunction_screen_spec_witness:
  "run_conjunction_screen (\<lambda>a b. a - b) (<) (Some 2) (map (\<lambda>k. orbital_record_new k 7) [1, 2, 3, 4]) 5 =
     Some [\<lparr>ca_object_a = 1, ca_object_b = 2, ca_closest_approach_km = 0\<rparr>, \<lparr>ca_object_a = 3, ca_object_b = 4, ca_closest_approach_km = 0\<rparr>]"
  using conjunction_screen_spec [of 2 "\<lambda>a b. a - b" "(<)" 5 "map (\<lambda>k. orbital_record_new k 7) [1, 2, 3, 4]"]
  by (simp add: orbital_record_new_def alert_at_def screen_pair_def div_ceil_def upt_rec mod_Suc)

end
