(* ===== verification/Radar.thy ===== *)
theory Radar imports Telemetry_System begin

text \<open>
  \<^verbatim>\<open>module4/part2/radar_detection.rs\<close>: datagrams of radar detections, the task that receives them, the future that
  processes them and the guard that shuts both down. An \<open>f32\<close> is the word of its bits. The results of the socket, the
  cancellation and the polls are events; one event is one turn of a task. A poll of the receiving
  future takes everything that waits; the runtime may cut it into several polls, which comes to the same sequence.
\<close>

section \<open>Detections\<close>

record radar_detection =
  rd_sensor_id :: u32
  rd_azimuth_deg :: u32
  rd_elevation_deg :: u32
  rd_range_km :: u32
  rd_timestamp_ms :: u64

definition new_with_parse :: "bytes \<Rightarrow> radar_detection option" where
  "new_with_parse buf =
     (if length buf < 24 then None
      else Some \<lparr>rd_sensor_id = u32_from_be (bslice 0 4 buf), rd_azimuth_deg = u32_from_be (bslice 4 4 buf),
        rd_elevation_deg = u32_from_be (bslice 8 4 buf), rd_range_km = u32_from_be (bslice 12 4 buf),
        rd_timestamp_ms = u64_from_be (bslice 16 8 buf)\<rparr>)"

text \<open>The wire format of the comment.\<close>

definition radar_wire :: "radar_detection \<Rightarrow> bytes" where
  "radar_wire d = u32_to_be (rd_sensor_id d) @ u32_to_be (rd_azimuth_deg d) @ u32_to_be (rd_elevation_deg d) @
     u32_to_be (rd_range_km d) @ u64_to_be (rd_timestamp_ms d)"

lemma parse_wire: "new_with_parse (radar_wire d @ rest) = Some d"
  by (simp add: new_with_parse_def radar_wire_def bslice_def)

lemma parse_unique:
  assumes "new_with_parse buf = Some d"
  shows "take 24 buf = radar_wire d"
proof -
  have len: "24 \<le> length buf" and d: "d = \<lparr>rd_sensor_id = u32_from_be (bslice 0 4 buf), rd_azimuth_deg = u32_from_be (bslice 4 4 buf),
      rd_elevation_deg = u32_from_be (bslice 8 4 buf), rd_range_km = u32_from_be (bslice 12 4 buf),
      rd_timestamp_ms = u64_from_be (bslice 16 8 buf)\<rparr>"
    using assms by (auto simp: new_with_parse_def split: if_splits)
  have back4: "u32_to_be (u32_from_be bs) = bs" if "length bs = 4" for bs
    using that be_nat_less [of bs] by (simp add: u32_to_be_def u32_from_be_def unat_of_nat be_bytes_be_nat)
  have back8: "u64_to_be (u64_from_be bs) = bs" if "length bs = 8" for bs
    using that be_nat_less [of bs] by (simp add: u64_to_be_def u64_from_be_def unat_of_nat be_bytes_be_nat)
  have "take 24 buf = bslice 0 24 buf" by (simp add: bslice_def)
  also have "\<dots> = bslice 0 4 buf @ bslice 4 4 buf @ bslice 8 4 buf @ bslice 12 4 buf @ bslice 16 8 buf"
    using bslice_split [of 4 24 0 buf] bslice_split [of 4 20 4 buf] bslice_split [of 4 16 8 buf] bslice_split [of 4 12 12 buf] by simp
  finally show ?thesis using len by (simp add: d radar_wire_def back4 back8)
qed

lemma parse_iff: "new_with_parse buf = Some d \<longleftrightarrow> take 24 buf = radar_wire d"
  using parse_unique [of buf d] parse_wire [of d "drop 24 buf"] append_take_drop_id [of 24 buf] by metis

section \<open>The tasks\<close>

text \<open>\<open>rs_handles\<close> counts the owners of \<^verbatim>\<open>Shared\<close>, whose last one closes the channel: the transmit task and the
  \<^verbatim>\<open>UdpSys\<close>. \<open>rs_log\<close> records every detection that was parsed and whether the channel took it.\<close>

datatype guard_state = Open | WaitTransmit | WaitReceiver | Closed

record radar_sys =
  rs_queue :: "radar_detection mpsc"
  rs_cancelled :: bool
  rs_transmitting :: bool
  rs_system :: bool
  rs_receiving :: bool
  rs_guard :: guard_state
  rs_processed :: "radar_detection list"
  rs_log :: "(radar_detection \<times> bool) list"

definition udp_sys_new :: "nat \<Rightarrow> radar_sys" where
  "udp_sys_new bound = \<lparr>rs_queue = channel bound, rs_cancelled = False, rs_transmitting = True, rs_system = True, rs_receiving = True,
     rs_guard = Open, rs_processed = [], rs_log = []\<rparr>"

definition signal_shutdown :: "radar_sys \<Rightarrow> radar_sys" where
  "signal_shutdown s = (if rs_cancelled s then s else s\<lparr>rs_cancelled := True\<rparr>)"

text \<open>A turn of \<^verbatim>\<open>transmit_from_udp\<close>: cancellation comes first; \<open>recv\<close> is what the socket has, if anything: an error or a
  datagram, cut to the buffer of 1472 bytes.\<close>

definition transmit_from_udp :: "(io_error + bytes) option \<Rightarrow> radar_sys \<Rightarrow> radar_sys" where
  "transmit_from_udp recv s =
     (if \<not> rs_transmitting s then s
      else if rs_cancelled s then s\<lparr>rs_transmitting := False\<rparr>
      else case recv of
          None \<Rightarrow> s
        | Some (Inl e) \<Rightarrow> s
        | Some (Inr datagram) \<Rightarrow> (case new_with_parse (take 1472 datagram) of
              None \<Rightarrow> s
            | Some detection \<Rightarrow> (case try_send detection (rs_queue s) of
                  None \<Rightarrow> s\<lparr>rs_log := rs_log s @ [(detection, False)]\<rparr>
                | Some q \<Rightarrow> s\<lparr>rs_queue := q, rs_log := rs_log s @ [(detection, True)]\<rparr>)))"

text \<open>\<^verbatim>\<open>RecvEnd::poll\<close>: every queued detection, then ready when the channel is closed.\<close>

definition recv_end_poll :: "radar_sys \<Rightarrow> radar_sys" where
  "recv_end_poll s =
     (if \<not> rs_receiving s then s
      else s\<lparr>rs_processed := rs_processed s @ mp_items (rs_queue s), rs_queue := (rs_queue s)\<lparr>mp_items := []\<rparr>,
             rs_receiving := (rs_transmitting s \<or> rs_system s)\<rparr>)"

text \<open>\<^verbatim>\<open>close\<close>: signal, wait for the transmit task, drop the system, wait for the receiver.\<close>

definition guard_close :: "radar_sys \<Rightarrow> radar_sys" where
  "guard_close s = (case rs_guard s of
      Open \<Rightarrow> (signal_shutdown s)\<lparr>rs_guard := WaitTransmit\<rparr>
    | WaitTransmit \<Rightarrow> if rs_transmitting s then s else s\<lparr>rs_system := False, rs_guard := WaitReceiver\<rparr>
    | WaitReceiver \<Rightarrow> if rs_receiving s then s else s\<lparr>rs_guard := Closed\<rparr>
    | Closed \<Rightarrow> s)"

text \<open>Dropping the guard, or the future of \<^verbatim>\<open>close\<close> between two of its turns, signals if the system is still there and
  lets go of everything; the tasks are detached.\<close>

definition guard_drop_radar :: "radar_sys \<Rightarrow> radar_sys" where
  "guard_drop_radar s =
     (if rs_system s then (signal_shutdown s)\<lparr>rs_system := False, rs_guard := Closed\<rparr> else s\<lparr>rs_guard := Closed\<rparr>)"

datatype radar_event = Transmit "(io_error + bytes) option" | PollReceiver | CloseTurn | DropGuard

fun radar_step :: "radar_event \<Rightarrow> radar_sys \<Rightarrow> radar_sys" where
  "radar_step (Transmit recv) s = transmit_from_udp recv s"
| "radar_step PollReceiver s = recv_end_poll s"
| "radar_step CloseTurn s = guard_close s"
| "radar_step DropGuard s = guard_drop_radar s"

section \<open>Nothing is lost but what was refused\<close>

definition radar_inv :: "nat \<Rightarrow> radar_sys \<Rightarrow> bool" where
  "radar_inv bound s \<longleftrightarrow> mp_capacity (rs_queue s) = bound \<and> length (mp_items (rs_queue s)) \<le> bound \<and> mp_receiver (rs_queue s) \<and>
     map fst (filter snd (rs_log s)) = rs_processed s @ mp_items (rs_queue s) \<and>
     (\<not> rs_transmitting s \<longrightarrow> rs_cancelled s) \<and>
     (\<not> rs_receiving s \<longrightarrow> \<not> rs_transmitting s \<and> \<not> rs_system s \<and> mp_items (rs_queue s) = []) \<and>
     (rs_guard s \<noteq> Open \<longrightarrow> rs_cancelled s) \<and> (rs_guard s = Open \<longrightarrow> rs_system s) \<and>
     (rs_guard s = WaitReceiver \<longrightarrow> \<not> rs_transmitting s \<and> \<not> rs_system s) \<and> (rs_guard s = WaitTransmit \<longrightarrow> rs_system s) \<and>
     (rs_guard s = Closed \<longrightarrow> \<not> rs_system s)"

lemma radar_inv_step: "radar_inv bound s \<Longrightarrow> radar_inv bound (radar_step e s)"
proof (cases e)
  case (Transmit recv)
  assume "radar_inv bound s"
  then show ?thesis
    using Transmit
    by (auto simp: radar_inv_def transmit_from_udp_def try_send_def split: option.splits sum.splits)
next
  case CloseTurn
  assume "radar_inv bound s"
  then show ?thesis
    using CloseTurn by (cases "rs_guard s") (auto simp: radar_inv_def guard_close_def signal_shutdown_def)
qed (auto simp: radar_inv_def recv_end_poll_def guard_drop_radar_def signal_shutdown_def)

lemma radar_inv_run: "radar_inv bound s \<Longrightarrow> radar_inv bound (fold radar_step evs s)"
  by (induction evs arbitrary: s) (simp_all add: radar_inv_step)

lemma radar_inv_new: "radar_inv bound (udp_sys_new bound)"
  by (simp add: radar_inv_def udp_sys_new_def channel_def)

text \<open>C36: a datagram yields a detection exactly when it starts with the 24 bytes that encode it, whatever follows them. Whatever the
  network, the tasks and the owner of the guard do, the detections that were processed or wait, in order, are those that the channel took;
  no more than the bound ever wait. When the receiver has ended nothing waits. A \<^verbatim>\<open>close\<close> always completes, in at
  most five turns, and leaves every detection the channel took processed.\<close>

theorem radar_graceful:
  shows "(new_with_parse buf = Some d \<longleftrightarrow> take 24 buf = radar_wire d) \<and>
    (let s = fold radar_step evs (udp_sys_new bound); c = fold radar_step [CloseTurn, Transmit recv, CloseTurn, PollReceiver, CloseTurn] s
     in map fst (filter snd (rs_log s)) = rs_processed s @ mp_items (rs_queue s) \<and> length (mp_items (rs_queue s)) \<le> bound \<and>
        (rs_receiving s \<or> mp_items (rs_queue s) = []) \<and>
        (if rs_guard s = Open
         then rs_guard c = Closed \<and> \<not> rs_transmitting c \<and> \<not> rs_receiving c \<and> rs_processed c = map fst (filter snd (rs_log s))
         else True))"
proof -
  let ?s = "fold radar_step evs (udp_sys_new bound)"
  let ?c = "fold radar_step [CloseTurn, Transmit recv, CloseTurn, PollReceiver, CloseTurn] ?s"
  have inv: "radar_inv bound ?s" by (rule radar_inv_run [OF radar_inv_new])
  have "rs_guard ?c = Closed \<and> \<not> rs_transmitting ?c \<and> \<not> rs_receiving ?c \<and> rs_processed ?c = map fst (filter snd (rs_log ?s))"
    if opn: "rs_guard ?s = Open"
  proof -
    have "rs_receiving ?s \<or> \<not> rs_transmitting ?s" using inv by (auto simp: radar_inv_def)
    then show ?thesis
      using opn inv
      by (auto simp: guard_close_def signal_shutdown_def transmit_from_udp_def recv_end_poll_def radar_inv_def)
  qed
  then show ?thesis using inv by (auto simp: Let_def parse_iff radar_inv_def)
qed

end
