(* ===== verification/Router_Actor.thy ===== *)
theory Router_Actor imports Telemetry_System "HOL-Library.Sublist" begin

text \<open>
  \<^verbatim>\<open>module3/part3/router_tagged_frame.rs\<close>: the actor that fans in a changing set of feeds. A feed is its channel and the
  task that forwards it; the number of a feed names both, and travels in \<^verbatim>\<open>AddFeed\<close> as the receiving end does. An event
  is one turn of a caller, of a forwarding task, of the router or of the consumer; a turn that has to wait changes nothing.
  \<open>ra_sent\<close>, \<open>ra_log\<close> and \<open>ra_consumed\<close> record what the feeds took, what the tasks forwarded and what the consumer got.
\<close>

section \<open>The state\<close>

record routed_frame =
  ro_source_id :: u32
  ro_payload :: bytes

datatype router_msg = AddFeed u32 nat | RemoveFeed u32

datatype feed_task = NotStarted | Receiving | Forwarding bytes | Exited

record routed_feed =
  fd_source :: u32
  fd_chan :: "bytes mpsc"
  fd_senders :: bool
  fd_task :: feed_task
  fd_abort :: bool

record router_sys =
  ra_ctrl :: "router_msg mpsc"
  ra_ctrl_open :: bool
  ra_feeds :: "routed_feed list"
  ra_handles :: "(u32 \<times> nat) list"
  ra_internal :: "routed_frame mpsc"
  ra_out :: "routed_frame mpsc"
  ra_held :: "routed_frame option"
  ra_running :: bool
  ra_sent :: "nat \<Rightarrow> bytes list"
  ra_log :: "(nat \<times> routed_frame) list"
  ra_consumed :: "routed_frame list"

definition router_actor_new :: "nat \<Rightarrow> nat \<Rightarrow> router_sys" where
  "router_actor_new ctrl_capacity out_capacity = \<lparr>ra_ctrl = channel ctrl_capacity, ra_ctrl_open = True, ra_feeds = [], ra_handles = [],
     ra_internal = channel 512, ra_out = channel out_capacity, ra_held = None, ra_running = True, ra_sent = (\<lambda>_. []), ra_log = [],
     ra_consumed = []\<rparr>"

definition set_feed :: "nat \<Rightarrow> routed_feed \<Rightarrow> router_sys \<Rightarrow> router_sys" where
  "set_feed f fd s = s\<lparr>ra_feeds := (ra_feeds s)[f := fd]\<rparr>"

text \<open>A task that ends drops the receiving end of its feed, with what waits in it.\<close>

definition exit_feed :: "routed_feed \<Rightarrow> routed_feed" where
  "exit_feed fd = fd\<lparr>fd_task := Exited, fd_chan := (fd_chan fd)\<lparr>mp_items := [], mp_receiver := False\<rparr>\<rparr>"

section \<open>The forwarding tasks\<close>

definition forward_turn :: "nat \<Rightarrow> router_sys \<Rightarrow> router_sys" where
  "forward_turn f s =
     (if f \<ge> length (ra_feeds s) then s
      else (let fd = ra_feeds s ! f in case fd_task fd of
          Receiving \<Rightarrow> (case mp_items (fd_chan fd) of
              [] \<Rightarrow> if fd_senders fd then s else set_feed f (exit_feed fd) s
            | payload # rest \<Rightarrow> set_feed f (fd\<lparr>fd_task := Forwarding payload, fd_chan := (fd_chan fd)\<lparr>mp_items := rest\<rparr>\<rparr>) s)
        | Forwarding payload \<Rightarrow>
            (let frame = \<lparr>ro_source_id = fd_source fd, ro_payload = payload\<rparr> in
             if \<not> mp_receiver (ra_internal s) then set_feed f (exit_feed fd) s
             else case try_send frame (ra_internal s) of
                None \<Rightarrow> s
              | Some q \<Rightarrow> set_feed f (fd\<lparr>fd_task := Receiving\<rparr>) (s\<lparr>ra_internal := q, ra_log := ra_log s @ [(f, frame)]\<rparr>))
        | _ \<Rightarrow> s))"

text \<open>A task that was aborted stops where it next waits.\<close>

definition cancel_turn :: "nat \<Rightarrow> router_sys \<Rightarrow> router_sys" where
  "cancel_turn f s =
     (if f < length (ra_feeds s) \<and> fd_abort (ra_feeds s ! f) \<and> fd_task (ra_feeds s ! f) \<noteq> NotStarted then set_feed f (exit_feed (ra_feeds s ! f)) s else s)"

section \<open>The router\<close>

text \<open>Returning drops both ends it owns and the control channel, with the feeds that wait in it.\<close>

definition actor_end :: "router_sys \<Rightarrow> router_sys" where
  "actor_end s = s\<lparr>ra_running := False, ra_held := None, ra_internal := (ra_internal s)\<lparr>mp_items := [], mp_receiver := False\<rparr>,
     ra_handles := [], ra_ctrl := (ra_ctrl s)\<lparr>mp_items := [], mp_receiver := False\<rparr>,
     ra_feeds := map (\<lambda>fd. if fd_task fd = NotStarted then exit_feed fd else fd) (ra_feeds s)\<rparr>"

definition actor_ctrl :: "router_sys \<Rightarrow> router_sys" where
  "actor_ctrl s =
     (if \<not> ra_running s \<or> ra_held s \<noteq> None then s
      else case mp_items (ra_ctrl s) of
        [] \<Rightarrow> s
      | msg # rest \<Rightarrow>
          (let s = s\<lparr>ra_ctrl := (ra_ctrl s)\<lparr>mp_items := rest\<rparr>\<rparr> in
           case msg of
             AddFeed source_id f \<Rightarrow>
               (set_feed f ((ra_feeds s ! f)\<lparr>fd_task := Receiving\<rparr>) s)\<lparr>ra_handles := AList.update source_id f (ra_handles s)\<rparr>
           | RemoveFeed source_id \<Rightarrow> (case map_of (ra_handles s) source_id of
                 None \<Rightarrow> s
               | Some f \<Rightarrow> (set_feed f ((ra_feeds s ! f)\<lparr>fd_abort := True\<rparr>) s)\<lparr>ra_handles := AList.delete source_id (ra_handles s)\<rparr>)))"

definition actor_frame :: "router_sys \<Rightarrow> router_sys" where
  "actor_frame s =
     (if \<not> ra_running s \<or> ra_held s \<noteq> None then s
      else case mp_items (ra_internal s) of
        [] \<Rightarrow> s
      | frame # rest \<Rightarrow> s\<lparr>ra_held := Some frame, ra_internal := (ra_internal s)\<lparr>mp_items := rest\<rparr>\<rparr>)"

definition actor_send :: "router_sys \<Rightarrow> router_sys" where
  "actor_send s = (case ra_held s of
      None \<Rightarrow> s
    | Some frame \<Rightarrow>
        if \<not> mp_receiver (ra_out s) then actor_end s
        else case try_send frame (ra_out s) of None \<Rightarrow> s | Some q \<Rightarrow> s\<lparr>ra_out := q, ra_held := None\<rparr>)"

text \<open>The branch \<^verbatim>\<open>else => break\<close>: both channels are closed. The internal one has a sender in the router and one in each task.\<close>

definition internal_senders :: "router_sys \<Rightarrow> nat" where
  "internal_senders s = (if ra_running s then 1 else 0) +
     length (filter (\<lambda>fd. fd_task fd \<noteq> NotStarted \<and> fd_task fd \<noteq> Exited) (ra_feeds s))"

definition actor_else :: "router_sys \<Rightarrow> router_sys" where
  "actor_else s =
     (if ra_running s \<and> ra_held s = None \<and> mp_items (ra_ctrl s) = [] \<and> \<not> ra_ctrl_open s \<and>
         mp_items (ra_internal s) = [] \<and> internal_senders s = 0
      then actor_end s else s)"

section \<open>Callers and consumer\<close>

datatype actor_event =
    NewFeed u32 nat | DropFeed u32 | CloseCtrl | Feed nat bytes | CloseFeed nat | ForwardTurn nat | CancelTurn nat
  | RouterCtrl | RouterFrame | RouterSend | RouterElse | Consume | CloseOut

fun actor_step :: "actor_event \<Rightarrow> router_sys \<Rightarrow> router_sys" where
  "actor_step (NewFeed source_id capacity) s =
     (if \<not> ra_ctrl_open s then s
      else case try_send (AddFeed source_id (length (ra_feeds s))) (ra_ctrl s) of
        None \<Rightarrow> s
      | Some q \<Rightarrow> s\<lparr>ra_ctrl := q, ra_feeds := ra_feeds s @ [\<lparr>fd_source = source_id, fd_chan = channel capacity, fd_senders = True,
          fd_task = NotStarted, fd_abort = False\<rparr>]\<rparr>)"
| "actor_step (DropFeed source_id) s =
     (if \<not> ra_ctrl_open s then s
      else case try_send (RemoveFeed source_id) (ra_ctrl s) of None \<Rightarrow> s | Some q \<Rightarrow> s\<lparr>ra_ctrl := q\<rparr>)"
| "actor_step CloseCtrl s = s\<lparr>ra_ctrl_open := False\<rparr>"
| "actor_step (Feed f payload) s =
     (if f \<ge> length (ra_feeds s) \<or> \<not> fd_senders (ra_feeds s ! f) then s
      else case try_send payload (fd_chan (ra_feeds s ! f)) of
        None \<Rightarrow> s
      | Some q \<Rightarrow> set_feed f ((ra_feeds s ! f)\<lparr>fd_chan := q\<rparr>) (s\<lparr>ra_sent := (ra_sent s)(f := ra_sent s f @ [payload])\<rparr>))"
| "actor_step (CloseFeed f) s = (if f < length (ra_feeds s) then set_feed f ((ra_feeds s ! f)\<lparr>fd_senders := False\<rparr>) s else s)"
| "actor_step (ForwardTurn f) s = forward_turn f s"
| "actor_step (CancelTurn f) s = cancel_turn f s"
| "actor_step RouterCtrl s = actor_ctrl s"
| "actor_step RouterFrame s = actor_frame s"
| "actor_step RouterSend s = actor_send s"
| "actor_step RouterElse s = actor_else s"
| "actor_step Consume s = (case mp_items (ra_out s) of
      [] \<Rightarrow> s
    | frame # rest \<Rightarrow> s\<lparr>ra_out := (ra_out s)\<lparr>mp_items := rest\<rparr>, ra_consumed := ra_consumed s @ [frame]\<rparr>)"
| "actor_step CloseOut s = s\<lparr>ra_out := (ra_out s)\<lparr>mp_items := [], mp_receiver := False\<rparr>\<rparr>"

end
