(* ===== verification/Router_Actor_Correct.thy ===== *)
theory Router_Actor_Correct imports Router_Actor begin

text \<open>What the router of \<^verbatim>\<open>router_tagged_frame.rs\<close> guarantees: order and completeness of every feed, and when it ends.\<close>

definition forwarded :: "nat \<Rightarrow> router_sys \<Rightarrow> bytes list" where
  "forwarded f s = map (ro_payload \<circ> snd) (filter (\<lambda>e. fst e = f) (ra_log s))"

fun in_task :: "feed_task \<Rightarrow> bytes list" where
  "in_task (Forwarding payload) = [payload]"
| "in_task _ = []"

definition feed_ok :: "router_sys \<Rightarrow> nat \<Rightarrow> bool" where
  "feed_ok s f \<longleftrightarrow> (let fd = ra_feeds s ! f in prefix (forwarded f s) (ra_sent s f) \<and>
     (fd_task fd \<noteq> Exited \<longrightarrow> ra_sent s f = forwarded f s @ in_task (fd_task fd) @ mp_items (fd_chan fd)) \<and>
     (\<forall>e \<in> set (ra_log s). fst e = f \<longrightarrow> ro_source_id (snd e) = fd_source fd) \<and>
     (fd_task fd = Exited \<longrightarrow> \<not> mp_receiver (fd_chan fd)))"

definition feeds_inv :: "router_sys \<Rightarrow> bool" where
  "feeds_inv s \<longleftrightarrow> (\<forall>f < length (ra_feeds s). feed_ok s f) \<and> (\<forall>f \<ge> length (ra_feeds s). ra_sent s f = []) \<and>
     (\<forall>e \<in> set (ra_log s). fst e < length (ra_feeds s))"

definition added_feeds :: "router_msg list \<Rightarrow> nat list" where
  "added_feeds msgs = concat (map (\<lambda>m. case m of AddFeed _ f \<Rightarrow> [f] | _ \<Rightarrow> []) msgs)"

definition actor_ctrl_inv :: "router_sys \<Rightarrow> bool" where
  "actor_ctrl_inv s \<longleftrightarrow> distinct (added_feeds (mp_items (ra_ctrl s))) \<and>
     (\<forall>f \<in> set (added_feeds (mp_items (ra_ctrl s))). f < length (ra_feeds s) \<and> fd_task (ra_feeds s ! f) = NotStarted) \<and>
     (\<forall>(src, f) \<in> set (ra_handles s). f < length (ra_feeds s) \<and> fd_task (ra_feeds s ! f) \<noteq> NotStarted) \<and>
     (\<not> ra_running s \<longrightarrow> \<not> mp_receiver (ra_ctrl s) \<and> mp_items (ra_ctrl s) = [])"

definition delivery_inv :: "nat \<Rightarrow> router_sys \<Rightarrow> bool" where
  "delivery_inv bound s \<longleftrightarrow> prefix (ra_consumed s) (map snd (ra_log s)) \<and>
     (mp_receiver (ra_out s) \<longrightarrow> map snd (ra_log s) =
        ra_consumed s @ mp_items (ra_out s) @ (case ra_held s of None \<Rightarrow> [] | Some fr \<Rightarrow> [fr]) @ mp_items (ra_internal s)) \<and>
     (ra_running s \<or> \<not> mp_receiver (ra_out s)) \<and> (ra_running s = mp_receiver (ra_internal s)) \<and>
     (\<not> ra_running s \<longrightarrow> ra_held s = None) \<and> (\<not> mp_receiver (ra_out s) \<longrightarrow> mp_items (ra_out s) = []) \<and>
     mp_capacity (ra_internal s) = 512 \<and> length (mp_items (ra_internal s)) \<le> 512 \<and>
     mp_capacity (ra_out s) = bound \<and> length (mp_items (ra_out s)) \<le> bound"

lemma set_feed_sel [simp]:
  "ra_ctrl (set_feed f fd s) = ra_ctrl s" "ra_ctrl_open (set_feed f fd s) = ra_ctrl_open s" "ra_handles (set_feed f fd s) = ra_handles s"
  "ra_internal (set_feed f fd s) = ra_internal s" "ra_out (set_feed f fd s) = ra_out s" "ra_held (set_feed f fd s) = ra_held s"
  "ra_running (set_feed f fd s) = ra_running s" "ra_sent (set_feed f fd s) = ra_sent s" "ra_log (set_feed f fd s) = ra_log s"
  "ra_consumed (set_feed f fd s) = ra_consumed s" "length (ra_feeds (set_feed f fd s)) = length (ra_feeds s)"
  by (simp_all add: set_feed_def)

lemma set_feed_nth [simp]: "ra_feeds (set_feed f fd s) ! g = (if g = f \<and> f < length (ra_feeds s) then fd else ra_feeds s ! g)"
  by (cases "f < length (ra_feeds s)") (auto simp: set_feed_def nth_list_update list_update_beyond not_less)

lemma update_subset: "set (AList.update k v xs) \<subseteq> insert (k, v) (set xs)"
  by (induction xs) auto

lemma forwarded_cong: "ra_log t = ra_log s \<Longrightarrow> forwarded f t = forwarded f s"
  by (simp add: forwarded_def)

lemma try_send_Some: "try_send x c = Some c' \<longleftrightarrow> mp_receiver c \<and> length (mp_items c) < mp_capacity c \<and> c' = c\<lparr>mp_items := mp_items c @ [x]\<rparr>"
  by (auto simp: try_send_def)

lemma internal_senders_running: "ra_running s \<Longrightarrow> internal_senders s \<noteq> 0"
  by (simp add: internal_senders_def)

lemma actor_else_never [simp]: "actor_else s = s"
  using internal_senders_running [of s] by (auto simp: actor_else_def)

section \<open>Delivery\<close>

lemma actor_end_delivery: "delivery_inv bound s \<Longrightarrow> \<not> mp_receiver (ra_out s) \<Longrightarrow> delivery_inv bound (actor_end s)"
  by (auto simp: delivery_inv_def actor_end_def)

lemma delivery_step: "delivery_inv bound s \<Longrightarrow> delivery_inv bound (actor_step e s)"
proof (cases e)
  case RouterSend
  assume inv: "delivery_inv bound s"
  show ?thesis
  proof (cases "ra_held s")
    case None
    then show ?thesis using RouterSend inv by (simp add: actor_send_def)
  next
    case (Some fr)
    show ?thesis
    proof (cases "mp_receiver (ra_out s)")
      case False
      then show ?thesis using RouterSend Some actor_end_delivery [OF inv] by (simp add: actor_send_def)
    next
      case True
      show ?thesis
      proof (cases "try_send fr (ra_out s)")
        case None
        then show ?thesis using RouterSend Some True inv by (simp add: actor_send_def)
      next
        case q: (Some q)
        have "actor_step e s = s\<lparr>ra_out := q, ra_held := None\<rparr>" using RouterSend Some True q by (simp add: actor_send_def)
        then show ?thesis using q Some inv by (auto simp: try_send_Some delivery_inv_def)
      qed
    qed
  qed
next
  case (ForwardTurn f)
  assume "delivery_inv bound s"
  then show ?thesis using ForwardTurn
    by (auto simp: forward_turn_def Let_def delivery_inv_def try_send_Some split: feed_task.split list.split option.split)
next
  case RouterFrame
  assume "delivery_inv bound s"
  then show ?thesis using RouterFrame by (auto simp: actor_frame_def delivery_inv_def split: list.split)
next
  case Consume
  assume "delivery_inv bound s"
  then show ?thesis using Consume by (auto simp: delivery_inv_def split: list.split)
qed (auto simp: delivery_inv_def cancel_turn_def actor_ctrl_def Let_def split: list.split option.split router_msg.split)

section \<open>The control channel\<close>

lemma added_feeds_simps [simp]:
  "added_feeds [] = []" "added_feeds (AddFeed src f # ms) = f # added_feeds ms" "added_feeds (RemoveFeed src # ms) = added_feeds ms"
  "added_feeds (ms @ ns) = added_feeds ms @ added_feeds ns"
  by (simp_all add: added_feeds_def)

lemma ctrl_step: "actor_ctrl_inv s \<Longrightarrow> actor_ctrl_inv (actor_step e s)"
proof (cases e)
  case RouterCtrl
  assume inv: "actor_ctrl_inv s"
  show ?thesis
  proof (cases "\<not> ra_running s \<or> ra_held s \<noteq> None \<or> mp_items (ra_ctrl s) = []")
    case True
    then show ?thesis using RouterCtrl inv by (auto simp: actor_ctrl_def)
  next
    case False
    then obtain msg rest where m: "mp_items (ra_ctrl s) = msg # rest" by (cases "mp_items (ra_ctrl s)") auto
    show ?thesis
    proof (cases msg)
      case (AddFeed src f)
      have f: "f < length (ra_feeds s)" "f \<notin> set (added_feeds rest)" using inv m AddFeed by (auto simp: actor_ctrl_inv_def)
      let ?t = "(set_feed f ((ra_feeds s ! f)\<lparr>fd_task := Receiving\<rparr>) (s\<lparr>ra_ctrl := (ra_ctrl s)\<lparr>mp_items := rest\<rparr>\<rparr>))
        \<lparr>ra_handles := AList.update src f (ra_handles s)\<rparr>"
      have t: "actor_step e s = ?t" using RouterCtrl False m AddFeed by (simp add: actor_ctrl_def Let_def set_feed_def)
      have "g < length (ra_feeds s) \<and> (g \<noteq> f \<longrightarrow> fd_task (ra_feeds s ! g) \<noteq> NotStarted)" if "(k, g) \<in> set (AList.update src f (ra_handles s))" for k g
      proof (cases "g = f")
        case False
        then have "(k, g) \<in> set (ra_handles s)" using that update_subset [of src f "ra_handles s"] by auto
        then show ?thesis using inv False by (auto simp: actor_ctrl_inv_def)
      qed (use f in simp)
      then have handles: "\<forall>(k, g) \<in> set (AList.update src f (ra_handles s)). g < length (ra_feeds s) \<and> fd_task (ra_feeds ?t ! g) \<noteq> NotStarted"
        using f(1) by auto
      have ctrl: "distinct (added_feeds rest)"
        "\<forall>g \<in> set (added_feeds rest). g < length (ra_feeds s) \<and> fd_task (ra_feeds s ! g) = NotStarted \<and> g \<noteq> f"
        using inv f(2) m AddFeed by (auto simp: actor_ctrl_inv_def)
      define u where "u = ?t"
      have u: "mp_items (ra_ctrl u) = rest" "ra_running u" "length (ra_feeds u) = length (ra_feeds s)"
        "ra_handles u = AList.update src f (ra_handles s)" "\<And>g. g \<noteq> f \<Longrightarrow> ra_feeds u ! g = ra_feeds s ! g"
        using False by (simp_all add: u_def)
      have "\<forall>g \<in> set (added_feeds rest). g < length (ra_feeds u) \<and> fd_task (ra_feeds u ! g) = NotStarted"
        using ctrl(2) u(3,5) by metis
      moreover have "\<forall>(k, g) \<in> set (ra_handles u). g < length (ra_feeds u) \<and> fd_task (ra_feeds u ! g) \<noteq> NotStarted"
        using handles [folded u_def] unfolding u(3) u(4) .
      ultimately have "actor_ctrl_inv u" unfolding actor_ctrl_inv_def u(1) using ctrl(1) u(2) by blast
      then show ?thesis unfolding t u_def .
    next
      case (RemoveFeed src)
      have sub: "set (ra_handles (actor_ctrl s)) \<subseteq> set (ra_handles s)" "mp_items (ra_ctrl (actor_ctrl s)) = rest"
        "ra_running (actor_ctrl s)" "length (ra_feeds (actor_ctrl s)) = length (ra_feeds s)"
        using False m RemoveFeed by (auto simp: actor_ctrl_def Let_def AList.delete_eq split: option.split)
      have task: "fd_task (ra_feeds (actor_ctrl s) ! g) = fd_task (ra_feeds s ! g)" for g
        using False m RemoveFeed by (auto simp: actor_ctrl_def Let_def split: option.split)
      have "added_feeds (mp_items (ra_ctrl s)) = added_feeds rest" using m RemoveFeed by simp
      then have "actor_ctrl_inv (actor_ctrl s)" using inv sub unfolding actor_ctrl_inv_def task sub(2) sub(4) by auto
      then show ?thesis using RouterCtrl by simp
    qed
  qed
next
  case (NewFeed src cap)
  assume "actor_ctrl_inv s"
  then show ?thesis using NewFeed
    by (fastforce simp: actor_ctrl_inv_def try_send_Some nth_append split: option.split)
next
  case (DropFeed src)
  assume "actor_ctrl_inv s"
  then show ?thesis using DropFeed
    by (auto simp: actor_ctrl_inv_def try_send_Some split: option.split)
next
  case (ForwardTurn f)
  assume "actor_ctrl_inv s"
  then show ?thesis using ForwardTurn
    by (auto simp: forward_turn_def Let_def actor_ctrl_inv_def exit_feed_def split: feed_task.split list.split option.split)
next
  case RouterSend
  assume "actor_ctrl_inv s"
  then show ?thesis using RouterSend
    by (auto simp: actor_send_def actor_end_def actor_ctrl_inv_def split: option.split)
next
  case (Feed f payload)
  assume "actor_ctrl_inv s"
  then show ?thesis using Feed by (auto simp: actor_ctrl_inv_def split: option.split)
next
  case (CancelTurn f)
  assume "actor_ctrl_inv s"
  then show ?thesis using CancelTurn by (auto simp: actor_ctrl_inv_def cancel_turn_def exit_feed_def)
qed (auto simp: actor_ctrl_inv_def actor_frame_def Let_def split: list.split option.split)

section \<open>The feeds\<close>

lemma feed_ok_same:
  "feed_ok s f \<Longrightarrow> ra_log t = ra_log s \<Longrightarrow> ra_sent t f = ra_sent s f \<Longrightarrow> ra_feeds t ! f = ra_feeds s ! f \<Longrightarrow> feed_ok t f"
  by (simp add: feed_ok_def forwarded_def)

lemma feeds_inv_set:
  assumes inv: "feeds_inv s" and f: "f < length (ra_feeds s)"
    and t: "length (ra_feeds t) = length (ra_feeds s)" "ra_log t = ra_log s"
      "\<And>g. g \<noteq> f \<Longrightarrow> ra_feeds t ! g = ra_feeds s ! g \<and> ra_sent t g = ra_sent s g"
    and ok: "feed_ok t f"
  shows "feeds_inv t"
proof -
  have "feed_ok t g" if "g < length (ra_feeds s)" for g
    using that ok inv t feed_ok_same [of s g t] by (cases "g = f") (auto simp: feeds_inv_def)
  then show ?thesis using inv t f by (auto simp: feeds_inv_def)
qed

lemma feeds_inv_same:
  "feeds_inv s \<Longrightarrow> ra_feeds t = ra_feeds s \<Longrightarrow> ra_sent t = ra_sent s \<Longrightarrow> ra_log t = ra_log s \<Longrightarrow> feeds_inv t"
  by (auto simp: feeds_inv_def feed_ok_def forwarded_def)

lemma feeds_inv_end: "feeds_inv s \<Longrightarrow> feeds_inv (actor_end s)"
  by (auto simp: feeds_inv_def feed_ok_def forwarded_def actor_end_def exit_feed_def Let_def)

lemma exit_feed_ok: "feed_ok s f \<Longrightarrow> f < length (ra_feeds s) \<Longrightarrow> feed_ok (set_feed f (exit_feed (ra_feeds s ! f)) s) f"
  by (auto simp: feed_ok_def forwarded_def exit_feed_def Let_def)

lemma forward_feeds: "feeds_inv s \<Longrightarrow> feeds_inv (forward_turn f s)"
proof -
  assume inv: "feeds_inv s"
  show ?thesis
  proof (cases "f < length (ra_feeds s)")
    case f: True
    let ?fd = "ra_feeds s ! f"
    have ok: "feed_ok s f" using inv f by (simp add: feeds_inv_def)
    have set: "feeds_inv (set_feed f fd s)" if "feed_ok (set_feed f fd s) f" for fd
      by (rule feeds_inv_set [OF inv f _ _ _ that]) simp_all
    have ex: "feeds_inv (set_feed f (exit_feed ?fd) s)" by (rule set [OF exit_feed_ok [OF ok f]])
    show ?thesis
    proof (cases "fd_task ?fd")
      case Receiving
      show ?thesis
      proof (cases "mp_items (fd_chan ?fd)")
        case Nil
        then show ?thesis using inv ex f Receiving by (simp add: forward_turn_def Let_def)
      next
        case (Cons p rest)
        have "feed_ok (set_feed f (?fd\<lparr>fd_task := Forwarding p, fd_chan := (fd_chan ?fd)\<lparr>mp_items := rest\<rparr>\<rparr>) s) f"
          using ok f Receiving Cons by (simp add: feed_ok_def forwarded_def Let_def)
        from set [OF this] show ?thesis using f Receiving Cons by (simp add: forward_turn_def Let_def)
      qed
    next
      case (Forwarding p)
      let ?fr = "\<lparr>ro_source_id = fd_source ?fd, ro_payload = p\<rparr>"
      show ?thesis
      proof (cases "mp_receiver (ra_internal s)")
        case False
        then show ?thesis using ex f Forwarding by (simp add: forward_turn_def Let_def)
      next
        case True
        show ?thesis
        proof (cases "try_send ?fr (ra_internal s)")
          case None
          then show ?thesis using inv f Forwarding True by (simp add: forward_turn_def Let_def)
        next
          case (Some q)
          let ?t = "set_feed f (?fd\<lparr>fd_task := Receiving\<rparr>) (s\<lparr>ra_internal := q, ra_log := ra_log s @ [(f, ?fr)]\<rparr>)"
          have "feed_ok ?t g" if "g < length (ra_feeds s)" for g
            using inv ok Forwarding that by (cases "g = f") (auto simp: feeds_inv_def feed_ok_def forwarded_def Let_def)
          then have "feeds_inv ?t" using inv f by (auto simp: feeds_inv_def)
          then show ?thesis using f Forwarding True Some by (simp add: forward_turn_def Let_def)
        qed
      qed
    qed (use inv f in \<open>simp_all add: forward_turn_def Let_def\<close>)
  qed (use inv in \<open>simp add: forward_turn_def\<close>)
qed

lemma ctrl_feeds:
  assumes inv: "feeds_inv s" and ctrl: "actor_ctrl_inv s"
  shows "feeds_inv (actor_ctrl s)"
proof (cases "\<not> ra_running s \<or> ra_held s \<noteq> None \<or> mp_items (ra_ctrl s) = []")
  case True
  then show ?thesis using inv by (auto simp: actor_ctrl_def)
next
  case False
  then obtain msg rest where m: "mp_items (ra_ctrl s) = msg # rest" by (cases "mp_items (ra_ctrl s)") auto
  let ?s = "s\<lparr>ra_ctrl := (ra_ctrl s)\<lparr>mp_items := rest\<rparr>\<rparr>"
  have s: "feeds_inv ?s" by (rule feeds_inv_same [OF inv]) simp_all
  have put: "feeds_inv (set_feed f fd ?s)"
    if "f < length (ra_feeds s)" "feed_ok (set_feed f fd ?s) f" for f fd
    by (rule feeds_inv_set [OF s _ _ _ _ that(2)]) (use that(1) in simp_all)
  have drop: "feeds_inv (u\<lparr>ra_handles := h\<rparr>)" if "feeds_inv u" for u h
    by (rule feeds_inv_same [OF that]) simp_all
  show ?thesis
  proof (cases msg)
    case (AddFeed src f)
    have f: "f < length (ra_feeds s)" "fd_task (ra_feeds s ! f) = NotStarted" using ctrl m AddFeed by (auto simp: actor_ctrl_inv_def)
    have "feed_ok s f" using inv f(1) by (simp add: feeds_inv_def)
    then have "feed_ok (set_feed f ((ra_feeds s ! f)\<lparr>fd_task := Receiving\<rparr>) ?s) f"
      using f by (simp add: feed_ok_def forwarded_def Let_def)
    from drop [OF put [OF f(1) this]] show ?thesis using False m AddFeed by (simp add: actor_ctrl_def Let_def)
  next
    case (RemoveFeed src)
    show ?thesis
    proof (cases "map_of (ra_handles s) src")
      case None
      then show ?thesis using False m RemoveFeed s by (simp add: actor_ctrl_def Let_def)
    next
      case (Some f)
      have f: "f < length (ra_feeds s)" using ctrl map_of_SomeD [OF Some] by (auto simp: actor_ctrl_inv_def)
      have "feed_ok s f" using inv f by (simp add: feeds_inv_def)
      then have "feed_ok (set_feed f ((ra_feeds s ! f)\<lparr>fd_abort := True\<rparr>) ?s) f"
        using f by (simp add: feed_ok_def forwarded_def Let_def)
      from drop [OF put [OF f this]] show ?thesis using False m RemoveFeed Some by (simp add: actor_ctrl_def Let_def)
    qed
  qed
qed

lemma new_feed_feeds:
  assumes inv: "feeds_inv s" and t: "ra_feeds t = ra_feeds s @ [fd]" "ra_sent t = ra_sent s" "ra_log t = ra_log s"
    and fd: "fd_task fd = NotStarted" "mp_items (fd_chan fd) = []"
  shows "feeds_inv t"
proof -
  let ?n = "length (ra_feeds s)"
  have "ra_sent s ?n = []" "forwarded ?n s = []" "\<forall>e \<in> set (ra_log s). fst e \<noteq> ?n"
    using inv by (auto simp: feeds_inv_def forwarded_def filter_empty_conv)
  then have "feed_ok t ?n" using t fd by (simp add: feed_ok_def forwarded_def Let_def)
  moreover have "feed_ok t g" if "g < ?n" for g
    by (rule feed_ok_same [of s]) (use inv t that in \<open>auto simp: feeds_inv_def nth_append\<close>)
  ultimately show ?thesis using inv t by (auto simp: feeds_inv_def less_Suc_eq)
qed

lemma feeds_step: "feeds_inv s \<Longrightarrow> actor_ctrl_inv s \<Longrightarrow> feeds_inv (actor_step e s)"
proof (cases e)
  case (NewFeed src cap)
  assume inv: "feeds_inv s"
  show ?thesis
  proof (cases "ra_ctrl_open s \<and> try_send (AddFeed src (length (ra_feeds s))) (ra_ctrl s) \<noteq> None")
    case True
    then obtain q where "try_send (AddFeed src (length (ra_feeds s))) (ra_ctrl s) = Some q" by auto
    then show ?thesis using True NewFeed by (intro new_feed_feeds [OF inv]) (auto simp: channel_def)
  next
    case False
    then show ?thesis using NewFeed inv by auto
  qed
next
  case (Feed f payload)
  assume inv: "feeds_inv s"
  show ?thesis
  proof (cases "f < length (ra_feeds s) \<and> fd_senders (ra_feeds s ! f) \<and> try_send payload (fd_chan (ra_feeds s ! f)) \<noteq> None")
    case True
    then obtain q where q: "try_send payload (fd_chan (ra_feeds s ! f)) = Some q" by auto
    let ?t = "set_feed f ((ra_feeds s ! f)\<lparr>fd_chan := q\<rparr>) (s\<lparr>ra_sent := (ra_sent s)(f := ra_sent s f @ [payload])\<rparr>)"
    have "feed_ok s f" using inv True by (simp add: feeds_inv_def)
    then have "feed_ok ?t f" using q True by (auto simp: feed_ok_def forwarded_def try_send_Some Let_def)
    then have "feeds_inv ?t" using True by (intro feeds_inv_set [OF inv]) auto
    then show ?thesis using Feed True q by simp
  next
    case False
    then show ?thesis using Feed inv by (auto split: option.split)
  qed
next
  case (CloseFeed f)
  assume inv: "feeds_inv s"
  show ?thesis
  proof (cases "f < length (ra_feeds s)")
    case True
    then have "feed_ok s f" using inv by (simp add: feeds_inv_def)
    then have "feed_ok (set_feed f ((ra_feeds s ! f)\<lparr>fd_senders := False\<rparr>) s) f"
      using True by (simp add: feed_ok_def forwarded_def Let_def)
    then have "feeds_inv (set_feed f ((ra_feeds s ! f)\<lparr>fd_senders := False\<rparr>) s)"
      using True by (intro feeds_inv_set [OF inv]) auto
    then show ?thesis using CloseFeed True by simp
  qed (use CloseFeed inv in simp)
next
  case (CancelTurn f)
  assume inv: "feeds_inv s"
  show ?thesis
  proof (cases "f < length (ra_feeds s)")
    case True
    then have "feed_ok s f" using inv by (simp add: feeds_inv_def)
    then have "feeds_inv (set_feed f (exit_feed (ra_feeds s ! f)) s)"
      using True exit_feed_ok [of s f] by (intro feeds_inv_set [OF inv]) auto
    then show ?thesis using CancelTurn True inv by (simp add: cancel_turn_def)
  qed (use CancelTurn inv in \<open>simp add: cancel_turn_def\<close>)
next
  case (ForwardTurn f)
  assume "feeds_inv s"
  then show ?thesis using ForwardTurn forward_feeds by simp
next
  case RouterCtrl
  assume "feeds_inv s" "actor_ctrl_inv s"
  then show ?thesis using RouterCtrl ctrl_feeds by simp
next
  case RouterSend
  assume inv: "feeds_inv s"
  have "feeds_inv (s\<lparr>ra_out := q, ra_held := None\<rparr>)" for q by (rule feeds_inv_same [OF inv]) simp_all
  then show ?thesis using RouterSend inv feeds_inv_end [OF inv] by (simp add: actor_send_def split: option.split)
next
  case RouterFrame
  assume inv: "feeds_inv s"
  then show ?thesis using RouterFrame by (auto simp: actor_frame_def split: list.split intro: feeds_inv_same)
qed (auto split: option.split list.split intro: feeds_inv_same)

section \<open>Every sequence of events\<close>

lemma router_actor_inv:
  "let s = fold actor_step es (router_actor_new ctrl_capacity out_capacity) in delivery_inv out_capacity s \<and> actor_ctrl_inv s \<and> feeds_inv s"
proof -
  have "delivery_inv out_capacity (fold actor_step es s) \<and> actor_ctrl_inv (fold actor_step es s) \<and> feeds_inv (fold actor_step es s)"
    if "delivery_inv out_capacity s" "actor_ctrl_inv s" "feeds_inv s" for s
    using that
  proof (induction es arbitrary: s)
    case (Cons e es)
    then show ?case using delivery_step ctrl_step feeds_step by simp
  qed simp
  moreover have "delivery_inv out_capacity (router_actor_new ctrl_capacity out_capacity)"
    "actor_ctrl_inv (router_actor_new ctrl_capacity out_capacity)" "feeds_inv (router_actor_new ctrl_capacity out_capacity)"
    by (simp_all add: delivery_inv_def actor_ctrl_inv_def feeds_inv_def router_actor_new_def channel_def)
  ultimately show ?thesis by (simp add: Let_def)
qed

lemma router_actor_delivery:
  fixes es :: "actor_event list" and ctrl_capacity out_capacity :: nat
  defines "s \<equiv> fold actor_step es (router_actor_new ctrl_capacity out_capacity)"
  shows "delivery_inv out_capacity s" "actor_ctrl_inv s" "feeds_inv s"
  using router_actor_inv [of es ctrl_capacity out_capacity] by (simp_all add: s_def Let_def)

text \<open>C35: Whatever the callers, the forwarding tasks, the consumer and the router do, in any order: of every feed the frames that
  were forwarded are the first ones it took, in their order and tagged with its source, and none is missing between what was
  forwarded, what its task holds and what its channel holds while the task lives; while the consumer keeps its end, what
  arrived and what waits in the two channels and in the router is exactly what was forwarded; the bounds of both channels
  hold; and the router ends only when the consumer closed its end, never through its branch \<^verbatim>\<open>else\<close>.\<close>

theorem router_actor_delivers:
  "let s = fold actor_step es (router_actor_new ctrl_capacity out_capacity) in
   list_all (feed_ok s) [0..<length (ra_feeds s)] \<and>
   prefix (ra_consumed s) (map snd (ra_log s)) \<and>
   (if mp_receiver (ra_out s)
    then ra_running s \<and> map snd (ra_log s) =
      ra_consumed s @ mp_items (ra_out s) @ (case ra_held s of None \<Rightarrow> [] | Some frame \<Rightarrow> [frame]) @ mp_items (ra_internal s)
    else mp_items (ra_out s) = []) \<and>
   length (mp_items (ra_internal s)) \<le> 512 \<and> length (mp_items (ra_out s)) \<le> out_capacity \<and> actor_step RouterElse s = s"
proof -
  define s where "s = fold actor_step es (router_actor_new ctrl_capacity out_capacity)"
  have inv: "delivery_inv out_capacity s" "feeds_inv s" unfolding s_def by (fact router_actor_delivery)+
  have "list_all (feed_ok s) [0..<length (ra_feeds s)]" using inv(2) by (simp add: feeds_inv_def list_all_iff)
  then show ?thesis unfolding s_def [symmetric] Let_def using inv(1) by (auto simp: delivery_inv_def)
qed

text \<open>Adding a source again replaces the handle of its first task, which nothing can abort any more: after the source was removed
  the first feed is still delivered.\<close>

lemma readded_source_keeps_forwarding:
  "map ro_payload (ra_consumed (fold actor_step
     [NewFeed 7 4, RouterCtrl, NewFeed 7 4, RouterCtrl, DropFeed 7, RouterCtrl, CancelTurn 0, CancelTurn 1,
      Feed 0 [1], Feed 1 [2], ForwardTurn 0, ForwardTurn 1, ForwardTurn 0, ForwardTurn 1, RouterFrame, RouterSend, Consume]
     (router_actor_new 8 8))) = [[1]]"
  by code_simp

end
