(* ===== verification/Shared_Tables.thy ===== *)
theory Shared_Tables imports Prelude begin

text \<open>
  The small structures that threads share: \<^verbatim>\<open>module2/part2/session_table.rs\<close>, \<^verbatim>\<open>module2/part3/pipeline_metrics.rs\<close> and
  \<^verbatim>\<open>module6/part3/counting_alloc.rs\<close>. A call is the list of its atomic operations, and a schedule says whose thread does its
  next one. Relaxed operations on one counter are totally ordered, which is all the lemmas on totals use; a value of
  \<^verbatim>\<open>snapshot\<close> taken in between is only claimed at one instant of that order.
\<close>

section \<open>Threads and schedules\<close>

fun scheduled :: "nat list \<Rightarrow> 'op list list \<Rightarrow> 'op list \<times> 'op list list" where
  "scheduled [] threads = ([], threads)"
| "scheduled (i # is) threads =
     (if i < length threads then (case threads ! i of
         [] \<Rightarrow> scheduled is threads
       | op # rest \<Rightarrow> (let (ops, left) = scheduled is (threads[i := rest]) in (op # ops, left)))
      else scheduled is threads)"

lemma mset_concat_update:
  "i < length xss \<Longrightarrow> xss ! i = x # xs \<Longrightarrow> mset (concat xss) = add_mset x (mset (concat (xss[i := xs])))"
proof (induction xss arbitrary: i)
  case (Cons ys xss)
  then show ?case by (cases i) auto
qed simp

text \<open>Whatever the schedule, what was done and what is left is what the threads were given.\<close>

lemma scheduled_mset: "scheduled is threads = (ops, left) \<Longrightarrow> mset ops + mset (concat left) = mset (concat threads)"
proof (induction "is" threads arbitrary: ops left rule: scheduled.induct)
  case (2 i "is" threads)
  show ?case
  proof (cases "i < length threads \<and> threads ! i \<noteq> []")
    case True
    then obtain op rest where h: "threads ! i = op # rest" by (cases "threads ! i") auto
    obtain ops' where "scheduled is (threads[i := rest]) = (ops', left)" "ops = op # ops'"
      using 2(4) True h by (auto split: prod.splits)
    then show ?thesis using 2(2) True h mset_concat_update [of i threads op rest] by simp
  next
    case False
    then show ?thesis using 2(1,3,4) by (auto split: if_splits list.splits)
  qed
qed simp

section \<open>The table of sessions\<close>

text \<open>Both calls take the lock for their whole duration; the closures under it do not panic, so it is never poisoned.\<close>

type_synonym session_table = "u32 \<rightharpoonup> string"

definition session_table_new :: session_table where
  "session_table_new = Map.empty"

definition register_session :: "u32 \<Rightarrow> string \<Rightarrow> session_table \<Rightarrow> string option \<times> session_table" where
  "register_session sid station t = (t sid, t(sid \<mapsto> station))"

definition query_session :: "u32 \<Rightarrow> session_table \<Rightarrow> string option" where
  "query_session sid t = t sid"

text \<open>A query answers the last registration of its session, and a registration the one before.\<close>

fun last_station :: "u32 \<Rightarrow> (u32 \<times> string) list \<Rightarrow> string option" where
  "last_station sid [] = None"
| "last_station sid ((k, station) # regs) =
     (case last_station sid regs of Some later \<Rightarrow> Some later | None \<Rightarrow> if k = sid then Some station else None)"

definition register_all :: "(u32 \<times> string) list \<Rightarrow> session_table \<Rightarrow> session_table" where
  "register_all regs t = fold (\<lambda>(k, station) t. snd (register_session k station t)) regs t"

lemma query_after_registrations:
  "query_session sid (register_all regs t) = (case last_station sid regs of Some station \<Rightarrow> Some station | None \<Rightarrow> query_session sid t)"
proof (induction regs arbitrary: t)
  case (Cons r regs)
  then show ?case
    by (cases r) (auto simp: register_all_def register_session_def query_session_def split: option.splits)
qed (simp add: register_all_def query_session_def)

lemma register_returns_previous:
  "fst (register_session sid station (register_all regs session_table_new)) = last_station sid regs"
  using query_after_registrations [of sid regs session_table_new]
  by (simp add: register_session_def query_session_def session_table_new_def split: option.splits)

section \<open>The metrics of the pipeline\<close>

record pipeline_metrics =
  pm_frames_received :: u64
  pm_frames_dropped :: u64
  pm_bytes_processed :: u64
  pm_shutdown :: bool

definition pipeline_metrics_new :: pipeline_metrics where
  "pipeline_metrics_new = \<lparr>pm_frames_received = 0, pm_frames_dropped = 0, pm_bytes_processed = 0, pm_shutdown = False\<rparr>"

datatype metric_op = AddReceived u64 | AddDropped u64 | AddBytes u64 | StoreShutdown

fun metric_atomic :: "metric_op \<Rightarrow> pipeline_metrics \<Rightarrow> pipeline_metrics" where
  "metric_atomic (AddReceived n) m = m\<lparr>pm_frames_received := pm_frames_received m + n\<rparr>"
| "metric_atomic (AddDropped n) m = m\<lparr>pm_frames_dropped := pm_frames_dropped m + n\<rparr>"
| "metric_atomic (AddBytes n) m = m\<lparr>pm_bytes_processed := pm_bytes_processed m + n\<rparr>"
| "metric_atomic StoreShutdown m = m\<lparr>pm_shutdown := True\<rparr>"

definition metrics_record_frame :: "u64 \<Rightarrow> metric_op list" where
  "metrics_record_frame n = [AddReceived 1, AddBytes n]"

definition metrics_record_drop :: "metric_op list" where
  "metrics_record_drop = [AddDropped 1]"

definition metrics_signal_shutdown :: "metric_op list" where
  "metrics_signal_shutdown = [StoreShutdown]"

definition metrics_should_stop :: "pipeline_metrics \<Rightarrow> bool" where
  "metrics_should_stop m = pm_shutdown m"

definition metrics_snapshot :: "pipeline_metrics \<Rightarrow> u64 \<times> u64 \<times> u64" where
  "metrics_snapshot m = (pm_frames_received m, pm_frames_dropped m, pm_bytes_processed m)"

text \<open>A thread is a list of calls.\<close>

datatype metric_call = RecordFrame u64 | RecordDrop | SignalShutdown

fun metric_program :: "metric_call \<Rightarrow> metric_op list" where
  "metric_program (RecordFrame n) = metrics_record_frame n"
| "metric_program RecordDrop = metrics_record_drop"
| "metric_program SignalShutdown = metrics_signal_shutdown"

lemmas metric_program_defs = metrics_record_frame_def metrics_record_drop_def metrics_signal_shutdown_def

definition op_total :: "(metric_op \<Rightarrow> u64) \<Rightarrow> metric_op list \<Rightarrow> u64" where
  "op_total f ops = sum_list (map f ops)"

lemma metric_fold:
  "let m' = fold metric_atomic ops m in
     pm_frames_received m' = pm_frames_received m + op_total (\<lambda>p. case p of AddReceived n \<Rightarrow> n | _ \<Rightarrow> 0) ops \<and>
     pm_frames_dropped m' = pm_frames_dropped m + op_total (\<lambda>p. case p of AddDropped n \<Rightarrow> n | _ \<Rightarrow> 0) ops \<and>
     pm_bytes_processed m' = pm_bytes_processed m + op_total (\<lambda>p. case p of AddBytes n \<Rightarrow> n | _ \<Rightarrow> 0) ops \<and>
     pm_shutdown m' = (pm_shutdown m \<or> StoreShutdown \<in> set ops)"
proof (induction ops arbitrary: m)
  case (Cons p ops)
  then show ?case by (cases p) (simp_all add: op_total_def Let_def add.assoc)
qed (simp add: op_total_def)

lemma op_total_mset: "mset xs = mset ys \<Longrightarrow> op_total f xs = op_total f ys"
  unfolding op_total_def by (metis mset_map sum_mset_sum_list)

lemma op_total_calls:
  "op_total (\<lambda>p. case p of AddReceived n \<Rightarrow> n | _ \<Rightarrow> 0) (concat (map metric_program calls)) =
     of_nat (length (filter (\<lambda>c. \<exists>n. c = RecordFrame n) calls))"
  "op_total (\<lambda>p. case p of AddDropped n \<Rightarrow> n | _ \<Rightarrow> 0) (concat (map metric_program calls)) =
     of_nat (length (filter (\<lambda>c. c = RecordDrop) calls))"
  "op_total (\<lambda>p. case p of AddBytes n \<Rightarrow> n | _ \<Rightarrow> 0) (concat (map metric_program calls)) =
     sum_list (map (\<lambda>c. case c of RecordFrame n \<Rightarrow> n | _ \<Rightarrow> 0) calls)"
proof (induction calls)
  case (Cons c calls)
  { case 1 from Cons(1) show ?case by (cases c) (simp_all add: op_total_def metric_program_defs) }
  { case 2 from Cons(2) show ?case by (cases c) (simp_all add: op_total_def metric_program_defs) }
  { case 3 from Cons(3) show ?case by (cases c) (simp_all add: op_total_def metric_program_defs) }
qed (simp_all add: op_total_def)

text \<open>When every thread is through, the snapshot holds the totals of all calls modulo \<open>2 ^ 64\<close>, whatever the schedule was.\<close>

lemma metrics_totals:
  assumes run: "scheduled is (map (\<lambda>calls. concat (map metric_program calls)) threads) = (ops, left)" and over: "concat left = []"
  shows "metrics_snapshot (fold metric_atomic ops pipeline_metrics_new) =
    (of_nat (length (filter (\<lambda>c. \<exists>n. c = RecordFrame n) (concat threads))), of_nat (length (filter (\<lambda>c. c = RecordDrop) (concat threads))),
     sum_list (map (\<lambda>c. case c of RecordFrame n \<Rightarrow> n | _ \<Rightarrow> 0) (concat threads)))"
proof -
  have "concat (map (\<lambda>calls. concat (map metric_program calls)) threads) = concat (map metric_program (concat threads))"
    by (induction threads) auto
  then have "mset ops = mset (concat (map metric_program (concat threads)))"
    using scheduled_mset [OF run] over by simp
  then show ?thesis
    using metric_fold [of ops pipeline_metrics_new] op_total_calls [of "concat threads"] op_total_mset [of ops "concat (map metric_program (concat threads))"]
    by (simp add: metrics_snapshot_def pipeline_metrics_new_def Let_def)
qed

text \<open>A snapshot between the two additions of \<^verbatim>\<open>record_frame\<close> counts a frame whose bytes are missing.\<close>

lemma metrics_snapshot_torn:
  "metrics_snapshot (fold metric_atomic (fst (scheduled [0] [metrics_record_frame 32])) pipeline_metrics_new) = (1, 0, 0)"
  by code_simp

lemma metrics_should_stop_iff: "metrics_should_stop (fold metric_atomic ops pipeline_metrics_new) \<longleftrightarrow> StoreShutdown \<in> set ops"
  using metric_fold [of ops pipeline_metrics_new] by (simp add: metrics_should_stop_def pipeline_metrics_new_def Let_def)

section \<open>The counting allocator\<close>

text \<open>What the system allocator does with the layout is outside the program; the counters are what is modelled.\<close>

record counting_allocator =
  ca_alloc_count :: u64
  ca_dealloc_count :: u64
  ca_alloc_bytes :: u64

definition counting_allocator_new :: counting_allocator where
  "counting_allocator_new = \<lparr>ca_alloc_count = 0, ca_dealloc_count = 0, ca_alloc_bytes = 0\<rparr>"

datatype counter_op = AddAlloc u64 | AddDealloc u64 | AddSize u64 | ZeroAlloc | ZeroDealloc | ZeroSize

fun counter_atomic :: "counter_op \<Rightarrow> counting_allocator \<Rightarrow> counting_allocator" where
  "counter_atomic (AddAlloc n) a = a\<lparr>ca_alloc_count := ca_alloc_count a + n\<rparr>"
| "counter_atomic (AddDealloc n) a = a\<lparr>ca_dealloc_count := ca_dealloc_count a + n\<rparr>"
| "counter_atomic (AddSize n) a = a\<lparr>ca_alloc_bytes := ca_alloc_bytes a + n\<rparr>"
| "counter_atomic ZeroAlloc a = a\<lparr>ca_alloc_count := 0\<rparr>"
| "counter_atomic ZeroDealloc a = a\<lparr>ca_dealloc_count := 0\<rparr>"
| "counter_atomic ZeroSize a = a\<lparr>ca_alloc_bytes := 0\<rparr>"

definition counting_alloc :: "u64 \<Rightarrow> counter_op list" where
  "counting_alloc size_of_layout = [AddAlloc 1, AddSize size_of_layout]"

definition counting_dealloc :: "counter_op list" where
  "counting_dealloc = [AddDealloc 1]"

definition counting_snapshot :: "counting_allocator \<Rightarrow> u64 \<times> u64 \<times> u64" where
  "counting_snapshot a = (ca_alloc_count a, ca_dealloc_count a, ca_alloc_bytes a)"

definition reset_counters :: "counter_op list" where
  "reset_counters = [ZeroAlloc, ZeroDealloc, ZeroSize]"

lemma reset_counters_alone: "fold counter_atomic reset_counters a = counting_allocator_new"
  by (cases a) (simp add: reset_counters_def counting_allocator_new_def)

text \<open>A reset that runs beside an allocation can keep half of it: here the bytes of an allocation that is no longer counted.\<close>

lemma reset_counters_torn:
  "counting_snapshot (fold counter_atomic (fst (scheduled [0, 1, 1, 1, 0] [counting_alloc 64, reset_counters])) counting_allocator_new) = (0, 0, 64)"
  by code_simp

text \<open>Without a reset the counters of a finished run are the totals of its calls.\<close>

lemma counting_totals:
  assumes run: "scheduled is (map (\<lambda>calls. concat (map (\<lambda>c. case c of Some n \<Rightarrow> counting_alloc n | None \<Rightarrow> counting_dealloc) calls)) threads) = (ops, left)"
    and over: "concat left = []"
  shows "counting_snapshot (fold counter_atomic ops counting_allocator_new) =
    (of_nat (length (filter (\<lambda>c. c \<noteq> None) (concat threads))), of_nat (length (filter (\<lambda>c. c = None) (concat threads))),
     sum_list (map (\<lambda>c. case c of Some n \<Rightarrow> n | None \<Rightarrow> 0) (concat threads)))"
proof -
  let ?prog = "\<lambda>c. case c of Some n \<Rightarrow> counting_alloc n | None \<Rightarrow> counting_dealloc"
  define tot :: "(counter_op \<Rightarrow> u64) \<Rightarrow> counter_op list \<Rightarrow> u64" where "tot f ops = sum_list (map f ops)" for f ops
  let ?a = "\<lambda>p. case p of AddAlloc n \<Rightarrow> n | _ \<Rightarrow> 0" and ?d = "\<lambda>p. case p of AddDealloc n \<Rightarrow> n | _ \<Rightarrow> 0"
    and ?s = "\<lambda>p. case p of AddSize n \<Rightarrow> n | _ \<Rightarrow> 0"
  have "concat (map (\<lambda>calls. concat (map ?prog calls)) threads) = concat (map ?prog (concat threads))"
    by (induction threads) auto
  then have m: "mset ops = mset (concat (map ?prog (concat threads)))"
    using scheduled_mset [OF run] over by simp
  have tot: "tot f ops = tot f (concat (map ?prog (concat threads)))" for f
    unfolding tot_def by (metis m mset_map sum_mset_sum_list)
  have calls: "tot ?a (concat (map ?prog cs)) = of_nat (length (filter (\<lambda>c. c \<noteq> None) cs)) \<and>
      tot ?d (concat (map ?prog cs)) = of_nat (length (filter (\<lambda>c. c = None) cs)) \<and>
      tot ?s (concat (map ?prog cs)) = sum_list (map (\<lambda>c. case c of Some n \<Rightarrow> n | None \<Rightarrow> 0) cs) \<and>
      set (concat (map ?prog cs)) \<inter> {ZeroAlloc, ZeroDealloc, ZeroSize} = {}" for cs
    by (induction cs) (auto simp: tot_def counting_alloc_def counting_dealloc_def split: option.splits)
  have fold: "ca_alloc_count (fold counter_atomic os a) = ca_alloc_count a + tot ?a os \<and>
      ca_dealloc_count (fold counter_atomic os a) = ca_dealloc_count a + tot ?d os \<and>
      ca_alloc_bytes (fold counter_atomic os a) = ca_alloc_bytes a + tot ?s os"
    if "set os \<inter> {ZeroAlloc, ZeroDealloc, ZeroSize} = {}" for os a
    using that
  proof (induction os arbitrary: a)
    case (Cons p os)
    then show ?case by (cases p) (auto simp: tot_def add.assoc)
  qed (simp add: tot_def)
  have "set ops \<inter> {ZeroAlloc, ZeroDealloc, ZeroSize} = {}"
    using calls [of "concat threads"] mset_eq_setD [OF m] by simp
  from fold [OF this, of counting_allocator_new] show ?thesis
    using calls [of "concat threads"] tot by (simp add: counting_snapshot_def counting_allocator_new_def)
qed

end
