(* ===== verification/Session_Lifecycle.thy ===== *)
theory Session_Lifecycle imports Telemetry_System begin

text \<open>
  Futures of the course that end on their own, by a deadline or by a signal: \<^verbatim>\<open>module1/part3/pass_session.rs\<close>,
  \<^verbatim>\<open>module1/part1/frame_validation.rs\<close>, \<^verbatim>\<open>module1/shutdown_coordinator.rs\<close>, and the two feeds of
  \<^verbatim>\<open>module3/part3/tagged_frame.rs\<close>. Time is counted in milliseconds from the first poll; a future is polled at arbitrary
  later instants, and \<^verbatim>\<open>select!\<close> may try its branches in either order.
\<close>

section \<open>A satellite pass\<close>

datatype pass_end = PassCompleted | PassTimedOut | PassCancelled

record pass_session =
  pa_satellite_id :: u32
  pa_ground_station :: string
  pa_frames :: nat
  pa_wake :: nat

definition PASS_FRAMES :: nat where "PASS_FRAMES = 100"
definition FRAME_MS :: nat where "FRAME_MS = 50"

definition pass_session_new :: "u32 \<Rightarrow> string \<Rightarrow> pass_session" where
  "pass_session_new satellite_id ground_station =
     \<lparr>pa_satellite_id = satellite_id, pa_ground_station = ground_station, pa_frames = 0, pa_wake = FRAME_MS\<rparr>"

text \<open>\<^verbatim>\<open>PassSession::run\<close>: at a poll after its deadline the sleep is over, and the next one starts; the result is whether it returned.\<close>

definition pass_run_poll :: "nat \<Rightarrow> pass_session \<Rightarrow> bool \<times> pass_session" where
  "pass_run_poll now p =
     (if now < pa_wake p then (False, p)
      else (pa_frames p + 1 = PASS_FRAMES, p\<lparr>pa_frames := pa_frames p + 1, pa_wake := now + FRAME_MS\<rparr>))"

text \<open>\<^verbatim>\<open>timeout\<close> polls the session first and its own deadline after it.\<close>

definition pass_timeout_poll :: "nat \<Rightarrow> nat \<Rightarrow> pass_session \<Rightarrow> pass_end option \<times> pass_session" where
  "pass_timeout_poll pass_duration now p =
     (case pass_run_poll now p of
        (True, p) \<Rightarrow> (Some PassCompleted, p)
      | (False, p) \<Rightarrow> (if now \<ge> pass_duration then Some PassTimedOut else None, p))"

text \<open>\<^verbatim>\<open>manage_pass\<close>: the receiver of the signal is ready when something was sent and also when its sender is gone.\<close>

definition manage_pass_poll :: "bool \<Rightarrow> bool \<Rightarrow> nat \<Rightarrow> nat \<Rightarrow> pass_session \<Rightarrow> pass_end option \<times> pass_session" where
  "manage_pass_poll signal_first signalled pass_duration now p =
     (if signalled \<and> signal_first then (Some PassCancelled, p)
      else case pass_timeout_poll pass_duration now p of
        (None, p) \<Rightarrow> (if signalled then Some PassCancelled else None, p)
      | r \<Rightarrow> r)"

fun manage_pass :: "nat \<Rightarrow> (bool \<times> bool \<times> nat) list \<Rightarrow> pass_session \<Rightarrow> pass_end option \<times> pass_session" where
  "manage_pass pass_duration [] p = (None, p)"
| "manage_pass pass_duration ((signal_first, signalled, now) # polls) p =
     (case manage_pass_poll signal_first signalled pass_duration now p of
        (None, p) \<Rightarrow> manage_pass pass_duration polls p
      | r \<Rightarrow> r)"

definition poll_times :: "(bool \<times> bool \<times> nat) list \<Rightarrow> nat list" where
  "poll_times polls = map (\<lambda>(_, _, now). now) polls"

text \<open>The frames of a session take their time: \<open>pass_at now p\<close> holds after a poll at \<open>now\<close>.\<close>

definition pass_at :: "nat \<Rightarrow> nat \<Rightarrow> pass_session \<Rightarrow> bool" where
  "pass_at pass_duration now p \<longleftrightarrow> pa_frames p < PASS_FRAMES \<and> FRAME_MS * pa_frames p \<le> now \<and>
     FRAME_MS * (pa_frames p + 1) \<le> pa_wake p \<and> (pa_frames p > 0 \<longrightarrow> FRAME_MS * pa_frames p < pass_duration)"

lemma manage_pass_poll_cases:
  assumes at: "pass_at pass_duration t p" and le: "t \<le> now"
    and poll: "manage_pass_poll signal_first signalled pass_duration now p = (r, q)"
  shows "case r of
      None \<Rightarrow> \<not> signalled \<and> now < pass_duration \<and> pass_at pass_duration now q
    | Some PassCompleted \<Rightarrow> pa_frames q = PASS_FRAMES \<and> FRAME_MS * PASS_FRAMES \<le> now \<and> FRAME_MS * (PASS_FRAMES - 1) < pass_duration
    | Some PassTimedOut \<Rightarrow> pass_duration \<le> now \<and> pa_frames q < PASS_FRAMES
    | Some PassCancelled \<Rightarrow> signalled \<and> pa_frames q < PASS_FRAMES"
  using assms
  by (auto simp: manage_pass_poll_def pass_timeout_poll_def pass_run_poll_def pass_at_def PASS_FRAMES_def FRAME_MS_def
      split: if_splits prod.splits bool.splits option.splits)

text \<open>A pass ends by its own work only after 100 frames and five seconds, which needs a duration above 4950 milliseconds, since
  the deadline is only looked at when the session waits; it times out only after its duration, and is cancelled only when the
  signal came or its sender was dropped. It is over at the first poll after the duration or after the signal.\<close>

lemma manage_pass_spec:
  assumes "sorted (poll_times polls)" "manage_pass pass_duration polls (pass_session_new sat station) = (r, p)"
  shows "case r of
      None \<Rightarrow> pa_frames p < PASS_FRAMES \<and> (\<forall>(_, signalled, now) \<in> set polls. \<not> signalled \<and> now < pass_duration)
    | Some PassCompleted \<Rightarrow> pa_frames p = 100 \<and> (\<exists>now \<in> set (poll_times polls). 5000 \<le> now) \<and> 4950 < pass_duration
    | Some PassTimedOut \<Rightarrow> pa_frames p < PASS_FRAMES \<and> (\<exists>now \<in> set (poll_times polls). pass_duration \<le> now)
    | Some PassCancelled \<Rightarrow> pa_frames p < PASS_FRAMES \<and> (\<exists>(_, signalled, _) \<in> set polls. signalled)"
proof -
  have "case r of
      None \<Rightarrow> pa_frames p < PASS_FRAMES \<and> (\<forall>(_, signalled, now) \<in> set polls. \<not> signalled \<and> now < pass_duration)
    | Some PassCompleted \<Rightarrow> pa_frames p = PASS_FRAMES \<and> (\<exists>now \<in> set (poll_times polls). FRAME_MS * PASS_FRAMES \<le> now) \<and>
        FRAME_MS * (PASS_FRAMES - 1) < pass_duration
    | Some PassTimedOut \<Rightarrow> pa_frames p < PASS_FRAMES \<and> (\<exists>now \<in> set (poll_times polls). pass_duration \<le> now)
    | Some PassCancelled \<Rightarrow> pa_frames p < PASS_FRAMES \<and> (\<exists>(_, signalled, _) \<in> set polls. signalled)"
    if "sorted (t # poll_times polls)" "pass_at pass_duration t p0" "manage_pass pass_duration polls p0 = (r, p)" for t p0
    using that
  proof (induction polls arbitrary: t p0)
    case Nil
    then show ?case by (auto simp: pass_at_def)
  next
    case (Cons poll polls)
    obtain sf sg now where poll: "poll = (sf, sg, now)" by (cases poll)
    obtain r1 q where one: "manage_pass_poll sf sg pass_duration now p0 = (r1, q)" by fastforce
    have c: "case r1 of
      None \<Rightarrow> \<not> sg \<and> now < pass_duration \<and> pass_at pass_duration now q
    | Some PassCompleted \<Rightarrow> pa_frames q = PASS_FRAMES \<and> FRAME_MS * PASS_FRAMES \<le> now \<and> FRAME_MS * (PASS_FRAMES - 1) < pass_duration
    | Some PassTimedOut \<Rightarrow> pass_duration \<le> now \<and> pa_frames q < PASS_FRAMES
    | Some PassCancelled \<Rightarrow> sg \<and> pa_frames q < PASS_FRAMES"
      by (rule manage_pass_poll_cases [OF Cons.prems(2) _ one]) (use Cons.prems(1) poll in \<open>simp add: poll_times_def\<close>)
    show ?case
    proof (cases r1)
      case None
      have "sorted (now # poll_times polls)" "pass_at pass_duration now q" "manage_pass pass_duration polls q = (r, p)"
        using c None Cons.prems poll one by (simp_all add: poll_times_def)
      from Cons.IH [OF this] c None poll show ?thesis
        by (auto simp: poll_times_def split: option.splits pass_end.splits)
    next
      case (Some e)
      then have "r = Some e" "p = q" using Cons.prems(3) poll one by simp_all
      then show ?thesis using c Some poll by (cases e) (auto simp: poll_times_def)
    qed
  qed
  from this [of 0 "pass_session_new sat station"] show ?thesis
    using assms by (auto simp: pass_at_def pass_session_new_def PASS_FRAMES_def FRAME_MS_def split: option.splits pass_end.splits)
qed

section \<open>Validation of a frame\<close>

datatype oneshot = OneshotEmpty | OneshotSent bool | OneshotClosed

definition frame_validation_poll :: "string \<Rightarrow> oneshot \<Rightarrow> (string + unit) option" where
  "frame_validation_poll recv_error rx = (case rx of
      OneshotSent True \<Rightarrow> Some (Inr ())
    | OneshotSent False \<Rightarrow> Some (Inl ''CRC validation failed'')
    | OneshotClosed \<Rightarrow> Some (Inl (''Validator thread terminated unexpectedly: '' @ recv_error))
    | OneshotEmpty \<Rightarrow> None)"

lemma frame_validation_spec:
  "frame_validation_poll e rx = None \<longleftrightarrow> rx = OneshotEmpty" "frame_validation_poll e rx = Some (Inr ()) \<longleftrightarrow> rx = OneshotSent True"
  by (auto simp: frame_validation_poll_def split: oneshot.splits bool.splits)

section \<open>The shutdown coordinator\<close>

text \<open>A task is the instant at which it ends, if it does; \<open>await_all\<close> is the loop over the handles.\<close>

definition SHUTDOWN_MS :: nat where "SHUTDOWN_MS = 10000"

fun await_all :: "nat \<Rightarrow> nat option list \<Rightarrow> nat option" where
  "await_all now [] = Some now"
| "await_all now (task # tasks) = (case task of None \<Rightarrow> None | Some t \<Rightarrow> await_all (max now t) tasks)"

text \<open>When \<^verbatim>\<open>shutdown\<close> returns, and the tasks that still run then: a handle that is dropped detaches its task.\<close>

definition coordinator_shutdown :: "nat option list \<Rightarrow> nat \<times> nat list" where
  "coordinator_shutdown tasks =
     (let t = (case await_all 0 tasks of Some t \<Rightarrow> min t SHUTDOWN_MS | None \<Rightarrow> SHUTDOWN_MS)
      in (t, filter (\<lambda>i. case tasks ! i of None \<Rightarrow> True | Some e \<Rightarrow> t < e) [0..<length tasks]))"

lemma await_all_Some: "await_all now tasks = Some t \<longleftrightarrow> None \<notin> set tasks \<and> t = fold max (map the tasks) now"
  by (induction tasks arbitrary: now) (auto simp: max.commute split: option.splits)

lemma fold_max_ge: "now \<le> fold max xs (now :: nat)" "x \<in> set xs \<Longrightarrow> x \<le> fold max xs now"
proof -
  have ge: "now \<le> fold max xs now" for now :: nat and xs
    by (induction xs arbitrary: now) (auto intro: order_trans [OF max.cobounded2])
  then show "now \<le> fold max xs now" .
  show "x \<in> set xs \<Longrightarrow> x \<le> fold max xs now"
  proof (induction xs arbitrary: now)
    case (Cons a xs)
    then show ?case using ge [of "max a now" xs] by auto
  qed simp
qed

text \<open>It always returns within ten seconds; every task has ended then, or it is the deadline that ended the wait and the tasks
  that are late go on: none is aborted.\<close>

lemma coordinator_shutdown_spec:
  assumes "coordinator_shutdown tasks = (t, running)"
  shows "t \<le> 10000" "running = [] \<or> t = 10000"
    "running = filter (\<lambda>i. case tasks ! i of None \<Rightarrow> True | Some e \<Rightarrow> t < e) [0..<length tasks]"
proof -
  show run: "running = filter (\<lambda>i. case tasks ! i of None \<Rightarrow> True | Some e \<Rightarrow> t < e) [0..<length tasks]"
    using assms unfolding coordinator_shutdown_def Let_def by clarsimp
  have t: "t = (case await_all 0 tasks of Some t \<Rightarrow> min t SHUTDOWN_MS | None \<Rightarrow> SHUTDOWN_MS)"
    using assms by (simp add: coordinator_shutdown_def Let_def)
  show "t \<le> 10000" unfolding t by (simp add: SHUTDOWN_MS_def split: option.split)
  show "running = [] \<or> t = 10000"
  proof (cases "t = 10000")
    case False
    then have u: "await_all 0 tasks = Some t"
      using t by (auto simp: SHUTDOWN_MS_def min_def split: option.splits if_splits)
    have "case tasks ! i of None \<Rightarrow> False | Some e \<Rightarrow> e \<le> t" if "i < length tasks" for i
    proof -
      have i: "tasks ! i \<in> set tasks" using that by simp
      moreover have "None \<notin> set tasks" using u by (simp add: await_all_Some)
      ultimately obtain e where e: "tasks ! i = Some e" by (metis not_None_eq)
      then have "e \<in> set (map the tasks)" using i by force
      then show ?thesis using e u fold_max_ge(2) by (simp add: await_all_Some)
    qed
    then show ?thesis unfolding run by (force simp: filter_empty_conv split: option.splits)
  qed simp
qed

section \<open>The two feeds\<close>

datatype feed_kind = FeedLive u32 | FeedReplay bytes

record kind_frame =
  kf_source :: feed_kind
  kf_sequence :: u64
  kf_payload :: bytes

text \<open>The frames a feed has to send; one turn sends the next or drops it when the receiver is gone, and waits while the channel is full.\<close>

definition live_uplink :: "u32 \<Rightarrow> kind_frame list" where
  "live_uplink sat_id = map (\<lambda>n. \<lparr>kf_source = FeedLive sat_id, kf_sequence = of_nat n, kf_payload = u32_to_le sat_id @ replicate 28 0\<rparr>) [0..<3]"

definition replay_feed :: "bytes \<Rightarrow> kind_frame list" where
  "replay_feed mission = map (\<lambda>n. \<lparr>kf_source = FeedReplay mission, kf_sequence = of_nat n, kf_payload = replicate 128 0xAA\<rparr>) [0..<2]"

definition feed_turn :: "kind_frame list \<Rightarrow> kind_frame mpsc \<Rightarrow> kind_frame list \<times> kind_frame mpsc" where
  "feed_turn pending chan = (case pending of
      [] \<Rightarrow> ([], chan)
    | frame # rest \<Rightarrow>
        if \<not> mp_receiver chan then (rest, chan)
        else case try_send frame chan of None \<Rightarrow> (pending, chan) | Some chan' \<Rightarrow> (rest, chan'))"

datatype fan_event = FeedTurn nat | FanReceive

fun fan_step :: "fan_event \<Rightarrow> kind_frame list list \<times> kind_frame mpsc \<times> kind_frame list \<Rightarrow> kind_frame list list \<times> kind_frame mpsc \<times> kind_frame list" where
  "fan_step (FeedTurn i) (feeds, chan, got) =
     (if i < length feeds then (let (left, chan') = feed_turn (feeds ! i) chan in (feeds[i := left], chan', got)) else (feeds, chan, got))"
| "fan_step FanReceive (feeds, chan, got) = (case mp_items chan of
      [] \<Rightarrow> (feeds, chan, got)
    | frame # rest \<Rightarrow> (feeds, chan\<lparr>mp_items := rest\<rparr>, got @ [frame]))"

text \<open>Of the feed \<open>i\<close>, what was received, what waits in the channel and what it has left are its frames in their order, as long as
  no other feed has its source.\<close>

definition fan_inv :: "kind_frame list list \<Rightarrow> kind_frame list list \<times> kind_frame mpsc \<times> kind_frame list \<Rightarrow> bool" where
  "fan_inv all st \<longleftrightarrow> (case st of (feeds, chan, got) \<Rightarrow> mp_receiver chan \<and> length (mp_items chan) \<le> mp_capacity chan \<and> length feeds = length all \<and>
     (\<forall>i < length all. set (feeds ! i) \<subseteq> set (all ! i) \<and>
        filter (\<lambda>fr. fr \<in> set (all ! i)) (got @ mp_items chan) @ feeds ! i = all ! i))"

lemma fan_step_inv:
  assumes dis: "\<And>i j. i < length all \<Longrightarrow> j < length all \<Longrightarrow> i \<noteq> j \<Longrightarrow> set (all ! i) \<inter> set (all ! j) = {}" and inv: "fan_inv all st"
  shows "fan_inv all (fan_step e st)"
proof -
  obtain feeds chan got where st: "st = (feeds, chan, got)" by (cases st)
  show ?thesis
  proof (cases e)
    case FanReceive
    then show ?thesis using inv st by (cases "mp_items chan") (auto simp: fan_inv_def)
  next
    case (FeedTurn i)
    show ?thesis
    proof (cases "i < length feeds \<and> feeds ! i \<noteq> [] \<and> length (mp_items chan) < mp_capacity chan")
      case True
      then obtain fr rest where h: "feeds ! i = fr # rest" by (cases "feeds ! i") auto
      have step: "fan_step e st = (feeds[i := rest], chan\<lparr>mp_items := mp_items chan @ [fr]\<rparr>, got)"
        using FeedTurn st True h inv by (simp add: feed_turn_def try_send_def fan_inv_def)
      have i: "i < length all" "fr \<in> set (all ! i)" using inv st True h by (auto simp: fan_inv_def)
      have "set (feeds ! i) \<subseteq> set (all ! i)" using inv st True by (simp add: fan_inv_def)
      then have sub: "set (fr # rest) \<subseteq> set (all ! i)" unfolding h .
      have other: "fr \<notin> set (all ! j)" if "j < length all" "j \<noteq> i" for j using dis [OF i(1) that(1)] that(2) i(2) by auto
      have "set ((feeds[i := rest]) ! j) \<subseteq> set (all ! j) \<and>
          filter (\<lambda>fr. fr \<in> set (all ! j)) (got @ mp_items chan @ [fr]) @ (feeds[i := rest]) ! j = all ! j" if j: "j < length all" for j
      proof -
        have o: "set (feeds ! j) \<subseteq> set (all ! j)" "filter (\<lambda>fr. fr \<in> set (all ! j)) (got @ mp_items chan) @ feeds ! j = all ! j"
          using inv st j by (auto simp: fan_inv_def)
        show ?thesis
        proof (cases "j = i")
          case True
          then show ?thesis using o [unfolded True h] i inv st sub by (simp add: fan_inv_def)
        next
          case False
          then show ?thesis using o other [OF j False] by simp
        qed
      qed
      then show ?thesis using inv st True unfolding step fan_inv_def by simp
    next
      case False
      then have "fan_step e st = st"
        using FeedTurn st inv by (auto simp: feed_turn_def try_send_def fan_inv_def Let_def list_update_same_conv split: list.split)
      then show ?thesis using inv by simp
    qed
  qed
qed

lemma feeds_fan_in:
  assumes dis: "\<And>i j. i < length all \<Longrightarrow> j < length all \<Longrightarrow> i \<noteq> j \<Longrightarrow> set (all ! i) \<inter> set (all ! j) = {}"
  shows "fan_inv all (fold fan_step es (all, channel capacity, []))"
proof -
  have "fan_inv all st \<Longrightarrow> fan_inv all (fold fan_step es st)" for st
    by (induction es arbitrary: st) (simp_all add: fan_step_inv [OF dis])
  then show ?thesis by (simp add: fan_inv_def channel_def)
qed

lemma feed_payload_lengths:
  "frame \<in> set (live_uplink sat_id) \<Longrightarrow> length (kf_payload frame) = 32" "frame \<in> set (replay_feed mission) \<Longrightarrow> length (kf_payload frame) = 128"
  by (auto simp: live_uplink_def replay_feed_def)

lemma feed_sequences: "map kf_sequence (live_uplink sat_id) = [0, 1, 2]" "map kf_sequence (replay_feed mission) = [0, 1]"
  by (simp_all add: live_uplink_def replay_feed_def upt_rec)

end
