(* ===== verification/Spec2Isabelle.thy ===== *)
theory Spec2Isabelle imports Pool_V3_Runs Lru_Runs Disk_Alloc Clock_V2_Equiv Frame_Server Frame_Client
  Frame_Connection_Correct Connection_Tasks Command_Queue_Correct Expiring_Db_Correct Telemetry_Pipeline_Correct
  Ground_Station_Client_Correct Demo_Runs Tle Arenas Aggregator Orbital Radar Router_Actor_Correct Shared_Tables
  Session_Lifecycle begin

text \<open>
  A verification of the Rust crates \<^verbatim>\<open>database-track\<close> and \<^verbatim>\<open>foundation-track\<close> of the Meridian Space Academy course. Paths
  below are relative to \<^verbatim>\<open>src/crates/database-track/src/module1\<close> in the first part and to
  \<^verbatim>\<open>src/crates/foundation-track/src\<close> in the second.

  \<^bold>\<open>The program.\<close> The first crate is a storage engine in layers: slotted pages of 4096 bytes, segment files of pages with a
  checksum each, a disk manager over the segments, and four buffer pools over the trait \<^verbatim>\<open>PageStore\<close> or over a single file. The
  second is a set of telemetry services: framed protocols over TCP with their clients and servers, a command queue, a store with
  expiring keys, pipelines of tasks joined by bounded channels, retry loops, arenas and batch stages.

  \<^bold>\<open>Conventions.\<close> They are stated in \<open>Prelude\<close>: a panic is \<open>None\<close>, an \<^verbatim>\<open>io::Result\<close> is a sum, an integer whose width matters is a
  word. Arithmetic overflow is the panic of a checked build, except for atomic counters, which wrap. What a call takes under one lock
  is one step; where threads or tasks interleave, a step is the code between two points at which others can interfere, and the
  theorems quantify over every sequence of steps. A step of a task that has to wait changes nothing, so that every list of events is
  a schedule. A checksum, a hash, a random generator, floating point arithmetic and the answers of the network are parameters.

  \<^bold>\<open>Part one: storage.\<close>
  \<^item> \<open>Config\<close> (\<^verbatim>\<open>config.rs\<close>): the constants. \<open>Os\<close>: \<^verbatim>\<open>std::fs::File\<close> with a list of faults to come, one per call; a theorem about an
    arbitrary state of \<open>Os\<close> therefore holds for every sequence of failed and torn calls.
  \<^item> \<open>Page\<close>, \<open>Page_Correct\<close>, \<open>Page_Ops\<close>, \<open>Page_Compact\<close>, \<open>Page_Load\<close> (\<^verbatim>\<open>project1/page.rs\<close>): \<open>page_insert\<close>, \<open>page_insert_compacting\<close>,
    \<open>page_get\<close>, \<open>page_delete\<close>, \<open>page_compact\<close>, \<open>page_from_bytes\<close>. \<open>wf_page\<close> is the representation invariant, \<open>page_slots\<close> the abstract
    content, and every operation sequence refines the operations on that list; a stored page is accepted back.
    \<open>Slotted_Page\<close> (\<^verbatim>\<open>part3/slotted_page.rs\<close>, header of \<^verbatim>\<open>part1/page.rs\<close>) shows that the older page behaves like the newer one once its
    free space offset is right, and that a fresh one is full.
  \<^item> \<open>Disk\<close>, \<open>Page_Store\<close>, \<open>Disk_Correct\<close>, \<open>Disk_Alloc\<close> (\<^verbatim>\<open>project1/relation_file.rs\<close>, \<^verbatim>\<open>project1/disk_manager.rs\<close>): the locale \<open>page_store\<close> is
    the contract of the trait \<^verbatim>\<open>PageStore\<close> (a read returns the content of the page, a write that succeeds makes its buffer the
    content, a write that fails touches no other page), and \<open>dm\<close> interprets it for the disk manager with any checksum function.
  \<^item> \<open>Clock_Pool\<close>, \<open>Clock_Victim\<close>, \<open>Clock_Correct\<close>, \<open>Clock_Runs\<close>, \<open>Clock_Progress\<close> (\<^verbatim>\<open>project1/buffer_pool.rs\<close>): the pool behind one mutex. The
    victim is the unpinned frame with the least usage, six sweeps are enough, and for every store that meets the contract the pool is
    a memory of pages, under all faults; when the faults stop, a flush makes it durable. \<open>reliable_store\<close> extends \<open>page_store\<close>.
    \<open>Clock_Pool_V2\<close>, \<open>Clock_V2_Equiv\<close> (\<^verbatim>\<open>project1/buffer_pool_v2.rs\<close>): the second pool returns what the first returns.
  \<^item> \<open>Clock_Pool_V3\<close> and \<open>Pool_V3_*\<close> (\<^verbatim>\<open>project1/buffer_pool_v3.rs\<close>): the concurrent pool. A thread is a program counter \<open>pc3\<close>, and
    \<open>thread_step3\<close> is the code up to its next lock, wait or call of the store. \<open>Control\<close>, \<open>Moves\<close> and \<open>Threads\<close> keep the invariant on
    table, pins, pendings and locks; \<open>Progress\<close> has exclusion, absence of deadlock and the end of loads; \<open>Data\<close>, \<open>Memory\<close> and \<open>Runs\<close> the
    memory of pages, whatever number of threads fetch, write and flush at once. Two flushes of one frame write the same bytes, the second
    perhaps in part: \<open>Disk_Rewrite\<close> extends the contract to \<open>rewrite_store\<close>, in which that is harmless, and interprets it for the disk
    manager.
  \<^item> \<open>Lru_Pool\<close>, \<open>Lru_Correct\<close>, \<open>Lru_Runs\<close> (\<^verbatim>\<open>part2/buffer_pool.rs\<close>, \<^verbatim>\<open>part2/page_handle.rs\<close>, \<^verbatim>\<open>PageFile\<close> of \<^verbatim>\<open>part1/page.rs\<close>): recency order and
    handles under any faults. \<open>Lru_Data\<close>, \<open>Lru_Memory\<close>: without faults, and with fetches of pages that exist, the pool is a memory of
    pages; one fetch of a missing page breaks that. \<open>Demo\<close>, \<open>Demo_Correct\<close>, \<open>Demo_Runs\<close> (\<^verbatim>\<open>part2/demo.rs\<close>) compose all of it: the
    demonstration verifies every page under every schedule.
  \<^item> \<open>Tle\<close> (\<^verbatim>\<open>project1/tle.rs\<close>): the binary record of orbital elements and its round trip.

  \<^bold>\<open>Part two: services.\<close>
  \<^item> \<open>Stream_Parser\<close>: the locale of an incremental parser, with the independence of what is parsed from how the bytes are cut. It is
    interpreted for the telemetry frame and for length-prefixed messages.
  \<^item> \<open>Telemetry_Frame\<close>, \<open>Telemetry_Frame_Correct\<close>, \<open>Frame_Batch\<close> (\<^verbatim>\<open>module5/project5/frame.rs\<close>, \<^verbatim>\<open>module6/project6\<close>,
    \<^verbatim>\<open>module6/part1/benchmarking.rs\<close>): generator, parser, the stages on indices, the packed keys. \<open>wire_format\<close> and \<open>frame_rng\<close> are the
    contracts of the crates \<^verbatim>\<open>bytes\<close> and \<^verbatim>\<open>fastrand\<close>, with concrete instances.
  \<^item> \<open>Frame_Connection\<close>, \<open>Frame_Connection_Correct\<close>, \<open>Frame_Server\<close>, \<open>Frame_Client\<close> (\<^verbatim>\<open>connection.rs\<close>, \<^verbatim>\<open>shutdown.rs\<close>, \<^verbatim>\<open>server.rs\<close>, \<^verbatim>\<open>client.rs\<close>,
    \<^verbatim>\<open>config.rs\<close>, \<^verbatim>\<open>batch_arena.rs\<close> of \<^verbatim>\<open>module5/project5\<close>): what the client generates and writes is what the handler batches; permits bound
    the handlers and shutdown drains them; ids are exclusive.
  \<^item> \<open>Length_Framing\<close>, \<open>Length_Framing_Correct\<close>, \<open>Connection_Tasks\<close> (\<^verbatim>\<open>module1/encoder.rs\<close>, \<^verbatim>\<open>module1/project1.rs\<close>,
    \<^verbatim>\<open>module4/part1/connection_processing.rs\<close>, \<^verbatim>\<open>module4/project4/frame.rs\<close>, \<^verbatim>\<open>module4/project4/gs_server.rs\<close>): the length-prefixed protocol, its
    readers and writers, and the tasks around them. \<open>Ground_Station_Client\<close>, \<open>Ground_Station_Client_Correct\<close> (\<^verbatim>\<open>gs_client.rs\<close>,
    \<^verbatim>\<open>module4/part3/reqwest_client.rs\<close>): sessions, and the retry loops as instances of the locale \<open>retry_loop\<close>.
  \<^item> \<open>Command_Queue\<close>, \<open>Command_Queue_Correct\<close> (\<^verbatim>\<open>module2/project2\<close>, \<^verbatim>\<open>module2/part2/command_queue.rs\<close>): the bounded priority queue on two condition
    variables; \<open>heap_pick\<close> is the contract of \<^verbatim>\<open>BinaryHeap::pop\<close>. \<open>Expiring_Db\<close>, \<open>Expiring_Db_Correct\<close> (\<^verbatim>\<open>module3/db.rs\<close>): the store and its purge
    task, with its notifications as events.
  \<^item> \<open>Telemetry_System\<close>, \<open>Telemetry_Pipeline\<close>, \<open>Telemetry_Pipeline_Correct\<close> (\<^verbatim>\<open>module3/project3\<close>): the registry, the router, the fan-in that
    prefers emergencies, the processor. \<open>Router_Actor\<close>, \<open>Router_Actor_Correct\<close> (\<^verbatim>\<open>module3/part3/router_tagged_frame.rs\<close>): the smaller router,
    whose invariant has three parts, on delivery, on the control channel and on each feed. \<open>Aggregator\<close> (\<^verbatim>\<open>module3/part1/aggregator.rs\<close>):
    the actor refines a list of frames cut to the newest 1000. \<open>Radar\<close> (\<^verbatim>\<open>module4/part2/radar_detection.rs\<close>): datagrams and shutdown.
  \<^item> \<open>Arenas\<close> (\<^verbatim>\<open>module5/part3/manual_bumparena.rs\<close>, \<^verbatim>\<open>frame_batch.rs\<close>): the locale \<open>slab_allocator\<close> and both allocators; the arena of a
    thread hands out a pointer that is not to its room. \<open>Orbital\<close> (\<^verbatim>\<open>module2/part1/orbital_record.rs\<close>): which pairs are screened.
    \<open>Shared_Tables\<close> (\<^verbatim>\<open>module2/part2/session_table.rs\<close>, \<^verbatim>\<open>module2/part3/pipeline_metrics.rs\<close>, \<^verbatim>\<open>module6/part3/counting_alloc.rs\<close>): totals under every
    schedule, and snapshots that are torn. \<open>Session_Lifecycle\<close> (\<^verbatim>\<open>module1/part3/pass_session.rs\<close>, \<^verbatim>\<open>module1/part1/frame_validation.rs\<close>,
    \<^verbatim>\<open>module1/shutdown_coordinator.rs\<close>, \<^verbatim>\<open>module3/part3/tagged_frame.rs\<close>): how a pass ends, what shutdown leaves running, the two feeds.

  \<^bold>\<open>Bounds, fuel and hypotheses.\<close>
  \<^item> The clock scan takes its passes as fuel, six of them: the usage count is at most five and every full pass lowers it. The lemmas of
    \<open>Clock_Victim\<close> show that the fuel never runs out, which is that \<^verbatim>\<open>unreachable!\<close> is not reached.
  \<^item> Pins are counters of 32 bits; the theorems on pools ask that guards (and threads inside a call) stay below \<open>2 ^ 32\<close>.
  \<^item> The theorem on the LRU pool asks for fetches of pages that exist and for a file that works; a theorem with a run that fetches a page
    that does not exist and loses an update shows why. The demonstration asks for a file that works.
  \<^item> The demonstration is run for a number of turns; the theorem says how many turns of each thread are enough for it to return.
  \<^item> Liveness is stated as progress: a load ends within eight turns of its thread, some thread can always step, a retry loop ends
    after a given number of attempts, a notified purge task runs.

  \<^bold>\<open>Not modelled.\<close> The interleavings inside a fetch of the second pool, whose calls are steps; poisoned locks, since no closure under
  a lock panics; \<^verbatim>\<open>hit_rate\<close>, a quotient of floating point numbers; debug output and logging, and the state monitor that only logs;
  \<^verbatim>\<open>module1/chan.rs\<close>, a wrapper that hands polls on, with an unfinished function; \<^verbatim>\<open>module5/part3/allocs.rs\<close> and the benchmarks, which fill
  buffers for timing; \<^verbatim>\<open>bidirectional_handler\<close>, which nothing calls; the select with which the telemetry client drops its sending future; the HTTP stack, TLS, sockets and the runtime themselves; command line
  entry points, examples and tests. Weak memory: the operations on atomics are taken in one total order, and the lemmas on the
  relaxed counters of \<open>Shared_Tables\<close> use the order of each counter alone.
\<close>

end
